(* ===== verification/Canopy_Prelude.thy ===== *)
theory Canopy_Prelude
  imports Main "HOL-Library.Product_Lexorder" "HOL-Library.Sublist" "HOL-Library.AList"
begin

text \<open>
  What every component of the development shares: the result type of a fallible operation, the
  transaction that rolls back on an error, the table (a list of rows, as the ORM reads it) with
  its filtered update, and Python's \<open>min\<close>/\<open>max\<close> with a key, which return the FIRST extremal
  element.  A time is a number of microseconds since the epoch, so instants and durations are
  both integers, and a user is its primary key.
\<close>

type_synonym instant = int
type_synonym user_id = nat
type_synonym slug = string

abbreviation microseconds_per_second :: int where
  "microseconds_per_second \<equiv> 1000000"

abbreviation seconds :: "int \<Rightarrow> int" where
  "seconds n \<equiv> n * 1000000"

abbreviation days :: "int \<Rightarrow> int" where
  "days n \<equiv> n * 86400000000"

named_theorems table_simps \<open>rewriting filtered reads of updated tables\<close>
named_theorems result_simps \<open>rewriting results and transactions\<close>


lemma set_map_filter_Some: "x \<in> set (List.map_filter f xs) \<longleftrightarrow> (\<exists>y\<in>set xs. f y = Some x)"
  by (induction xs) (auto split: option.split)


text \<open>\<open>str.strip\<close> and \<open>str.lower\<close> on ASCII text.\<close>

definition is_space :: "char \<Rightarrow> bool" where
  "is_space c = (let n = of_char c :: nat in n = 32 \<or> (9 \<le> n \<and> n \<le> 13) \<or> (28 \<le> n \<and> n \<le> 31))"

definition py_strip :: "string \<Rightarrow> string" where
  "py_strip s = rev (dropWhile is_space (rev (dropWhile is_space s)))"

definition lower_char :: "char \<Rightarrow> char" where
  "lower_char c = (let n = of_char c :: nat in if 65 \<le> n \<and> n \<le> 90 then char_of (n + 32) else c)"

definition py_lower :: "string \<Rightarrow> string" where
  "py_lower s = map lower_char s"

lemma lower_char_idem [simp]: "lower_char (lower_char c) = lower_char c"
  by (auto simp: lower_char_def Let_def)

lemma is_space_lower [simp]: "is_space (lower_char c) = is_space c"
  by (auto simp: lower_char_def is_space_def Let_def)

lemma py_lower_idem [simp]: "py_lower (py_lower s) = py_lower s"
  by (simp add: py_lower_def)

lemma py_lower_append: "py_lower (s @ t) = py_lower s @ py_lower t"
  by (simp add: py_lower_def)

lemma dropWhile_fixed: "xs = [] \<or> \<not> P (hd xs) \<Longrightarrow> dropWhile P xs = xs"
  by (cases xs) auto

lemma dropWhile_hd: "dropWhile P xs = [] \<or> \<not> P (hd (dropWhile P xs))"
  by (induction xs) auto

lemma py_strip_idem [simp]: "py_strip (py_strip s) = py_strip s"
proof -
  define a where "a = dropWhile is_space s"
  define b where "b = dropWhile is_space (rev a)"
  have "dropWhile is_space (rev b) = rev b"
  proof (cases "b = []")
    case False
    obtain pre where "rev a = pre @ b" unfolding b_def by (metis takeWhile_dropWhile_id)
    then have "a = rev b @ rev pre" by (metis rev_append rev_rev_ident)
    then have "hd (rev b) = hd a" and "a \<noteq> []" using False by simp_all
    then have "\<not> is_space (hd (rev b))" using dropWhile_hd [of is_space s] a_def by metis
    then show ?thesis by (simp add: dropWhile_fixed)
  qed simp
  then show ?thesis by (simp add: py_strip_def a_def b_def)
qed

lemma py_strip_lower: "py_strip (py_lower s) = py_lower (py_strip s)"
  by (simp add: py_strip_def py_lower_def dropWhile_map rev_map comp_def)


section \<open>Results and transactions\<close>

definition is_ok :: "'e + 'a \<Rightarrow> bool" where
  "is_ok r = (case r of Inl _ \<Rightarrow> False | Inr _ \<Rightarrow> True)"

lemma is_ok_simps [simp, result_simps]:
  "is_ok (Inr a)" "\<not> is_ok (Inl e)"
  by (simp_all add: is_ok_def)

lemma is_ok_iff: "is_ok r \<longleftrightarrow> (\<exists>a. r = Inr a)"
  by (cases r) simp_all

text \<open>Running a list of checks, first failure wins (a loop whose body may raise).\<close>

fun try_map :: "('a \<Rightarrow> 'e + 'b) \<Rightarrow> 'a list \<Rightarrow> 'e + 'b list" where
  "try_map f [] = Inr []"
| "try_map f (x # xs) = (case f x of Inl e \<Rightarrow> Inl e
     | Inr y \<Rightarrow> (case try_map f xs of Inl e \<Rightarrow> Inl e | Inr ys \<Rightarrow> Inr (y # ys)))"

lemma try_map_Inr_iff:
  "try_map f xs = Inr ys \<longleftrightarrow> list_all2 (\<lambda>x y. f x = Inr y) xs ys"
proof (induction xs arbitrary: ys)
  case Nil
  then show ?case by auto
next
  case (Cons x xs)
  then show ?case
    by (cases ys; cases "f x"; cases "try_map f xs") auto
qed

lemma try_map_ok: "(\<And>x. x \<in> set xs \<Longrightarrow> f x = Inr (g x)) \<Longrightarrow> try_map f xs = Inr (map g xs)"
  by (induction xs) auto

lemma try_map_Inl: "try_map f xs = Inl e \<Longrightarrow> \<exists>x\<in>set xs. f x = Inl e"
  by (induction xs) (auto split: sum.splits)

text \<open>\<open>transaction.atomic()\<close>: an exception leaves the database as it was.\<close>

definition atomic :: "('s \<Rightarrow> ('e + 'a) \<times> 's) \<Rightarrow> 's \<Rightarrow> ('e + 'a) \<times> 's" where
  "atomic body s = (case body s of (Inl e, _) \<Rightarrow> (Inl e, s) | (Inr a, s') \<Rightarrow> (Inr a, s'))"

lemma atomic_Inl [result_simps]: "fst (atomic body s) = Inl e \<Longrightarrow> snd (atomic body s) = s"
  by (auto simp: atomic_def split: prod.splits sum.splits)

lemma atomic_Inr [result_simps]: "body s = (Inr a, s') \<Longrightarrow> atomic body s = (Inr a, s')"
  by (simp add: atomic_def)

lemma atomic_eq_Inr_iff [result_simps]: "atomic body s = (Inr a, s') \<longleftrightarrow> body s = (Inr a, s')"
  by (auto simp: atomic_def split: prod.splits sum.splits)

lemma atomic_preserves:
  assumes "I s" and "\<And>a s'. body s = (Inr a, s') \<Longrightarrow> I s'"
  shows "I (snd (atomic body s))"
  using assms by (auto simp: atomic_def split: prod.splits sum.splits)


section \<open>Tables\<close>

text \<open>\<open>Model.objects.filter(P).update(f)\<close>.\<close>

definition tbl_update :: "('r \<Rightarrow> bool) \<Rightarrow> ('r \<Rightarrow> 'r) \<Rightarrow> 'r list \<Rightarrow> 'r list" where
  "tbl_update P f t = map (\<lambda>r. if P r then f r else r) t"

lemma tbl_update_simps [simp, table_simps]:
  "length (tbl_update P f t) = length t"
  "tbl_update P f [] = []"
  "tbl_update P f (r # t) = (if P r then f r else r) # tbl_update P f t"
  "tbl_update P f (t @ t') = tbl_update P f t @ tbl_update P f t'"
  by (simp_all add: tbl_update_def)

lemma set_tbl_update [table_simps]:
  "set (tbl_update P f t) = (\<lambda>r. if P r then f r else r) ` set t"
  by (simp add: tbl_update_def)

lemma map_tbl_update [table_simps]:
  "(\<And>r. P r \<Longrightarrow> g (f r) = g r) \<Longrightarrow> map g (tbl_update P f t) = map g t"
  by (simp add: tbl_update_def)

lemma tbl_update_none [table_simps]: "(\<And>r. r \<in> set t \<Longrightarrow> \<not> P r) \<Longrightarrow> tbl_update P f t = t"
  by (induction t) auto

lemma filter_tbl_update_same:
  "(\<And>r. P r \<Longrightarrow> Q (f r) = Q r) \<Longrightarrow> filter Q (tbl_update P f t) = tbl_update P f (filter Q t)"
  by (induction t) auto

text \<open>\<open>.first()\<close> of a filtered read, and \<open>get\<close> by a unique key.\<close>

definition tbl_get :: "('r \<Rightarrow> 'k) \<Rightarrow> 'k \<Rightarrow> 'r list \<Rightarrow> 'r option" where
  "tbl_get key k t = find (\<lambda>r. key r = k) t"

lemma tbl_get_Some: "tbl_get key k t = Some r \<Longrightarrow> r \<in> set t \<and> key r = k"
  by (auto simp: tbl_get_def find_Some_iff)

lemma tbl_get_None_iff: "tbl_get key k t = None \<longleftrightarrow> k \<notin> key ` set t"
  by (auto simp: tbl_get_def find_None_iff)

lemma tbl_get_Nil [simp, table_simps]: "tbl_get key k [] = None"
  by (simp add: tbl_get_def)

lemma tbl_get_Cons [simp, table_simps]:
  "tbl_get key k (r # t) = (if key r = k then Some r else tbl_get key k t)"
  by (simp add: tbl_get_def)

lemma tbl_get_append [table_simps]:
  "tbl_get key k (t @ t') = (case tbl_get key k t of None \<Rightarrow> tbl_get key k t' | Some r \<Rightarrow> Some r)"
  by (induction t) auto

lemma tbl_get_distinct:
  "distinct (map key t) \<Longrightarrow> r \<in> set t \<Longrightarrow> tbl_get key (key r) t = Some r"
  by (induction t) (auto simp: rev_image_eqI)

lemma tbl_get_tbl_update [table_simps]:
  assumes "\<And>r. P r \<Longrightarrow> key (f r) = key r"
  shows "tbl_get key k (tbl_update P f t) = map_option (\<lambda>r. if P r then f r else r) (tbl_get key k t)"
  by (induction t) (use assms in auto)

text \<open>A compare-and-set update of one row, and how many rows it changed (0 or 1 on a key).\<close>

definition tbl_cas :: "('r \<Rightarrow> bool) \<Rightarrow> ('r \<Rightarrow> 'r) \<Rightarrow> 'r list \<Rightarrow> nat \<times> 'r list" where
  "tbl_cas P f t = (length (filter P t), tbl_update P f t)"

lemma tbl_cas_zero: "fst (tbl_cas P f t) = 0 \<Longrightarrow> snd (tbl_cas P f t) = t"
  by (auto simp: tbl_cas_def filter_empty_conv intro!: tbl_update_none)


section \<open>The first extremal element\<close>

text \<open>\<open>min(xs, key=...)\<close> and \<open>max(xs, key=..., default=None)\<close>: the first element whose key is
  smallest (largest).\<close>

fun first_min :: "('a \<Rightarrow> 'k::linorder) \<Rightarrow> 'a list \<Rightarrow> 'a option" where
  "first_min key [] = None"
| "first_min key (x # xs) = (case first_min key xs of None \<Rightarrow> Some x
     | Some y \<Rightarrow> if key y < key x then Some y else Some x)"

fun first_max :: "('a \<Rightarrow> 'k::linorder) \<Rightarrow> 'a list \<Rightarrow> 'a option" where
  "first_max key [] = None"
| "first_max key (x # xs) = (case first_max key xs of None \<Rightarrow> Some x
     | Some y \<Rightarrow> if key x < key y then Some y else Some x)"

lemma first_min_None [simp]: "first_min key xs = None \<longleftrightarrow> xs = []"
  by (cases xs) (auto split: option.splits)

lemma first_max_None [simp]: "first_max key xs = None \<longleftrightarrow> xs = []"
  by (cases xs) (auto split: option.splits)

lemma first_min_Some: "first_min key xs = Some m \<Longrightarrow> m \<in> set xs \<and> (\<forall>x\<in>set xs. key m \<le> key x)"
proof (induction xs arbitrary: m)
  case Nil
  then show ?case by simp
next
  case (Cons x xs)
  show ?case
  proof (cases "first_min key xs")
    case None
    with Cons.prems show ?thesis by simp
  next
    case (Some y)
    with Cons.IH [of y] Cons.prems show ?thesis by (auto split: if_splits)
  qed
qed

lemma first_max_Some: "first_max key xs = Some m \<Longrightarrow> m \<in> set xs \<and> (\<forall>x\<in>set xs. key x \<le> key m)"
proof (induction xs arbitrary: m)
  case Nil
  then show ?case by simp
next
  case (Cons x xs)
  show ?case
  proof (cases "first_max key xs")
    case None
    with Cons.prems show ?thesis by simp
  next
    case (Some y)
    with Cons.IH [of y] Cons.prems show ?thesis by (auto split: if_splits)
  qed
qed

lemma sort_key_hd_min:
  assumes "xs \<noteq> []"
  shows "hd (sort_key key xs) \<in> set xs \<and> (\<forall>x\<in>set xs. key (hd (sort_key key xs)) \<le> key x)"
proof (cases "sort_key key xs")
  case Nil
  then have "set xs = {}" by (metis set_sort set_empty)
  with assms show ?thesis by simp
next
  case (Cons y ys)
  have "sorted (map key (y # ys))" using Cons by (metis sorted_sort_key)
  then have least: "\<forall>x\<in>set (y # ys). key y \<le> key x" by auto
  have "set (y # ys) = set xs" using Cons by (metis set_sort)
  with least show ?thesis using Cons by (metis list.sel(1) list.set_intros(1))
qed


section \<open>Choosing one row of several\<close>

text \<open>The contract of every ``which rule wins'' choice of the program: out of a list of candidates
  the choice returns a member whose key is least.  When keys tell candidates apart the choice does
  not depend on the order the rows were read in.\<close>

locale least_choice =
  fixes key :: "'a \<Rightarrow> 'k::linorder"
    and pick :: "'a list \<Rightarrow> 'a option"
  assumes pick_none: "pick xs = None \<longleftrightarrow> xs = []"
    and pick_least: "pick xs = Some m \<Longrightarrow> m \<in> set xs \<and> (\<forall>x\<in>set xs. key m \<le> key x)"
begin

lemma pick_in: "pick xs = Some m \<Longrightarrow> m \<in> set xs"
  using pick_least by blast

lemma pick_some: "x \<in> set xs \<Longrightarrow> \<exists>m. pick xs = Some m"
  using pick_none [of xs] by (cases "pick xs") auto

lemma pick_unique:
  assumes "inj_on key (set xs)" and "set xs = set ys"
  shows "pick xs = pick ys"
proof (cases "pick xs")
  case None
  then have "ys = []" using pick_none [of xs] assms by simp
  with None show ?thesis using pick_none [of ys] by simp
next
  case (Some m)
  then have "ys \<noteq> []" using assms pick_in by fastforce
  then obtain n where n: "pick ys = Some n" using pick_none [of ys] by (cases "pick ys") auto
  have "key m = key n"
    using pick_least [OF Some] pick_least [OF n] assms(2) by (auto intro: antisym)
  then have "m = n" using assms pick_in [OF Some] pick_in [OF n] by (auto dest: inj_onD)
  with Some n show ?thesis by simp
qed

lemma pick_single_least:
  assumes "x \<in> set xs" and "\<forall>y\<in>set xs. y \<noteq> x \<longrightarrow> key x < key y"
  shows "pick xs = Some x"
proof -
  obtain m where m: "pick xs = Some m" using pick_some [OF assms(1)] by blast
  then have "key m \<le> key x" using pick_least assms(1) by blast
  then have "m = x" using assms(2) pick_in [OF m] by (metis leD)
  with m show ?thesis by simp
qed

end

interpretation fmin: least_choice key "first_min key" for key :: "'a \<Rightarrow> 'k::linorder"
  by unfold_locales (auto dest: first_min_Some)

interpretation srt: least_choice key "\<lambda>xs. if xs = [] then None else Some (hd (sort_key key xs))"
  for key :: "'a \<Rightarrow> 'k::linorder"
  by unfold_locales (use sort_key_hd_min in \<open>auto split: if_splits\<close>)


section \<open>Life cycles\<close>

text \<open>A component whose rows end: what is seen of a row, the views that are final, and a step
  relation that never changes a final view.  Whatever sequence of steps runs, what has ended stays
  as it is.\<close>

locale lifecycle =
  fixes step :: "'s \<Rightarrow> 's \<Rightarrow> bool"
    and view :: "'s \<Rightarrow> 'v"
    and final :: "'v \<Rightarrow> bool"
  assumes step_final: "step s s' \<Longrightarrow> final (view s) \<Longrightarrow> view s' = view s"
begin

lemma run_final: "step\<^sup>*\<^sup>* s s' \<Longrightarrow> final (view s) \<Longrightarrow> view s' = view s"
  by (induction rule: rtranclp_induct) (auto simp: step_final)

lemma decided_once: "step\<^sup>*\<^sup>* s s' \<Longrightarrow> step\<^sup>*\<^sup>* s' s'' \<Longrightarrow> final (view s') \<Longrightarrow> view s'' = view s'"
  by (rule run_final)

end


section \<open>Decimal numbers and Python dictionaries\<close>

fun nat_digits :: "nat \<Rightarrow> string" where
  "nat_digits n = (if n < 10 then [char_of (48 + n)] else nat_digits (n div 10) @ [char_of (48 + n mod 10)])"

definition int_str :: "int \<Rightarrow> string" where
  "int_str i = (if i < 0 then ''-'' @ nat_digits (nat (- i)) else nat_digits (nat i))"

declare nat_digits.simps [simp del]

text \<open>\<open>{**a, **b}\<close> on dictionaries kept as association lists.\<close>

definition dict_merge :: "('k \<times> 'v) list \<Rightarrow> ('k \<times> 'v) list \<Rightarrow> ('k \<times> 'v) list" where
  "dict_merge a b = fold (\<lambda>(k, v). AList.update k v) b a"

lemma dict_merge_Nil [simp]: "dict_merge a [] = a"
  by (simp add: dict_merge_def)

lemma map_of_dict_merge: "map_of (dict_merge a b) k = (case map_of (rev b) k of None \<Rightarrow> map_of a k | Some v \<Rightarrow> Some v)"
proof (induction b rule: rev_induct)
  case (snoc kv b)
  obtain k' v' where "kv = (k', v')" by (cases kv)
  with snoc show ?case by (simp add: dict_merge_def AList.update_conv' split: option.split)
qed (simp add: dict_merge_def)

lemma dict_merge_keys: "fst ` set (dict_merge a b) = fst ` set a \<union> fst ` set b"
proof (induction b rule: rev_induct)
  case (snoc kv b)
  obtain k' v' where "kv = (k', v')" by (cases kv)
  with snoc show ?case by (simp add: dict_merge_def dom_map_of_conv_image_fst [symmetric] AList.update_conv')
qed (simp add: dict_merge_def)

end
