(* ===== verification/Role_Sets.thy ===== *)
theory Role_Sets
  imports Canopy_Prelude
begin

text \<open>
  \<open>apps/common/rolesets.py\<close>: the one engine that turns a table of named roles into permission
  sets.  A permission is a string; \<open>scope:name\<close> is a scoped one and \<open>scope:*\<close> a
  wildcard.  Sets are kept as HOL sets, a Python mapping as the list of its items in insertion
  order, and every \<open>UnknownPermission\<close>, \<open>ValueError\<close> and \<open>KeyError\<close> is an error value.
\<close>

datatype roleset_error = UnknownPermission string | BadOrder | UnknownRole string

record roleset =
  rs_permissions :: "string set"
  rs_scopes :: "string set"
  rs_implies :: "(string \<times> string list) list"
  rs_roles :: "(string \<times> string set) list"
  rs_order :: "string list"
  rs_rank :: "string \<rightharpoonup> nat"

text \<open>\<open>permission.partition(":")\<close>: what is before the first colon, whether there is one, and
  what is after it.\<close>

definition partition_colon :: "string \<Rightarrow> string \<times> bool \<times> string" where
  "partition_colon s = (takeWhile (\<lambda>c. c \<noteq> CHR '':'') s, CHR '':'' \<in> set s,
     drop 1 (dropWhile (\<lambda>c. c \<noteq> CHR '':'') s))"

definition rs_check :: "string set \<Rightarrow> string set \<Rightarrow> bool \<Rightarrow> string \<Rightarrow> roleset_error + string" where
  "rs_check permissions scopes wildcard permission =
     (if permission \<in> permissions then Inr permission
      else (case partition_colon permission of (scope, sep, rest) \<Rightarrow>
        if sep \<and> scope \<in> scopes \<and> rest \<noteq> '''' \<and> (wildcard \<or> rest \<noteq> ''*'')
        then Inr permission else Inl (UnknownPermission permission)))"

definition deps_of :: "(string \<times> string list) list \<Rightarrow> string \<Rightarrow> string list" where
  "deps_of imp p = (case map_of imp p of None \<Rightarrow> [] | Some ds \<Rightarrow> ds)"

text \<open>The worklist of \<open>close\<close>: pop from the end, add, push what it implies.\<close>

function close_loop :: "(string \<times> string list) list \<Rightarrow> string list \<Rightarrow> string set \<Rightarrow> string set" where
  "close_loop imp todo out =
     (if todo = [] then out
      else let p = last todo; rest = butlast todo in
        if p \<notin> out then close_loop imp (rest @ deps_of imp p) (insert p out)
        else close_loop imp rest out)"
  by pat_completeness auto
termination
proof (relation "measures [\<lambda>(imp, todo, out). card (fst ` set imp - out),
                           \<lambda>(imp, todo, out). length todo]")
  show "wf (measures [\<lambda>(imp :: (string \<times> string list) list, todo :: string list, out).
      card (fst ` set imp - out), \<lambda>(imp, todo, out). length todo])" by simp
next
  fix imp :: "(string \<times> string list) list" and todo :: "string list" and out p rest
  assume ne: "todo \<noteq> []" and p: "p = last todo" and rest: "rest = butlast todo" and new: "p \<notin> out"
  let ?keys = "fst ` set imp"
  show "((imp, rest @ deps_of imp p, insert p out), imp, todo, out)
      \<in> measures [\<lambda>(imp, todo, out). card (fst ` set imp - out),
                  \<lambda>(imp, todo, out). length todo]"
  proof (cases "p \<in> ?keys")
    case True
    have "card (?keys - insert p out) < card (?keys - out)"
      by (rule psubset_card_mono) (use True new in auto)
    then show ?thesis by simp
  next
    case False
    then have "map_of imp p = None" by (simp add: map_of_eq_None_iff)
    then have "deps_of imp p = []" by (simp add: deps_of_def)
    moreover have "?keys - insert p out = ?keys - out" using False by auto
    ultimately show ?thesis using ne rest by simp
  qed
qed auto

declare close_loop.simps [simp del]

definition rs_close_in :: "string set \<Rightarrow> string set \<Rightarrow> (string \<times> string list) list
    \<Rightarrow> string list \<Rightarrow> roleset_error + string set" where
  "rs_close_in permissions scopes imp ps =
     (case try_map (rs_check permissions scopes True) ps of Inl e \<Rightarrow> Inl e
      | Inr todo \<Rightarrow> Inr (close_loop imp todo {}))"

text \<open>\<open>RoleSet.__init__\<close>: check the implication rule, close every role, settle the order.\<close>

definition rank_map :: "string list \<Rightarrow> string \<rightharpoonup> nat" where
  "rank_map order = map_of (rev (zip order [1..<Suc (length order)]))"

definition roleset_new :: "string list \<Rightarrow> (string \<times> string list) list \<Rightarrow> (string \<times> string list) list
    \<Rightarrow> string list \<Rightarrow> string list option \<Rightarrow> roleset_error + roleset" where
  "roleset_new permissions roles imp scopes order =
     (let perms = set permissions; scs = set scopes in
      case try_map (rs_check perms scs True) (concat (map (\<lambda>(p, deps). p # deps) imp)) of
        Inl e \<Rightarrow> Inl e
      | Inr _ \<Rightarrow>
        (case try_map (\<lambda>(role, ps). case rs_close_in perms scs imp ps of
                Inl e \<Rightarrow> Inl e | Inr c \<Rightarrow> Inr (role, c)) roles of
           Inl e \<Rightarrow> Inl e
         | Inr closed \<Rightarrow>
           (let ord = (case order of Some o' \<Rightarrow> o'
                       | None \<Rightarrow> map fst (sort_key (\<lambda>(r, c). card c) closed)) in
            if set ord \<noteq> fst ` set closed then Inl BadOrder
            else Inr \<lparr> rs_permissions = perms, rs_scopes = scs, rs_implies = imp,
                       rs_roles = closed, rs_order = ord, rs_rank = rank_map ord \<rparr>)))"

text \<open>\<open>RoleSet.ladder\<close>: each role holds what the one below holds, plus its own step.\<close>

fun ladder_roles :: "string list \<Rightarrow> (string \<times> string list) list \<Rightarrow> (string \<times> string list) list" where
  "ladder_roles held [] = []"
| "ladder_roles held ((role, added) # steps) =
     (role, held @ added) # ladder_roles (held @ added) steps"

text \<open>The items of the dict a loop of assignments builds: a name set twice keeps its first place and its last
  value.\<close>

definition dict_set :: "string \<times> string list \<Rightarrow> (string \<times> string list) list \<Rightarrow> (string \<times> string list) list" where
  "dict_set = (\<lambda>(k, v) d. if k \<in> fst ` set d then map (\<lambda>(j, w). (j, if j = k then v else w)) d else d @ [(k, v)])"

definition dict_of :: "(string \<times> string list) list \<Rightarrow> (string \<times> string list) list" where
  "dict_of items = fold dict_set items []"

definition roleset_ladder :: "string list \<Rightarrow> (string \<times> string list) list
    \<Rightarrow> (string \<times> string list) list \<Rightarrow> string list \<Rightarrow> roleset_error + roleset" where
  "roleset_ladder permissions steps imp scopes =
     roleset_new permissions (dict_of (ladder_roles [] steps)) imp scopes (Some (map fst steps))"

definition rs_close :: "roleset \<Rightarrow> string list \<Rightarrow> roleset_error + string set" where
  "rs_close rs ps = rs_close_in (rs_permissions rs) (rs_scopes rs) (rs_implies rs) ps"

definition rs_is_role :: "roleset \<Rightarrow> string option \<Rightarrow> bool" where
  "rs_is_role rs role = (case role of None \<Rightarrow> False | Some r \<Rightarrow> r \<in> fst ` set (rs_roles rs))"

definition role_or_empty :: "string option \<Rightarrow> string" where
  "role_or_empty role = (case role of None \<Rightarrow> '''' | Some r \<Rightarrow> r)"

definition rs_permissions_of :: "roleset \<Rightarrow> string option \<Rightarrow> string set" where
  "rs_permissions_of rs role =
     (case map_of (rs_roles rs) (role_or_empty role) of None \<Rightarrow> {} | Some ps \<Rightarrow> ps)"

definition rs_holds :: "roleset \<Rightarrow> string set \<Rightarrow> string \<Rightarrow> roleset_error + bool" where
  "rs_holds rs held permission =
     (case rs_check (rs_permissions rs) (rs_scopes rs) False permission of Inl e \<Rightarrow> Inl e
      | Inr _ \<Rightarrow> if permission \<in> held then Inr True
        else (case partition_colon permission of (scope, sep, _) \<Rightarrow>
          Inr (sep \<and> scope @ '':*'' \<in> held)))"

definition rs_allows :: "roleset \<Rightarrow> string option \<Rightarrow> string \<Rightarrow> roleset_error + bool" where
  "rs_allows rs role permission = rs_holds rs (rs_permissions_of rs role) permission"

definition rs_rank_of :: "roleset \<Rightarrow> string option \<Rightarrow> nat" where
  "rs_rank_of rs role = (case rs_rank rs (role_or_empty role) of None \<Rightarrow> 0 | Some n \<Rightarrow> n)"

definition rs_at_least :: "roleset \<Rightarrow> string option \<Rightarrow> string \<Rightarrow> roleset_error + bool" where
  "rs_at_least rs role floor = (case rs_rank rs floor of None \<Rightarrow> Inl (UnknownRole floor)
     | Some n \<Rightarrow> Inr (rs_rank_of rs role \<ge> n))"

fun lowest_in :: "roleset \<Rightarrow> string list \<Rightarrow> string \<Rightarrow> roleset_error + string option" where
  "lowest_in rs [] permission = Inr None"
| "lowest_in rs (r # ord) permission = (case rs_allows rs (Some r) permission of Inl e \<Rightarrow> Inl e
     | Inr True \<Rightarrow> Inr (Some r) | Inr False \<Rightarrow> lowest_in rs ord permission)"

definition rs_lowest_with :: "roleset \<Rightarrow> string \<Rightarrow> roleset_error + string option" where
  "rs_lowest_with rs permission = lowest_in rs (rs_order rs) permission"

definition rs_strongest :: "roleset \<Rightarrow> string option list \<Rightarrow> string option" where
  "rs_strongest rs roles =
     first_max (\<lambda>r. rs_rank_of rs (Some r))
       (filter (\<lambda>r. rs_rank rs r \<noteq> None) (concat (map (\<lambda>r. case r of None \<Rightarrow> [] | Some x \<Rightarrow> [x]) roles)))"


section \<open>Closing under the implication rule\<close>

text \<open>The rule as a relation, and the specification of \<open>close\<close>: its reflexive-transitive image.\<close>

definition implies_rel :: "(string \<times> string list) list \<Rightarrow> (string \<times> string) set" where
  "implies_rel imp = {(p, d). d \<in> set (deps_of imp p)}"

lemma close_loop_sound:
  "close_loop imp todo out \<subseteq> out \<union> (implies_rel imp)\<^sup>* `` set todo"
proof (induction imp todo out rule: close_loop.induct)
  case (1 imp todo out)
  show ?case
  proof (cases "todo = []")
    case True
    then show ?thesis by (auto simp: close_loop.simps [of imp "[]"])
  next
    case False
    define p rest where "p = last todo" and "rest = butlast todo"
    have todo: "set todo = insert p (set rest)"
      using False by (metis append_butlast_last_id list.simps(15) p_def rest_def rotate1.simps(2) set_rotate1)
    show ?thesis
    proof (cases "p \<in> out")
      case True
      then show ?thesis
        using "1.IH"(2) [OF False p_def rest_def] False todo
        by (auto simp: close_loop.simps [of imp todo] p_def [symmetric] rest_def [symmetric])
    next
      case new: False
      have step: "(implies_rel imp)\<^sup>* `` set (deps_of imp p)
          \<subseteq> (implies_rel imp)\<^sup>* `` {p}"
        by (auto simp: implies_rel_def intro: converse_rtrancl_into_rtrancl)
      have split: "(implies_rel imp)\<^sup>* `` set todo
          = (implies_rel imp)\<^sup>* `` {p} \<union> (implies_rel imp)\<^sup>* `` set rest"
        using todo by auto
      have "close_loop imp todo out = close_loop imp (rest @ deps_of imp p) (insert p out)"
        using False new
        by (simp add: close_loop.simps [of imp todo] p_def [symmetric] rest_def [symmetric])
      moreover have "p \<in> (implies_rel imp)\<^sup>* `` {p}" by auto
      ultimately show ?thesis
        using "1.IH"(1) [OF False p_def rest_def new] step
        unfolding split by (auto simp: Image_Un)
    qed
  qed
qed

text \<open>The other inclusion: whatever has left the worklist has had its dependencies pushed.\<close>

definition close_inv :: "(string \<times> string list) list \<Rightarrow> string list \<Rightarrow> string set \<Rightarrow> bool" where
  "close_inv imp todo out \<longleftrightarrow> (\<forall>p\<in>out. set (deps_of imp p) \<subseteq> out \<union> set todo)"

lemma close_loop_complete:
  "close_inv imp todo out \<Longrightarrow>
     out \<union> set todo \<subseteq> close_loop imp todo out
     \<and> (\<forall>p\<in>close_loop imp todo out. set (deps_of imp p) \<subseteq> close_loop imp todo out)"
proof (induction imp todo out rule: close_loop.induct)
  case (1 imp todo out)
  show ?case
  proof (cases "todo = []")
    case True
    then show ?thesis using "1.prems" by (auto simp: close_loop.simps [of imp "[]"] close_inv_def)
  next
    case False
    define p rest where "p = last todo" and "rest = butlast todo"
    have todo: "set todo = insert p (set rest)"
      using False by (metis append_butlast_last_id list.simps(15) p_def rest_def rotate1.simps(2) set_rotate1)
    show ?thesis
    proof (cases "p \<in> out")
      case True
      then have "close_inv imp rest out" using "1.prems" todo by (auto simp: close_inv_def)
      then show ?thesis
        using "1.IH"(2) [OF False p_def rest_def] False True todo
        by (auto simp: close_loop.simps [of imp todo] p_def [symmetric] rest_def [symmetric])
    next
      case new: False
      have "close_inv imp (rest @ deps_of imp p) (insert p out)"
        using "1.prems" todo by (auto simp: close_inv_def)
      then show ?thesis
        using "1.IH"(1) [OF False p_def rest_def new] False new todo
        by (auto simp: close_loop.simps [of imp todo] p_def [symmetric] rest_def [symmetric])
    qed
  qed
qed

lemma close_loop_closure: "close_loop imp todo {} = (implies_rel imp)\<^sup>* `` set todo"
proof
  show "close_loop imp todo {} \<subseteq> (implies_rel imp)\<^sup>* `` set todo"
    using close_loop_sound [of imp todo "{}"] by simp
  have inv: "close_inv imp todo {}" by (simp add: close_inv_def)
  note closed = close_loop_complete [OF inv]
  show "(implies_rel imp)\<^sup>* `` set todo \<subseteq> close_loop imp todo {}"
  proof
    fix q assume "q \<in> (implies_rel imp)\<^sup>* `` set todo"
    then obtain p where "p \<in> set todo" and "(p, q) \<in> (implies_rel imp)\<^sup>*" by blast
    from this(2, 1) show "q \<in> close_loop imp todo {}"
      by (induction rule: rtrancl_induct) (use closed in \<open>auto simp: implies_rel_def\<close>)
  qed
qed

lemma rs_close_in_eq:
  "rs_close_in permissions scopes imp ps = Inr c \<Longrightarrow>
     c = (implies_rel imp)\<^sup>* `` set ps \<and> (\<forall>p\<in>set ps. rs_check permissions scopes True p = Inr p)"
proof -
  assume a: "rs_close_in permissions scopes imp ps = Inr c"
  then obtain todo where t: "try_map (rs_check permissions scopes True) ps = Inr todo"
    and c: "c = close_loop imp todo {}"
    by (auto simp: rs_close_in_def split: sum.splits)
  from t have all: "list_all2 (\<lambda>x y. rs_check permissions scopes True x = Inr y) ps todo"
    by (simp add: try_map_Inr_iff)
  have same: "rs_check permissions scopes True x = Inr y \<Longrightarrow> y = x" for x y
    by (auto simp: rs_check_def split: prod.splits if_splits)
  have "list_all2 (=) ps todo" using all by (rule list_all2_mono) (use same in blast)
  then have "todo = ps" by (simp add: list.rel_eq)
  moreover have "\<forall>p\<in>set ps. rs_check permissions scopes True p = Inr p"
    using all \<open>todo = ps\<close> by (auto simp: list_all2_conv_all_nth in_set_conv_nth)
  ultimately show ?thesis using c close_loop_closure by simp
qed

lemma implies_rel_idem:
  "(implies_rel imp)\<^sup>* `` ((implies_rel imp)\<^sup>* `` A) = (implies_rel imp)\<^sup>* `` A"
  by (auto intro: rtrancl_trans)

lemma rs_check_same: "rs_check permissions scopes w p = Inr q \<Longrightarrow> q = p"
  by (auto simp: rs_check_def split: prod.splits if_splits)

lemma rs_close_in_known:
  assumes "\<And>p. p \<in> set ps \<Longrightarrow> rs_check permissions scopes True p = Inr p"
  shows "rs_close_in permissions scopes imp ps = Inr ((implies_rel imp)\<^sup>* `` set ps)"
proof -
  have "try_map (rs_check permissions scopes True) ps = Inr (map (\<lambda>p. p) ps)"
    by (rule try_map_ok) (rule assms)
  then show ?thesis by (simp add: rs_close_in_def close_loop_closure)
qed


section \<open>Ladders\<close>

lemma ladder_roles_length [simp]: "length (ladder_roles held steps) = length steps"
  by (induction held steps rule: ladder_roles.induct) auto

lemma ladder_roles_names [simp]: "map fst (ladder_roles held steps) = map fst steps"
  by (induction held steps rule: ladder_roles.induct) auto

lemma dict_of_distinct: "distinct (map fst xs) \<Longrightarrow> dict_of xs = xs"
proof -
  have "distinct (map fst (d @ xs)) \<Longrightarrow> fold dict_set xs d = d @ xs" for d
    by (induction xs arbitrary: d) (auto simp: dict_set_def)
  from this [of "[]"] show "distinct (map fst xs) \<Longrightarrow> dict_of xs = xs" by (simp add: dict_of_def)
qed

lemma roleset_ladder_eq:
  assumes "distinct (map fst steps)"
  shows "roleset_ladder perms steps imp scopes = roleset_new perms (ladder_roles [] steps) imp scopes (Some (map fst steps))"
  using assms by (simp add: roleset_ladder_def dict_of_distinct)

lemma ladder_roles_nth:
  "i < length steps \<Longrightarrow>
     ladder_roles held steps ! i = (fst (steps ! i), held @ concat (map snd (take (Suc i) steps)))"
proof (induction held steps arbitrary: i rule: ladder_roles.induct)
  case (2 held role added steps)
  then show ?case by (cases i) auto
qed simp

lemma ladder_roles_mono:
  assumes "i \<le> j" and "j < length steps"
  shows "set (snd (ladder_roles held steps ! i)) \<subseteq> set (snd (ladder_roles held steps ! j))"
proof -
  have "set (take (Suc i) steps) \<subseteq> set (take (Suc j) steps)"
    using assms(1) by (simp add: set_take_subset_set_take)
  then show ?thesis using assms by (auto simp: ladder_roles_nth)
qed

text \<open>What a successfully built role set satisfies: its roles are the closures of the table, in
  the table's order, and its rank is the position in the order.\<close>

lemma roleset_new_ok:
  assumes "roleset_new perms roles imp scopes order = Inr rs"
  shows "rs_permissions rs = set perms" "rs_scopes rs = set scopes" "rs_implies rs = imp"
    and "map fst (rs_roles rs) = map fst roles"
    and "i < length roles \<Longrightarrow> snd (rs_roles rs ! i) = (implies_rel imp)\<^sup>* `` set (snd (roles ! i))"
    and "set (rs_order rs) = fst ` set roles"
    and "rs_rank rs = rank_map (rs_order rs)"
    and "order = Some ord \<Longrightarrow> rs_order rs = ord"
proof -
  let ?f = "\<lambda>(role, ps). case rs_close_in (set perms) (set scopes) imp ps of
                Inl e \<Rightarrow> Inl e | Inr c \<Rightarrow> Inr (role, c)"
  from assms obtain closed where closed: "try_map ?f roles = Inr closed"
    and rs: "rs_permissions rs = set perms" "rs_scopes rs = set scopes" "rs_implies rs = imp"
      "rs_roles rs = closed" "set (rs_order rs) = fst ` set closed"
      "rs_rank rs = rank_map (rs_order rs)" "order = Some ord \<Longrightarrow> rs_order rs = ord"
    by (auto simp: roleset_new_def Let_def split: sum.splits if_splits option.splits)
  have all: "list_all2 (\<lambda>x y. ?f x = Inr y) roles closed"
    using closed by (simp only: try_map_Inr_iff)
  have elem: "fst y = fst x \<and> snd y = (implies_rel imp)\<^sup>* `` set (snd x)"
    if f: "?f x = Inr y" for x :: "string \<times> string list" and y
  proof -
    obtain c where c: "rs_close_in (set perms) (set scopes) imp (snd x) = Inr c"
      and y: "y = (fst x, c)"
      using f by (cases x) (simp split: sum.splits)
    show ?thesis using rs_close_in_eq [OF c] y by simp
  qed
  have len: "length closed = length roles" using all by (simp add: list_all2_lengthD)
  have nth: "i < length roles \<Longrightarrow> fst (closed ! i) = fst (roles ! i)
      \<and> snd (closed ! i) = (implies_rel imp)\<^sup>* `` set (snd (roles ! i))" for i
    using all elem by (simp add: list_all2_conv_all_nth)
  have names: "map fst closed = map fst roles"
    using nth len by (intro nth_equalityI) auto
  then have "fst ` set closed = fst ` set roles" by (metis set_map)
  then show "set (rs_order rs) = fst ` set roles" using rs(5) by simp
  show "map fst (rs_roles rs) = map fst roles" using names rs(4) by simp
  show "i < length roles \<Longrightarrow> snd (rs_roles rs ! i) = (implies_rel imp)\<^sup>* `` set (snd (roles ! i))"
    using nth rs(4) by simp
qed (use assms in \<open>auto simp: roleset_new_def Let_def split: sum.splits if_splits option.splits\<close>)

lemma rank_map_nth:
  assumes "distinct order" and "i < length order"
  shows "rank_map order (order ! i) = Some (Suc i)"
proof -
  let ?z = "zip order [1..<Suc (length order)]"
  have "(order ! i, Suc i) \<in> set ?z"
    using assms(2) by (auto simp: set_zip simp del: upt_Suc intro!: exI [of _ i])
  moreover have "distinct (map fst (rev ?z))" using assms(1) by (simp add: rev_map [symmetric])
  ultimately show ?thesis unfolding rank_map_def by (intro map_of_is_SomeI) auto
qed

lemma rank_map_none: "r \<notin> set order \<Longrightarrow> rank_map order r = None"
  by (auto simp: rank_map_def map_of_eq_None_iff dest: set_zip_leftD)

lemma rank_map_Some_iff:
  assumes "distinct order"
  shows "rank_map order r = Some n \<longleftrightarrow> (\<exists>i<length order. order ! i = r \<and> n = Suc i)"
proof (cases "r \<in> set order")
  case True
  then obtain i where "i < length order" "order ! i = r" by (auto simp: in_set_conv_nth)
  then show ?thesis
    using rank_map_nth [OF assms] assms by (auto simp: nth_eq_iff_index_eq)
next
  case False
  then show ?thesis by (auto simp: rank_map_none)
qed

text \<open>The shape of a ladder that was built: a role named by the table has the rank of its place,
  any other name has rank 0 and holds nothing.\<close>

lemma ladder_rank:
  assumes "roleset_ladder perms steps imp scopes = Inr rs" and "distinct (map fst steps)"
  obtains (known) i where "i < length steps" "fst (steps ! i) = role_or_empty r"
      "rs_rank_of rs r = Suc i" "rs_permissions_of rs r
        = (implies_rel imp)\<^sup>* `` set (snd (ladder_roles [] steps ! i))"
    | (unknown) "role_or_empty r \<notin> fst ` set steps" "rs_rank_of rs r = 0"
        "rs_permissions_of rs r = {}"
proof -
  note new = roleset_new_ok [OF assms(1) [unfolded roleset_ladder_eq [OF assms(2)]]]
  have order: "rs_order rs = map fst steps" using new(8) by simp
  have names: "map fst (rs_roles rs) = map fst steps" using new(4) by simp
  then have len: "length (rs_roles rs) = length steps" by (metis length_map)
  show ?thesis
  proof (cases "role_or_empty r \<in> fst ` set steps")
    case True
    then obtain i where i: "i < length steps" "fst (steps ! i) = role_or_empty r"
      by (auto simp: in_set_conv_nth)
    have "rs_rank_of rs r = Suc i"
      using rank_map_nth [of "map fst steps" i] i assms(2)
      by (simp add: rs_rank_of_def new(7) order)
    moreover have "rs_roles rs ! i \<in> set (rs_roles rs)" using i len by simp
    then have "map_of (rs_roles rs) (fst (rs_roles rs ! i)) = Some (snd (rs_roles rs ! i))"
      using names assms(2) by (intro map_of_is_SomeI) auto
    moreover have "fst (rs_roles rs ! i) = role_or_empty r"
      using names i len by (metis nth_map)
    moreover have "snd (rs_roles rs ! i) = (implies_rel imp)\<^sup>* `` set (snd (ladder_roles [] steps ! i))"
      using new(5) [of i] i by simp
    ultimately show ?thesis using known [OF i] by (simp add: rs_permissions_of_def)
  next
    case False
    then have "role_or_empty r \<notin> set (map fst steps)" by auto
    then have "rs_rank_of rs r = 0" by (simp add: rs_rank_of_def new(7) order rank_map_none)
    moreover have "map_of (rs_roles rs) (role_or_empty r) = None"
      using False names by (metis map_of_eq_None_iff set_map)
    then have "rs_permissions_of rs r = {}" by (simp add: rs_permissions_of_def)
    ultimately show ?thesis using unknown False by blast
  qed
qed

lemma ladder_permissions_mono:
  assumes "roleset_ladder perms steps imp scopes = Inr rs" and "distinct (map fst steps)"
    and le: "rs_rank_of rs r \<le> rs_rank_of rs r'"
  shows "rs_permissions_of rs r \<subseteq> rs_permissions_of rs r'"
proof (rule ladder_rank [OF assms(1,2), of r])
  fix i assume i: "i < length steps" "rs_rank_of rs r = Suc i" "rs_permissions_of rs r
        = (implies_rel imp)\<^sup>* `` set (snd (ladder_roles [] steps ! i))"
  show ?thesis
  proof (rule ladder_rank [OF assms(1,2), of r'])
    fix j assume j: "j < length steps" "rs_rank_of rs r' = Suc j" "rs_permissions_of rs r'
        = (implies_rel imp)\<^sup>* `` set (snd (ladder_roles [] steps ! j))"
    have "i \<le> j" using i(2) j(2) le by simp
    then have "set (snd (ladder_roles [] steps ! i)) \<subseteq> set (snd (ladder_roles [] steps ! j))"
      by (rule ladder_roles_mono) (rule j(1))
    then show ?thesis using i(3) j(3) by auto
  qed (use i(2) le in simp)
qed simp

lemma rs_holds_mono:
  "rs_holds rs held p = Inr True \<Longrightarrow> held \<subseteq> held' \<Longrightarrow> rs_holds rs held' p = Inr True"
  by (auto simp: rs_holds_def split: sum.splits prod.splits if_splits)

lemma rs_holds_cases: "rs_holds rs held p = Inl (UnknownPermission p) \<or> (\<exists>b. rs_holds rs held p = Inr b)"
  by (auto simp: rs_holds_def rs_check_def split: sum.splits prod.splits if_splits)

lemma rs_holds_defined: "rs_holds rs held p = Inr b \<Longrightarrow> \<exists>b'. rs_holds rs held' p = Inr b'"
  by (auto simp: rs_holds_def split: sum.splits prod.splits if_splits)

lemma lowest_in_some:
  "lowest_in rs ord p = Inr (Some f) \<Longrightarrow>
     \<exists>i<length ord. ord ! i = f \<and> rs_allows rs (Some f) p = Inr True
       \<and> (\<forall>j<i. rs_allows rs (Some (ord ! j)) p = Inr False)"
proof (induction ord)
  case (Cons r ord)
  show ?case
  proof (cases "rs_allows rs (Some r) p")
    case (Inr b)
    show ?thesis
    proof (cases b)
      case True
      then show ?thesis using Cons.prems Inr by auto
    next
      case False
      then have "lowest_in rs ord p = Inr (Some f)" using Cons.prems Inr by simp
      from Cons.IH [OF this] obtain i where i: "i < length ord" "ord ! i = f"
        "rs_allows rs (Some f) p = Inr True" "\<forall>j<i. rs_allows rs (Some (ord ! j)) p = Inr False"
        by blast
      then have "\<forall>j<Suc i. rs_allows rs (Some ((r # ord) ! j)) p = Inr False"
        using Inr False by (auto simp: nth_Cons less_Suc_eq_0_disj split: nat.split)
      with i show ?thesis by (intro exI [of _ "Suc i"]) simp
    qed
  qed (use Cons.prems in simp)
qed simp


section \<open>Graded permissions\<close>

text \<open>The contract the rest of the program uses a role set by: an ordering of the roles and, for
  each permission, a floor such that holding the permission is being at or above the floor.\<close>

locale graded =
  fixes rank :: "'r \<Rightarrow> nat" and allows :: "'r \<Rightarrow> 'p \<Rightarrow> bool" and floor_of :: "'p \<Rightarrow> nat"
  assumes allows_floor: "allows r p \<longleftrightarrow> floor_of p \<le> rank r"
begin

lemma allows_mono: "rank r \<le> rank r' \<Longrightarrow> allows r p \<Longrightarrow> allows r' p"
  by (simp add: allows_floor)

lemma allows_lowered: "rank (f r) \<le> rank r \<Longrightarrow> {p. allows (f r) p} \<subseteq> {p. allows r p}"
  by (auto simp: allows_floor)

lemma allows_linear: "{p. allows r p} \<subseteq> {p. allows r' p} \<or> {p. allows r' p} \<subseteq> {p. allows r p}"
  by (auto simp: allows_floor)

end

section \<open>Properties\<close>

text \<open>Closing a list of permissions either raises on the first permission the vocabulary does
  not have, or returns exactly the permissions reachable from the list under the implication
  rule; the worklist always ends.\<close>

theorem close_is_closure:
  "rs_close rs ps =
     (case find (\<lambda>p. rs_check (rs_permissions rs) (rs_scopes rs) True p \<noteq> Inr p) ps of
        Some p \<Rightarrow> Inl (UnknownPermission p)
      | None \<Rightarrow> Inr ((implies_rel (rs_implies rs))\<^sup>* `` set ps))"
proof (cases "find (\<lambda>p. rs_check (rs_permissions rs) (rs_scopes rs) True p \<noteq> Inr p) ps")
  case None
  then have "\<And>p. p \<in> set ps \<Longrightarrow> rs_check (rs_permissions rs) (rs_scopes rs) True p = Inr p"
    by (auto simp: find_None_iff)
  then show ?thesis using None rs_close_in_known by (simp add: rs_close_def)
next
  case (Some p)
  have bad: "rs_check P S w q \<noteq> Inr q \<Longrightarrow> rs_check P S w q = Inl (UnknownPermission q)" for P S w q
    by (auto simp: rs_check_def split: prod.splits if_splits)
  have "find (\<lambda>p. rs_check P S True p \<noteq> Inr p) qs = Some p \<Longrightarrow>
      try_map (rs_check P S True) qs = Inl (UnknownPermission p)" for qs P S
  proof (induction qs)
    case (Cons q qs)
    show ?case
    proof (cases "rs_check P S True q = Inr q")
      case True
      then show ?thesis using Cons by simp
    next
      case False
      then show ?thesis using Cons.prems bad [OF False] by simp
    qed
  qed simp
  then show ?thesis using Some by (simp add: rs_close_def rs_close_in_def)
qed

text \<open>On a ladder, \<open>lowest_with\<close> is the exact threshold of a permission: a role holds the
  permission when, and only when, it ranks at least as high as the weakest role that holds
  it.\<close>

theorem lowest_with_is_threshold:
  assumes built: "roleset_ladder perms steps imp scopes = Inr rs" and names: "distinct (map fst steps)"
    and low: "rs_lowest_with rs p = Inr (Some f)"
  shows "rs_allows rs r p = Inr (rs_rank_of rs (Some f) \<le> rs_rank_of rs r)"
proof -
  have order: "rs_order rs = map fst steps"
    using roleset_new_ok(8) [OF built [unfolded roleset_ladder_eq [OF names]]] by simp
  obtain i where i: "i < length steps" "map fst steps ! i = f" "rs_allows rs (Some f) p = Inr True"
    "\<forall>j<i. rs_allows rs (Some (map fst steps ! j)) p = Inr False"
    using lowest_in_some [OF low [unfolded rs_lowest_with_def order]] by auto
  have rank: "rs_rank_of rs (Some (map fst steps ! j)) = Suc j" if "j < length steps" for j
  proof (rule ladder_rank [OF built names, of "Some (map fst steps ! j)"])
    fix k assume k: "k < length steps" "fst (steps ! k) = role_or_empty (Some (map fst steps ! j))"
      "rs_rank_of rs (Some (map fst steps ! j)) = Suc k"
    then have "map fst steps ! k = map fst steps ! j" using that by (simp add: role_or_empty_def)
    then have "k = j" using names k(1) that by (metis length_map nth_eq_iff_index_eq)
    then show ?thesis using k(3) by simp
  qed (use that in \<open>auto simp: role_or_empty_def\<close>)
  have f: "rs_rank_of rs (Some f) = Suc i" using rank [OF i(1)] i(2) by simp
  obtain b where b: "rs_allows rs r p = Inr b"
    using i(3) rs_holds_defined unfolding rs_allows_def by blast
  have "b \<longleftrightarrow> Suc i \<le> rs_rank_of rs r"
  proof
    assume "Suc i \<le> rs_rank_of rs r"
    then have "rs_permissions_of rs (Some f) \<subseteq> rs_permissions_of rs r"
      using ladder_permissions_mono [OF built names] f by simp
    then have "rs_allows rs r p = Inr True" using i(3) rs_holds_mono unfolding rs_allows_def by blast
    then show b using b by simp
  next
    assume b_true: b
    show "Suc i \<le> rs_rank_of rs r"
    proof (rule ladder_rank [OF built names, of r])
      fix j assume j: "j < length steps" "fst (steps ! j) = role_or_empty r" "rs_rank_of rs r = Suc j"
      have "rs_allows rs (Some (map fst steps ! j)) p = rs_allows rs r p"
        using j(1,2) by (simp add: rs_allows_def rs_permissions_of_def role_or_empty_def)
      then have "\<not> j < i" using i(4) b b_true by auto
      then show ?thesis using j(3) by simp
    next
      assume "rs_permissions_of rs r = {}"
      then have "rs_allows rs r p = Inr False"
        using b by (auto simp: rs_allows_def rs_holds_def split: sum.splits prod.splits)
      then show ?thesis using b b_true by simp
    qed
  qed
  then show ?thesis using b f by simp
qed

definition sample_ladder :: roleset where
  "sample_ladder = projr (roleset_ladder [''read'', ''write''] [(''low'', [''read'']), (''high'', [''write''])] [] [])"

lemma lowest_with_is_threshold_witness:
  "rs_allows sample_ladder (Some ''high'') ''write''
    = Inr (rs_rank_of sample_ladder (Some ''high'') \<le> rs_rank_of sample_ladder (Some ''high''))"
proof (rule lowest_with_is_threshold)
  have "is_ok (roleset_ladder [''read'', ''write''] [(''low'', [''read'']), (''high'', [''write''])] [] [])"
    by code_simp
  then show "roleset_ladder [''read'', ''write''] [(''low'', [''read'']), (''high'', [''write''])] [] []
      = Inr sample_ladder"
    unfolding sample_ladder_def is_ok_iff by (metis sum.sel(2))
  show "distinct (map fst [(''low'', [''read'']), (''high'', [''write''])])" by code_simp
  show "rs_lowest_with sample_ladder ''write'' = Inr (Some ''high'')" by code_simp
qed

end
