(* ===== verification/Workspace_Tree.thy ===== *)
theory Workspace_Tree
  imports Canopy_Prelude
begin

text \<open>
  The workspace tree: \<open>Workspace.parent\<close>, \<open>_check_no_cycle\<close>, \<open>ancestor_chains\<close>
  (\<open>apps/workspaces/models.py\<close>) and the walks over it, \<open>descendant_map\<close>,
  \<open>with_ancestors\<close>, \<open>tree_roots\<close>, \<open>covering_pins\<close> and
  \<open>held_slugs\<close> (\<open>apps/workspaces/services.py\<close>).  The walks read the table one tree level
  at a time; the lemmas tie each of them to iterating the parent pointer.
\<close>

record workspace =
  ws_slug :: slug
  ws_parent :: "slug option"
  ws_access_request_domains :: "string list"
  ws_auto_approve_role :: string
  ws_held :: bool

definition MAX_DEPTH :: nat where
  "MAX_DEPTH = 8"

definition parent_of :: "workspace list \<Rightarrow> slug \<Rightarrow> slug option" where
  "parent_of tbl s = (case tbl_get ws_slug s tbl of None \<Rightarrow> None | Some w \<Rightarrow> ws_parent w)"

text \<open>Iterating a parent function: the specification the walks are held to.\<close>

primrec climb :: "(slug \<Rightarrow> slug option) \<Rightarrow> nat \<Rightarrow> slug \<Rightarrow> slug option" where
  "climb p 0 s = Some s"
| "climb p (Suc k) s = (case climb p k s of None \<Rightarrow> None | Some x \<Rightarrow> p x)"


section \<open>Saving a parent\<close>

datatype tree_error = OwnParent | ParentCycle | TooDeep

text \<open>\<open>_check_no_cycle\<close>: \<open>fuel\<close> counts the iterations \<open>steps <= MAX_DEPTH\<close> leaves,
  so the loop starts with \<open>MAX_DEPTH + 1\<close>.\<close>

primrec no_cycle_loop :: "workspace list \<Rightarrow> slug \<Rightarrow> nat \<Rightarrow> slug option \<Rightarrow> tree_error + unit" where
  "no_cycle_loop tbl self 0 pid = (case pid of None \<Rightarrow> Inr () | Some _ \<Rightarrow> Inl TooDeep)"
| "no_cycle_loop tbl self (Suc fuel) pid =
     (case pid of None \<Rightarrow> Inr ()
      | Some p \<Rightarrow> if p = self then Inl ParentCycle
          else no_cycle_loop tbl self fuel (parent_of tbl p))"

definition check_no_cycle :: "workspace list \<Rightarrow> slug \<Rightarrow> slug option \<Rightarrow> tree_error + unit" where
  "check_no_cycle tbl self parent =
     (case parent of None \<Rightarrow> Inr ()
      | Some p \<Rightarrow> if p = self then Inl OwnParent
          else no_cycle_loop tbl self (MAX_DEPTH + 1) parent)"

text \<open>\<open>Workspace.save\<close> of an existing row with a new parent.\<close>

definition save_parent :: "workspace list \<Rightarrow> slug \<Rightarrow> slug option \<Rightarrow> tree_error + workspace list" where
  "save_parent tbl self parent = (case check_no_cycle tbl self parent of Inl e \<Rightarrow> Inl e
     | Inr _ \<Rightarrow> Inr (tbl_update (\<lambda>w. ws_slug w = self) (\<lambda>w. w\<lparr>ws_parent := parent\<rparr>) tbl))"


section \<open>The walk up\<close>

primrec chains_level :: "workspace list \<Rightarrow> nat \<Rightarrow> (slug \<times> slug option) list \<Rightarrow> slug list
    \<Rightarrow> (slug \<times> slug option) list" where
  "chains_level tbl 0 known frontier = known"
| "chains_level tbl (Suc n) known frontier =
     (if frontier = [] then known
      else let rows = map (\<lambda>w. (ws_slug w, ws_parent w)) (filter (\<lambda>w. ws_slug w \<in> set frontier) tbl);
               missing = map (\<lambda>s. (s, None)) (filter (\<lambda>s. s \<notin> fst ` set rows) frontier);
               known' = missing @ rows @ known;
               frontier' = remdups (filter (\<lambda>p. p \<notin> fst ` set known') (List.map_filter snd rows))
           in chains_level tbl n known' frontier')"

definition get_parent :: "(slug \<times> slug option) list \<Rightarrow> slug \<Rightarrow> slug option" where
  "get_parent known s = (case map_of known s of None \<Rightarrow> None | Some q \<Rightarrow> q)"

primrec chain_walk :: "(slug \<Rightarrow> slug option) \<Rightarrow> nat \<Rightarrow> slug option \<Rightarrow> slug set \<Rightarrow> slug list" where
  "chain_walk p 0 pid seen = []"
| "chain_walk p (Suc n) pid seen = (case pid of None \<Rightarrow> []
     | Some q \<Rightarrow> if q \<in> seen then [] else q # chain_walk p n (p q) (insert q seen))"

definition ancestor_chains :: "workspace list \<Rightarrow> (slug \<times> slug option) list \<Rightarrow> (slug \<times> slug list) list" where
  "ancestor_chains tbl parents =
     (let frontier = remdups (filter (\<lambda>p. p \<notin> fst ` set parents) (List.map_filter snd parents));
          known = chains_level tbl MAX_DEPTH parents frontier
      in map (\<lambda>(slug, pid). (slug, chain_walk (get_parent known) MAX_DEPTH pid {slug})) parents)"

definition ancestor_slugs :: "workspace list \<Rightarrow> slug \<Rightarrow> slug list" where
  "ancestor_slugs tbl s = snd (hd (ancestor_chains tbl [(s, parent_of tbl s)]))"


section \<open>The walk down\<close>

text \<open>\<open>descendant_map\<close>: the edges (child, parent) found level by level, then one search per
  root.\<close>

definition child_rows :: "workspace list \<Rightarrow> slug set \<Rightarrow> (slug \<times> slug) list" where
  "child_rows tbl frontier = List.map_filter
     (\<lambda>w. case ws_parent w of None \<Rightarrow> None
          | Some p \<Rightarrow> if p \<in> frontier then Some (ws_slug w, p) else None) tbl"

primrec edges_down :: "workspace list \<Rightarrow> nat \<Rightarrow> slug set \<Rightarrow> slug set \<Rightarrow> (slug \<times> slug) list
    \<Rightarrow> (slug \<times> slug) list" where
  "edges_down tbl 0 seen frontier es = es"
| "edges_down tbl (Suc n) seen frontier es =
     (if frontier = {} then es
      else let rows = child_rows tbl frontier; nxt = fst ` set rows - seen
           in edges_down tbl n (seen \<union> nxt) nxt (es @ rows))"

function below_loop :: "(slug \<times> slug) list \<Rightarrow> slug \<Rightarrow> slug list \<Rightarrow> slug set \<Rightarrow> slug set" where
  "below_loop es root stack below =
     (if stack = [] then below
      else let q = last stack;
               new = remdups (map fst (filter (\<lambda>(c, p). p = q \<and> c \<noteq> root \<and> c \<notin> below) es))
           in below_loop es root (butlast stack @ new) (below \<union> set new))"
  by pat_completeness auto
termination
proof (relation "measures [\<lambda>(es, root, stack, below). card (fst ` set es - below),
                           \<lambda>(es, root, stack, below). length stack]")
  show "wf (measures [\<lambda>(es :: (slug \<times> slug) list, root :: slug, stack :: slug list, below).
      card (fst ` set es - below), \<lambda>(es, root, stack, below). length stack])" by simp
next
  fix es :: "(slug \<times> slug) list" and root :: slug and stack :: "slug list" and below q new
  assume ne: "stack \<noteq> []" and q: "q = last stack"
    and new: "new = remdups (map fst (filter (\<lambda>(c, p). p = q \<and> c \<noteq> root \<and> c \<notin> below) es))"
  let ?all = "fst ` set es"
  show "((es, root, butlast stack @ new, below \<union> set new), es, root, stack, below)
      \<in> measures [\<lambda>(es, root, stack, below). card (fst ` set es - below),
                  \<lambda>(es, root, stack, below). length stack]"
  proof (cases "new = []")
    case True
    then show ?thesis using ne by simp
  next
    case False
    then obtain c where "c \<in> set new" by (cases new) auto
    then have "c \<in> ?all - below" and c: "c \<in> set new" using new by (auto simp: rev_image_eqI)
    then have "card (?all - (below \<union> set new)) < card (?all - below)"
      by (intro psubset_card_mono) auto
    then show ?thesis by simp
  qed
qed

declare below_loop.simps [simp del]

definition descendant_map :: "workspace list \<Rightarrow> slug set \<Rightarrow> slug \<Rightarrow> slug set" where
  "descendant_map tbl slugs =
     (let es = edges_down tbl MAX_DEPTH slugs slugs []
      in (\<lambda>root. if root \<in> slugs then below_loop es root [root] {} else {}))"

definition descendant_slugs :: "workspace list \<Rightarrow> slug set \<Rightarrow> slug set" where
  "descendant_slugs tbl slugs = \<Union> (descendant_map tbl slugs ` slugs) - slugs"

definition with_ancestors :: "workspace list \<Rightarrow> slug set \<Rightarrow> slug set" where
  "with_ancestors tbl slugs =
     (let parents = map (\<lambda>w. (ws_slug w, ws_parent w)) (filter (\<lambda>w. ws_slug w \<in> slugs) tbl)
      in slugs \<union> \<Union> (set ` snd ` set (ancestor_chains tbl parents)))"

definition held_slugs :: "workspace list \<Rightarrow> slug set" where
  "held_slugs tbl = (let held = set (map ws_slug (filter ws_held tbl)) in
     if held = {} then {} else held \<union> \<Union> (descendant_map tbl held ` held))"

text \<open>\<open>held_by\<close>: the workspace whose hold covers \<open>s\<close>, itself or its nearest held ancestor.\<close>

definition held_by :: "workspace list \<Rightarrow> slug \<Rightarrow> workspace option" where
  "held_by tbl s = (case tbl_get ws_slug s tbl of None \<Rightarrow> None
     | Some w \<Rightarrow> if ws_held w then Some w
         else (case find (\<lambda>a. case tbl_get ws_slug a tbl of None \<Rightarrow> False | Some v \<Rightarrow> ws_held v)
                 (ancestor_slugs tbl s) of
             None \<Rightarrow> None | Some a \<Rightarrow> tbl_get ws_slug a tbl))"


section \<open>Roots\<close>

primrec roots_level :: "workspace list \<Rightarrow> nat \<Rightarrow> (slug \<times> slug option) list \<Rightarrow> slug list
    \<Rightarrow> (slug \<times> slug option) list" where
  "roots_level tbl 0 parent frontier = parent"
| "roots_level tbl (Suc n) parent frontier =
     (let fr = filter (\<lambda>s. s \<notin> fst ` set parent) frontier in
      if fr = [] then parent
      else roots_level tbl n (map (\<lambda>s. (s, parent_of tbl s)) fr @ parent)
             (remdups (List.map_filter (parent_of tbl) fr)))"

function root_walk :: "(slug \<times> slug option) list \<Rightarrow> slug \<Rightarrow> slug set \<Rightarrow> slug" where
  "root_walk parent cur seen =
     (case get_parent parent cur of None \<Rightarrow> cur
      | Some q \<Rightarrow> if q \<in> seen then cur else root_walk parent q (insert q seen))"
  by pat_completeness auto
termination
proof (relation "measure (\<lambda>(parent, cur, seen). card (Some -` snd ` set parent - seen))")
  show "wf (measure (\<lambda>(parent :: (slug \<times> slug option) list, cur :: slug, seen).
    card (Some -` snd ` set parent - seen)))" by simp
next
  fix parent :: "(slug \<times> slug option) list" and cur :: slug and seen q
  assume q: "get_parent parent cur = Some q" and new: "q \<notin> seen"
  have "(cur, Some q) \<in> set parent"
    using q by (auto simp: get_parent_def split: option.splits dest: map_of_SomeD)
  then have "q \<in> Some -` snd ` set parent" by force
  moreover have "finite (Some -` snd ` set parent)" by (intro finite_vimageI) auto
  ultimately have "card (Some -` snd ` set parent - insert q seen) < card (Some -` snd ` set parent - seen)"
    using new by (intro psubset_card_mono) auto
  then show "((parent, q, insert q seen), parent, cur, seen)
      \<in> measure (\<lambda>(parent, cur, seen). card (Some -` snd ` set parent - seen))" by simp
qed

declare root_walk.simps [simp del]

definition tree_roots :: "workspace list \<Rightarrow> slug list \<Rightarrow> (slug \<times> slug) list" where
  "tree_roots tbl slugs =
     (let parent = roots_level tbl (MAX_DEPTH + 1) [] slugs
      in map (\<lambda>s. (s, root_walk parent s {s})) slugs)"

definition root_of :: "workspace list \<Rightarrow> slug \<Rightarrow> slug" where
  "root_of tbl s = snd (hd (tree_roots tbl [s]))"

text \<open>\<open>covering_pins\<close> (the sorting of its result is presentation).\<close>

definition covering_pins :: "workspace list \<Rightarrow> slug set \<Rightarrow> slug set" where
  "covering_pins tbl slugs = {s \<in> slugs. set (ancestor_slugs tbl s) \<inter> slugs = {}}"


section \<open>What the walk up finds\<close>

lemma climb_add: "climb p (i + j) s = (case climb p i s of None \<Rightarrow> None | Some x \<Rightarrow> climb p j x)"
  by (induction j) (auto split: option.split)

lemma climb_Suc_left: "climb p (Suc k) s = (case p s of None \<Rightarrow> None | Some x \<Rightarrow> climb p k x)"
  using climb_add [of p 1 k s] by simp

lemma climb_prefix: "climb p k s = Some r \<Longrightarrow> i \<le> k \<Longrightarrow> \<exists>x. climb p i s = Some x"
  using climb_add [of p i "k - i" s] by (cases "climb p i s") auto

lemma climb_None_mono: "climb p i s = None \<Longrightarrow> i \<le> k \<Longrightarrow> climb p k s = None"
  using climb_prefix [of p k s _ i] by (cases "climb p k s") auto

text \<open>The level-by-level read knows, of every node within \<open>n\<close> steps, its parent.\<close>

definition agrees :: "(slug \<times> slug option) list \<Rightarrow> (slug \<Rightarrow> slug option) \<Rightarrow> bool" where
  "agrees known p \<longleftrightarrow> (\<forall>(s, q) \<in> set known. q = p s)"

definition level_inv :: "(slug \<times> slug option) list \<Rightarrow> slug list \<Rightarrow> (slug \<Rightarrow> slug option) \<Rightarrow> bool" where
  "level_inv known frontier p \<longleftrightarrow> agrees known p \<and> set frontier \<inter> fst ` set known = {}
     \<and> (\<forall>s\<in>fst ` set known. \<forall>q. p s = Some q \<longrightarrow> q \<in> fst ` set known \<union> set frontier)"

lemma agrees_lookup:
  assumes "agrees known p" and "s \<in> fst ` set known"
  shows "get_parent known s = p s"
proof -
  obtain q where q: "map_of known s = Some q"
    using assms(2) by (metis map_of_eq_None_iff not_None_eq)
  then have "(s, q) \<in> set known" by (rule map_of_SomeD)
  then show ?thesis using assms(1) q by (auto simp: agrees_def get_parent_def)
qed

text \<open>One level of the read.  \<open>p\<close> is the table's parent function with the caller's own parents
  in front.\<close>

lemma level_step:
  assumes inv: "level_inv known frontier p" and dist: "distinct (map ws_slug tbl)"
    and p: "\<And>s. s \<notin> fst ` set known \<Longrightarrow> p s = parent_of tbl s"
    and rows: "rows = map (\<lambda>w. (ws_slug w, ws_parent w)) (filter (\<lambda>w. ws_slug w \<in> set frontier) tbl)"
    and missing: "missing = map (\<lambda>s. (s, None)) (filter (\<lambda>s. s \<notin> fst ` set rows) frontier)"
    and known': "known' = missing @ rows @ known"
    and frontier': "frontier' = remdups (filter (\<lambda>p. p \<notin> fst ` set known') (List.map_filter snd rows))"
  shows "level_inv known' frontier' p \<and> fst ` set known' = fst ` set known \<union> set frontier"
proof -
  have keys: "fst ` set known' = fst ` set known \<union> set frontier"
  proof -
    have "fst ` set missing = set frontier - fst ` set rows" by (simp add: missing image_image set_diff_eq)
    moreover have "fst ` set rows \<subseteq> set frontier" by (auto simp: rows)
    ultimately show ?thesis by (auto simp: known' image_Un)
  qed
  have rows_p: "(s, q) \<in> set rows \<Longrightarrow> q = p s" for s q
  proof -
    assume "(s, q) \<in> set rows"
    then obtain w where w: "w \<in> set tbl" "ws_slug w = s" "ws_parent w = q" "s \<in> set frontier"
      by (auto simp: rows)
    have "s \<notin> fst ` set known" using inv w(4) by (auto simp: level_inv_def)
    moreover have "tbl_get ws_slug s tbl = Some w" using tbl_get_distinct [OF dist w(1)] w(2) by simp
    ultimately show ?thesis using p [of s] w(3) by (simp add: parent_of_def)
  qed
  have missing_p: "(s, q) \<in> set missing \<Longrightarrow> q = p s" for s q
  proof -
    assume "(s, q) \<in> set missing"
    then have s: "s \<in> set frontier" "s \<notin> fst ` set rows" "q = None" by (auto simp: missing)
    have "s \<notin> fst ` set known" using inv s(1) by (auto simp: level_inv_def)
    moreover have "tbl_get ws_slug s tbl = None"
      using s(1,2) by (auto simp: tbl_get_None_iff rows image_iff)
    ultimately show ?thesis using p [of s] s(3) by (simp add: parent_of_def)
  qed
  have agr: "agrees known' p"
    using inv rows_p missing_p by (auto simp: agrees_def level_inv_def known')
  have succ: "q \<in> fst ` set known' \<union> set frontier'" if "s \<in> fst ` set known'" "p s = Some q" for s q
  proof (cases "s \<in> fst ` set known")
    case True
    then show ?thesis using inv that(2) keys by (auto simp: level_inv_def)
  next
    case False
    then have s: "s \<in> set frontier" using that(1) keys by auto
    have "s \<in> fst ` set rows"
      using missing_p [of s None] s that(2) by (force simp: missing)
    then obtain q' where "(s, q') \<in> set rows" by auto
    moreover from this have "q' = Some q" using rows_p that(2) by simp
    ultimately have "(s, Some q) \<in> set rows" by simp
    then have "q \<in> set (List.map_filter snd rows)"
      by (auto simp: List.map_filter_def intro!: image_eqI [of _ _ "(s, Some q)"])
    then show ?thesis by (simp add: frontier')
  qed
  show ?thesis
    unfolding level_inv_def using agr keys succ by (auto simp: frontier')
qed

lemma chains_level_covers:
  assumes "level_inv known frontier p" and "distinct (map ws_slug tbl)"
    and "\<And>s. s \<notin> fst ` set known \<Longrightarrow> p s = parent_of tbl s"
  shows "agrees (chains_level tbl n known frontier) p
    \<and> (\<forall>s\<in>fst ` set known. \<forall>k\<le>n. \<forall>r. climb p k s = Some r
         \<longrightarrow> r \<in> fst ` set (chains_level tbl n known frontier))"
  using assms
proof (induction n arbitrary: known frontier)
  case 0
  then show ?case by (auto simp: level_inv_def)
next
  case (Suc n)
  show ?case
  proof (cases "frontier = []")
    case True
    have "climb p k s = Some r \<Longrightarrow> s \<in> fst ` set known \<Longrightarrow> r \<in> fst ` set known" for k s r
      using Suc.prems(1) True
      by (induction k arbitrary: r) (auto simp: level_inv_def split: option.splits)
    then show ?thesis using True Suc.prems(1) by (auto simp: level_inv_def)
  next
    case False
    let ?rows = "map (\<lambda>w. (ws_slug w, ws_parent w)) (filter (\<lambda>w. ws_slug w \<in> set frontier) tbl)"
    let ?missing = "map (\<lambda>s. (s, None)) (filter (\<lambda>s. s \<notin> fst ` set ?rows) frontier)"
    let ?known = "?missing @ ?rows @ known"
    let ?frontier = "remdups (filter (\<lambda>p. p \<notin> fst ` set ?known) (List.map_filter snd ?rows))"
    have step: "level_inv ?known ?frontier p"
      and keys: "fst ` set ?known = fst ` set known \<union> set frontier"
      using level_step [OF Suc.prems refl refl refl refl] by blast+
    have "\<And>s. s \<notin> fst ` set ?known \<Longrightarrow> p s = parent_of tbl s" using Suc.prems(3) keys by blast
    note IH = Suc.IH [OF step Suc.prems(2) this]
    have eq: "chains_level tbl (Suc n) known frontier = chains_level tbl n ?known ?frontier"
      using False by (simp add: Let_def)
    have "r \<in> fst ` set (chains_level tbl n ?known ?frontier)"
      if s: "s \<in> fst ` set known" and k: "k \<le> Suc n" and r: "climb p k s = Some r" for s k r
    proof (cases k)
      case 0
      have "\<forall>r. climb p 0 s = Some r \<longrightarrow> r \<in> fst ` set (chains_level tbl n ?known ?frontier)"
        using IH s keys by blast
      then show ?thesis using 0 r by simp
    next
      case k_Suc: (Suc j)
      then obtain x where x: "p s = Some x" "climb p j x = Some r"
        using r climb_Suc_left [of p j s] by (auto split: option.splits)
      have "x \<in> fst ` set ?known"
        using Suc.prems(1) s x(1) keys by (auto simp: level_inv_def)
      then show ?thesis using IH x(2) k_Suc k by auto
    qed
    then show ?thesis unfolding eq using IH by blast
  qed
qed

text \<open>The walk along the known parents is the walk along the parent function.\<close>

lemma chain_walk_cong:
  assumes "\<And>k x. k < n \<Longrightarrow> (case pid of None \<Rightarrow> None | Some q \<Rightarrow> climb p k q) = Some x \<Longrightarrow> f x = p x"
  shows "chain_walk f n pid seen = chain_walk p n pid seen"
  using assms
proof (induction n arbitrary: pid seen)
  case (Suc n)
  show ?case
  proof (cases pid)
    case (Some q)
    have "f q = p q" using Suc.prems [of 0 q] Some by simp
    moreover have "chain_walk f n (p q) (insert q seen) = chain_walk p n (p q) (insert q seen)"
    proof (rule Suc.IH)
      fix k x assume k: "k < n" and x: "(case p q of None \<Rightarrow> None | Some q \<Rightarrow> climb p k q) = Some x"
      then have "climb p (Suc k) q = Some x" by (simp add: climb_Suc_left del: climb.simps)
      then show "f x = p x" using Suc.prems [of "Suc k" x] Some k by (simp del: climb.simps)
    qed
    ultimately show ?thesis using Some by simp
  qed simp
qed simp

lemma ancestor_slugs_eq:
  assumes "distinct (map ws_slug tbl)"
  shows "ancestor_slugs tbl s = chain_walk (parent_of tbl) MAX_DEPTH (parent_of tbl s) {s}"
proof -
  let ?p = "parent_of tbl"
  define parents where "parents = [(s, ?p s)]"
  define frontier where
    "frontier = remdups (filter (\<lambda>p. p \<notin> fst ` set parents) (List.map_filter snd parents))"
  define known where "known = chains_level tbl MAX_DEPTH parents frontier"
  have inv: "level_inv parents frontier ?p"
    by (auto simp: level_inv_def agrees_def parents_def frontier_def List.map_filter_def)
  note cover = chains_level_covers [OF inv assms refl, of MAX_DEPTH, folded known_def]
  have look: "get_parent known x = ?p x" if "k < MAX_DEPTH"
    and "(case ?p s of None \<Rightarrow> None | Some q \<Rightarrow> climb ?p k q) = Some x" for k x
  proof -
    have "climb ?p (Suc k) s = Some x" using that(2) by (simp add: climb_Suc_left del: climb.simps)
    moreover have "s \<in> fst ` set parents" by (simp add: parents_def)
    ultimately have "x \<in> fst ` set known" using cover that(1) by (meson Suc_leI)
    then show ?thesis using cover agrees_lookup by blast
  qed
  have "ancestor_slugs tbl s = chain_walk (get_parent known) MAX_DEPTH (?p s) {s}"
    by (simp add: ancestor_slugs_def ancestor_chains_def Let_def known_def parents_def frontier_def
        del: chains_level.simps chain_walk.simps)
  also have "\<dots> = chain_walk ?p MAX_DEPTH (?p s) {s}"
    by (rule chain_walk_cong) (rule look)
  finally show ?thesis .
qed

lemma chain_walk_sound:
  "r \<in> set (chain_walk p n pid seen) \<Longrightarrow>
     r \<notin> seen \<and> (\<exists>q k. pid = Some q \<and> k < n \<and> climb p k q = Some r)"
proof (induction n arbitrary: pid seen)
  case (Suc n)
  then obtain q where pid: "pid = Some q" and new: "q \<notin> seen" by (auto split: option.splits if_splits)
  show ?case
  proof (cases "r = q")
    case True
    then show ?thesis using pid new by (auto intro!: exI [of _ 0])
  next
    case False
    then have "r \<in> set (chain_walk p n (p q) (insert q seen))" using Suc.prems pid new by simp
    from Suc.IH [OF this] obtain q' k where
      "r \<notin> insert q seen" "p q = Some q'" "k < n" "climb p k q' = Some r" by blast
    then show ?thesis using pid
      by (intro conjI exI [of _ q] exI [of _ "Suc k"]) (auto simp: climb_Suc_left simp del: climb.simps)
  qed
qed simp

lemma chain_walk_complete:
  assumes "k < n" and "pid = Some q" and "climb p k q = Some r"
    and "\<forall>i\<le>k. \<forall>x. climb p i q = Some x \<longrightarrow> x \<notin> seen"
    and "\<forall>i j x. i < j \<longrightarrow> j \<le> k \<longrightarrow> climb p i q = Some x \<longrightarrow> climb p j q \<noteq> Some x"
  shows "r \<in> set (chain_walk p n pid seen)"
  using assms
proof (induction k arbitrary: n pid q seen)
  case 0
  then show ?case by (cases n) auto
next
  case (Suc k)
  obtain m where n: "n = Suc m" using Suc.prems(1) by (cases n) auto
  have q_new: "q \<notin> seen" using Suc.prems(4) by (auto dest: spec [of _ 0])
  obtain x where x: "p q = Some x" "climb p k x = Some r"
    using Suc.prems(3) by (auto simp: climb_Suc_left simp del: climb.simps split: option.splits)
  have shift: "climb p i x = Some y \<Longrightarrow> climb p (Suc i) q = Some y" for i y
    using x(1) by (simp add: climb_Suc_left del: climb.simps)
  have "r \<in> set (chain_walk p m (p q) (insert q seen))"
  proof (rule Suc.IH [OF _ x(1) x(2)])
    show "k < m" using Suc.prems(1) n by simp
    show "\<forall>i\<le>k. \<forall>y. climb p i x = Some y \<longrightarrow> y \<notin> insert q seen"
    proof (intro allI impI)
      fix i y assume "i \<le> k" and y: "climb p i x = Some y"
      then have "climb p (Suc i) q = Some y" "Suc i \<le> Suc k" using shift by auto
      then show "y \<notin> insert q seen"
        using Suc.prems(4) Suc.prems(5) [rule_format, of 0 "Suc i" q] by (auto simp del: climb.simps(2))
    qed
    show "\<forall>i j y. i < j \<longrightarrow> j \<le> k \<longrightarrow> climb p i x = Some y \<longrightarrow> climb p j x \<noteq> Some y"
    proof (intro allI impI notI)
      fix i j y assume "i < j" "j \<le> k" and y: "climb p i x = Some y" "climb p j x = Some y"
      then show False
        using Suc.prems(5) [rule_format, of "Suc i" "Suc j" y] shift by (auto simp del: climb.simps(2))
    qed
  qed
  then show ?case using n Suc.prems(2) q_new by simp
qed

text \<open>The shortest way up to a node visits nothing twice.\<close>

lemma climb_least_distinct:
  assumes r: "climb p k s = Some r" and least: "\<forall>i<k. climb p i s \<noteq> Some r"
    and "i < j" "j \<le> k" and i: "climb p i s = Some x"
  shows "climb p j s \<noteq> Some x"
proof
  assume j: "climb p j s = Some x"
  have "climb p (k - j) x = Some r"
    using climb_add [of p j "k - j" s] j r assms(4) by simp
  then have "climb p (i + (k - j)) s = Some r" using climb_add [of p i "k - j" s] i by simp
  moreover have "i + (k - j) < k" using assms(3,4) by linarith
  ultimately show False using least by blast
qed

lemma set_ancestor_slugs:
  assumes "distinct (map ws_slug tbl)"
  shows "r \<in> set (ancestor_slugs tbl s) \<longleftrightarrow>
    r \<noteq> s \<and> (\<exists>k. 0 < k \<and> k \<le> MAX_DEPTH \<and> climb (parent_of tbl) k s = Some r)"
proof
  assume "r \<in> set (ancestor_slugs tbl s)"
  then obtain q k where "r \<notin> {s}" "parent_of tbl s = Some q" "k < MAX_DEPTH"
    "climb (parent_of tbl) k q = Some r"
    unfolding ancestor_slugs_eq [OF assms] using chain_walk_sound by blast
  then show "r \<noteq> s \<and> (\<exists>k. 0 < k \<and> k \<le> MAX_DEPTH \<and> climb (parent_of tbl) k s = Some r)"
    by (intro conjI exI [of _ "Suc k"]) (auto simp: climb_Suc_left simp del: climb.simps)
next
  let ?p = "parent_of tbl"
  assume a: "r \<noteq> s \<and> (\<exists>k. 0 < k \<and> k \<le> MAX_DEPTH \<and> climb ?p k s = Some r)"
  define k where "k = (LEAST k. climb ?p k s = Some r)"
  have k: "climb ?p k s = Some r" and least: "\<forall>i<k. climb ?p i s \<noteq> Some r" and le: "k \<le> MAX_DEPTH"
    using a unfolding k_def by (auto intro: LeastI dest: not_less_Least intro: order_trans [OF Least_le])
  obtain j where j: "k = Suc j" using k a by (cases k) auto
  obtain q where q: "?p s = Some q" "climb ?p j q = Some r"
    using k j by (auto simp: climb_Suc_left simp del: climb.simps split: option.splits)
  have shift: "climb ?p i q = Some y \<Longrightarrow> climb ?p (Suc i) s = Some y" for i y
    using q(1) by (simp add: climb_Suc_left del: climb.simps)
  show "r \<in> set (ancestor_slugs tbl s)"
    unfolding ancestor_slugs_eq [OF assms]
  proof (rule chain_walk_complete [OF _ q])
    show "j < MAX_DEPTH" using le j by simp
    show "\<forall>i\<le>j. \<forall>x. climb ?p i q = Some x \<longrightarrow> x \<notin> {s}"
    proof (intro allI impI)
      fix i x assume "i \<le> j" and x: "climb ?p i q = Some x"
      then show "x \<notin> {s}"
        using climb_least_distinct [OF k least, of 0 "Suc i" s] shift [OF x] j by auto
    qed
    show "\<forall>i l x. i < l \<longrightarrow> l \<le> j \<longrightarrow> climb ?p i q = Some x \<longrightarrow> climb ?p l q \<noteq> Some x"
    proof (intro allI impI notI)
      fix i l x assume "i < l" "l \<le> j" and x: "climb ?p i q = Some x" "climb ?p l q = Some x"
      then show False
        using climb_least_distinct [OF k least, of "Suc i" "Suc l" x] shift j by auto
    qed
  qed
qed


section \<open>What the walk down finds\<close>

definition within :: "(slug \<Rightarrow> slug option) \<Rightarrow> slug set \<Rightarrow> nat \<Rightarrow> slug set" where
  "within p S n = {x. \<exists>k\<le>n. \<exists>r\<in>S. climb p k x = Some r}"

lemma within_Suc: "x \<in> within p S (Suc n) \<longleftrightarrow> x \<in> S \<or> (\<exists>q. p x = Some q \<and> q \<in> within p S n)"
proof
  assume "x \<in> within p S (Suc n)"
  then obtain k r where k: "k \<le> Suc n" "r \<in> S" "climb p k x = Some r" by (auto simp: within_def)
  show "x \<in> S \<or> (\<exists>q. p x = Some q \<and> q \<in> within p S n)"
  proof (cases k)
    case (Suc j)
    then show ?thesis using k by (auto simp: climb_Suc_left within_def simp del: climb.simps split: option.splits)
  qed (use k in simp)
next
  assume "x \<in> S \<or> (\<exists>q. p x = Some q \<and> q \<in> within p S n)"
  then show "x \<in> within p S (Suc n)"
  proof
    assume "x \<in> S"
    then show ?thesis by (auto simp: within_def intro!: exI [of _ 0])
  next
    assume "\<exists>q. p x = Some q \<and> q \<in> within p S n"
    then obtain q k r where "p x = Some q" "k \<le> n" "r \<in> S" "climb p k q = Some r"
      by (auto simp: within_def)
    then show ?thesis
      by (auto simp: within_def climb_Suc_left simp del: climb.simps intro!: exI [of _ "Suc k"])
  qed
qed

lemma within_0 [simp]: "within p S 0 = S"
  by (auto simp: within_def)

lemma within_mono: "m \<le> n \<Longrightarrow> within p S m \<subseteq> within p S n"
  unfolding within_def by (blast intro: order_trans)

lemma within_stable:
  assumes "within p S (Suc n) \<subseteq> within p S n"
  shows "within p S (n + k) = within p S n"
proof
  show "within p S (n + k) \<subseteq> within p S n"
  proof (induction k)
    case (Suc k)
    show ?case
    proof
      fix x assume "x \<in> within p S (n + Suc k)"
      then have "x \<in> within p S (Suc n)" using Suc.IH within_Suc [of x p S n] within_Suc [of x p S "n + k"] by auto
      then show "x \<in> within p S n" using assms by blast
    qed
  qed simp
qed (rule within_mono, simp)

text \<open>The first member of \<open>S\<close> on the way up, at most \<open>n\<close> steps away.\<close>

primrec nearest :: "(slug \<Rightarrow> slug option) \<Rightarrow> slug set \<Rightarrow> nat \<Rightarrow> slug \<Rightarrow> slug option" where
  "nearest p S 0 s = (if s \<in> S then Some s else None)"
| "nearest p S (Suc n) s = (if s \<in> S then Some s
     else case p s of None \<Rightarrow> None | Some q \<Rightarrow> nearest p S n q)"

lemma nearest_within: "nearest p S n s \<noteq> None \<longleftrightarrow> s \<in> within p S n"
  by (induction n arbitrary: s) (auto simp: within_Suc split: option.splits)

lemma nearest_Suc: "nearest p S n s = Some a \<Longrightarrow> nearest p S (Suc n) s = Some a"
proof (induction n arbitrary: s)
  case (Suc n)
  show ?case
  proof (cases "s \<in> S")
    case False
    then obtain q where q: "p s = Some q" "nearest p S n q = Some a"
      using Suc.prems by (auto split: option.splits)
    then have "nearest p S (Suc n) q = Some a" using Suc.IH by blast
    then show ?thesis using False q(1) by (subst nearest.simps(2)) (simp del: nearest.simps(2))
  qed (use Suc.prems in simp)
qed (auto split: if_splits)

lemma nearest_climb:
  "nearest p S n s = Some a \<Longrightarrow> a \<in> S \<and> (\<exists>k\<le>n. climb p k s = Some a \<and>
     (\<forall>i<k. \<forall>x. climb p i s = Some x \<longrightarrow> x \<notin> S))"
proof (induction n arbitrary: s)
  case 0
  then show ?case by (auto split: if_splits)
next
  case (Suc n)
  show ?case
  proof (cases "s \<in> S")
    case True
    then show ?thesis using Suc.prems by (auto intro!: exI [of _ 0])
  next
    case False
    then obtain q where q: "p s = Some q" "nearest p S n q = Some a"
      using Suc.prems by (auto split: option.splits)
    obtain k where k: "a \<in> S" "k \<le> n" "climb p k q = Some a"
      "\<forall>i<k. \<forall>x. climb p i q = Some x \<longrightarrow> x \<notin> S" using Suc.IH [OF q(2)] by blast
    have "\<forall>i<Suc k. \<forall>x. climb p i s = Some x \<longrightarrow> x \<notin> S"
    proof (intro allI impI)
      fix i x assume "i < Suc k" "climb p i s = Some x"
      then show "x \<notin> S" using False k(4) q(1) by (cases i) (auto simp: climb_Suc_left simp del: climb.simps(2))
    qed
    moreover have "climb p (Suc k) s = Some a" using k(3) q(1) by (simp add: climb_Suc_left del: climb.simps(2))
    ultimately show ?thesis using k(1,2) by (intro conjI exI [of _ "Suc k"]) simp_all
  qed
qed

lemma child_rows_slugs: "map fst (child_rows tbl F)
    = map ws_slug (filter (\<lambda>w. case ws_parent w of None \<Rightarrow> False | Some p \<Rightarrow> p \<in> F) tbl)"
  by (induction tbl) (auto simp: child_rows_def split: option.splits)

lemma child_rows_distinct:
  "distinct (map ws_slug tbl) \<Longrightarrow> distinct (map fst (child_rows tbl F))"
  unfolding child_rows_slugs by (rule distinct_map_filter)

lemma set_child_rows:
  assumes "distinct (map ws_slug tbl)"
  shows "(c, q) \<in> set (child_rows tbl F) \<longleftrightarrow> parent_of tbl c = Some q \<and> q \<in> F"
proof -
  have "(c, q) \<in> set (child_rows tbl F) \<longleftrightarrow>
      (\<exists>w\<in>set tbl. ws_slug w = c \<and> ws_parent w = Some q \<and> q \<in> F)"
    by (auto simp: child_rows_def set_map_filter_Some split: option.splits if_splits)
  also have "\<dots> \<longleftrightarrow> parent_of tbl c = Some q \<and> q \<in> F"
    using tbl_get_distinct [OF assms] by (auto simp: parent_of_def dest: tbl_get_Some split: option.splits)
  finally show ?thesis .
qed

text \<open>After the levels the edges found are those into a node within reach.\<close>

lemma edges_down_eq:
  assumes "distinct (map ws_slug tbl)"
    and "seen = within (parent_of tbl) S m"
    and "frontier = (case m of 0 \<Rightarrow> S | Suc m' \<Rightarrow> within (parent_of tbl) S m - within (parent_of tbl) S m')"
    and "set es = {(c, q). parent_of tbl c = Some q \<and> (\<exists>m'. m = Suc m' \<and> q \<in> within (parent_of tbl) S m')}"
    and "0 < n"
  shows "set (edges_down tbl n seen frontier es)
    = {(c, q). parent_of tbl c = Some q \<and> q \<in> within (parent_of tbl) S (m + n - 1)}"
  using assms
proof (induction n arbitrary: seen frontier es m)
  case (Suc n)
  let ?p = "parent_of tbl" and ?W = "within (parent_of tbl) S"
  have split: "?W m = frontier \<union> (case m of 0 \<Rightarrow> {} | Suc m' \<Rightarrow> ?W m')"
    using Suc.prems(3) within_mono [of "m - 1" m ?p S] by (auto split: nat.splits)
  have es': "set (es @ child_rows tbl frontier) = {(c, q). ?p c = Some q \<and> q \<in> ?W m}"
    using Suc.prems(4) split by (auto simp: set_child_rows [OF Suc.prems(1)] split: nat.splits)
  show ?case
  proof (cases "frontier = {}")
    case True
    have m: "m \<noteq> 0 \<or> S = {}" using True Suc.prems(3) by (cases m) simp_all
    have stable: "?W (m + k) \<subseteq> ?W m" for k
    proof (induction k)
      case (Suc k)
      show ?case
      proof (cases m)
        case 0
        then have "S = {}" using m by simp
        then show ?thesis by (simp add: within_def)
      next
        case m': (Suc m')
        have shrink: "?W m \<subseteq> ?W m'" using split True m' by simp
        show ?thesis
        proof
          fix x assume "x \<in> ?W (m + Suc k)"
          then have "x \<in> S \<or> (\<exists>q. ?p x = Some q \<and> q \<in> ?W m')"
            using Suc.IH shrink within_Suc [of x ?p S "m + k"] by auto
          then show "x \<in> ?W m" using within_Suc [of x ?p S m'] m' by simp
        qed
      qed
    qed simp
    have "?W (m + n) = ?W m" using stable [of n] within_mono [of m "m + n" ?p S] by simp
    moreover have "set (child_rows tbl {}) = {}"
      using set_child_rows [OF Suc.prems(1), of _ _ "{}"] by (metis empty_iff equals0I prod.collapse)
    ultimately show ?thesis using True es' by auto
  next
    case False
    let ?nxt = "fst ` set (child_rows tbl frontier) - seen"
    have kids: "c \<in> fst ` set (child_rows tbl frontier) \<longleftrightarrow> (\<exists>q. ?p c = Some q \<and> q \<in> frontier)" for c
    proof -
      have "c \<in> fst ` set (child_rows tbl frontier) \<longleftrightarrow> (\<exists>q. (c, q) \<in> set (child_rows tbl frontier))"
        by force
      then show ?thesis by (simp only: set_child_rows [OF Suc.prems(1)])
    qed
    have sub: "frontier \<subseteq> ?W m" by (subst split) blast
    have new: "\<exists>q. ?p x = Some q \<and> q \<in> frontier" if x: "x \<in> ?W (Suc m)" "x \<notin> ?W m" for x
    proof -
      have "x \<notin> S" using x(2) within_mono [of 0 m ?p S] by auto
      then obtain q where q: "?p x = Some q" "q \<in> ?W m" using x(1) within_Suc [of x ?p S m] by auto
      have "q \<in> frontier"
      proof (cases m)
        case 0
        then show ?thesis using q(2) split by simp
      next
        case (Suc m')
        have "q \<notin> ?W m'" using within_Suc [of x ?p S m'] q(1) x(2) Suc by blast
        then show ?thesis using q(2) split Suc by simp
      qed
      then show ?thesis using q(1) by blast
    qed
    have nxt: "?nxt = ?W (Suc m) - ?W m"
    proof (intro equalityI subsetI)
      fix x assume "x \<in> ?nxt"
      then obtain q where "?p x = Some q" "q \<in> frontier" "x \<notin> seen" using kids by blast
      moreover from this have "x \<in> ?W (Suc m)" using sub within_Suc [of x ?p S m] by blast
      ultimately show "x \<in> ?W (Suc m) - ?W m" unfolding Suc.prems(2) by blast
    next
      fix x assume "x \<in> ?W (Suc m) - ?W m"
      then have x: "x \<in> ?W (Suc m)" "x \<notin> ?W m" by simp_all
      have "x \<in> fst ` set (child_rows tbl frontier)" by (rule iffD2 [OF kids new [OF x]])
      moreover have "x \<notin> seen" using x(2) Suc.prems(2) by simp
      ultimately show "x \<in> ?nxt" by (rule DiffI)
    qed
    have grow: "?W m \<subseteq> ?W (Suc m)" by (rule within_mono) simp
    have seen': "seen \<union> ?nxt = ?W (Suc m)"
    proof -
      have "seen \<union> ?nxt = ?W m \<union> (?W (Suc m) - ?W m)" by (simp only: nxt Suc.prems(2) [symmetric])
      then show ?thesis using grow by (simp only: Un_Diff_cancel Un_absorb1)
    qed
    have step: "edges_down tbl (Suc n) seen frontier es
        = edges_down tbl n (seen \<union> ?nxt) ?nxt (es @ child_rows tbl frontier)"
      using False by (simp add: Let_def)
    show ?thesis
    proof (cases n)
      case 0
      then show ?thesis unfolding step using es' by simp
    next
      case (Suc k)
      have "set (edges_down tbl n (seen \<union> ?nxt) ?nxt (es @ child_rows tbl frontier))
          = {(c, q). ?p c = Some q \<and> q \<in> ?W (Suc m + n - 1)}"
      proof (rule Suc.IH [OF Suc.prems(1) seen'])
        show "?nxt = (case Suc m of 0 \<Rightarrow> S | Suc m' \<Rightarrow> ?W (Suc m) - ?W m')" using nxt by simp
        show "set (es @ child_rows tbl frontier)
            = {(c, q). ?p c = Some q \<and> (\<exists>m'. Suc m = Suc m' \<and> q \<in> ?W m')}"
          unfolding es' by simp
        show "0 < n" using Suc by simp
      qed
      then show ?thesis unfolding step using Suc by simp
    qed
  qed
qed simp

lemma set_edges_down:
  assumes "distinct (map ws_slug tbl)"
  shows "set (edges_down tbl MAX_DEPTH S S []) = {(c, q). parent_of tbl c = Some q
    \<and> q \<in> within (parent_of tbl) S (MAX_DEPTH - 1)}"
  using edges_down_eq [OF assms, of S S 0 S "[]" MAX_DEPTH] by (simp add: MAX_DEPTH_def)

text \<open>The search below one root.\<close>

definition down_rel :: "(slug \<times> slug) list \<Rightarrow> slug \<Rightarrow> (slug \<times> slug) set" where
  "down_rel es root = {(q, c). (c, q) \<in> set es \<and> c \<noteq> root}"

lemma below_loop_sound:
  "x \<in> below_loop es root stack below \<Longrightarrow> x \<in> below \<or> (\<exists>q\<in>set stack. (q, x) \<in> (down_rel es root)\<^sup>+)"
proof (induction es root stack below arbitrary: x rule: below_loop.induct)
  case (1 es root stack below)
  show ?case
  proof (cases "stack = []")
    case True
    then show ?thesis using "1.prems" by (simp add: below_loop.simps [of es root "[]"])
  next
    case False
    define q new where "q = last stack"
      and "new = remdups (map fst (filter (\<lambda>(c, p). p = q \<and> c \<noteq> root \<and> c \<notin> below) es))"
    have "x \<in> below_loop es root (butlast stack @ new) (below \<union> set new)"
      using "1.prems" False
      by (simp add: below_loop.simps [of es root stack] Let_def q_def new_def)
    from "1.IH" [OF False q_def new_def this]
    have "x \<in> below \<union> set new \<or> (\<exists>q\<in>set (butlast stack @ new). (q, x) \<in> (down_rel es root)\<^sup>+)" .
    moreover have "c \<in> set new \<Longrightarrow> (q, c) \<in> down_rel es root" for c
      by (auto simp: new_def down_rel_def)
    moreover have "q \<in> set stack" using False q_def by simp
    ultimately show ?thesis
      by (auto dest: in_set_butlastD intro: trancl_into_trancl2)
  qed
qed

lemma below_loop_complete:
  "(\<forall>b\<in>below \<union> {root}. b \<notin> set stack \<longrightarrow> (\<forall>c. (b, c) \<in> down_rel es root \<longrightarrow> c \<in> below)) \<Longrightarrow>
   set stack \<subseteq> below \<union> {root} \<Longrightarrow>
     below \<subseteq> below_loop es root stack below
     \<and> (\<forall>b\<in>below_loop es root stack below \<union> {root}. \<forall>c. (b, c) \<in> down_rel es root
          \<longrightarrow> c \<in> below_loop es root stack below)"
proof (induction es root stack below rule: below_loop.induct)
  case (1 es root stack below)
  show ?case
  proof (cases "stack = []")
    case True
    then show ?thesis using "1.prems" by (auto simp: below_loop.simps [of es root "[]"])
  next
    case False
    define q new where "q = last stack"
      and "new = remdups (map fst (filter (\<lambda>(c, p). p = q \<and> c \<noteq> root \<and> c \<notin> below) es))"
    have eq: "below_loop es root stack below
        = below_loop es root (butlast stack @ new) (below \<union> set new)"
      using False by (simp add: below_loop.simps [of es root stack] Let_def q_def new_def)
    have stack: "set stack = insert q (set (butlast stack))"
      using False by (metis append_butlast_last_id list.simps(15) q_def rotate1.simps(2) set_rotate1)
    have new: "(q, c) \<in> down_rel es root \<Longrightarrow> c \<in> below \<union> set new" for c
      by (force simp: new_def down_rel_def)
    have "c \<in> below \<union> set new" if "b \<in> (below \<union> set new) \<union> {root}"
      and "b \<notin> set (butlast stack @ new)" and "(b, c) \<in> down_rel es root" for b c
    proof (cases "b = q")
      case False
      then have "b \<in> below \<union> {root}" "b \<notin> set stack" using that(1,2) stack by auto
      then show ?thesis using "1.prems"(1) that(3) by blast
    qed (use that(3) new in simp)
    then have "\<forall>b\<in>(below \<union> set new) \<union> {root}. b \<notin> set (butlast stack @ new)
        \<longrightarrow> (\<forall>c. (b, c) \<in> down_rel es root \<longrightarrow> c \<in> below \<union> set new)"
      by blast
    moreover have "set (butlast stack @ new) \<subseteq> (below \<union> set new) \<union> {root}"
      using "1.prems"(2) stack by auto
    ultimately show ?thesis unfolding eq using "1.IH" [OF False q_def new_def] by blast
  qed
qed

lemma below_loop_eq: "below_loop es root [root] {} = {x. (root, x) \<in> (down_rel es root)\<^sup>+}"
proof
  show "below_loop es root [root] {} \<subseteq> {x. (root, x) \<in> (down_rel es root)\<^sup>+}"
    using below_loop_sound [of _ es root "[root]" "{}"] by auto
  have "\<forall>b\<in>below_loop es root [root] {} \<union> {root}. \<forall>c. (b, c) \<in> down_rel es root
      \<longrightarrow> c \<in> below_loop es root [root] {}"
    using below_loop_complete [of "{}" root "[root]" es] by auto
  note closed = this
  have "x \<in> below_loop es root [root] {}" if "(root, x) \<in> (down_rel es root)\<^sup>+" for x
    using that by (induction rule: trancl_induct) (use closed in blast)+
  then show "{x. (root, x) \<in> (down_rel es root)\<^sup>+} \<subseteq> below_loop es root [root] {}" by blast
qed

text \<open>Walking down and walking up agree, whatever the table holds.\<close>

lemma descendant_map_sound:
  assumes "distinct (map ws_slug tbl)" and "root \<in> S" and "c \<in> descendant_map tbl S root"
  shows "c \<noteq> root \<and> c \<in> within (parent_of tbl) S MAX_DEPTH
    \<and> (\<exists>k>0. climb (parent_of tbl) k c = Some root)"
proof -
  let ?es = "edges_down tbl MAX_DEPTH S S []"
  have "(root, c) \<in> (down_rel ?es root)\<^sup>+"
    using assms(2,3) by (simp add: descendant_map_def below_loop_eq)
  then show ?thesis
  proof (induction rule: trancl_induct)
    case (base y)
    then have "y \<noteq> root" "parent_of tbl y = Some root" "root \<in> within (parent_of tbl) S (MAX_DEPTH - 1)"
      using set_edges_down [OF assms(1)] by (auto simp: down_rel_def)
    then show ?case
      using within_Suc [of y "parent_of tbl" S "MAX_DEPTH - 1"]
      by (auto simp: MAX_DEPTH_def intro!: exI [of _ 1])
  next
    case (step y z)
    then have z: "z \<noteq> root" "parent_of tbl z = Some y" "y \<in> within (parent_of tbl) S (MAX_DEPTH - 1)"
      using set_edges_down [OF assms(1)] by (auto simp: down_rel_def)
    from step.IH obtain k where "climb (parent_of tbl) k y = Some root" "0 < k" by blast
    then have "climb (parent_of tbl) (Suc k) z = Some root" using z(2) by (simp add: climb_Suc_left del: climb.simps)
    then show ?case
      using z within_Suc [of z "parent_of tbl" S "MAX_DEPTH - 1"]
      by (auto simp: MAX_DEPTH_def simp del: climb.simps intro!: exI [of _ "Suc k"])
  qed
qed

lemma descendant_map_complete:
  assumes "distinct (map ws_slug tbl)" and "root \<in> S"
    and "climb (parent_of tbl) k c = Some root" and "\<forall>i<k. climb (parent_of tbl) i c \<noteq> Some root"
    and "0 < k" and "k \<le> MAX_DEPTH"
  shows "c \<in> descendant_map tbl S root"
proof -
  let ?es = "edges_down tbl MAX_DEPTH S S []" and ?p = "parent_of tbl"
  have "k \<le> MAX_DEPTH \<Longrightarrow> climb ?p k c = Some root \<Longrightarrow> \<forall>i<k. climb ?p i c \<noteq> Some root \<Longrightarrow> 0 < k
      \<Longrightarrow> (root, c) \<in> (down_rel ?es root)\<^sup>+"
  proof (induction k arbitrary: c)
    case (Suc k)
    obtain q where q: "?p c = Some q" "climb ?p k q = Some root"
      using Suc.prems(2) by (auto simp: climb_Suc_left simp del: climb.simps split: option.splits)
    have "q \<in> within ?p S (MAX_DEPTH - 1)"
      using q(2) assms(2) Suc.prems(1) unfolding within_def MAX_DEPTH_def
      by (intro CollectI exI [of _ k]) auto
    moreover have "c \<noteq> root" using Suc.prems(3) by (auto dest: spec [of _ 0])
    ultimately have edge: "(q, c) \<in> down_rel ?es root"
      using q(1) by (simp add: down_rel_def set_edges_down [OF assms(1)])
    show ?case
    proof (cases k)
      case 0
      then show ?thesis using q(2) edge by auto
    next
      case (Suc j)
      have "climb ?p i q \<noteq> Some root" if "i < k" for i
        using Suc.prems(3) [rule_format, of "Suc i"] q(1) that
        by (simp add: climb_Suc_left del: climb.simps)
      then have "(root, q) \<in> (down_rel ?es root)\<^sup>+"
        using Suc.IH [of q] Suc.prems(1) q(2) Suc by simp
      then show ?thesis using edge by (rule trancl_into_trancl)
    qed
  qed simp
  then show ?thesis using assms by (simp add: descendant_map_def below_loop_eq)
qed

lemma descendant_map_single:
  assumes "distinct (map ws_slug tbl)"
  shows "c \<in> descendant_map tbl {root} root \<longleftrightarrow> root \<in> set (ancestor_slugs tbl c)"
proof
  assume "c \<in> descendant_map tbl {root} root"
  from descendant_map_sound [OF assms _ this] obtain k where
    "c \<noteq> root" "k \<le> MAX_DEPTH" "climb (parent_of tbl) k c = Some root"
    by (auto simp: within_def)
  moreover from this have "0 < k" by (cases k) auto
  ultimately show "root \<in> set (ancestor_slugs tbl c)"
    unfolding set_ancestor_slugs [OF assms] by blast
next
  let ?p = "parent_of tbl"
  assume "root \<in> set (ancestor_slugs tbl c)"
  then have a: "root \<noteq> c" "\<exists>k. 0 < k \<and> k \<le> MAX_DEPTH \<and> climb ?p k c = Some root"
    unfolding set_ancestor_slugs [OF assms] by blast+
  define k where "k = (LEAST k. climb ?p k c = Some root)"
  have k: "climb ?p k c = Some root" "\<forall>i<k. climb ?p i c \<noteq> Some root" "k \<le> MAX_DEPTH"
    using a unfolding k_def by (auto intro: LeastI dest: not_less_Least intro: order_trans [OF Least_le])
  then have "0 < k" using a(1) by (cases k) auto
  then show "c \<in> descendant_map tbl {root} root"
    using descendant_map_complete [OF assms _ k(1,2)] k(3) by blast
qed

lemma descendant_slugs_eq:
  assumes "distinct (map ws_slug tbl)"
  shows "descendant_slugs tbl S = {c. c \<notin> S \<and> set (ancestor_slugs tbl c) \<inter> S \<noteq> {}}"
proof
  show "descendant_slugs tbl S \<subseteq> {c. c \<notin> S \<and> set (ancestor_slugs tbl c) \<inter> S \<noteq> {}}"
  proof
    fix c assume c: "c \<in> descendant_slugs tbl S"
    then obtain root where "root \<in> S" "c \<in> descendant_map tbl S root" "c \<notin> S"
      by (auto simp: descendant_slugs_def)
    from descendant_map_sound [OF assms this(1,2)] obtain k r where
      "k \<le> MAX_DEPTH" "r \<in> S" "climb (parent_of tbl) k c = Some r" by (auto simp: within_def)
    moreover from this \<open>c \<notin> S\<close> have "0 < k" "r \<noteq> c" by (cases k; auto)+
    ultimately show "c \<in> {c. c \<notin> S \<and> set (ancestor_slugs tbl c) \<inter> S \<noteq> {}}"
      using \<open>c \<notin> S\<close> set_ancestor_slugs [OF assms] by blast
  qed
next
  let ?p = "parent_of tbl"
  show "{c. c \<notin> S \<and> set (ancestor_slugs tbl c) \<inter> S \<noteq> {}} \<subseteq> descendant_slugs tbl S"
  proof
    fix c assume "c \<in> {c. c \<notin> S \<and> set (ancestor_slugs tbl c) \<inter> S \<noteq> {}}"
    then obtain root where root: "root \<in> S" "root \<in> set (ancestor_slugs tbl c)" and c: "c \<notin> S" by blast
    then have a: "root \<noteq> c" "\<exists>k. 0 < k \<and> k \<le> MAX_DEPTH \<and> climb ?p k c = Some root"
      unfolding set_ancestor_slugs [OF assms] by blast+
    define k where "k = (LEAST k. climb ?p k c = Some root)"
    have k: "climb ?p k c = Some root" "\<forall>i<k. climb ?p i c \<noteq> Some root" "k \<le> MAX_DEPTH"
      using a unfolding k_def by (auto intro: LeastI dest: not_less_Least intro: order_trans [OF Least_le])
    then have "0 < k" using a(1) by (cases k) auto
    then have "c \<in> descendant_map tbl S root"
      using descendant_map_complete [OF assms root(1) k(1,2)] k(3) by blast
    then show "c \<in> descendant_slugs tbl S" using root(1) c by (auto simp: descendant_slugs_def)
  qed
qed


lemma with_ancestors_self: "slugs \<subseteq> with_ancestors tbl slugs"
  by (simp add: with_ancestors_def Let_def)


section \<open>Trees within the depth bound\<close>

text \<open>Slugs are the primary key, and no workspace has more than \<open>MAX_DEPTH\<close> ancestors (in
  particular there is no cycle).\<close>

definition tree_ok :: "workspace list \<Rightarrow> bool" where
  "tree_ok tbl \<longleftrightarrow> distinct (map ws_slug tbl)
     \<and> (\<forall>w\<in>set tbl. climb (parent_of tbl) (Suc MAX_DEPTH) (ws_slug w) = None)"

lemma tree_ok_distinct: "tree_ok tbl \<Longrightarrow> distinct (map ws_slug tbl)"
  by (simp add: tree_ok_def)

lemma parent_of_unknown: "s \<notin> ws_slug ` set tbl \<Longrightarrow> parent_of tbl s = None"
  by (simp add: parent_of_def tbl_get_None_iff [symmetric])

lemma tree_ok_climb:
  assumes "tree_ok tbl" and "climb (parent_of tbl) k s = Some r"
  shows "k \<le> MAX_DEPTH"
proof (rule ccontr)
  assume "\<not> k \<le> MAX_DEPTH"
  then have le: "Suc MAX_DEPTH \<le> k" by simp
  have "climb (parent_of tbl) (Suc MAX_DEPTH) s = None"
  proof (cases "s \<in> ws_slug ` set tbl")
    case True
    then show ?thesis using assms(1) by (auto simp: tree_ok_def)
  next
    case False
    then show ?thesis by (simp add: climb_Suc_left parent_of_unknown del: climb.simps)
  qed
  from climb_None_mono [OF this le] show False using assms(2) by simp
qed

lemma tree_ok_no_cycle:
  assumes "tree_ok tbl" and "0 < k"
  shows "climb (parent_of tbl) k s \<noteq> Some s"
proof
  assume a: "climb (parent_of tbl) k s = Some s"
  have "climb (parent_of tbl) (n * k) s = Some s" for n
    by (induction n) (use a in \<open>simp_all add: climb_add\<close>)
  from tree_ok_climb [OF assms(1) this [of "Suc MAX_DEPTH"]] assms(2) show False
    by (cases k) auto
qed

lemma set_ancestor_slugs_ok:
  assumes "tree_ok tbl"
  shows "r \<in> set (ancestor_slugs tbl s) \<longleftrightarrow> (\<exists>k>0. climb (parent_of tbl) k s = Some r)"
  using set_ancestor_slugs [OF tree_ok_distinct [OF assms]] tree_ok_no_cycle [OF assms]
    tree_ok_climb [OF assms] by metis

lemma ancestor_trans:
  assumes "tree_ok tbl" and "b \<in> set (ancestor_slugs tbl c)" and "a \<in> set (ancestor_slugs tbl b)"
  shows "a \<in> set (ancestor_slugs tbl c)"
proof -
  obtain i j where "0 < i" "climb (parent_of tbl) i c = Some b" "climb (parent_of tbl) j b = Some a"
    using assms(2,3) unfolding set_ancestor_slugs_ok [OF assms(1)] by blast
  then show ?thesis
    unfolding set_ancestor_slugs_ok [OF assms(1)]
    by (intro exI [of _ "i + j"]) (simp add: climb_add)
qed

text \<open>The top of the tree: where the parent pointers end.\<close>

lemma tree_ok_top:
  assumes "tree_ok tbl"
  obtains k r where "climb (parent_of tbl) k s = Some r" "parent_of tbl r = None" "k \<le> MAX_DEPTH"
proof -
  define k where "k = (LEAST k. climb (parent_of tbl) (Suc k) s = None)"
  have "climb (parent_of tbl) (Suc MAX_DEPTH) s = None"
    using tree_ok_climb [OF assms, of "Suc MAX_DEPTH" s] by (cases "climb (parent_of tbl) (Suc MAX_DEPTH) s") auto
  then have k: "climb (parent_of tbl) (Suc k) s = None"
    unfolding k_def by (rule LeastI)
  have "climb (parent_of tbl) k s \<noteq> None"
  proof (cases k)
    case (Suc j)
    then have "climb (parent_of tbl) (Suc j) s \<noteq> None"
      using not_less_Least [of j "\<lambda>k. climb (parent_of tbl) (Suc k) s = None"] unfolding k_def by simp
    then show ?thesis using Suc by simp
  qed simp
  then obtain r where r: "climb (parent_of tbl) k s = Some r" by auto
  then have "parent_of tbl r = None" using k by simp
  then show ?thesis using that r tree_ok_climb [OF assms r] by blast
qed

lemma chain_walk_last:
  assumes "climb p k s = Some r" and "p r = None" and "k \<le> n"
    and "\<And>i x. 0 < i \<Longrightarrow> climb p i s = Some x \<Longrightarrow> x \<notin> seen"
    and "\<And>i j x. i < j \<Longrightarrow> climb p i s = Some x \<Longrightarrow> climb p j s \<noteq> Some x"
  shows "last (s # chain_walk p n (p s) seen) = r"
  using assms
proof (induction k arbitrary: s n seen)
  case 0
  then show ?case by (cases n) auto
next
  case (Suc k)
  obtain x where x: "p s = Some x" "climb p k x = Some r"
    using Suc.prems(1) by (auto simp: climb_Suc_left simp del: climb.simps split: option.splits)
  obtain m where n: "n = Suc m" using Suc.prems(3) by (cases n) auto
  have shift: "climb p i x = Some y \<Longrightarrow> climb p (Suc i) s = Some y" for i y
    using x(1) by (simp add: climb_Suc_left del: climb.simps)
  have "x \<notin> seen" using Suc.prems(4) [of 1 x] x(1) by simp
  moreover have "last (x # chain_walk p m (p x) (insert x seen)) = r"
  proof (rule Suc.IH [OF x(2) Suc.prems(2)])
    show "k \<le> m" using Suc.prems(3) n by simp
    show "y \<notin> insert x seen" if "0 < i" "climb p i x = Some y" for i y
      using Suc.prems(4) [OF _ shift [OF that(2)]] Suc.prems(5) [of 1 "Suc i" x] shift [OF that(2)] x(1) that(1)
      by auto
    show "climb p j x \<noteq> Some y" if "i < j" "climb p i x = Some y" for i j y
      using Suc.prems(5) [OF _ shift [OF that(2)], of "Suc j"] shift that(1) by auto
  qed
  ultimately show ?case using x(1) n by simp
qed

lemma root_walk_top:
  assumes "climb p k s = Some r" and "p r = None"
    and "\<And>i x. i \<le> k \<Longrightarrow> climb p i s = Some x \<Longrightarrow> get_parent known x = p x"
    and "\<And>i x. 0 < i \<Longrightarrow> climb p i s = Some x \<Longrightarrow> x \<notin> seen"
    and "\<And>i j x. i < j \<Longrightarrow> climb p i s = Some x \<Longrightarrow> climb p j s \<noteq> Some x"
  shows "root_walk known s seen = r"
  using assms
proof (induction k arbitrary: s seen)
  case 0
  then have "get_parent known s = None" by force
  then show ?case using 0 by (simp add: root_walk.simps)
next
  case (Suc k)
  obtain x where x: "p s = Some x" "climb p k x = Some r"
    using Suc.prems(1) by (auto simp: climb_Suc_left simp del: climb.simps split: option.splits)
  have shift: "climb p i x = Some y \<Longrightarrow> climb p (Suc i) s = Some y" for i y
    using x(1) by (simp add: climb_Suc_left del: climb.simps)
  have "x \<notin> seen" using Suc.prems(4) [of 1 x] x(1) by simp
  moreover have "get_parent known s = Some x" using Suc.prems(3) [of 0 s] x(1) by simp
  moreover have "root_walk known x (insert x seen) = r"
  proof (rule Suc.IH [OF x(2) Suc.prems(2)])
    show "get_parent known y = p y" if "i \<le> k" "climb p i x = Some y" for i y
      using Suc.prems(3) [OF _ shift [OF that(2)]] that(1) by simp
    show "y \<notin> insert x seen" if "0 < i" "climb p i x = Some y" for i y
      using Suc.prems(4) [OF _ shift [OF that(2)]] Suc.prems(5) [of 1 "Suc i" x] shift [OF that(2)] x(1) that(1)
      by auto
    show "climb p j x \<noteq> Some y" if "i < j" "climb p i x = Some y" for i j y
      using Suc.prems(5) [OF _ shift [OF that(2)], of "Suc j"] shift that(1) by auto
  qed
  ultimately show ?case by (subst root_walk.simps) simp
qed

definition roots_inv :: "(slug \<times> slug option) list \<Rightarrow> slug list \<Rightarrow> (slug \<Rightarrow> slug option) \<Rightarrow> bool" where
  "roots_inv parent frontier p \<longleftrightarrow> agrees parent p
     \<and> (\<forall>s\<in>fst ` set parent. \<forall>q. p s = Some q \<longrightarrow> q \<in> fst ` set parent \<union> set frontier)"

lemma roots_level_covers:
  assumes "roots_inv parent frontier (parent_of tbl)"
  shows "agrees (roots_level tbl n parent frontier) (parent_of tbl)
    \<and> (\<forall>s\<in>fst ` set parent \<union> set frontier. \<forall>k<n. \<forall>r. climb (parent_of tbl) k s = Some r
         \<longrightarrow> r \<in> fst ` set (roots_level tbl n parent frontier))
    \<and> fst ` set parent \<subseteq> fst ` set (roots_level tbl n parent frontier)"
  using assms
proof (induction n arbitrary: parent frontier)
  case 0
  then show ?case by (simp add: roots_inv_def)
next
  case (Suc n)
  let ?p = "parent_of tbl"
  define fr where "fr = filter (\<lambda>s. s \<notin> fst ` set parent) frontier"
  show ?case
  proof (cases "fr = []")
    case True
    then have sub: "set frontier \<subseteq> fst ` set parent" by (auto simp: fr_def filter_empty_conv)
    have "climb ?p k s = Some r \<Longrightarrow> s \<in> fst ` set parent \<Longrightarrow> r \<in> fst ` set parent" for k s r
      using Suc.prems sub
      by (induction k arbitrary: r) (auto simp: roots_inv_def split: option.splits)
    note closed = this
    have eq: "roots_level tbl (Suc n) parent frontier = parent"
      using True by (simp add: fr_def [symmetric])
    have "agrees parent ?p" using Suc.prems by (simp add: roots_inv_def)
    moreover have "r \<in> fst ` set parent" if "s \<in> fst ` set parent \<union> set frontier" "climb ?p k s = Some r" for s k r
      by (rule closed [OF that(2)]) (use that(1) sub in blast)
    ultimately show ?thesis unfolding eq by blast
  next
    case False
    define parent' where "parent' = map (\<lambda>s. (s, ?p s)) fr @ parent"
    define frontier' where "frontier' = remdups (List.map_filter ?p fr)"
    have keys: "fst ` set parent' = fst ` set parent \<union> set frontier"
      by (auto simp: parent'_def fr_def image_Un image_image)
    have inv: "roots_inv parent' frontier' ?p"
      unfolding roots_inv_def
    proof (intro conjI ballI allI impI)
      show "agrees parent' ?p" using Suc.prems by (auto simp: roots_inv_def agrees_def parent'_def)
      fix s q assume s: "s \<in> fst ` set parent'" and q: "?p s = Some q"
      show "q \<in> fst ` set parent' \<union> set frontier'"
      proof (cases "s \<in> fst ` set parent")
        case True
        then show ?thesis using Suc.prems q keys by (auto simp: roots_inv_def)
      next
        case False
        then have "s \<in> set fr" using s keys by (auto simp: fr_def)
        then show ?thesis using q by (auto simp: frontier'_def set_map_filter_Some)
      qed
    qed
    note IH = Suc.IH [OF inv]
    have eq: "roots_level tbl (Suc n) parent frontier = roots_level tbl n parent' frontier'"
      using False by (simp add: fr_def [symmetric] parent'_def frontier'_def Let_def)
    have reach: "r \<in> fst ` set (roots_level tbl n parent' frontier')"
      if s: "s \<in> fst ` set parent \<union> set frontier" and k: "k < Suc n" and r: "climb ?p k s = Some r" for s k r
    proof (cases k)
      case 0
      then have "r \<in> fst ` set parent'" using s r keys by simp
      then show ?thesis using IH by blast
    next
      case k_Suc: (Suc j)
      then obtain x where x: "?p s = Some x" "climb ?p j x = Some r"
        using r climb_Suc_left [of ?p j s] by (auto split: option.splits)
      have "x \<in> fst ` set parent' \<union> set frontier'"
        using inv s x(1) keys by (auto simp: roots_inv_def)
      moreover have "j < n" using k k_Suc by simp
      ultimately show ?thesis using IH x(2) by blast
    qed
    have "fst ` set parent \<subseteq> fst ` set (roots_level tbl n parent' frontier')"
      using conjunct2 [OF conjunct2 [OF IH]] unfolding keys by simp
    then show ?thesis
      unfolding eq using conjunct1 [OF IH] reach by (intro conjI ballI allI impI) simp_all
  qed
qed

lemma tree_roots_top:
  assumes "tree_ok tbl" and "s \<in> set slugs"
    and r: "climb (parent_of tbl) k s = Some r" "parent_of tbl r = None"
  shows "(s, r') \<in> set (tree_roots tbl slugs) \<longleftrightarrow> r' = r"
proof -
  let ?p = "parent_of tbl"
  define known where "known = roots_level tbl (MAX_DEPTH + 1) [] slugs"
  have inv: "roots_inv [] slugs ?p" by (simp add: roots_inv_def agrees_def)
  note cover = roots_level_covers [OF inv, of "MAX_DEPTH + 1", folded known_def]
  have "root_walk known s {s} = r"
  proof (rule root_walk_top [OF r])
    show "get_parent known x = ?p x" if "i \<le> k" "climb ?p i s = Some x" for i x
    proof -
      have "i < MAX_DEPTH + 1" using tree_ok_climb [OF assms(1) that(2)] by simp
      then have "x \<in> fst ` set known" using cover assms(2) that(2) by fastforce
      then show ?thesis using cover agrees_lookup by blast
    qed
    show "x \<notin> {s}" if "0 < i" "climb ?p i s = Some x" for i x
      using tree_ok_no_cycle [OF assms(1) that(1)] that(2) by auto
    show "climb ?p j s \<noteq> Some x" if "i < j" "climb ?p i s = Some x" for i j x
    proof
      assume "climb ?p j s = Some x"
      then have "climb ?p (j - i) x = Some x" using climb_add [of ?p i "j - i" s] that by simp
      then show False using tree_ok_no_cycle [OF assms(1), of "j - i" x] that(1) by simp
    qed
  qed
  then show ?thesis using assms(2) by (auto simp: tree_roots_def Let_def known_def)
qed

text \<open>\<open>parents_acyclic\<close> is what \<open>_check_no_cycle\<close> protects.\<close>

definition parents_acyclic :: "workspace list \<Rightarrow> bool" where
  "parents_acyclic tbl \<longleftrightarrow> (\<forall>s k. 0 < k \<longrightarrow> climb (parent_of tbl) k s \<noteq> Some s)"

lemma no_cycle_loop_ok:
  "no_cycle_loop tbl self fuel pid = Inr () \<Longrightarrow>
     (case pid of None \<Rightarrow> True | Some q \<Rightarrow>
        (\<forall>k. climb (parent_of tbl) k q \<noteq> Some self) \<and> climb (parent_of tbl) fuel q = None)"
proof (induction fuel arbitrary: pid)
  case 0
  then show ?case by (simp split: option.splits)
next
  case (Suc fuel)
  show ?case
  proof (cases pid)
    case (Some q)
    then have q: "q \<noteq> self" and loop: "no_cycle_loop tbl self fuel (parent_of tbl q) = Inr ()"
      using Suc.prems by (auto split: if_splits)
    note IH = Suc.IH [OF loop]
    have "climb (parent_of tbl) k q \<noteq> Some self" for k
      using IH q by (cases k) (auto simp: climb_Suc_left simp del: climb.simps(2) split: option.splits)
    moreover have "climb (parent_of tbl) (Suc fuel) q = None"
      using IH by (auto simp: climb_Suc_left simp del: climb.simps(2) split: option.splits)
    ultimately show ?thesis using Some by simp
  qed simp
qed

lemma parent_of_save:
  assumes "self \<in> ws_slug ` set tbl"
  shows "parent_of (tbl_update (\<lambda>w. ws_slug w = self) (\<lambda>w. w\<lparr>ws_parent := parent\<rparr>) tbl)
    = (parent_of tbl)(self := parent)"
proof
  fix s
  have get: "tbl_get ws_slug s (tbl_update (\<lambda>w. ws_slug w = self) (\<lambda>w. w\<lparr>ws_parent := parent\<rparr>) tbl)
      = map_option (\<lambda>w. if ws_slug w = self then w\<lparr>ws_parent := parent\<rparr> else w) (tbl_get ws_slug s tbl)"
    by (rule tbl_get_tbl_update) simp
  show "parent_of (tbl_update (\<lambda>w. ws_slug w = self) (\<lambda>w. w\<lparr>ws_parent := parent\<rparr>) tbl) s
      = ((parent_of tbl)(self := parent)) s"
  proof (cases "tbl_get ws_slug s tbl")
    case None
    then have "s \<noteq> self" using assms by (auto simp: tbl_get_None_iff)
    then show ?thesis using None unfolding parent_of_def get by simp
  next
    case (Some w)
    then have "ws_slug w = s" by (auto dest: tbl_get_Some)
    then show ?thesis using Some unfolding parent_of_def get by simp
  qed
qed

lemma climb_upd_avoid:
  "(\<forall>i<k. climb p i s \<noteq> Some self) \<Longrightarrow> climb (p(self := q)) k s = climb p k s"
proof (induction k)
  case (Suc k)
  have "climb (p(self := q)) k s = climb p k s" by (rule Suc.IH) (use Suc.prems in simp)
  moreover have "climb p k s \<noteq> Some self" using Suc.prems by simp
  moreover have "x \<noteq> self \<Longrightarrow> (p(self := q)) x = p x" for x by simp
  ultimately show ?case by (cases "climb p k s") (auto simp del: fun_upd_apply)
qed simp

lemma save_parent_acyclic:
  assumes "parents_acyclic tbl" and "self \<in> ws_slug ` set tbl"
    and ok: "save_parent tbl self parent = Inr tbl'"
  shows "parents_acyclic tbl'"
proof -
  let ?p = "parent_of tbl"
  let ?p' = "?p(self := parent)"
  have p': "parent_of tbl' = ?p'"
    using ok parent_of_save [OF assms(2)] by (auto simp: save_parent_def split: sum.splits)
  have avoid: "parent = Some q \<Longrightarrow> climb ?p k q \<noteq> Some self" for q k
    using ok no_cycle_loop_ok [of tbl self "MAX_DEPTH + 1" parent]
    by (auto simp: save_parent_def check_no_cycle_def simp del: no_cycle_loop.simps
        split: sum.splits option.splits if_splits)
  have self_free: "climb ?p' k self \<noteq> Some self" if "0 < k" for k
  proof (cases parent)
    case None
    then show ?thesis using that by (cases k) (auto simp: climb_Suc_left simp del: climb.simps(2))
  next
    case (Some q)
    obtain j where j: "k = Suc j" using \<open>0 < k\<close> by (cases k) auto
    have "climb ?p' j q = climb ?p j q" using avoid [OF Some] by (intro climb_upd_avoid) simp
    then show ?thesis using avoid [OF Some, of j] Some j by (simp add: climb_Suc_left del: climb.simps(2))
  qed
  have "climb ?p' k s \<noteq> Some s" if k: "0 < k" for s k
  proof
    assume cyc: "climb ?p' k s = Some s"
    show False
    proof (cases "\<exists>i<k. climb ?p i s = Some self \<and> (\<forall>j<i. climb ?p j s \<noteq> Some self)")
      case True
      then obtain i where i: "i < k" "climb ?p i s = Some self" "\<forall>j<i. climb ?p j s \<noteq> Some self" by blast
      have i': "climb ?p' i s = Some self" using climb_upd_avoid [OF i(3)] i(2) by simp
      have "climb ?p' (k - i) self = Some s" using climb_add [of ?p' i "k - i" s] i' i(1) cyc by simp
      then have "climb ?p' (k - i + i) self = Some self" using climb_add [of ?p' "k - i" i self] i' by simp
      then show False using self_free [of "k - i + i"] i(1) by simp
    next
      case False
      have "\<forall>i<k. climb ?p i s \<noteq> Some self"
      proof (rule ccontr)
        assume "\<not> (\<forall>i<k. climb ?p i s \<noteq> Some self)"
        then obtain i where "i < k" "climb ?p i s = Some self" by blast
        then have "\<exists>i<k. climb ?p i s = Some self \<and> (\<forall>j<i. climb ?p j s \<noteq> Some self)"
          using exists_least_iff [of "\<lambda>i. climb ?p i s = Some self"]
          by (metis less_trans not_less_iff_gr_or_eq)
        with False show False by blast
      qed
      then have "climb ?p k s = Some s" using climb_upd_avoid [of k ?p s self parent] cyc by simp
      then show False using assms(1) k by (auto simp: parents_acyclic_def)
    qed
  qed
  then show ?thesis by (simp add: parents_acyclic_def p')
qed

section \<open>Properties\<close>

definition bare_workspace :: "slug \<Rightarrow> slug option \<Rightarrow> workspace" where
  "bare_workspace s p = \<lparr> ws_slug = s, ws_parent = p, ws_access_request_domains = [],
     ws_auto_approve_role = '''', ws_held = False \<rparr>"

definition sample_tree :: "workspace list" where
  "sample_tree = [bare_workspace ''org'' None, bare_workspace ''div'' (Some ''org''),
     bare_workspace ''team'' (Some ''div'')]"

text \<open>C16. The walk down and the walk up answer the same question: the workspaces below a set are
  exactly those outside it with an ancestor in it, whatever the parent pointers hold (a deep
  tree and a corrupted cycle included).\<close>

theorem descendants_mirror_ancestors:
  assumes "distinct (map ws_slug tbl)"
  shows "descendant_slugs tbl slugs = {c. c \<notin> slugs \<and> set (ancestor_slugs tbl c) \<inter> slugs \<noteq> {}}"
  by (rule descendant_slugs_eq [OF assms])

lemma descendants_mirror_ancestors_witness:
  "descendant_slugs sample_tree {''org''} = {c. c \<notin> {''org''} \<and> set (ancestor_slugs sample_tree c) \<inter> {''org''} \<noteq> {}}
    \<and> descendant_slugs sample_tree {''org''} = {''div'', ''team''}"
proof
  show "descendant_slugs sample_tree {''org''} = {c. c \<notin> {''org''} \<and> set (ancestor_slugs sample_tree c) \<inter> {''org''} \<noteq> {}}"
    by (rule descendants_mirror_ancestors) code_simp
  show "descendant_slugs sample_tree {''org''} = {''div'', ''team''}" by code_simp
qed

lemma tree_ok_acyclic: "tree_ok tbl \<Longrightarrow> parents_acyclic tbl"
  using tree_ok_no_cycle by (simp add: parents_acyclic_def)

text \<open>Saving a parent that the cycle check accepts keeps the tree free of cycles.\<close>

theorem saving_a_parent_makes_no_cycle:
  assumes "parents_acyclic tbl" and "self \<in> ws_slug ` set tbl"
    and "save_parent tbl self parent = Inr tbl'"
  shows "parents_acyclic tbl'"
  by (rule save_parent_acyclic [OF assms])

lemma saving_a_parent_makes_no_cycle_witness:
  "parents_acyclic [bare_workspace ''org'' None, bare_workspace ''div'' (Some ''org''),
     bare_workspace ''team'' (Some ''org'')]"
proof (rule saving_a_parent_makes_no_cycle)
  show "parents_acyclic sample_tree" by (rule tree_ok_acyclic) code_simp
  show "''team'' \<in> ws_slug ` set sample_tree" by code_simp
  show "save_parent sample_tree ''team'' (Some ''org'') = Inr [bare_workspace ''org'' None,
      bare_workspace ''div'' (Some ''org''), bare_workspace ''team'' (Some ''org'')]"
    by (simp add: save_parent_def check_no_cycle_def sample_tree_def bare_workspace_def MAX_DEPTH_def
        numeral_eq_Suc parent_of_def)
qed

definition deep_tree :: "workspace list" where
  "deep_tree = [bare_workspace ''0'' None, bare_workspace ''1'' (Some ''0''),
     bare_workspace ''2'' (Some ''1''), bare_workspace ''3'' (Some ''2''),
     bare_workspace ''4'' (Some ''3''), bare_workspace ''5'' (Some ''4''),
     bare_workspace ''6'' (Some ''5''), bare_workspace ''7'' (Some ''6''),
     bare_workspace ''8'' (Some ''7''), bare_workspace ''9'' (Some ''8'')]"

text \<open>The depth check is off by one: a chain of ten workspaces, the last with nine ancestors,
  is accepted though the limit is eight, and the walks, which stop after eight, no longer see the
  root from the bottom.\<close>

theorem nine_ancestors_accepted:
  "check_no_cycle deep_tree ''9'' (Some ''8'') = Inr ()
   \<and> climb (parent_of deep_tree) 9 ''9'' = Some ''0''
   \<and> ''0'' \<notin> set (ancestor_slugs deep_tree ''9'')
   \<and> ''9'' \<notin> descendant_slugs deep_tree {''0''}"
  by code_simp

text \<open>The set the claim refuses turns in and the question ``whose hold covers this
  workspace'' agree on every workspace there is.\<close>

theorem held_slugs_iff_held_by:
  assumes "distinct (map ws_slug tbl)" and "s \<in> ws_slug ` set tbl"
  shows "s \<in> held_slugs tbl \<longleftrightarrow> held_by tbl s \<noteq> None"
proof -
  let ?held = "set (map ws_slug (filter ws_held tbl))"
  obtain w where w: "tbl_get ws_slug s tbl = Some w" "w \<in> set tbl" "ws_slug w = s"
    using assms(2) tbl_get_distinct [OF assms(1)] by auto
  have held: "a \<in> ?held \<longleftrightarrow> (case tbl_get ws_slug a tbl of None \<Rightarrow> False | Some v \<Rightarrow> ws_held v)" for a
    using tbl_get_distinct [OF assms(1)] by (auto dest: tbl_get_Some split: option.splits)
  have "s \<in> held_slugs tbl \<longleftrightarrow> s \<in> ?held \<or> s \<in> descendant_slugs tbl ?held"
    by (auto simp: held_slugs_def descendant_slugs_def Let_def simp del: set_map set_filter)
  also have "\<dots> \<longleftrightarrow> s \<in> ?held \<or> set (ancestor_slugs tbl s) \<inter> ?held \<noteq> {}"
    unfolding descendant_slugs_eq [OF assms(1)] by blast
  also have "\<dots> \<longleftrightarrow> held_by tbl s \<noteq> None"
  proof (cases "ws_held w")
    case True
    then show ?thesis using w held [of s] by (simp add: held_by_def del: set_map set_filter)
  next
    case False
    let ?P = "\<lambda>a. case tbl_get ws_slug a tbl of None \<Rightarrow> False | Some v \<Rightarrow> ws_held v"
    have "s \<notin> ?held" using w held [of s] False by simp
    moreover have "held_by tbl s = (case find ?P (ancestor_slugs tbl s) of None \<Rightarrow> None
        | Some a \<Rightarrow> tbl_get ws_slug a tbl)"
      using w False by (simp add: held_by_def)
    moreover have "find ?P (ancestor_slugs tbl s) \<noteq> None \<longleftrightarrow> set (ancestor_slugs tbl s) \<inter> ?held \<noteq> {}"
      unfolding find_None_iff using held by blast
    moreover have "find ?P (ancestor_slugs tbl s) = Some a \<Longrightarrow> tbl_get ws_slug a tbl \<noteq> None" for a
      by (auto simp: find_Some_iff split: option.splits)
    ultimately show ?thesis
      by (cases "find ?P (ancestor_slugs tbl s)") (simp_all del: set_map set_filter)
  qed
  finally show ?thesis .
qed

lemma held_slugs_iff_held_by_witness:
  "''team'' \<in> held_slugs (map (\<lambda>w. if ws_slug w = ''org'' then w\<lparr>ws_held := True\<rparr> else w) sample_tree)
   \<longleftrightarrow> held_by (map (\<lambda>w. if ws_slug w = ''org'' then w\<lparr>ws_held := True\<rparr> else w) sample_tree) ''team'' \<noteq> None"
  by (rule held_slugs_iff_held_by) code_simp+

end
