(* ===== verification/Workspace_Roles.thy ===== *)
theory Workspace_Roles
  imports Role_Sets
begin

text \<open>
  What a workspace role may do: the ladder of \<open>WorkspaceMembership.ROLE_RANK\<close>
  (\<open>apps/workspaces/models.py\<close>), the permission table and the role set built from it
  (\<open>apps/workspaces/permissions.py\<close>), and acting below one's role
  (\<open>apps/workspaces/role_cap.py\<close>).
\<close>

section \<open>The ladder\<close>

datatype role = Viewer | Editor | Admin | Owner | Superuser

primrec role_name :: "role \<Rightarrow> string" where
  "role_name Viewer = ''viewer''"
| "role_name Editor = ''editor''"
| "role_name Admin = ''admin''"
| "role_name Owner = ''owner''"
| "role_name Superuser = ''superuser''"

definition ROLE_CHOICES :: "role list" where
  "ROLE_CHOICES = [Superuser, Owner, Admin, Editor, Viewer]"

definition role_of_name :: "string \<Rightarrow> role option" where
  "role_of_name s = find (\<lambda>r. role_name r = s) ROLE_CHOICES"

primrec ROLE_RANK :: "role \<Rightarrow> nat" where
  "ROLE_RANK Viewer = 0"
| "ROLE_RANK Editor = 1"
| "ROLE_RANK Admin = 2"
| "ROLE_RANK Owner = 3"
| "ROLE_RANK Superuser = 4"

definition INHERITS_DOWN :: "role list" where
  "INHERITS_DOWN = [Superuser, Owner, Admin]"

lemma ROLE_RANK_inj [simp]: "ROLE_RANK a = ROLE_RANK b \<longleftrightarrow> a = b"
  by (cases a; cases b) simp_all

text \<open>The rank is a linear order on roles.\<close>

instantiation role :: linorder
begin

definition less_eq_role :: "role \<Rightarrow> role \<Rightarrow> bool" where
  "a \<le> b \<longleftrightarrow> ROLE_RANK a \<le> ROLE_RANK b"

definition less_role :: "role \<Rightarrow> role \<Rightarrow> bool" where
  "a < b \<longleftrightarrow> ROLE_RANK a < ROLE_RANK b"

instance
  by standard (auto simp: less_eq_role_def less_role_def)

end

lemma role_of_name_role_name [simp]: "role_of_name (role_name r) = Some r"
  by (cases r) (simp_all add: role_of_name_def ROLE_CHOICES_def)

lemma role_of_name_Some: "role_of_name s = Some r \<Longrightarrow> role_name r = s"
  by (auto simp: role_of_name_def find_Some_iff)

lemma inherits_iff: "r \<in> set INHERITS_DOWN \<longleftrightarrow> Admin \<le> r"
  by (cases r) (simp_all add: INHERITS_DOWN_def less_eq_role_def)

lemma role_bounds [simp]: "Viewer \<le> r" "r \<le> Superuser"
  by (cases r; simp add: less_eq_role_def)+


section \<open>The permission table\<close>

abbreviation READ :: string where "READ \<equiv> ''read''"
abbreviation CONTENT_WRITE :: string where "CONTENT_WRITE \<equiv> ''content.write''"
abbreviation AGENT_WORK :: string where "AGENT_WORK \<equiv> ''agent.work''"
abbreviation SESSION_DRIVE :: string where "SESSION_DRIVE \<equiv> ''session.drive''"
abbreviation EVENTS_WRITE :: string where "EVENTS_WRITE \<equiv> ''events.write''"
abbreviation LOGS_READ :: string where "LOGS_READ \<equiv> ''logs.read''"
abbreviation MEMBERS_MANAGE :: string where "MEMBERS_MANAGE \<equiv> ''members.manage''"
abbreviation INTEGRATIONS :: string where "INTEGRATIONS \<equiv> ''integrations''"
abbreviation RUNNERS_ROUTE :: string where "RUNNERS_ROUTE \<equiv> ''runners.route''"
abbreviation RETENTION_MANAGE :: string where "RETENTION_MANAGE \<equiv> ''retention.manage''"
abbreviation ADMISSION_MANAGE :: string where "ADMISSION_MANAGE \<equiv> ''admission.manage''"
abbreviation PROJECTS_DECIDE :: string where "PROJECTS_DECIDE \<equiv> ''projects.decide''"
abbreviation OWN :: string where "OWN \<equiv> ''own''"
abbreviation CONTROL :: string where "CONTROL \<equiv> ''control''"

definition MINIMUM_ROLE :: "(string \<times> role) list" where
  "MINIMUM_ROLE =
    [(READ, Viewer),
     (CONTENT_WRITE, Editor),
     (AGENT_WORK, Editor),
     (SESSION_DRIVE, Editor),
     (EVENTS_WRITE, Editor),
     (LOGS_READ, Admin),
     (MEMBERS_MANAGE, Admin),
     (INTEGRATIONS, Admin),
     (RUNNERS_ROUTE, Admin),
     (RETENTION_MANAGE, Admin),
     (ADMISSION_MANAGE, Admin),
     (PROJECTS_DECIDE, Admin),
     (OWN, Owner),
     (CONTROL, Owner)]"

text \<open>\<open>ROLES\<close>: the ladder built from the table, one step per role in the order of its rank.\<close>

definition roles_built :: "roleset_error + roleset" where
  "roles_built = roleset_ladder (map fst MINIMUM_ROLE)
     (map (\<lambda>r. (role_name r, map fst (filter (\<lambda>(c, minimum). minimum = r) MINIMUM_ROLE)))
       (sort_key ROLE_RANK ROLE_CHOICES)) [] []"

definition ROLES :: roleset where
  "ROLES = projr roles_built"

definition rank_of :: "role option \<Rightarrow> nat" where
  "rank_of r = rs_rank_of ROLES (map_option role_name r)"

definition role_allows :: "role option \<Rightarrow> string \<Rightarrow> roleset_error + bool" where
  "role_allows r permission = rs_allows ROLES (map_option role_name r) permission"

definition role_meets :: "role option \<Rightarrow> string \<Rightarrow> roleset_error + bool" where
  "role_meets r floor =
     (if floor = '''' then Inr (r \<noteq> None) else rs_at_least ROLES (map_option role_name r) floor)"

definition is_role :: "string \<Rightarrow> bool" where
  "is_role name \<longleftrightarrow> rs_is_role ROLES (Some name) \<and> name \<noteq> role_name Superuser"

definition may_manage_member :: "role option \<Rightarrow> role option \<Rightarrow> role option \<Rightarrow> bool" where
  "may_manage_member actor_role target_role new_role =
     (if actor_role = Some Owner \<or> actor_role = Some Superuser then True
      else if role_allows actor_role MEMBERS_MANAGE \<noteq> Inr True then False
      else let mine = rank_of actor_role in
        if target_role \<noteq> None \<and> rank_of target_role \<ge> mine then False
        else if new_role \<noteq> None \<and> rank_of new_role \<ge> mine then False
        else True)"


section \<open>Acting as a lower role\<close>

text \<open>A cap is \<open>"editor"\<close>, \<open>"viewer"\<close> or none; every other string reads as none
  (\<open>cap_from\<close>).  The user object carries its cap.\<close>

datatype cap = Uncapped | ActsEditor | ActsViewer

record actor =
  actor_id :: user_id
  authenticated :: bool
  acts_as :: cap

definition cap_from :: "string \<Rightarrow> cap" where
  "cap_from value = (let c = py_lower (py_strip value) in
     if c = ''editor'' then ActsEditor else if c = ''viewer'' then ActsViewer else Uncapped)"

definition cap_apply :: "actor option \<Rightarrow> cap \<Rightarrow> actor option" where
  "cap_apply user c = (case user of None \<Rightarrow> None
     | Some u \<Rightarrow>
       if c = Uncapped then Some u
       else let current = acts_as u in
         if current = ActsViewer \<or> (current = ActsEditor \<and> c = ActsEditor) then Some u
         else Some (u\<lparr>acts_as := c\<rparr>))"

definition cap_stronger :: "cap \<Rightarrow> cap \<Rightarrow> cap" where
  "cap_stronger a b = (if ActsViewer \<in> {a, b} then ActsViewer
     else if ActsEditor \<in> {a, b} then ActsEditor else Uncapped)"

fun cap_role :: "cap \<Rightarrow> role option" where
  "cap_role ActsEditor = Some Editor"
| "cap_role ActsViewer = Some Viewer"
| "cap_role Uncapped = None"

definition capped_role :: "role option \<Rightarrow> cap \<Rightarrow> role option" where
  "capped_role r c = (case r of None \<Rightarrow> None
     | Some x \<Rightarrow> (case cap_role c of None \<Rightarrow> Some x
         | Some y \<Rightarrow> if ROLE_RANK x > ROLE_RANK y then Some y else Some x))"

text \<open>The cap of the turn a request is made during.  Parsing the turn's UUID and reading the
  turn's \<open>acts_as\<close> for its initiator (\<open>_turn_origin\<close>, registered by the harness) are
  parameters.\<close>

definition turn_cap :: "(string \<Rightarrow> 't option) \<Rightarrow> ('t \<Rightarrow> user_id \<Rightarrow> string option) option
    \<Rightarrow> string \<Rightarrow> actor option \<Rightarrow> cap" where
  "turn_cap parse_uuid turn_origin turn_id user =
     (let raw = py_strip turn_id in
      case user of None \<Rightarrow> Uncapped
      | Some u \<Rightarrow>
        if raw = '''' \<or> \<not> authenticated u then Uncapped
        else (case parse_uuid raw of None \<Rightarrow> Uncapped
          | Some tid \<Rightarrow> (case turn_origin of None \<Rightarrow> Uncapped
            | Some fn \<Rightarrow> (case fn tid (actor_id u) of None \<Rightarrow> Uncapped
              | Some v \<Rightarrow> cap_from v))))"

definition apply_to_request :: "(string \<Rightarrow> 't option) \<Rightarrow> ('t \<Rightarrow> user_id \<Rightarrow> string option) option
    \<Rightarrow> string \<Rightarrow> string \<Rightarrow> actor option \<Rightarrow> actor option" where
  "apply_to_request parse_uuid turn_origin header turn_id user =
     (case user of None \<Rightarrow> None
      | Some u \<Rightarrow> if \<not> authenticated u then Some u
          else let user' = cap_apply user (cap_from header)
               in cap_apply user' (turn_cap parse_uuid turn_origin turn_id user'))"


section \<open>The table is the ladder\<close>

lemma roles_built_ok: "is_ok roles_built"
  by code_simp

lemma ROLES_built: "roles_built = Inr ROLES"
  using roles_built_ok unfolding ROLES_def is_ok_iff by (metis sum.sel(2))

lemma ROLE_CHOICES_all: "r \<in> set ROLE_CHOICES"
  by (cases r) (simp_all add: ROLE_CHOICES_def)

lemma rank_of_all:
  "rank_of None = 0 \<and> list_all (\<lambda>r. rank_of (Some r) = Suc (ROLE_RANK r)) ROLE_CHOICES"
  by code_simp

lemma rank_of_eq [simp]: "rank_of None = 0" "rank_of (Some r) = Suc (ROLE_RANK r)"
  using rank_of_all ROLE_CHOICES_all [of r] unfolding list_all_iff by blast+

lemma ROLES_permissions:
  "rs_permissions_of ROLES None = {} \<and> list_all (\<lambda>r. rs_permissions_of ROLES (Some (role_name r))
     = set (map fst (filter (\<lambda>(c, m). ROLE_RANK m \<le> ROLE_RANK r) MINIMUM_ROLE))) ROLE_CHOICES"
  by code_simp

lemma MINIMUM_ROLE_distinct: "distinct (map fst MINIMUM_ROLE)"
  by code_simp

lemma MINIMUM_ROLE_unscoped: "list_all (\<lambda>p. CHR '':'' \<notin> set p) (map fst MINIMUM_ROLE)"
  by code_simp

lemma ROLES_vocabulary: "rs_permissions ROLES = set (map fst MINIMUM_ROLE)" "rs_scopes ROLES = {}"
  using roleset_new_ok(1,2) [OF ROLES_built [unfolded roles_built_def roleset_ladder_def]] by simp_all

lemma role_allows_table:
  "role_allows r p = (case map_of MINIMUM_ROLE p of None \<Rightarrow> Inl (UnknownPermission p)
     | Some m \<Rightarrow> Inr (case r of None \<Rightarrow> False | Some x \<Rightarrow> ROLE_RANK m \<le> ROLE_RANK x))"
proof (cases "map_of MINIMUM_ROLE p")
  case None
  then have "p \<notin> set (map fst MINIMUM_ROLE)" by (simp add: map_of_eq_None_iff)
  then show ?thesis
    using None
    by (simp add: role_allows_def rs_allows_def rs_holds_def rs_check_def ROLES_vocabulary
        split: prod.split)
next
  case (Some m)
  then have pm: "(p, m) \<in> set MINIMUM_ROLE" by (rule map_of_SomeD)
  then have known: "p \<in> set (map fst MINIMUM_ROLE)" by force
  have only: "(p, m') \<in> set MINIMUM_ROLE \<longleftrightarrow> m' = m" for m'
    using Some MINIMUM_ROLE_distinct by (metis map_of_is_SomeI option.inject pm)
  have holds: "rs_holds ROLES held p = Inr (p \<in> held)" for held
  proof -
    have "CHR '':'' \<notin> set p" using known MINIMUM_ROLE_unscoped unfolding list_all_iff by blast
    then show ?thesis
      using known by (simp add: rs_holds_def rs_check_def ROLES_vocabulary(1) partition_colon_def)
  qed
  show ?thesis
  proof (cases r)
    case None
    then show ?thesis using Some holds ROLES_permissions by (simp add: role_allows_def rs_allows_def)
  next
    case r: (Some x)
    have "rs_permissions_of ROLES (Some (role_name x))
        = set (map fst (filter (\<lambda>(c, m). ROLE_RANK m \<le> ROLE_RANK x) MINIMUM_ROLE))"
      using ROLES_permissions ROLE_CHOICES_all [of x] unfolding list_all_iff by blast
    moreover have "p \<in> set (map fst (filter (\<lambda>(c, m). ROLE_RANK m \<le> ROLE_RANK x) MINIMUM_ROLE))
        \<longleftrightarrow> (\<exists>m'. (p, m') \<in> set MINIMUM_ROLE \<and> ROLE_RANK m' \<le> ROLE_RANK x)"
      by force
    ultimately have "p \<in> rs_permissions_of ROLES (Some (role_name x)) \<longleftrightarrow> ROLE_RANK m \<le> ROLE_RANK x"
      by (simp only: only) simp
    then show ?thesis using Some r holds by (simp add: role_allows_def rs_allows_def)
  qed
qed

text \<open>The permission table as a graded contract: the floor of an unknown permission is above every
  role.\<close>

definition permission_floor :: "string \<Rightarrow> nat" where
  "permission_floor p = (case map_of MINIMUM_ROLE p of None \<Rightarrow> 6 | Some m \<Rightarrow> Suc (ROLE_RANK m))"

lemma ROLE_RANK_le: "ROLE_RANK r \<le> 4"
  by (cases r) simp_all

lemma ROLE_RANK_top [simp]: "\<not> 4 < ROLE_RANK r" "ROLE_RANK r = 4 \<longleftrightarrow> r = Superuser" "4 \<le> ROLE_RANK r \<longleftrightarrow> r = Superuser"
  by (cases r; simp)+

interpretation ws_perms: graded rank_of "\<lambda>r p. role_allows r p = Inr True" permission_floor
proof
  fix r p
  show "role_allows r p = Inr True \<longleftrightarrow> permission_floor p \<le> rank_of r"
  proof (cases r)
    case (Some x)
    then show ?thesis
      using ROLE_RANK_le [of x] by (simp add: role_allows_table permission_floor_def split: option.split)
  qed (simp add: role_allows_table permission_floor_def split: option.split)
qed

lemma role_allows_members_manage:
  "role_allows r MEMBERS_MANAGE = Inr True \<longleftrightarrow> (\<exists>x. r = Some x \<and> Admin \<le> x)"
proof -
  have "map_of MINIMUM_ROLE MEMBERS_MANAGE = Some Admin" by code_simp
  then show ?thesis by (cases r) (simp_all add: role_allows_table less_eq_role_def)
qed

text \<open>A cap lowers the rank, and never raises it.\<close>

lemma capped_role_rank: "rank_of (capped_role r c) \<le> rank_of r"
  by (cases c) (auto simp: capped_role_def split: option.split)

lemma capped_role_None [simp]: "capped_role r c = None \<longleftrightarrow> r = None"
  by (cases c) (auto simp: capped_role_def split: option.splits)

lemma capped_role_nobody [simp]: "capped_role None c = None"
  by (simp add: capped_role_def)

lemma capped_role_Uncapped [simp]: "capped_role r Uncapped = r"
  by (simp add: capped_role_def split: option.split)

lemma capped_role_min:
  "capped_role (Some r) c = Some (case cap_role c of None \<Rightarrow> r | Some y \<Rightarrow> min r y)"
  by (auto simp: capped_role_def min_def less_eq_role_def split: option.split)

lemma capped_role_twice: "capped_role (capped_role r a) b = capped_role r (cap_stronger a b)"
proof (cases r)
  case (Some x)
  then show ?thesis
    by (cases a; cases b; cases x) (simp_all add: capped_role_def cap_stronger_def)
qed (simp add: capped_role_def)

section \<open>Properties\<close>

text \<open>The role set built from the permission table is the ladder of ranks: a role holds a
  permission exactly when it ranks at or above the permission's minimum role, a person with no
  role holds nothing, and a permission the table does not name is an error, never a no.\<close>

theorem role_allows_is_the_table:
  "role_allows r p = (case map_of MINIMUM_ROLE p of
      None \<Rightarrow> Inl (UnknownPermission p)
    | Some m \<Rightarrow> Inr (r \<noteq> None \<and> rank_of (Some m) \<le> rank_of r))"
  by (cases r) (simp_all add: role_allows_table split: option.split)

text \<open>Who may change whom: an owner or a superuser may do anything to anyone, an admin acts
  only on viewers and editors and grants only viewer or editor, and nobody else manages members,
  so nobody below an owner can mint an admin, an owner or a superuser.\<close>

theorem managing_members_never_escalates:
  "may_manage_member actor_role target new \<longleftrightarrow>
     actor_role \<in> {Some Owner, Some Superuser}
     \<or> (actor_role = Some Admin \<and> target \<in> {None, Some Viewer, Some Editor}
         \<and> new \<in> {None, Some Viewer, Some Editor})"
proof (cases actor_role)
  case None
  then show ?thesis
    by (simp add: may_manage_member_def role_allows_members_manage)
next
  case (Some a)
  have low: "t \<noteq> None \<and> rank_of (Some Admin) \<le> rank_of t \<longleftrightarrow> t \<notin> {None, Some Viewer, Some Editor}" for t
  proof (cases t)
    case (Some x)
    then show ?thesis by (cases x) simp_all
  qed simp
  have "may_manage_member (Some Admin) target new \<longleftrightarrow>
      target \<in> {None, Some Viewer, Some Editor} \<and> new \<in> {None, Some Viewer, Some Editor}"
    unfolding may_manage_member_def Let_def low
    by (simp add: role_allows_members_manage)
  then show ?thesis
    using Some by (cases a) (simp_all add: may_manage_member_def role_allows_members_manage less_eq_role_def)
qed

text \<open>Acting below one's role only ever takes away: a capped role is the weaker of the role
  and the cap, capping again with any second cap is capping once with the stronger of the two,
  and applying a cap to a user joins it to the one already set, in either order.\<close>

theorem caps_only_lower:
  "rank_of (capped_role r c) \<le> rank_of r
   \<and> {p. role_allows (capped_role r c) p = Inr True} \<subseteq> {p. role_allows r p = Inr True}
   \<and> capped_role (capped_role r a) b = capped_role r (cap_stronger a b)
   \<and> cap_apply (cap_apply (Some u) a) b = cap_apply (Some u) (cap_stronger a b)
   \<and> cap_apply (Some u) c = Some (u\<lparr>acts_as := cap_stronger (acts_as u) c\<rparr>)"
proof (intro conjI)
  show "rank_of (capped_role r c) \<le> rank_of r" by (rule capped_role_rank)
  then show "{p. role_allows (capped_role r c) p = Inr True} \<subseteq> {p. role_allows r p = Inr True}"
    by (rule ws_perms.allows_lowered)
  show "capped_role (capped_role r a) b = capped_role r (cap_stronger a b)" by (rule capped_role_twice)
  have apply_eq: "cap_apply (Some v) d = Some (v\<lparr>acts_as := cap_stronger (acts_as v) d\<rparr>)" for v d
    by (cases "acts_as v"; cases d) (simp_all add: cap_apply_def cap_stronger_def)
  then show "cap_apply (Some u) c = Some (u\<lparr>acts_as := cap_stronger (acts_as u) c\<rparr>)" .
  show "cap_apply (cap_apply (Some u) a) b = cap_apply (Some u) (cap_stronger a b)"
    by (cases "acts_as u"; cases a; cases b) (simp_all add: apply_eq cap_stronger_def)
qed

end
