(* ===== verification/Workspace_Members.thy ===== *)
theory Workspace_Members
  imports Workspace_Tree Workspace_Roles "HOL-Library.AList"
begin

text \<open>
  Who is in a workspace and at which role (\<open>apps/workspaces/services.py\<close>), the gates that ask it
  (\<open>permissions.can\<close>, \<open>slugs_with\<close>), the scopes of lists and bulk writes, the
  operations that change a membership, and the sweep of what a departing person held
  (\<open>apps/workspaces/departure.py\<close>).  A dict is an association list in insertion order.
\<close>

record membership =
  m_workspace :: slug
  m_user :: user_id
  m_role :: role
  m_invited_by :: "user_id option"
  m_joined :: instant

record wsdb =
  workspaces :: "workspace list"
  memberships :: "membership list"
  users :: "user_id list"

text \<open>A membership as the readers return it: a stored row, or a synthetic one marked inherited.\<close>

record effective =
  e_workspace :: slug
  e_user :: user_id
  e_role :: role
  e_inherited :: bool
  e_inherited_from :: "slug option"

definition direct_row :: "membership \<Rightarrow> effective" where
  "direct_row m = \<lparr> e_workspace = m_workspace m, e_user = m_user m, e_role = m_role m,
     e_inherited = False, e_inherited_from = None \<rparr>"

definition better :: "role option \<Rightarrow> role option \<Rightarrow> role option" where
  "better a b = (case a of None \<Rightarrow> b
     | Some x \<Rightarrow> (case b of None \<Rightarrow> a
         | Some y \<Rightarrow> if ROLE_RANK x \<ge> ROLE_RANK y then a else b))"


section \<open>What the tree hands down\<close>

definition direct_roles :: "wsdb \<Rightarrow> user_id \<Rightarrow> (slug \<times> role) list" where
  "direct_roles db u =
     map (\<lambda>m. (m_workspace m, m_role m)) (filter (\<lambda>m. m_user m = u) (memberships db))"

text \<open>\<open>_inherited_roles_of\<close>: one walk down for many users; \<open>carry\<close> is what each
  workspace of a user's frontier passes to its children.  A user whose step found nothing drops
  out, which is an empty frontier here.\<close>

definition walk_step :: "(slug \<times> slug) list \<Rightarrow> (slug \<times> role) list \<Rightarrow> slug set \<Rightarrow> (slug \<times> role) list" where
  "walk_step children carry seen = List.map_filter (\<lambda>(slug, parent).
     case map_of carry parent of None \<Rightarrow> None
     | Some got \<Rightarrow> if slug \<in> seen then None else Some (slug, got)) children"

definition walk_carry :: "(slug \<times> role) list \<Rightarrow> (slug \<times> role) list \<Rightarrow> (slug \<times> role) list" where
  "walk_carry direct step = map (\<lambda>(slug, got).
     (slug, the (better (Some got)
        (case map_of direct slug of None \<Rightarrow> None
         | Some own \<Rightarrow> if own \<in> set INHERITS_DOWN then Some own else None)))) step"

primrec inherit_levels :: "workspace list \<Rightarrow> (user_id \<Rightarrow> (slug \<times> role) list) \<Rightarrow> user_id list \<Rightarrow> nat
    \<Rightarrow> (user_id \<Rightarrow> (slug \<times> role) list) \<Rightarrow> (user_id \<Rightarrow> slug set) \<Rightarrow> (user_id \<Rightarrow> (slug \<times> role) list)
    \<Rightarrow> (user_id \<Rightarrow> (slug \<times> role) list)" where
  "inherit_levels tbl direct uids 0 frontier seen out = out"
| "inherit_levels tbl direct uids (Suc n) frontier seen out =
     (let parents = (\<Union>uid\<in>set uids. fst ` set (frontier uid)) in
      if parents = {} then out
      else let children = child_rows tbl parents;
               step = (\<lambda>uid. walk_step children (frontier uid) (seen uid))
           in inherit_levels tbl direct uids n
                (\<lambda>uid. walk_carry (direct uid) (step uid))
                (\<lambda>uid. seen uid \<union> fst ` set (step uid))
                (\<lambda>uid. out uid @ step uid))"

definition inherited_roles_of :: "wsdb \<Rightarrow> user_id list \<Rightarrow> (user_id \<Rightarrow> (slug \<times> role) list)
    \<Rightarrow> user_id \<Rightarrow> (slug \<times> role) list" where
  "inherited_roles_of db uids direct =
     (let frontier = (\<lambda>uid. filter (\<lambda>(s, r). r \<in> set INHERITS_DOWN) (direct uid))
      in inherit_levels (workspaces db) direct uids MAX_DEPTH frontier
           (\<lambda>uid. fst ` set (frontier uid)) (\<lambda>uid. []))"

definition inherited_roles :: "wsdb \<Rightarrow> user_id \<Rightarrow> (slug \<times> role) list" where
  "inherited_roles db u = inherited_roles_of db [u] (direct_roles db) u"

definition inherited_owner_slugs :: "wsdb \<Rightarrow> user_id \<Rightarrow> slug set" where
  "inherited_owner_slugs db u =
     fst ` set (filter (\<lambda>(s, r). ROLE_RANK r \<ge> ROLE_RANK Owner) (inherited_roles db u))"

text \<open>The set as the list of its members, so that it can be walked.\<close>

definition user_workspace_slugs :: "wsdb \<Rightarrow> user_id \<Rightarrow> slug list" where
  "user_workspace_slugs db u = remdups (map fst (direct_roles db u) @ map fst (inherited_roles db u))"


section \<open>One workspace at a time\<close>

definition inherited_role :: "wsdb \<Rightarrow> user_id \<Rightarrow> slug \<Rightarrow> role option" where
  "inherited_role db u w =
     (case tbl_get ws_slug w (workspaces db) of None \<Rightarrow> None
      | Some ws \<Rightarrow> if ws_parent ws = None then None
          else let ups = ancestor_slugs (workspaces db) w in
            fold (\<lambda>r best. better best (Some r))
              (map m_role (filter (\<lambda>m. m_user m = u \<and> m_workspace m \<in> set ups
                  \<and> m_role m \<in> set INHERITS_DOWN) (memberships db))) None)"

definition row_of :: "wsdb \<Rightarrow> user_id \<Rightarrow> slug \<Rightarrow> membership option" where
  "row_of db u w = find (\<lambda>m. m_user m = u \<and> m_workspace m = w) (memberships db)"

definition uncapped_membership :: "wsdb \<Rightarrow> user_id \<Rightarrow> slug \<Rightarrow> effective option" where
  "uncapped_membership db u w =
     (let row = row_of db u w in
      case row of
        Some m \<Rightarrow> if m_role m = Superuser then Some (direct_row m)
          else (case inherited_role db u w of None \<Rightarrow> Some (direct_row m)
            | Some up \<Rightarrow> if ROLE_RANK up > ROLE_RANK (m_role m)
                then Some \<lparr> e_workspace = w, e_user = u, e_role = up, e_inherited = True,
                            e_inherited_from = None \<rparr>
                else Some (direct_row m))
      | None \<Rightarrow> (case inherited_role db u w of None \<Rightarrow> None
            | Some up \<Rightarrow> Some \<lparr> e_workspace = w, e_user = u, e_role = up, e_inherited = True,
                              e_inherited_from = None \<rparr>))"

definition membership_of :: "wsdb \<Rightarrow> actor \<Rightarrow> slug \<Rightarrow> effective option" where
  "membership_of db a w =
     (case uncapped_membership db (actor_id a) w of None \<Rightarrow> None
      | Some row \<Rightarrow> (case capped_role (Some (e_role row)) (acts_as a) of None \<Rightarrow> None
          | Some lowered \<Rightarrow> if lowered = e_role row then Some row
              else Some \<lparr> e_workspace = e_workspace row, e_user = actor_id a, e_role = lowered,
                          e_inherited = True, e_inherited_from = None \<rparr>))"

definition member_role :: "wsdb \<Rightarrow> actor \<Rightarrow> slug \<Rightarrow> role option" where
  "member_role db a w = map_option e_role (membership_of db a w)"

definition is_member :: "wsdb \<Rightarrow> actor \<Rightarrow> slug \<Rightarrow> bool" where
  "is_member db a w \<longleftrightarrow> membership_of db a w \<noteq> None"

definition has_role_at_least :: "wsdb \<Rightarrow> actor \<Rightarrow> slug \<Rightarrow> role \<Rightarrow> bool" where
  "has_role_at_least db a w minimum = (case member_role db a w of None \<Rightarrow> False
     | Some r \<Rightarrow> ROLE_RANK r \<ge> ROLE_RANK minimum)"


section \<open>Every workspace at once\<close>

definition member_roles_of :: "wsdb \<Rightarrow> actor list \<Rightarrow> actor \<Rightarrow> (slug \<times> role) list" where
  "member_roles_of db actors a =
     (let direct = direct_roles db;
          inherited = inherited_roles_of db (map actor_id actors) direct (actor_id a);
          roles = fold (\<lambda>(slug, r) acc. AList.update slug (the (better (map_of acc slug) (Some r))) acc)
            inherited (direct (actor_id a))
      in if acts_as a = Uncapped then roles
         else map (\<lambda>(slug, r). (slug, the (capped_role (Some r) (acts_as a)))) roles)"

definition member_roles :: "wsdb \<Rightarrow> actor \<Rightarrow> (slug \<times> role) list" where
  "member_roles db a = member_roles_of db [a] a"


section \<open>The gates\<close>

definition can :: "wsdb \<Rightarrow> actor \<Rightarrow> slug \<Rightarrow> string \<Rightarrow> roleset_error + bool" where
  "can db a w permission =
     (if \<not> authenticated a then Inr False
      else case map_of MINIMUM_ROLE permission of None \<Rightarrow> Inl (UnknownPermission permission)
        | Some minimum \<Rightarrow> Inr (has_role_at_least db a w minimum))"

definition slugs_with :: "wsdb \<Rightarrow> actor \<Rightarrow> string \<Rightarrow> slug list option \<Rightarrow> roleset_error + slug list" where
  "slugs_with db a permission within_slugs =
     (if \<not> authenticated a then Inr []
      else let roles = member_roles db a;
               candidates = (case within_slugs of None \<Rightarrow> map fst roles | Some ss \<Rightarrow> ss)
           in (case try_map (\<lambda>s. role_allows (map_of roles s) permission) candidates of
                 Inl e \<Rightarrow> Inl e
               | Inr flags \<Rightarrow> Inr (map fst (filter snd (zip candidates flags)))))"

definition is_owner :: "wsdb \<Rightarrow> actor \<Rightarrow> slug \<Rightarrow> roleset_error + bool" where
  "is_owner db a w = can db a w OWN"


section \<open>The scopes of lists and bulk writes\<close>

datatype scope_error = WorkspaceRequired "(slug \<times> slug) list"

definition pinned_read_scope :: "wsdb \<Rightarrow> actor option \<Rightarrow> slug \<Rightarrow> slug set" where
  "pinned_read_scope db user pinned =
     (let below = descendant_slugs (workspaces db) {pinned} in
      case user of None \<Rightarrow> {pinned}
      | Some a \<Rightarrow> if below = {} \<or> \<not> authenticated a then {pinned}
          else {pinned} \<union> (below \<inter> set (user_workspace_slugs db (actor_id a))))"

definition read_scope :: "wsdb \<Rightarrow> actor option \<Rightarrow> slug option \<Rightarrow> scope_error + slug set" where
  "read_scope db user pinned =
     (case pinned of Some p \<Rightarrow> Inr (pinned_read_scope db user p)
      | None \<Rightarrow> (case user of None \<Rightarrow> Inr {}
        | Some a \<Rightarrow> if \<not> authenticated a then Inr {}
            else let slugs = user_workspace_slugs db (actor_id a);
                     roots = tree_roots (workspaces db) slugs
                 in if length slugs > 1 \<and> length (remdups (map snd roots)) > 1
                    then Inl (WorkspaceRequired roots) else Inr (set slugs)))"

definition write_scope :: "wsdb \<Rightarrow> actor option \<Rightarrow> slug option \<Rightarrow> scope_error + slug set" where
  "write_scope db user pinned = (case pinned of Some p \<Rightarrow> Inr {p} | None \<Rightarrow> read_scope db user None)"

definition tree_scope :: "wsdb \<Rightarrow> actor option \<Rightarrow> slug \<Rightarrow> slug set" where
  "tree_scope db user home =
     (case user of None \<Rightarrow> {}
      | Some a \<Rightarrow> if \<not> authenticated a then {}
          else let roots = tree_roots (workspaces db) (remdups (home # user_workspace_slugs db (actor_id a)))
               in fst ` {(s, r) \<in> set roots. Some r = map_of roots home})"

definition member_scope :: "wsdb \<Rightarrow> actor option \<Rightarrow> slug option \<Rightarrow> slug set" where
  "member_scope db user pinned =
     (case pinned of Some p \<Rightarrow> pinned_read_scope db user p
      | None \<Rightarrow> (case user of None \<Rightarrow> {}
        | Some a \<Rightarrow> if \<not> authenticated a then {} else set (user_workspace_slugs db (actor_id a))))"


section \<open>Everyone who is in\<close>

definition best_upstream :: "membership list \<Rightarrow> (user_id \<times> membership) list" where
  "best_upstream ups = fold (\<lambda>up best.
     case map_of best (m_user up) of
       None \<Rightarrow> AList.update (m_user up) up best
     | Some held \<Rightarrow>
         if better (Some (m_role held)) (Some (m_role up)) \<noteq> Some (m_role held)
         then AList.update (m_user up) up best else best) ups []"

definition synthetic_row :: "slug \<Rightarrow> membership \<Rightarrow> effective" where
  "synthetic_row w up = \<lparr> e_workspace = w, e_user = m_user up, e_role = m_role up,
     e_inherited = True, e_inherited_from = Some (m_workspace up) \<rparr>"

definition merge_one :: "slug \<Rightarrow> user_id \<times> membership \<Rightarrow> (user_id \<times> effective) list
    \<Rightarrow> (user_id \<times> effective) list" where
  "merge_one w b rows = (case b of (u, up) \<Rightarrow>
     (case map_of rows u of
        Some mine \<Rightarrow> if better (Some (e_role mine)) (Some (m_role up)) = Some (e_role mine) then rows
          else AList.update u (synthetic_row w up) rows
      | None \<Rightarrow> AList.update u (synthetic_row w up) rows))"

definition effective_memberships :: "wsdb \<Rightarrow> slug \<Rightarrow> effective list" where
  "effective_memberships db w =
     (let rows = fold (\<lambda>m acc. AList.update (m_user m) (direct_row m) acc)
            (sort_key m_joined (filter (\<lambda>m. m_workspace m = w) (memberships db))) [];
          ancestors = ancestor_slugs (workspaces db) w;
          ups = sort_key m_joined (filter (\<lambda>m. m_workspace m \<in> set ancestors
                  \<and> m_role m \<in> set INHERITS_DOWN) (memberships db))
      in map snd (fold (merge_one w) (best_upstream ups) rows))"

definition member_user_ids :: "wsdb \<Rightarrow> slug \<Rightarrow> user_id set" where
  "member_user_ids db w = e_user ` set (effective_memberships db w)"

definition owner_user_ids :: "wsdb \<Rightarrow> slug \<Rightarrow> user_id set" where
  "owner_user_ids db w = e_user ` set (filter (\<lambda>e. e_role e = Owner) (effective_memberships db w))"

definition mail_recipients :: "wsdb \<Rightarrow> user_id list \<Rightarrow> slug \<Rightarrow> user_id list" where
  "mail_recipients db us w =
     (let quiet = e_user ` set (filter (\<lambda>e. e_role e = Superuser) (effective_memberships db w));
          kept = filter (\<lambda>u. u \<notin> quiet) us
      in if kept = [] then us else kept)"


section \<open>Leaving a workspace\<close>

text \<open>The registry of revokers: each app that hangs a grant off membership registers one.  A
  revoker takes the person, the workspaces they left and the state of the grants it owns; a
  counted one returns how many rows it removed.\<close>

record 'g revoker =
  rv_name :: string
  rv_order :: int
  rv_fn :: "user_id \<Rightarrow> slug list \<Rightarrow> user_id option \<Rightarrow> 'g \<Rightarrow> nat \<times> 'g"
  rv_counted :: bool

definition register_revoker :: "'g revoker \<Rightarrow> 'g revoker list \<Rightarrow> 'g revoker list" where
  "register_revoker rv rs =
     (if rv_name rv \<in> rv_name ` set rs then map (\<lambda>r. if rv_name r = rv_name rv then rv else r) rs
      else rs @ [rv])"

definition ordered_revokers :: "'g revoker list \<Rightarrow> 'g revoker list" where
  "ordered_revokers rs = sort_key rv_order rs"

text \<open>\<open>workspaces_left\<close>: the workspace and its descendants the person no longer belongs to.  The
  descendants come sorted in the source; here they are the workspaces of the table that are
  descendants, in table order.\<close>

definition workspaces_left :: "wsdb \<Rightarrow> user_id \<Rightarrow> slug \<Rightarrow> slug list" where
  "workspaces_left db u w =
     (let below = descendant_slugs (workspaces db) {w};
          candidates = w # filter (\<lambda>s. s \<in> below) (map ws_slug (workspaces db));
          still_in = fst ` set (member_roles db \<lparr> actor_id = u, authenticated = True, acts_as = Uncapped \<rparr>)
      in filter (\<lambda>s. s \<notin> still_in) candidates)"

definition departure_sweep :: "wsdb \<Rightarrow> 'g revoker list \<Rightarrow> user_id \<Rightarrow> slug \<Rightarrow> user_id option \<Rightarrow> 'g
    \<Rightarrow> (string \<times> nat) list \<times> 'g" where
  "departure_sweep db rs u w by' g =
     (let left = workspaces_left db u w;
          counts = map (\<lambda>r. (rv_name r, 0)) (filter rv_counted (ordered_revokers rs))
      in if left = [] then (counts, g)
         else fold (\<lambda>r (cs, g). case rv_fn r u left by' g of (n, g') \<Rightarrow>
                (if rv_counted r then AList.update (rv_name r) n cs else cs, g'))
              (ordered_revokers rs) (counts, g))"


section \<open>Changing a membership\<close>

datatype member_error = MemberNotFound | LastOwner | InvalidRole | AlreadyMember

definition row_key :: "slug \<Rightarrow> user_id \<Rightarrow> membership \<Rightarrow> bool" where
  "row_key w u m \<longleftrightarrow> m_workspace m = w \<and> m_user m = u"

definition is_last_owner :: "wsdb \<Rightarrow> membership \<Rightarrow> bool" where
  "is_last_owner db m =
     (if m_role m \<noteq> Owner then False
      else let direct = length (filter (\<lambda>x. m_workspace x = m_workspace m \<and> m_role x = Owner)
                 (memberships db)) in
        if direct > 1 then False
        else let ancestors = ancestor_slugs (workspaces db) (m_workspace m) in
          \<not> (ancestors \<noteq> [] \<and> list_ex (\<lambda>x. m_workspace x \<in> set ancestors \<and> m_role x = Owner)
               (memberships db)))"

definition guarded_owner_mutation :: "slug \<Rightarrow> user_id \<Rightarrow>
    (membership \<Rightarrow> wsdb \<times> 'g \<Rightarrow> (member_error + 'a) \<times> wsdb \<times> 'g) \<Rightarrow> wsdb \<times> 'g
    \<Rightarrow> (member_error + 'a) \<times> wsdb \<times> 'g" where
  "guarded_owner_mutation w u mutate = atomic (\<lambda>st.
     case row_of (fst st) u w of None \<Rightarrow> (Inl MemberNotFound, st) | Some m \<Rightarrow> mutate m st)"

definition set_role_row :: "slug \<Rightarrow> user_id \<Rightarrow> role \<Rightarrow> wsdb \<Rightarrow> wsdb" where
  "set_role_row w u r db =
     db\<lparr>memberships := tbl_update (row_key w u) (\<lambda>m. m\<lparr>m_role := r\<rparr>) (memberships db)\<rparr>"

definition delete_row :: "slug \<Rightarrow> user_id \<Rightarrow> wsdb \<Rightarrow> wsdb" where
  "delete_row w u db = db\<lparr>memberships := filter (\<lambda>m. \<not> row_key w u m) (memberships db)\<rparr>"

definition set_member_role :: "'g revoker list \<Rightarrow> slug \<Rightarrow> user_id \<Rightarrow> string \<Rightarrow> user_id option
    \<Rightarrow> wsdb \<times> 'g \<Rightarrow> (member_error + membership) \<times> wsdb \<times> 'g" where
  "set_member_role rs w u role_str by' st =
     (case role_of_name role_str of None \<Rightarrow> (Inl InvalidRole, st)
      | Some r \<Rightarrow> guarded_owner_mutation w u (\<lambda>m (db, g).
          if r = m_role m then (Inr m, db, g)
          else if is_last_owner db m then (Inl LastOwner, db, g)
          else let db' = set_role_row w u r db;
                   g' = (if m_role m \<in> set INHERITS_DOWN
                         then snd (departure_sweep db' rs u w by' g) else g)
               in (Inr (m\<lparr>m_role := r\<rparr>), db', g')) st)"

definition remove_member :: "'g revoker list \<Rightarrow> slug \<Rightarrow> user_id \<Rightarrow> user_id option
    \<Rightarrow> wsdb \<times> 'g \<Rightarrow> (member_error + unit) \<times> wsdb \<times> 'g" where
  "remove_member rs w u by' st = guarded_owner_mutation w u (\<lambda>m (db, g).
     if is_last_owner db m then (Inl LastOwner, db, g)
     else let db' = delete_row w u db
          in (Inr (), db', snd (departure_sweep db' rs u w by' g))) st"

definition grant_role :: "slug \<Rightarrow> user_id \<Rightarrow> role \<Rightarrow> user_id option \<Rightarrow> instant \<Rightarrow> wsdb \<Rightarrow> membership \<times> wsdb" where
  "grant_role w u r invited_by now db =
     (case row_of db u w of
        None \<Rightarrow> let m = \<lparr> m_workspace = w, m_user = u, m_role = r, m_invited_by = invited_by, m_joined = now \<rparr>
                in (m, db\<lparr>memberships := memberships db @ [m]\<rparr>)
      | Some m \<Rightarrow> if ROLE_RANK r > ROLE_RANK (m_role m)
                  then (m\<lparr>m_role := r\<rparr>, set_role_row w u r db) else (m, db))"

definition ensure_member :: "slug \<Rightarrow> user_id \<Rightarrow> role \<Rightarrow> instant \<Rightarrow> wsdb \<Rightarrow> (membership \<times> bool) \<times> wsdb" where
  "ensure_member w u r now db =
     (case row_of db u w of
        None \<Rightarrow> let m = \<lparr> m_workspace = w, m_user = u, m_role = r, m_invited_by = None, m_joined = now \<rparr>
                in ((m, True), db\<lparr>memberships := memberships db @ [m]\<rparr>)
      | Some m \<Rightarrow> ((m, False), db))"

definition add_tree_member :: "slug \<Rightarrow> user_id \<Rightarrow> string \<Rightarrow> slug set \<Rightarrow> user_id option \<Rightarrow> instant
    \<Rightarrow> wsdb \<Rightarrow> (member_error + membership) \<times> wsdb" where
  "add_tree_member w u role_str visible by' now db =
     (case role_of_name role_str of None \<Rightarrow> (Inl InvalidRole, db)
      | Some r \<Rightarrow>
        if u \<notin> set (users db) then (Inl MemberNotFound, db)
        else let root = root_of (workspaces db) w;
                 theirs = filter (\<lambda>s. s \<in> visible) (user_workspace_slugs db u)
             in if theirs = [] \<or> root \<notin> snd ` set (tree_roots (workspaces db) theirs)
                then (Inl MemberNotFound, db)
                else if row_of db u w \<noteq> None then (Inl AlreadyMember, db)
                else (case grant_role w u r by' now db of (m, db') \<Rightarrow> (Inr m, db')))"


section \<open>Joining roles\<close>

lemma better_simps [simp]:
  "better None b = b" "better a None = a"
  "better (Some x) (Some y) = Some (max x y)"
  by (auto simp: better_def max_def less_eq_role_def split: option.split)

lemma better_left_iff: "better (Some x) (Some y) = Some x \<longleftrightarrow> y \<le> x"
  by (auto simp: max_def)

lemma fold_better:
  "fold (\<lambda>r best. better best (Some r)) rs b
    = (if rs = [] then b else better b (Some (Max (set rs))))"
proof (induction rs arbitrary: b)
  case (Cons r rs)
  show ?case
    by (cases "rs = []"; cases b) (simp_all add: Cons.IH max.assoc)
qed simp

text \<open>The inheriting roles a person holds above a workspace, and the strongest of them.\<close>

definition upstream_roles :: "wsdb \<Rightarrow> user_id \<Rightarrow> slug \<Rightarrow> role set" where
  "upstream_roles db u w = {m_role m |m. m \<in> set (memberships db) \<and> m_user m = u
     \<and> m_workspace m \<in> set (ancestor_slugs (workspaces db) w) \<and> m_role m \<in> set INHERITS_DOWN}"

definition strongest_in :: "role set \<Rightarrow> role option" where
  "strongest_in R = (if R = {} then None else Some (Max R))"

lemma finite_upstream: "finite (upstream_roles db u w)"
proof -
  have "upstream_roles db u w \<subseteq> m_role ` set (memberships db)" by (auto simp: upstream_roles_def)
  then show ?thesis by (rule finite_subset) simp
qed

lemma ancestor_slugs_no_parent:
  assumes "distinct (map ws_slug tbl)" and "parent_of tbl w = None"
  shows "ancestor_slugs tbl w = []"
  using assms(2) by (simp add: ancestor_slugs_eq [OF assms(1)] MAX_DEPTH_def numeral_eq_Suc)

lemma inherited_role_eq:
  assumes "distinct (map ws_slug (workspaces db))"
  shows "inherited_role db u w = strongest_in (upstream_roles db u w)"
proof (cases "parent_of (workspaces db) w")
  case None
  then have "upstream_roles db u w = {}"
    by (simp add: upstream_roles_def ancestor_slugs_no_parent [OF assms])
  moreover have "inherited_role db u w = None"
    using None by (auto simp: inherited_role_def parent_of_def split: option.splits)
  ultimately show ?thesis by (simp add: strongest_in_def)
next
  case (Some q)
  let ?rs = "map m_role (filter (\<lambda>m. m_user m = u
    \<and> m_workspace m \<in> set (ancestor_slugs (workspaces db) w) \<and> m_role m \<in> set INHERITS_DOWN) (memberships db))"
  have "inherited_role db u w = fold (\<lambda>r best. better best (Some r)) ?rs None"
    using Some by (simp add: inherited_role_def parent_of_def Let_def split: option.splits)
  moreover have rs: "set ?rs = upstream_roles db u w" by (auto simp: upstream_roles_def)
  have "fold (\<lambda>r best. better best (Some r)) ?rs None = strongest_in (set ?rs)"
    by (simp only: fold_better strongest_in_def better_simps set_empty)
  ultimately show ?thesis unfolding rs by simp
qed

lemma row_of_Some: "row_of db u w = Some m \<Longrightarrow> m \<in> set (memberships db) \<and> m_user m = u \<and> m_workspace m = w"
  by (auto simp: row_of_def find_Some_iff)

lemma direct_roles_lookup: "map_of (direct_roles db u) w = map_option m_role (row_of db u w)"
proof -
  have "map_of (map (\<lambda>m. (m_workspace m, m_role m)) (filter (\<lambda>m. m_user m = u) ms)) w
      = map_option m_role (find (\<lambda>m. m_user m = u \<and> m_workspace m = w) ms)" for ms :: "membership list"
    by (induction ms) auto
  then show ?thesis by (simp add: direct_roles_def row_of_def)
qed

text \<open>The role of an uncapped person: the stronger of the direct row and the strongest upstream
  role.\<close>

lemma uncapped_role:
  assumes "distinct (map ws_slug (workspaces db))"
  shows "map_option e_role (uncapped_membership db u w)
    = better (map_of (direct_roles db u) w) (strongest_in (upstream_roles db u w))"
  unfolding direct_roles_lookup inherited_role_eq [OF assms, symmetric]
  by (auto simp: uncapped_membership_def direct_row_def Let_def max_def less_eq_role_def
      split: option.split)

lemma member_role_eq:
  assumes "distinct (map ws_slug (workspaces db))"
  shows "member_role db a w = capped_role
    (better (map_of (direct_roles db (actor_id a)) w) (strongest_in (upstream_roles db (actor_id a) w))) (acts_as a)"
proof -
  have "member_role db a w = capped_role (map_option e_role (uncapped_membership db (actor_id a) w)) (acts_as a)"
  proof (cases "uncapped_membership db (actor_id a) w")
    case (Some row)
    obtain r where "capped_role (Some (e_role row)) (acts_as a) = Some r"
      by (simp add: capped_role_min)
    then show ?thesis using Some by (simp add: member_role_def membership_of_def)
  qed (simp add: member_role_def membership_of_def)
  then show ?thesis by (simp only: uncapped_role [OF assms])
qed

lemma is_member_iff: "is_member db a w \<longleftrightarrow> member_role db a w \<noteq> None"
  by (simp add: is_member_def member_role_def)


section \<open>The listing walk\<close>

text \<open>Where a person holds an inheriting role, and what the walk hands a workspace below: the role
  of the nearest such workspace above it.\<close>

definition inherit_sites :: "(slug \<times> role) list \<Rightarrow> slug set" where
  "inherit_sites direct = fst ` set (filter (\<lambda>(s, r). r \<in> set INHERITS_DOWN) direct)"

definition handed_down :: "workspace list \<Rightarrow> (slug \<times> role) list \<Rightarrow> nat \<Rightarrow> slug \<Rightarrow> role option" where
  "handed_down tbl direct n s =
     (case nearest (parent_of tbl) (inherit_sites direct) n s of None \<Rightarrow> None | Some a \<Rightarrow> map_of direct a)"

definition walk_inv :: "workspace list \<Rightarrow> (slug \<times> role) list \<Rightarrow> nat \<Rightarrow> (slug \<times> role) list \<Rightarrow> slug set
    \<Rightarrow> (slug \<times> role) list \<Rightarrow> bool" where
  "walk_inv tbl direct n carry seen out \<longleftrightarrow>
     (let W = within (parent_of tbl) (inherit_sites direct) in
      (\<forall>x. map_of carry x = (if x \<in> W n \<and> (\<forall>m<n. x \<notin> W m) then handed_down tbl direct n x else None))
      \<and> seen = W n
      \<and> (\<forall>x. map_of out x = (if x \<in> W n \<and> x \<notin> inherit_sites direct then handed_down tbl direct n x else None))
      \<and> distinct (map fst out))"

lemma inherit_site_role:
  assumes "distinct (map fst direct)"
  shows "x \<in> inherit_sites direct \<longleftrightarrow> (\<exists>r. map_of direct x = Some r \<and> r \<in> set INHERITS_DOWN)"
  using assms by (force simp: inherit_sites_def)

lemma handed_down_Some:
  assumes "distinct (map fst direct)" and "x \<in> within (parent_of tbl) (inherit_sites direct) n"
  shows "\<exists>r. handed_down tbl direct n x = Some r \<and> r \<in> set INHERITS_DOWN"
proof -
  obtain a where a: "nearest (parent_of tbl) (inherit_sites direct) n x = Some a"
    using assms(2) nearest_within [of "parent_of tbl" "inherit_sites direct" n x] by auto
  then have "a \<in> inherit_sites direct" using nearest_climb by blast
  then show ?thesis using a inherit_site_role [OF assms(1)] by (auto simp: handed_down_def)
qed

lemma handed_down_Suc:
  "x \<in> within (parent_of tbl) (inherit_sites direct) n \<Longrightarrow>
     handed_down tbl direct (Suc n) x = handed_down tbl direct n x"
  using nearest_within [of "parent_of tbl" "inherit_sites direct" n x]
    nearest_Suc [of "parent_of tbl" "inherit_sites direct" n x]
  by (auto simp: handed_down_def simp del: nearest.simps)

lemma handed_down_child:
  "x \<notin> inherit_sites direct \<Longrightarrow> parent_of tbl x = Some q \<Longrightarrow>
     handed_down tbl direct (Suc n) x = handed_down tbl direct n q"
  by (simp add: handed_down_def)

lemma map_of_walk_step:
  assumes "distinct (map ws_slug tbl)" and "fst ` set carry \<subseteq> P"
  shows "map_of (walk_step (child_rows tbl P) carry seen) x =
    (case parent_of tbl x of None \<Rightarrow> None
     | Some q \<Rightarrow> if x \<in> seen then None else map_of carry q)"
    and "distinct (map fst (walk_step (child_rows tbl P) carry seen))"
proof -
  let ?f = "\<lambda>(slug, parent). case map_of carry parent of None \<Rightarrow> None
     | Some got \<Rightarrow> if slug \<in> seen then None else Some (slug, got)"
  have sub: "fst ` set (List.map_filter ?f cs) \<subseteq> fst ` set cs" for cs
    by (auto simp: set_map_filter_Some split: option.splits if_splits) force
  have dist: "distinct (map fst cs) \<Longrightarrow> distinct (map fst (List.map_filter ?f cs))" for cs
  proof (induction cs)
    case (Cons c cs)
    then show ?case using sub [of cs] by (cases c) (auto split: option.splits)
  qed simp
  show d: "distinct (map fst (walk_step (child_rows tbl P) carry seen))"
    unfolding walk_step_def by (rule dist) (rule child_rows_distinct [OF assms(1)])
  have mem: "(x, r) \<in> set (walk_step (child_rows tbl P) carry seen) \<longleftrightarrow>
      (\<exists>q. parent_of tbl x = Some q \<and> x \<notin> seen \<and> map_of carry q = Some r)" for r
  proof -
    have "(x, r) \<in> set (walk_step (child_rows tbl P) carry seen) \<longleftrightarrow>
        (\<exists>q. (x, q) \<in> set (child_rows tbl P) \<and> x \<notin> seen \<and> map_of carry q = Some r)"
      by (auto simp: walk_step_def set_map_filter_Some split: option.splits if_splits) force
    moreover have "map_of carry q = Some r \<Longrightarrow> q \<in> P" for q
      using assms(2) by (force dest: map_of_SomeD)
    ultimately show ?thesis by (auto simp: set_child_rows [OF assms(1)])
  qed
  show "map_of (walk_step (child_rows tbl P) carry seen) x =
    (case parent_of tbl x of None \<Rightarrow> None
     | Some q \<Rightarrow> if x \<in> seen then None else map_of carry q)" (is "?l = ?r")
  proof (cases ?l)
    case None
    then have "\<And>r. (x, r) \<notin> set (walk_step (child_rows tbl P) carry seen)"
      by (auto simp: map_of_eq_None_iff image_iff)
    then have "parent_of tbl x = Some q \<Longrightarrow> x \<notin> seen \<Longrightarrow> map_of carry q = None" for q
      using mem by (cases "map_of carry q") auto
    then show ?thesis using None by (auto split: option.split)
  next
    case (Some r)
    then have "(x, r) \<in> set (walk_step (child_rows tbl P) carry seen)" by (rule map_of_SomeD)
    then show ?thesis using Some mem by auto
  qed
qed


lemma walk_inv_step:
  assumes dist: "distinct (map ws_slug tbl)" "distinct (map fst direct)"
    and inv: "walk_inv tbl direct n carry seen out" and sub: "fst ` set carry \<subseteq> P"
    and step: "step = walk_step (child_rows tbl P) carry seen"
  shows "walk_inv tbl direct (Suc n) (walk_carry direct step) (seen \<union> fst ` set step) (out @ step)"
proof -
  let ?p = "parent_of tbl" and ?I = "inherit_sites direct"
  let ?W = "within ?p ?I"
  have carry: "map_of carry x = (if x \<in> ?W n \<and> (\<forall>m<n. x \<notin> ?W m) then handed_down tbl direct n x else None)"
    and seen: "seen = ?W n"
    and out: "map_of out x = (if x \<in> ?W n \<and> x \<notin> ?I then handed_down tbl direct n x else None)"
    and out_dist: "distinct (map fst out)" for x
    using inv by (simp_all add: walk_inv_def Let_def)
  have I_sub: "?I \<subseteq> ?W m" for m using within_mono [of 0 m ?p ?I] by simp
  have fresh: "x \<in> ?W (Suc n) \<and> (\<forall>m<Suc n. x \<notin> ?W m) \<longleftrightarrow> x \<in> ?W (Suc n) \<and> x \<notin> ?W n" for x
    using within_mono [of _ n ?p ?I] by (auto simp: less_Suc_eq_le)
  have step_at: "map_of step x = (if x \<in> ?W (Suc n) \<and> x \<notin> ?W n then handed_down tbl direct (Suc n) x else None)" for x
  proof (cases "x \<in> ?W n")
    case True
    then show ?thesis
      using map_of_walk_step(1) [OF dist(1) sub] seen by (simp add: step split: option.split)
  next
    case False
    then have notI: "x \<notin> ?I" using I_sub by blast
    show ?thesis
    proof (cases "?p x")
      case None
      then have "x \<notin> ?W (Suc n)" using within_Suc [of x ?p ?I n] notI by simp
      then show ?thesis using None map_of_walk_step(1) [OF dist(1) sub] by (simp add: step)
    next
      case (Some q)
      have q: "x \<in> ?W (Suc n) \<longleftrightarrow> q \<in> ?W n" using within_Suc [of x ?p ?I n] notI Some by simp
      have q_new: "q \<notin> ?W m" if "m < n" for m
      proof
        assume "q \<in> ?W m"
        then have "x \<in> ?W (Suc m)" using within_Suc [of x ?p ?I m] Some by simp
        then show False using False within_mono [of "Suc m" n ?p ?I] that by auto
      qed
      have "map_of step x = map_of carry q"
        using map_of_walk_step(1) [OF dist(1) sub] Some False seen by (simp add: step)
      also have "\<dots> = (if q \<in> ?W n then handed_down tbl direct n q else None)"
        using carry [of q] q_new by simp
      finally show ?thesis using handed_down_child [OF notI Some] q False by simp
    qed
  qed
  have step_dist: "distinct (map fst step)"
    unfolding step by (rule map_of_walk_step(2) [OF dist(1) sub])
  have step_keys: "x \<in> fst ` set step \<longleftrightarrow> x \<in> ?W (Suc n) \<and> x \<notin> ?W n" for x
  proof -
    have "x \<in> fst ` set step \<longleftrightarrow> map_of step x \<noteq> None" by (simp add: map_of_eq_None_iff)
    also have "\<dots> \<longleftrightarrow> x \<in> ?W (Suc n) \<and> x \<notin> ?W n"
      using step_at [of x] handed_down_Some [OF dist(2), of x tbl "Suc n"] by auto
    finally show ?thesis .
  qed
  have out_keys: "x \<in> fst ` set out \<Longrightarrow> x \<in> ?W n" for x
  proof -
    assume "x \<in> fst ` set out"
    then have "map_of out x \<noteq> None" by (simp add: map_of_eq_None_iff)
    then show "x \<in> ?W n" using out [of x] by (auto split: if_splits)
  qed
  have "walk_carry direct step = step"
  proof -
    have "own \<notin> set INHERITS_DOWN" if "(x, got) \<in> set step" "map_of direct x = Some own" for x got own
    proof -
      have "x \<in> fst ` set step" using that(1) by force
      then have "x \<notin> ?I" using step_keys I_sub by blast
      then show ?thesis using inherit_site_role [OF dist(2)] that(2) by blast
    qed
    then show ?thesis
      unfolding walk_carry_def by (intro map_idI) (auto split: option.split)
  qed
  moreover have "seen \<union> fst ` set step = ?W (Suc n)"
    using seen step_keys within_mono [of n "Suc n" ?p ?I] by auto
  moreover have "map_of (out @ step) x = (if x \<in> ?W (Suc n) \<and> x \<notin> ?I then handed_down tbl direct (Suc n) x else None)" for x
  proof (cases "x \<in> ?W n")
    case True
    then have "map_of step x = None" using step_at by simp
    then show ?thesis
      using True out [of x] handed_down_Suc [OF True] within_mono [of n "Suc n" ?p ?I]
      by (auto simp: map_add_def split: option.split)
  next
    case False
    then have "map_of out x = None" using out_keys by (auto simp: map_of_eq_None_iff)
    then show ?thesis using step_at [of x] False I_sub by (auto simp: map_add_def split: option.split)
  qed
  moreover have "distinct (map fst (out @ step))"
    using out_dist step_dist out_keys step_keys by auto
  ultimately show ?thesis
    unfolding walk_inv_def Let_def using step_at fresh by simp
qed

definition walk_result :: "workspace list \<Rightarrow> (slug \<times> role) list \<Rightarrow> nat \<Rightarrow> (slug \<times> role) list \<Rightarrow> bool" where
  "walk_result tbl direct n out \<longleftrightarrow>
     (\<forall>x. map_of out x = (if x \<in> within (parent_of tbl) (inherit_sites direct) n \<and> x \<notin> inherit_sites direct
        then handed_down tbl direct n x else None)) \<and> distinct (map fst out)"

lemma walk_inv_result: "walk_inv tbl direct n carry seen out \<Longrightarrow> walk_result tbl direct n out"
  by (simp add: walk_inv_def walk_result_def Let_def)

lemma walk_inv_stop:
  assumes dist: "distinct (map fst direct)"
    and inv: "walk_inv tbl direct n [] seen out"
  shows "walk_result tbl direct (n + k) out"
proof -
  let ?p = "parent_of tbl" and ?I = "inherit_sites direct"
  let ?W = "within ?p ?I"
  have empty: "\<not> (x \<in> ?W n \<and> (\<forall>m<n. x \<notin> ?W m))" for x
  proof
    assume x: "x \<in> ?W n \<and> (\<forall>m<n. x \<notin> ?W m)"
    have "\<forall>y. map_of [] y = (if y \<in> ?W n \<and> (\<forall>m<n. y \<notin> ?W m) then handed_down tbl direct n y else None)"
      using inv unfolding walk_inv_def Let_def by (rule conjunct1)
    from spec [OF this, of x] have "handed_down tbl direct n x = None"
      unfolding if_P [OF x] by simp
    then show False using handed_down_Some [OF dist] x by force
  qed
  have stable: "?W (Suc n) \<subseteq> ?W n"
  proof
    fix x assume "x \<in> ?W (Suc n)"
    then consider "x \<in> ?I" | q where "?p x = Some q" "q \<in> ?W n" using within_Suc [of x ?p ?I n] by blast
    then show "x \<in> ?W n"
    proof cases
      case 1
      then show ?thesis using within_mono [of 0 n ?p ?I] by auto
    next
      case 2
      then obtain m where "m < n" "q \<in> ?W m" using empty [of q] by blast
      then have "x \<in> ?W (Suc m)" using within_Suc [of x ?p ?I m] 2(1) by blast
      then show ?thesis using within_mono [of "Suc m" n ?p ?I] \<open>m < n\<close> by auto
    qed
  qed
  have W: "?W (n + k) = ?W n" using within_stable [OF stable] .
  have down: "x \<in> ?W n \<Longrightarrow> handed_down tbl direct (n + k) x = handed_down tbl direct n x" for x
  proof (induction k)
    case (Suc k)
    have "x \<in> ?W (n + k)" using Suc.prems within_mono [of n "n + k" ?p ?I] by auto
    then show ?case using handed_down_Suc Suc by simp
  qed simp
  show ?thesis
    using walk_inv_result [OF inv] down unfolding walk_result_def W by auto
qed

lemma inherit_levels_result:
  assumes "distinct (map ws_slug tbl)" and "uid \<in> set uids"
    and "\<And>v. v \<in> set uids \<Longrightarrow> distinct (map fst (direct v))"
    and "\<And>v. v \<in> set uids \<Longrightarrow> walk_inv tbl (direct v) n (frontier v) (seen v) (out v)"
  shows "walk_result tbl (direct uid) (n + k) (inherit_levels tbl direct uids k frontier seen out uid)"
  using assms(4)
proof (induction k arbitrary: n frontier seen out)
  case 0
  then show ?case using walk_inv_result [OF "0.prems" [OF assms(2)]] by simp
next
  case (Suc k)
  define P where "P = (\<Union>v\<in>set uids. fst ` set (frontier v))"
  show ?case
  proof (cases "P = {}")
    case True
    then have "frontier uid = []" using assms(2) by (auto simp: P_def)
    then have "walk_inv tbl (direct uid) n [] (seen uid) (out uid)" using Suc.prems [OF assms(2)] by simp
    then have "walk_result tbl (direct uid) (n + Suc k) (out uid)"
      by (rule walk_inv_stop [OF assms(3) [OF assms(2)]])
    then show ?thesis using True by (simp add: P_def)
  next
    case False
    define step where "step = (\<lambda>v. walk_step (child_rows tbl P) (frontier v) (seen v))"
    have inv: "walk_inv tbl (direct v) (Suc n) (walk_carry (direct v) (step v))
        (seen v \<union> fst ` set (step v)) (out v @ step v)" if "v \<in> set uids" for v
      by (rule walk_inv_step [OF assms(1) assms(3) [OF that] Suc.prems [OF that]])
        (use that in \<open>auto simp: P_def step_def\<close>)
    have "walk_result tbl (direct uid) (Suc n + k) (inherit_levels tbl direct uids k
        (\<lambda>v. walk_carry (direct v) (step v)) (\<lambda>v. seen v \<union> fst ` set (step v)) (\<lambda>v. out v @ step v) uid)"
      by (rule Suc.IH) (rule inv)
    then show ?thesis using False by (simp add: P_def [symmetric] step_def Let_def)
  qed
qed

lemma inherited_roles_result:
  assumes "distinct (map ws_slug (workspaces db))" and "uid \<in> set uids"
    and "\<And>v. v \<in> set uids \<Longrightarrow> distinct (map fst (direct v))"
  shows "walk_result (workspaces db) (direct uid) MAX_DEPTH (inherited_roles_of db uids direct uid)"
proof -
  let ?tbl = "workspaces db"
  define frontier where "frontier = (\<lambda>v :: user_id. filter (\<lambda>(s, r). r \<in> set INHERITS_DOWN) (direct v))"
  have "walk_inv ?tbl (direct v) 0 (frontier v) (fst ` set (frontier v)) []" if v: "v \<in> set uids" for v
  proof -
    have sites: "fst ` set (frontier v) = inherit_sites (direct v)"
      by (simp add: frontier_def inherit_sites_def)
    have "map_of (frontier v) x = (if x \<in> inherit_sites (direct v) then handed_down ?tbl (direct v) 0 x else None)" for x
    proof (cases "x \<in> inherit_sites (direct v)")
      case True
      then obtain r where r: "map_of (direct v) x = Some r" "r \<in> set INHERITS_DOWN"
        using inherit_site_role [OF assms(3) [OF v]] by blast
      then have "(x, r) \<in> set (frontier v)" by (auto simp: frontier_def dest: map_of_SomeD)
      moreover have "distinct (map fst (frontier v))"
        unfolding frontier_def by (rule distinct_map_filter) (rule assms(3) [OF v])
      ultimately show ?thesis using True r by (simp add: handed_down_def)
    next
      case False
      then have "x \<notin> fst ` set (frontier v)" unfolding sites .
      then have "map_of (frontier v) x = None" by (simp only: map_of_eq_None_iff not_False_eq_True)
      then show ?thesis using False by simp
    qed
    then show ?thesis by (simp add: walk_inv_def sites)
  qed
  then have "walk_result ?tbl (direct uid) (0 + MAX_DEPTH) (inherit_levels ?tbl direct uids MAX_DEPTH frontier
      (\<lambda>v. fst ` set (frontier v)) (\<lambda>v. []) uid)"
    by (intro inherit_levels_result assms) simp_all
  then show ?thesis by (simp add: inherited_roles_of_def frontier_def Let_def)
qed


section \<open>Listing and gate agree\<close>

text \<open>Rows are unique per workspace and person, and every row's workspace exists.\<close>

definition wsdb_ok :: "wsdb \<Rightarrow> bool" where
  "wsdb_ok db \<longleftrightarrow> distinct (map ws_slug (workspaces db))
     \<and> distinct (map (\<lambda>m. (m_workspace m, m_user m)) (memberships db))
     \<and> (\<forall>m\<in>set (memberships db). m_workspace m \<in> ws_slug ` set (workspaces db))"

lemma wsdb_ok_slugs [dest]: "wsdb_ok db \<Longrightarrow> distinct (map ws_slug (workspaces db))"
  by (simp add: wsdb_ok_def)

lemma direct_roles_distinct:
  assumes "wsdb_ok db"
  shows "distinct (map fst (direct_roles db u))"
proof -
  have "distinct (map (\<lambda>m. (m_workspace m, m_user m)) ms) \<Longrightarrow>
      distinct (map (\<lambda>m. m_workspace m) (filter (\<lambda>m. m_user m = u) ms))" for ms :: "membership list"
    by (induction ms) (auto simp: image_iff)
  then show ?thesis using assms by (simp add: direct_roles_def wsdb_ok_def comp_def)
qed

lemma row_of_unique:
  assumes "wsdb_ok db" and "m \<in> set (memberships db)"
  shows "row_of db (m_user m) (m_workspace m) = Some m"
proof -
  have "distinct (map (\<lambda>m. (m_workspace m, m_user m)) ms) \<Longrightarrow> m \<in> set ms \<Longrightarrow>
      find (\<lambda>x. m_user x = m_user m \<and> m_workspace x = m_workspace m) ms = Some m" for ms :: "membership list"
    by (induction ms) (auto simp: image_iff)
  then show ?thesis using assms by (simp add: row_of_def wsdb_ok_def)
qed

lemma upstream_roles_direct:
  assumes "wsdb_ok db"
  shows "r \<in> upstream_roles db u w \<longleftrightarrow> (\<exists>x\<in>set (ancestor_slugs (workspaces db) w).
    map_of (direct_roles db u) x = Some r \<and> r \<in> set INHERITS_DOWN)"
proof
  assume "r \<in> upstream_roles db u w"
  then obtain m where m: "m \<in> set (memberships db)" "m_user m = u" "m_role m = r"
    "m_workspace m \<in> set (ancestor_slugs (workspaces db) w)" "r \<in> set INHERITS_DOWN"
    by (auto simp: upstream_roles_def)
  then have "map_of (direct_roles db u) (m_workspace m) = Some r"
    using row_of_unique [OF assms m(1)] by (simp add: direct_roles_lookup)
  then show "\<exists>x\<in>set (ancestor_slugs (workspaces db) w).
    map_of (direct_roles db u) x = Some r \<and> r \<in> set INHERITS_DOWN" using m by blast
next
  assume "\<exists>x\<in>set (ancestor_slugs (workspaces db) w).
    map_of (direct_roles db u) x = Some r \<and> r \<in> set INHERITS_DOWN"
  then obtain x m where "x \<in> set (ancestor_slugs (workspaces db) w)" "row_of db u x = Some m"
    "m_role m = r" "r \<in> set INHERITS_DOWN" by (auto simp: direct_roles_lookup)
  then show "r \<in> upstream_roles db u w"
    using row_of_Some [of db u x m] by (auto simp: upstream_roles_def)
qed

text \<open>What the walk lists for a workspace: nothing when the person holds an inheriting role there
  or on no ancestor, otherwise the role of one of the ancestors.\<close>

lemma inherited_roles_lookup:
  assumes ok: "wsdb_ok db" and u: "u \<in> set uids"
  shows "map_of (inherited_roles_of db uids (direct_roles db) u) w = Some r \<Longrightarrow> r \<in> upstream_roles db u w"
    and "map_of (inherited_roles_of db uids (direct_roles db) u) w = None \<longleftrightarrow>
      upstream_roles db u w = {} \<or> w \<in> inherit_sites (direct_roles db u)"
    and "distinct (map fst (inherited_roles_of db uids (direct_roles db) u))"
proof -
  let ?p = "parent_of (workspaces db)" and ?d = "direct_roles db u"
  let ?I = "inherit_sites ?d"
  note dd = direct_roles_distinct [OF ok, of u]
  note slugs = wsdb_ok_slugs [OF ok]
  have res: "walk_result (workspaces db) ?d MAX_DEPTH (inherited_roles_of db uids (direct_roles db) u)"
    by (rule inherited_roles_result [OF slugs u]) (rule direct_roles_distinct [OF ok])
  show "distinct (map fst (inherited_roles_of db uids (direct_roles db) u))"
    using res by (simp add: walk_result_def)
  have look: "map_of (inherited_roles_of db uids (direct_roles db) u) w
      = (if w \<in> within ?p ?I MAX_DEPTH \<and> w \<notin> ?I then handed_down (workspaces db) ?d MAX_DEPTH w else None)"
    using res by (simp add: walk_result_def)
  have above: "w \<in> within ?p ?I MAX_DEPTH \<longleftrightarrow> upstream_roles db u w \<noteq> {}" if "w \<notin> ?I"
  proof
    assume "w \<in> within ?p ?I MAX_DEPTH"
    then obtain k a where k: "k \<le> MAX_DEPTH" "a \<in> ?I" "climb ?p k w = Some a" by (auto simp: within_def)
    then have "a \<noteq> w" "0 < k" using that by (cases k; auto)+
    then have "a \<in> set (ancestor_slugs (workspaces db) w)"
      using k set_ancestor_slugs [OF slugs] by blast
    then show "upstream_roles db u w \<noteq> {}"
      using k(2) inherit_site_role [OF dd] upstream_roles_direct [OF ok, of _ u w] by blast
  next
    assume "upstream_roles db u w \<noteq> {}"
    then obtain r x where "x \<in> set (ancestor_slugs (workspaces db) w)" "map_of ?d x = Some r"
      "r \<in> set INHERITS_DOWN" using upstream_roles_direct [OF ok, of _ u w] by blast
    then show "w \<in> within ?p ?I MAX_DEPTH"
      using inherit_site_role [OF dd] set_ancestor_slugs [OF slugs] by (auto simp: within_def)
  qed
  then show "map_of (inherited_roles_of db uids (direct_roles db) u) w = None \<longleftrightarrow>
      upstream_roles db u w = {} \<or> w \<in> ?I"
    using look handed_down_Some [OF dd, of w "workspaces db" MAX_DEPTH] by auto
  assume r: "map_of (inherited_roles_of db uids (direct_roles db) u) w = Some r"
  then have w: "w \<in> within ?p ?I MAX_DEPTH" "w \<notin> ?I"
    and h: "handed_down (workspaces db) ?d MAX_DEPTH w = Some r" using look by (auto split: if_splits)
  then obtain a where a: "nearest ?p ?I MAX_DEPTH w = Some a" "map_of ?d a = Some r"
    by (auto simp: handed_down_def split: option.splits)
  then obtain k where k: "a \<in> ?I" "k \<le> MAX_DEPTH" "climb ?p k w = Some a" using nearest_climb by blast
  then have "a \<noteq> w" "0 < k" using w(2) by (cases k; auto)+
  then have "a \<in> set (ancestor_slugs (workspaces db) w)"
    using k set_ancestor_slugs [OF slugs] by blast
  then show "r \<in> upstream_roles db u w"
    using a(2) k(1) inherit_site_role [OF dd] upstream_roles_direct [OF ok, of r u w] by auto
qed

lemma map_of_fold_better:
  "distinct (map fst inh) \<Longrightarrow>
     map_of (fold (\<lambda>(s, r) acc. AList.update s (the (better (map_of acc s) (Some r))) acc) inh al) w
       = better (map_of al w) (map_of inh w)"
proof (induction inh arbitrary: al)
  case (Cons x inh)
  obtain s r where x: "x = (s, r)" by (cases x)
  have "map_of inh s = None" using Cons.prems x by (simp add: map_of_eq_None_iff)
  moreover obtain y where "better (map_of al s) (Some r) = Some y" by (cases "map_of al s") auto
  ultimately show ?case using Cons x by (simp add: update_conv')
qed simp

definition uncapped :: "user_id \<Rightarrow> actor" where
  "uncapped u = \<lparr> actor_id = u, authenticated = True, acts_as = Uncapped \<rparr>"

lemma uncapped_simps [simp]: "actor_id (uncapped u) = u" "authenticated (uncapped u)" "acts_as (uncapped u) = Uncapped"
  by (simp_all add: uncapped_def)

lemma member_roles_lookup:
  assumes "wsdb_ok db" and "a \<in> set actors"
  shows "map_of (member_roles_of db actors a) w = capped_role (better
    (map_of (direct_roles db (actor_id a)) w)
    (map_of (inherited_roles_of db (map actor_id actors) (direct_roles db) (actor_id a)) w)) (acts_as a)"
proof -
  have "actor_id a \<in> set (map actor_id actors)" using assms(2) by simp
  note dist = inherited_roles_lookup(3) [OF assms(1) this]
  have cap: "map_of (map (\<lambda>(s, r). (s, the (capped_role (Some r) c))) al) w = capped_role (map_of al w) c" for c al
  proof (induction al)
    case (Cons x al)
    then show ?case by (cases x) (simp add: capped_role_min)
  qed simp
  show ?thesis
    by (simp add: member_roles_of_def Let_def map_of_fold_better [OF dist] cap)
qed

lemma capped_role_mono:
  "r \<le> r' \<Longrightarrow> capped_role (Some r) c = Some x \<Longrightarrow> capped_role (Some r') c = Some y \<Longrightarrow> x \<le> y"
  by (cases c) (auto simp: capped_role_min min_def split: if_splits)

text \<open>The two readers hold a role in the same workspaces, and the listing never answers a
  stronger role than the gate.\<close>

lemma strongest_in_iff: "finite R \<Longrightarrow> r \<in> R \<Longrightarrow> \<exists>x. strongest_in R = Some x \<and> r \<le> x"
  by (auto simp: strongest_in_def)

lemma member_roles_domain:
  assumes "wsdb_ok db" and "a \<in> set actors"
  shows "map_of (member_roles_of db actors a) w = None \<longleftrightarrow> member_role db a w = None"
proof -
  have u: "actor_id a \<in> set (map actor_id actors)" using assms(2) by simp
  let ?d = "map_of (direct_roles db (actor_id a)) w"
  show ?thesis
  proof (cases ?d)
    case None
    then have "w \<notin> inherit_sites (direct_roles db (actor_id a))"
      by (auto simp: inherit_sites_def map_of_eq_None_iff image_iff)
    then show ?thesis
      unfolding member_roles_lookup [OF assms] member_role_eq [OF wsdb_ok_slugs [OF assms(1)]]
      using inherited_roles_lookup(2) [OF assms(1) u, of w] None by (simp add: strongest_in_def)
  next
    case (Some r)
    then show ?thesis
      unfolding member_roles_lookup [OF assms] member_role_eq [OF wsdb_ok_slugs [OF assms(1)]]
      by (cases "map_of (inherited_roles_of db (map actor_id actors) (direct_roles db) (actor_id a)) w";
          cases "strongest_in (upstream_roles db (actor_id a) w)") simp_all
  qed
qed

lemma member_roles_le:
  assumes "wsdb_ok db" and "a \<in> set actors" and "map_of (member_roles_of db actors a) w = Some r"
  shows "\<exists>r'. member_role db a w = Some r' \<and> r \<le> r'"
proof -
  have u: "actor_id a \<in> set (map actor_id actors)" using assms(2) by simp
  let ?d = "map_of (direct_roles db (actor_id a)) w"
  let ?i = "map_of (inherited_roles_of db (map actor_id actors) (direct_roles db) (actor_id a)) w"
  let ?s = "strongest_in (upstream_roles db (actor_id a) w)"
  have i: "?i = Some x \<Longrightarrow> \<exists>y. ?s = Some y \<and> x \<le> y" for x
    using inherited_roles_lookup(1) [OF assms(1) u, of w x] strongest_in_iff [OF finite_upstream] by blast
  obtain r0 where r0: "better ?d ?i = Some r0" "capped_role (Some r0) (acts_as a) = Some r"
    using assms(3) unfolding member_roles_lookup [OF assms(1,2)]
    by (cases "better ?d ?i") simp_all
  have "\<exists>r1. better ?d ?s = Some r1 \<and> r0 \<le> r1"
    using r0(1) i by (cases ?d; cases ?i; cases ?s) (auto simp: max.coboundedI2 le_max_iff_disj)
  then obtain r1 where r1: "better ?d ?s = Some r1" "r0 \<le> r1" by blast
  obtain r' where "capped_role (Some r1) (acts_as a) = Some r'" by (simp add: capped_role_min)
  then show ?thesis
    using r1 r0(2) capped_role_mono unfolding member_role_eq [OF wsdb_ok_slugs [OF assms(1)]] by auto
qed

text \<open>Where the two do differ, the listing still has an inheriting role: they can only disagree about who
  owns.\<close>

lemma member_roles_gap:
  assumes ok: "wsdb_ok db" and a: "a \<in> set actors" and free: "acts_as a = Uncapped"
    and gate: "member_role db a w = Some r'"
  shows "\<exists>r. map_of (member_roles_of db actors a) w = Some r \<and> (r = r' \<or> Admin \<le> r)"
proof -
  have u: "actor_id a \<in> set (map actor_id actors)" using a by simp
  let ?d = "map_of (direct_roles db (actor_id a)) w"
  let ?i = "map_of (inherited_roles_of db (map actor_id actors) (direct_roles db) (actor_id a)) w"
  let ?s = "strongest_in (upstream_roles db (actor_id a) w)"
  have inh: "r \<in> set INHERITS_DOWN \<Longrightarrow> Admin \<le> r" for r
    by (auto simp: INHERITS_DOWN_def less_eq_role_def)
  have uncap: "capped_role x (acts_as a) = x" for x by (cases x) (simp_all add: free capped_role_min)
  have both: "map_of (member_roles_of db actors a) w = better ?d ?i" "Some r' = better ?d ?s"
    using gate by (simp_all add: member_roles_lookup [OF ok a] member_role_eq [OF wsdb_ok_slugs [OF ok]] uncap)
  show ?thesis
  proof (cases ?i)
    case (Some x)
    then have "Admin \<le> x"
      using inherited_roles_lookup(1) [OF ok u Some] upstream_roles_direct [OF ok] inh by blast
    then show ?thesis using both Some by (cases ?d) (auto simp: le_max_iff_disj)
  next
    case None
    show ?thesis
    proof (cases "upstream_roles db (actor_id a) w = {}")
      case True
      then show ?thesis using both None by (intro exI [of _ r']) (simp add: strongest_in_def)
    next
      case False
      then obtain y where "?d = Some y" "y \<in> set INHERITS_DOWN"
        using None inherited_roles_lookup(2) [OF ok u] inherit_site_role [OF direct_roles_distinct [OF ok]] by blast
      then show ?thesis using both None inh by simp
    qed
  qed
qed

text \<open>No inheriting role held directly is weaker than one held further up.\<close>

definition inherits_monotone :: "wsdb \<Rightarrow> user_id \<Rightarrow> bool" where
  "inherits_monotone db u \<longleftrightarrow> (\<forall>(s, r)\<in>set (direct_roles db u). r \<in> set INHERITS_DOWN \<longrightarrow>
     (\<forall>(x, q)\<in>set (direct_roles db u). q \<in> set INHERITS_DOWN \<longrightarrow>
        x \<in> set (ancestor_slugs (workspaces db) s) \<longrightarrow> q \<le> r))"

lemma inherits_monotoneD:
  "inherits_monotone db u \<Longrightarrow> map_of (direct_roles db u) s = Some r \<Longrightarrow> r \<in> set INHERITS_DOWN \<Longrightarrow>
   map_of (direct_roles db u) x = Some q \<Longrightarrow> q \<in> set INHERITS_DOWN \<Longrightarrow>
   x \<in> set (ancestor_slugs (workspaces db) s) \<Longrightarrow> q \<le> r"
  unfolding inherits_monotone_def by (drule map_of_SomeD)+ blast

lemma inherited_is_strongest:
  assumes ok: "wsdb_ok db" and u: "u \<in> set uids" and mono: "inherits_monotone db u"
    and r: "map_of (inherited_roles_of db uids (direct_roles db) u) w = Some r"
  shows "strongest_in (upstream_roles db u w) = Some r"
proof -
  let ?p = "parent_of (workspaces db)" and ?d = "direct_roles db u"
  let ?I = "inherit_sites ?d"
  note dd = direct_roles_distinct [OF ok, of u]
  note slugs = wsdb_ok_slugs [OF ok]
  have res: "walk_result (workspaces db) ?d MAX_DEPTH (inherited_roles_of db uids (direct_roles db) u)"
    by (rule inherited_roles_result [OF slugs u]) (rule direct_roles_distinct [OF ok])
  have w: "w \<notin> ?I" "handed_down (workspaces db) ?d MAX_DEPTH w = Some r"
    using res r by (auto simp: walk_result_def split: if_splits)
  then obtain a where a: "nearest ?p ?I MAX_DEPTH w = Some a" "map_of ?d a = Some r"
    by (auto simp: handed_down_def split: option.splits)
  obtain k where k: "a \<in> ?I" "k \<le> MAX_DEPTH" "climb ?p k w = Some a"
    "\<forall>i<k. \<forall>x. climb ?p i w = Some x \<longrightarrow> x \<notin> ?I"
    using nearest_climb [OF a(1)] by blast
  have r_inh: "r \<in> set INHERITS_DOWN" using k(1) a(2) inherit_site_role [OF dd] by auto
  have "q \<le> r" if q: "q \<in> upstream_roles db u w" for q
  proof -
    obtain x where x: "x \<in> set (ancestor_slugs (workspaces db) w)" "map_of ?d x = Some q" "q \<in> set INHERITS_DOWN"
      using q upstream_roles_direct [OF ok, of q u w] by blast
    then obtain j where j: "j \<le> MAX_DEPTH" "climb ?p j w = Some x"
      using set_ancestor_slugs [OF slugs] by blast
    have "x \<in> ?I" using x inherit_site_role [OF dd] by auto
    then have "k \<le> j" using k(4) j(2) by (meson not_le)
    then have up: "climb ?p (j - k) a = Some x" using climb_add [of ?p k "j - k" w] k(3) j(2) by simp
    show ?thesis
    proof (cases "x = a")
      case False
      then have "0 < j - k" using up by (cases "j - k") auto
      then have "x \<in> set (ancestor_slugs (workspaces db) a)"
        using False up j(1) unfolding set_ancestor_slugs [OF slugs]
        by (intro conjI exI [of _ "j - k"]) simp_all
      then show ?thesis using inherits_monotoneD [OF mono a(2) r_inh x(2,3)] by blast
    qed (use a(2) x(2) in simp)
  qed
  moreover have "r \<in> upstream_roles db u w" by (rule inherited_roles_lookup(1) [OF ok u r])
  ultimately show ?thesis
    using finite_upstream [of db u w] by (auto simp: strongest_in_def intro: Max_eqI)
qed

lemma member_roles_parity:
  assumes ok: "wsdb_ok db" and a: "a \<in> set actors" and mono: "inherits_monotone db (actor_id a)"
  shows "map_of (member_roles_of db actors a) w = member_role db a w"
proof -
  have u: "actor_id a \<in> set (map actor_id actors)" using a by simp
  let ?d = "map_of (direct_roles db (actor_id a)) w"
  let ?i = "map_of (inherited_roles_of db (map actor_id actors) (direct_roles db) (actor_id a)) w"
  let ?s = "strongest_in (upstream_roles db (actor_id a) w)"
  have "better ?d ?i = better ?d ?s"
  proof (cases ?i)
    case (Some r)
    then show ?thesis using inherited_is_strongest [OF ok u mono] by simp
  next
    case None
    show ?thesis
    proof (cases "upstream_roles db (actor_id a) w = {}")
      case True
      then show ?thesis using None by (simp add: strongest_in_def)
    next
      case False
      then have "w \<in> inherit_sites (direct_roles db (actor_id a))"
        using None inherited_roles_lookup(2) [OF ok u] by blast
      then obtain r where r: "?d = Some r" "r \<in> set INHERITS_DOWN"
        using inherit_site_role [OF direct_roles_distinct [OF ok]] by blast
      have "Max (upstream_roles db (actor_id a) w) \<in> upstream_roles db (actor_id a) w"
        using finite_upstream False by (rule Max_in)
      then obtain x where "x \<in> set (ancestor_slugs (workspaces db) w)"
        "map_of (direct_roles db (actor_id a)) x = Some (Max (upstream_roles db (actor_id a) w))"
        "Max (upstream_roles db (actor_id a) w) \<in> set INHERITS_DOWN"
        using upstream_roles_direct [OF ok] by blast
      then have "Max (upstream_roles db (actor_id a) w) \<le> r"
        using inherits_monotoneD [OF mono r] by blast
      then show ?thesis using None r False by (simp add: strongest_in_def max_absorb1)
    qed
  qed
  then show ?thesis
    by (simp add: member_roles_lookup [OF ok a] member_role_eq [OF wsdb_ok_slugs [OF ok]])
qed


section \<open>Everyone who is in, one by one\<close>

lemma map_of_fold_rows:
  assumes "distinct (map m_user ms)"
  shows "map_of (fold (\<lambda>m acc. AList.update (m_user m) (f m) acc) ms al) u
    = (case find (\<lambda>m. m_user m = u) ms of None \<Rightarrow> map_of al u | Some m \<Rightarrow> Some (f m))"
  using assms
proof (induction ms arbitrary: al)
  case (Cons m ms)
  have "m_user m = u \<Longrightarrow> find (\<lambda>x. m_user x = u) ms = None"
    using Cons.prems by (auto simp: find_None_iff image_iff)
  then show ?case using Cons by (auto simp: update_conv' split: option.split)
qed simp

text \<open>The strongest upstream row per person.\<close>

definition best_ok :: "membership list \<Rightarrow> (user_id \<times> membership) list \<Rightarrow> bool" where
  "best_ok ups best \<longleftrightarrow> distinct (map fst best) \<and> (\<forall>u.
     (case map_of best u of
        None \<Rightarrow> \<forall>m\<in>set ups. m_user m \<noteq> u
      | Some b \<Rightarrow> b \<in> set ups \<and> m_user b = u \<and> (\<forall>m\<in>set ups. m_user m = u \<longrightarrow> m_role m \<le> m_role b)))"

lemma best_upstream_ok: "best_ok ups (best_upstream ups)"
proof -
  have "best_ok (done_ups @ ups) (fold (\<lambda>up best.
     case map_of best (m_user up) of
       None \<Rightarrow> AList.update (m_user up) up best
     | Some held \<Rightarrow>
         if better (Some (m_role held)) (Some (m_role up)) \<noteq> Some (m_role held)
         then AList.update (m_user up) up best else best) ups best)" if "best_ok done_ups best" for done_ups best
    using that
  proof (induction ups arbitrary: done_ups best)
    case (Cons up ups)
    let ?best = "case map_of best (m_user up) of
       None \<Rightarrow> AList.update (m_user up) up best
     | Some held \<Rightarrow>
         if better (Some (m_role held)) (Some (m_role up)) \<noteq> Some (m_role held)
         then AList.update (m_user up) up best else best"
    have pre: "distinct (map fst best)" and at: "\<And>u. case map_of best u of
        None \<Rightarrow> \<forall>m\<in>set done_ups. m_user m \<noteq> u
      | Some b \<Rightarrow> b \<in> set done_ups \<and> m_user b = u \<and> (\<forall>m\<in>set done_ups. m_user m = u \<longrightarrow> m_role m \<le> m_role b)"
      using Cons.prems by (simp_all add: best_ok_def)
    have "best_ok (done_ups @ [up]) ?best"
      unfolding best_ok_def
    proof (intro conjI allI)
      show "distinct (map fst ?best)" using pre by (auto simp: distinct_update split: option.split)
      fix u
      show "case map_of ?best u of
        None \<Rightarrow> \<forall>m\<in>set (done_ups @ [up]). m_user m \<noteq> u
      | Some b \<Rightarrow> b \<in> set (done_ups @ [up]) \<and> m_user b = u
          \<and> (\<forall>m\<in>set (done_ups @ [up]). m_user m = u \<longrightarrow> m_role m \<le> m_role b)"
      proof (cases "m_user up = u")
        case True
        then show ?thesis
          using at [of u] by (cases "map_of best u") (auto simp: update_conv' max_def split: if_splits)
      next
        case False
        then have "map_of ?best u = map_of best u"
          by (auto simp: update_conv' split: option.split)
        then show ?thesis using at [of u] False by (auto split: option.split)
      qed
    qed
    then have "best_ok ((done_ups @ [up]) @ ups) (fold (\<lambda>up best.
     case map_of best (m_user up) of
       None \<Rightarrow> AList.update (m_user up) up best
     | Some held \<Rightarrow>
         if better (Some (m_role held)) (Some (m_role up)) \<noteq> Some (m_role held)
         then AList.update (m_user up) up best else best) ups ?best)" by (rule Cons.IH)
    then show ?case by (simp only: fold.simps comp_apply append_assoc append_Cons append_Nil)
  qed simp
  from this [of "[]" "[]"] show ?thesis by (simp add: best_ok_def best_upstream_def)
qed

lemma merge_one_lookup:
  "map_option e_role (map_of (merge_one w (v, up) rows) u)
    = better (map_option e_role (map_of rows u)) (if u = v then Some (m_role up) else None)"
  by (auto simp: merge_one_def update_conv' synthetic_row_def max_def split: option.split if_splits)

lemma merge_lookup:
  assumes "distinct (map fst best)"
  shows "map_option e_role (map_of (fold (merge_one w) best rows) u)
    = better (map_option e_role (map_of rows u)) (map_option m_role (map_of best u))"
  using assms
proof (induction best arbitrary: rows)
  case (Cons b best)
  obtain v up where b: "b = (v, up)" by (cases b)
  have "map_of best v = None" using Cons.prems b by (simp add: map_of_eq_None_iff)
  then show ?case using Cons b by (simp add: merge_one_lookup)
qed simp

lemma merge_distinct:
  "distinct (map fst rows) \<Longrightarrow> distinct (map fst (fold (merge_one w) best rows))"
  by (induction best arbitrary: rows) (auto simp: merge_one_def distinct_update split: option.split prod.split)

lemma set_alist_update: "set (AList.update k v al) \<subseteq> insert (k, v) (set al)"
  by (induction al) (auto split: if_splits)

definition keyed_by_user :: "(user_id \<times> effective) list \<Rightarrow> bool" where
  "keyed_by_user rows \<longleftrightarrow> (\<forall>(v, e)\<in>set rows. e_user e = v)"

lemma direct_row_fields [simp]: "e_user (direct_row m) = m_user m" "e_role (direct_row m) = m_role m"
  by (simp_all add: direct_row_def)

lemma keyed_update: "keyed_by_user rows \<Longrightarrow> e_user e = v \<Longrightarrow> keyed_by_user (AList.update v e rows)"
  using set_alist_update [of v e rows] by (auto simp: keyed_by_user_def)

lemma keyed_merge:
  "keyed_by_user rows \<Longrightarrow> (\<forall>(v, m)\<in>set best. m_user m = v) \<Longrightarrow> keyed_by_user (fold (merge_one w) best rows)"
proof (induction best arbitrary: rows)
  case (Cons b best)
  obtain v up where b: "b = (v, up)" by (cases b)
  have "keyed_by_user (merge_one w (v, up) rows)"
    using Cons.prems b by (auto simp: merge_one_def synthetic_row_def intro!: keyed_update split: option.split)
  then show ?case using Cons b by simp
qed simp

lemma keyed_direct:
  "keyed_by_user al \<Longrightarrow>
     keyed_by_user (fold (\<lambda>m acc. AList.update (m_user m) (direct_row m) acc) ms al)"
  by (induction ms arbitrary: al) (simp_all add: keyed_update)

lemma distinct_direct:
  "distinct (map fst al) \<Longrightarrow>
     distinct (map fst (fold (\<lambda>m acc. AList.update (m_user m) (direct_row m) acc) ms al))"
  by (induction ms arbitrary: al) (auto simp: distinct_update)

lemma distinct_here:
  "distinct (map (\<lambda>m. (m_workspace m, m_user m)) ms) \<Longrightarrow>
     distinct (map m_user (filter (\<lambda>m. m_workspace m = w) ms))" for ms :: "membership list"
  by (induction ms) (auto simp: image_iff)

lemma direct_rows_lookup:
  assumes ok: "wsdb_ok db" and here: "here = sort_key m_joined (filter (\<lambda>m. m_workspace m = w) (memberships db))"
  shows "map_option e_role (map_of (fold (\<lambda>m acc. AList.update (m_user m) (direct_row m) acc) here []) u)
    = map_of (direct_roles db u) w"
proof -
  have dist: "distinct (map m_user here)"
    using ok distinct_here [of "memberships db" w] by (simp add: here wsdb_ok_def distinct_map)
  have row: "map_of (fold (\<lambda>m acc. AList.update (m_user m) (direct_row m) acc) here []) u
      = map_option direct_row (find (\<lambda>m. m_user m = u) here)"
    unfolding map_of_fold_rows [OF dist] by (simp split: option.split)
  show ?thesis
  proof (cases "row_of db u w")
    case None
    then have "\<forall>m\<in>set here. m_user m \<noteq> u" by (auto simp: row_of_def find_None_iff here)
    then have "find (\<lambda>m. m_user m = u) here = None" by (auto simp: find_None_iff)
    then show ?thesis using row None by (simp add: direct_roles_lookup)
  next
    case (Some m)
    then have m: "m \<in> set (memberships db)" "m_user m = u" "m_workspace m = w"
      using row_of_Some by blast+
    have only: "x = m" if "x \<in> set here" "m_user x = u" for x
      using that row_of_unique [OF ok, of x] Some by (auto simp: here)
    have "find (\<lambda>m. m_user m = u) here \<noteq> None" using m by (auto simp: find_None_iff here)
    then obtain x where "find (\<lambda>m. m_user m = u) here = Some x" by auto
    moreover from this have "x = m" using only by (auto simp: find_Some_iff)
    ultimately show ?thesis using row Some by (simp add: direct_roles_lookup direct_row_def)
  qed
qed

lemma best_okD:
  assumes "best_ok ups best"
  shows "map_of best u = None \<Longrightarrow> m \<in> set ups \<Longrightarrow> m_user m \<noteq> u"
    and "map_of best u = Some b \<Longrightarrow> b \<in> set ups \<and> m_user b = u \<and> (\<forall>m\<in>set ups. m_user m = u \<longrightarrow> m_role m \<le> m_role b)"
proof -
  have *: "case map_of best u of
        None \<Rightarrow> \<forall>m\<in>set ups. m_user m \<noteq> u
      | Some b \<Rightarrow> b \<in> set ups \<and> m_user b = u \<and> (\<forall>m\<in>set ups. m_user m = u \<longrightarrow> m_role m \<le> m_role b)"
    using assms by (simp add: best_ok_def)
  show "map_of best u = None \<Longrightarrow> m \<in> set ups \<Longrightarrow> m_user m \<noteq> u" using * by simp
  show "map_of best u = Some b \<Longrightarrow> b \<in> set ups \<and> m_user b = u \<and> (\<forall>m\<in>set ups. m_user m = u \<longrightarrow> m_role m \<le> m_role b)"
    using * by simp
qed

lemma best_upstream_lookup:
  assumes ups: "ups = sort_key m_joined (filter (\<lambda>m. m_workspace m \<in> set (ancestor_slugs (workspaces db) w)
         \<and> m_role m \<in> set INHERITS_DOWN) (memberships db))"
  shows "map_option m_role (map_of (best_upstream ups) u) = strongest_in (upstream_roles db u w)"
proof (cases "map_of (best_upstream ups) u")
  case None
  then have "\<forall>m\<in>set ups. m_user m \<noteq> u" using best_okD(1) [OF best_upstream_ok] by blast
  then have "upstream_roles db u w = {}" by (auto simp: upstream_roles_def ups)
  then show ?thesis using None by (simp add: strongest_in_def)
next
  case (Some b)
  note b = best_okD(2) [OF best_upstream_ok Some]
  have "m_role b \<in> upstream_roles db u w" using b by (auto simp: upstream_roles_def ups)
  moreover have "r \<le> m_role b" if "r \<in> upstream_roles db u w" for r
    using that b by (auto simp: upstream_roles_def ups)
  ultimately show ?thesis
    using Some finite_upstream [of db u w] by (auto simp: strongest_in_def intro!: Max_eqI [symmetric])
qed

lemma best_upstream_keys: "\<forall>(v, m)\<in>set (best_upstream ups). m_user m = v"
proof (intro ballI, clarify)
  fix v m assume "(v, m) \<in> set (best_upstream ups)"
  then have "map_of (best_upstream ups) v = Some m"
    using best_upstream_ok [of ups] by (simp add: best_ok_def)
  then show "m_user m = v" using best_okD(2) [OF best_upstream_ok] by blast
qed

lemma effective_role:
  assumes ok: "wsdb_ok db"
  shows "(\<exists>e\<in>set (effective_memberships db w). e_user e = u \<and> e_role e = r)
    \<longleftrightarrow> member_role db (uncapped u) w = Some r"
proof -
  define ups where "ups = sort_key m_joined (filter (\<lambda>m. m_workspace m \<in> set (ancestor_slugs (workspaces db) w)
         \<and> m_role m \<in> set INHERITS_DOWN) (memberships db))"
  define here where "here = sort_key m_joined (filter (\<lambda>m. m_workspace m = w) (memberships db))"
  define rows where "rows = fold (\<lambda>m acc. AList.update (m_user m) (direct_row m) acc) here []"
  define merged where "merged = fold (merge_one w) (best_upstream ups) rows"
  have best_dist: "distinct (map fst (best_upstream ups))"
    using best_upstream_ok [of ups] by (simp add: best_ok_def)
  have keyed: "keyed_by_user merged"
    unfolding merged_def rows_def
    by (intro keyed_merge keyed_direct best_upstream_keys) (simp add: keyed_by_user_def)
  have dist: "distinct (map fst merged)"
    unfolding merged_def rows_def by (intro merge_distinct distinct_direct) simp
  have "(\<exists>e\<in>set (effective_memberships db w). e_user e = u \<and> e_role e = r)
      \<longleftrightarrow> (\<exists>e. (u, e) \<in> set merged \<and> e_role e = r)"
    unfolding effective_memberships_def Let_def ups_def [symmetric] here_def [symmetric]
      rows_def [symmetric] merged_def [symmetric]
    using keyed by (force simp: keyed_by_user_def)
  also have "\<dots> \<longleftrightarrow> map_option e_role (map_of merged u) = Some r"
    using dist by (auto dest: map_of_SomeD)
  also have "\<dots> \<longleftrightarrow> member_role db (uncapped u) w = Some r"
    unfolding merged_def merge_lookup [OF best_dist] best_upstream_lookup [OF ups_def]
      rows_def direct_rows_lookup [OF ok here_def] member_role_eq [OF wsdb_ok_slugs [OF ok]] by simp
  finally show ?thesis .
qed


section \<open>Nobody loses their owner\<close>

text \<open>A workspace is owned when an owner row sits on it or above it.\<close>

definition owned :: "wsdb \<Rightarrow> slug \<Rightarrow> bool" where
  "owned db w \<longleftrightarrow> (\<exists>m\<in>set (memberships db). m_role m = Owner
     \<and> (m_workspace m = w \<or> m_workspace m \<in> set (ancestor_slugs (workspaces db) w)))"

lemma not_last_owner_other:
  assumes "tree_ok (workspaces db)" and ok: "wsdb_ok db" and "m \<in> set (memberships db)"
    and "m_role m = Owner" and "\<not> is_last_owner db m"
  shows "\<exists>x\<in>set (memberships db). x \<noteq> m \<and> m_role x = Owner
    \<and> (m_workspace x = m_workspace m \<or> m_workspace x \<in> set (ancestor_slugs (workspaces db) (m_workspace m)))"
proof -
  let ?here = "filter (\<lambda>x. m_workspace x = m_workspace m \<and> m_role x = Owner) (memberships db)"
  show ?thesis
  proof (cases "length ?here > 1")
    case True
    have "distinct (memberships db)" using ok unfolding wsdb_ok_def by (simp add: distinct_map)
    then have "distinct ?here" by simp
    then have "card (set ?here) > 1" using True by (simp add: distinct_card del: set_filter)
    moreover have "set ?here \<subseteq> {m} \<Longrightarrow> card (set ?here) \<le> card {m}" by (rule card_mono) simp_all
    ultimately have "\<not> set ?here \<subseteq> {m}" by auto
    then show ?thesis by auto
  next
    case False
    then have "list_ex (\<lambda>x. m_workspace x \<in> set (ancestor_slugs (workspaces db) (m_workspace m)) \<and> m_role x = Owner)
        (memberships db)"
      using assms(4,5) by (auto simp: is_last_owner_def Let_def split: if_splits)
    then obtain x where x: "x \<in> set (memberships db)" "m_role x = Owner"
      "m_workspace x \<in> set (ancestor_slugs (workspaces db) (m_workspace m))"
      by (auto simp: list_ex_iff)
    moreover have "m_workspace m \<notin> set (ancestor_slugs (workspaces db) (m_workspace m))"
      using set_ancestor_slugs [OF wsdb_ok_slugs [OF ok]] by blast
    ultimately have "x \<noteq> m" by blast
    then show ?thesis using x by blast
  qed
qed

text \<open>Taking one owner row away, when it is not the last, leaves every workspace owned.\<close>

lemma owned_without:
  assumes "tree_ok (workspaces db)" and "wsdb_ok db" and "m \<in> set (memberships db)"
    and "m_role m \<noteq> Owner \<or> \<not> is_last_owner db m" and "owned db w"
  shows "\<exists>x\<in>set (memberships db). x \<noteq> m \<and> m_role x = Owner
    \<and> (m_workspace x = w \<or> m_workspace x \<in> set (ancestor_slugs (workspaces db) w))"
proof -
  obtain y where y: "y \<in> set (memberships db)" "m_role y = Owner"
    "m_workspace y = w \<or> m_workspace y \<in> set (ancestor_slugs (workspaces db) w)"
    using assms(5) by (auto simp: owned_def)
  show ?thesis
  proof (cases "y = m")
    case True
    then have "\<not> is_last_owner db m" using assms(4) y(2) by blast
    then obtain x where "x \<in> set (memberships db)" "x \<noteq> m" "m_role x = Owner"
      "m_workspace x = m_workspace m \<or> m_workspace x \<in> set (ancestor_slugs (workspaces db) (m_workspace m))"
      using not_last_owner_other [OF assms(1-3)] y(2) True by blast
    then show ?thesis using y(3) True ancestor_trans [OF assms(1)] by metis
  qed (use y in blast)
qed

lemma row_key_unique:
  assumes "wsdb_ok db" and "row_of db u w = Some m" and "x \<in> set (memberships db)"
  shows "row_key w u x \<longleftrightarrow> x = m"
proof
  assume "row_key w u x"
  then have "row_of db u w = Some x" using row_of_unique [OF assms(1,3)] by (simp add: row_key_def)
  then show "x = m" using assms(2) by simp
next
  assume "x = m"
  then show "row_key w u x" using row_of_Some [OF assms(2)] by (simp add: row_key_def)
qed

lemma owned_delete:
  assumes "tree_ok (workspaces db)" and "wsdb_ok db" and m: "row_of db u w = Some m"
    and "m_role m \<noteq> Owner \<or> \<not> is_last_owner db m" and "owned db v"
  shows "owned (delete_row w u db) v"
proof -
  obtain x where x: "x \<in> set (memberships db)" "x \<noteq> m" "m_role x = Owner"
    "m_workspace x = v \<or> m_workspace x \<in> set (ancestor_slugs (workspaces db) v)"
    using owned_without [OF assms(1,2) conjunct1 [OF row_of_Some [OF m]] assms(4,5)] by blast
  then have "\<not> row_key w u x" using row_key_unique [OF assms(2) m x(1)] by blast
  then show ?thesis using x by (auto simp: owned_def delete_row_def)
qed

lemma owned_set_role:
  assumes "tree_ok (workspaces db)" and "wsdb_ok db" and m: "row_of db u w = Some m"
    and "m_role m \<noteq> Owner \<or> \<not> is_last_owner db m" and "owned db v"
  shows "owned (set_role_row w u r db) v"
proof -
  obtain x where x: "x \<in> set (memberships db)" "x \<noteq> m" "m_role x = Owner"
    "m_workspace x = v \<or> m_workspace x \<in> set (ancestor_slugs (workspaces db) v)"
    using owned_without [OF assms(1,2) conjunct1 [OF row_of_Some [OF m]] assms(4,5)] by blast
  then have "\<not> row_key w u x" using row_key_unique [OF assms(2) m x(1)] by blast
  then have "x \<in> set (memberships (set_role_row w u r db))"
    using x(1) by (force simp: set_role_row_def set_tbl_update)
  then show ?thesis using x by (auto simp: owned_def set_role_row_def)
qed

lemma guarded_Inr:
  "guarded_owner_mutation w u mutate st = (Inr a, st') \<longleftrightarrow>
     (\<exists>m. row_of (fst st) u w = Some m \<and> mutate m st = (Inr a, st'))"
  by (auto simp: guarded_owner_mutation_def atomic_eq_Inr_iff split: option.splits)

lemma guarded_snd:
  assumes "I st" and "\<And>m a st'. row_of (fst st) u w = Some m \<Longrightarrow> mutate m st = (Inr a, st') \<Longrightarrow> I st'"
  shows "I (snd (guarded_owner_mutation w u mutate st))"
  unfolding guarded_owner_mutation_def
  by (rule atomic_preserves) (use assms in \<open>auto split: option.splits\<close>)

lemma last_owner_only_owner: "is_last_owner db m \<Longrightarrow> m_role m = Owner"
  by (simp add: is_last_owner_def split: if_splits)

text \<open>Both mutations keep the rows well formed.\<close>

lemma wsdb_ok_delete: "wsdb_ok db \<Longrightarrow> wsdb_ok (delete_row w u db)"
  by (auto simp: wsdb_ok_def delete_row_def distinct_map_filter)

lemma wsdb_ok_set_role: "wsdb_ok db \<Longrightarrow> wsdb_ok (set_role_row w u r db)"
  by (auto simp: wsdb_ok_def set_role_row_def map_tbl_update set_tbl_update)

lemma wsdb_ok_grant:
  "wsdb_ok db \<Longrightarrow> w \<in> ws_slug ` set (workspaces db) \<Longrightarrow> wsdb_ok (snd (grant_role w u r by' now db))"
proof -
  assume ok: "wsdb_ok db" and w: "w \<in> ws_slug ` set (workspaces db)"
  have "row_of db u w = None \<Longrightarrow> (w, u) \<notin> (\<lambda>m. (m_workspace m, m_user m)) ` set (memberships db)"
    by (auto simp: row_of_def find_None_iff)
  then show ?thesis
    using ok w wsdb_ok_set_role [OF ok]
    by (auto simp: grant_role_def Let_def wsdb_ok_def split: option.split)
qed

text \<open>A grant never lowers anyone: every role held before is held after, at least as strong.\<close>

lemma grant_role_direct:
  assumes "wsdb_ok db"
  shows "map_of (direct_roles (snd (grant_role w u r by' now db)) v) x
    = (if v = u \<and> x = w then better (map_of (direct_roles db u) w) (Some r) else map_of (direct_roles db v) x)"
proof (cases "row_of db u w")
  case None
  have find_append: "find P (xs @ [z]) = (case find P xs of None \<Rightarrow> if P z then Some z else None | Some y \<Rightarrow> Some y)"
    for P :: "membership \<Rightarrow> bool" and xs z
    by (induction xs) auto
  have "row_of (snd (grant_role w u r by' now db)) v x = (if v = u \<and> x = w
      then Some \<lparr> m_workspace = w, m_user = u, m_role = r, m_invited_by = by', m_joined = now \<rparr> else row_of db v x)"
    using None by (auto simp: grant_role_def row_of_def find_append Let_def split: option.split)
  then show ?thesis using None by (simp add: direct_roles_lookup)
next
  case (Some m)
  have find_upd: "find (\<lambda>y. m_user y = v \<and> m_workspace y = x) (tbl_update (row_key w u) (\<lambda>m. m\<lparr>m_role := r\<rparr>) ms)
      = map_option (\<lambda>y. if row_key w u y then y\<lparr>m_role := r\<rparr> else y) (find (\<lambda>y. m_user y = v \<and> m_workspace y = x) ms)"
    for ms
    by (induction ms) auto
  have m: "m_user m = u" "m_workspace m = w" using row_of_Some [OF Some] by simp_all
  have key: "row_of db v x = Some y \<Longrightarrow> row_key w u y \<longleftrightarrow> v = u \<and> x = w" for y
    using row_of_Some [of db v x y] by (auto simp: row_key_def)
  show ?thesis
  proof (cases "ROLE_RANK r > ROLE_RANK (m_role m)")
    case True
    then have "row_of (snd (grant_role w u r by' now db)) v x
        = map_option (\<lambda>y. if row_key w u y then y\<lparr>m_role := r\<rparr> else y) (row_of db v x)"
      using Some by (simp add: grant_role_def set_role_row_def row_of_def find_upd)
    moreover have "max (m_role m) r = r" using True by (simp add: max_def less_eq_role_def)
    ultimately show ?thesis
      using Some key by (cases "row_of db v x") (auto simp: direct_roles_lookup)
  next
    case False
    then have "max (m_role m) r = m_role m" by (simp add: max_def less_eq_role_def)
    then show ?thesis using Some False by (simp add: grant_role_def direct_roles_lookup)
  qed
qed


section \<open>Gates, scopes and departures\<close>

lemma is_member_uncapped: "is_member db a w \<longleftrightarrow> is_member db (uncapped (actor_id a)) w"
proof -
  have "capped_role (Some r) c \<noteq> None" for r c by simp
  then show ?thesis
    by (auto simp: is_member_def membership_of_def split: option.splits)
qed

lemma user_workspace_slugs_iff:
  assumes "wsdb_ok db"
  shows "s \<in> set (user_workspace_slugs db u) \<longleftrightarrow> is_member db (uncapped u) s"
proof -
  have "uncapped u \<in> set [uncapped u]" by simp
  note look = member_roles_lookup [OF assms this, of s] and dom = member_roles_domain [OF assms this, of s]
  have "s \<in> set (user_workspace_slugs db u) \<longleftrightarrow>
      map_of (direct_roles db u) s \<noteq> None \<or> map_of (inherited_roles db u) s \<noteq> None"
    by (simp add: user_workspace_slugs_def map_of_eq_None_iff)
  also have "\<dots> \<longleftrightarrow> map_of (member_roles_of db [uncapped u] (uncapped u)) s \<noteq> None"
    unfolding look by (cases "map_of (direct_roles db u) s"; cases "map_of (inherited_roles db u) s")
      (simp_all add: inherited_roles_def)
  finally show ?thesis using dom by (simp add: is_member_iff)
qed

lemma slugs_with_member:
  assumes "slugs_with db a p ss = Inr S" and "s \<in> set S"
  shows "authenticated a \<and> role_allows (map_of (member_roles db a) s) p = Inr True
    \<and> (case ss of None \<Rightarrow> True | Some xs \<Rightarrow> s \<in> set xs)"
proof -
  let ?c = "case ss of None \<Rightarrow> map fst (member_roles db a) | Some ss \<Rightarrow> ss"
  have auth: "authenticated a" using assms by (auto simp: slugs_with_def split: if_splits)
  then obtain flags where flags: "try_map (\<lambda>s. role_allows (map_of (member_roles db a) s) p) ?c = Inr flags"
    and S: "S = map fst (filter snd (zip ?c flags))"
    using assms(1) by (auto simp: slugs_with_def Let_def split: sum.splits)
  have all: "list_all2 (\<lambda>x y. role_allows (map_of (member_roles db a) x) p = Inr y) ?c flags"
    using flags by (simp only: try_map_Inr_iff)
  obtain b where "(s, b) \<in> set (zip ?c flags)" "b" using assms(2) S by auto
  then have "role_allows (map_of (member_roles db a) s) p = Inr True" "s \<in> set ?c"
    using all by (auto simp: list_all2_iff dest: set_zip_leftD)
  then show ?thesis using auth by (auto split: option.splits)
qed

lemma can_eq: "can db a w p = (if \<not> authenticated a then Inr False else role_allows (member_role db a w) p)"
  by (auto simp: can_def role_allows_table has_role_at_least_def split: option.split)

lemma allows_can:
  assumes ok: "wsdb_ok db" and a: "authenticated a" and allows: "role_allows (map_of (member_roles db a) s) p = Inr True"
  shows "can db a s p = Inr True"
proof -
  have self: "a \<in> set [a]" by simp
  obtain r where r: "map_of (member_roles db a) s = Some r"
    using allows by (cases "map_of (member_roles db a) s") (auto simp: role_allows_table split: option.splits)
  then obtain r' where "member_role db a s = Some r'" "r \<le> r'"
    using member_roles_le [OF ok self] unfolding member_roles_def by blast
  then have "rank_of (map_of (member_roles db a) s) \<le> rank_of (member_role db a s)"
    using r by (simp add: less_eq_role_def)
  then have "role_allows (member_role db a s) p = Inr True" using ws_perms.allows_mono allows by blast
  then show ?thesis using a by (simp add: can_eq)
qed

text \<open>For starting work the listing and the gate agree: both ask for an editor.\<close>

lemma can_work_listed:
  assumes ok: "wsdb_ok db" and may: "can db (uncapped u) s AGENT_WORK = Inr True"
  shows "role_allows (map_of (member_roles db (uncapped u)) s) AGENT_WORK = Inr True"
proof -
  have floor: "map_of MINIMUM_ROLE AGENT_WORK = Some Editor" by code_simp
  have work: "role_allows x AGENT_WORK = Inr True \<longleftrightarrow> (\<exists>r. x = Some r \<and> Editor \<le> r)" for x
    unfolding role_allows_table floor by (cases x) (simp_all add: less_eq_role_def)
  have "role_allows (member_role db (uncapped u) s) AGENT_WORK = Inr True" using may by (simp add: can_eq)
  then obtain r' where r': "member_role db (uncapped u) s = Some r'" "Editor \<le> r'" unfolding work by blast
  then obtain r where "map_of (member_roles db (uncapped u)) s = Some r" "r = r' \<or> Admin \<le> r"
    using member_roles_gap [OF ok, of "uncapped u" "[uncapped u]"] by (auto simp: member_roles_def)
  moreover have "Editor \<le> Admin" by (simp add: less_eq_role_def)
  ultimately show ?thesis using r'(2) unfolding work by (metis order_trans)
qed

lemma slugs_with_sound:
  assumes ok: "wsdb_ok db" and "slugs_with db a p ss = Inr S" and "s \<in> set S"
  shows "can db a s p = Inr True"
  using slugs_with_member [OF assms(2,3)] by (intro allows_can [OF ok]) blast+

lemma root_of_top:
  assumes "tree_ok tbl" and "s \<in> set slugs" and "(s, r) \<in> set (tree_roots tbl slugs)"
  shows "root_of tbl s = r"
proof -
  obtain k t where t: "climb (parent_of tbl) k s = Some t" "parent_of tbl t = None"
    using tree_ok_top [OF assms(1)] by blast
  have "r = t" using tree_roots_top [OF assms(1,2) t] assms(3) by blast
  moreover have "(s, root_of tbl s) \<in> set (tree_roots tbl [s])"
    by (simp add: root_of_def tree_roots_def Let_def)
  then have "root_of tbl s = t" using tree_roots_top [OF assms(1) _ t, of "[s]"] by simp
  ultimately show ?thesis by simp
qed

lemma read_scope_unpinned:
  assumes "wsdb_ok db" and "tree_ok (workspaces db)"
    and "read_scope db (Some a) None = Inr S" and "s \<in> S" and "s' \<in> S"
  shows "is_member db a s \<and> root_of (workspaces db) s = root_of (workspaces db) s'"
proof -
  let ?slugs = "user_workspace_slugs db (actor_id a)"
  have S: "S = set ?slugs" and one: "length ?slugs > 1 \<Longrightarrow>
      length (remdups (map snd (tree_roots (workspaces db) ?slugs))) \<le> 1"
    using assms(3,4) by (auto simp: read_scope_def Let_def split: if_splits)
  have "s \<in> set ?slugs" "s' \<in> set ?slugs" using assms(4,5) S by simp_all
  moreover have "root_of (workspaces db) s = root_of (workspaces db) s'" if "s \<noteq> s'"
  proof -
    let ?roots = "tree_roots (workspaces db) ?slugs"
    have "{s, s'} \<subseteq> set ?slugs" using \<open>s \<in> set ?slugs\<close> \<open>s' \<in> set ?slugs\<close> by simp
    then have "card {s, s'} \<le> card (set ?slugs)" by (rule card_mono [OF finite_set])
    then have "length ?slugs > 1" using that card_length [of ?slugs] by simp
    then have "card (set (map snd ?roots)) \<le> 1" using one by (simp add: length_remdups_card_conv)
    moreover obtain r r' where r: "(s, r) \<in> set ?roots" "(s', r') \<in> set ?roots"
      using \<open>s \<in> set ?slugs\<close> \<open>s' \<in> set ?slugs\<close> by (auto simp: tree_roots_def Let_def)
    then have "{r, r'} \<subseteq> set (map snd ?roots)" by force
    ultimately have "card {r, r'} \<le> 1" using card_mono [OF finite_set] by (metis le_trans)
    then have "r = r'" by (cases "r = r'") simp_all
    then show ?thesis
      using root_of_top [OF assms(2)] r \<open>s \<in> set ?slugs\<close> \<open>s' \<in> set ?slugs\<close> by metis
  qed
  ultimately show ?thesis
    using user_workspace_slugs_iff [OF assms(1)] is_member_uncapped [of db a s] by metis
qed

lemma read_scope_pinned:
  assumes "wsdb_ok db" and "read_scope db (Some a) (Some p) = Inr S" and "s \<in> S"
  shows "s = p \<or> (is_member db a s \<and> p \<in> set (ancestor_slugs (workspaces db) s))"
  using assms(2,3) user_workspace_slugs_iff [OF assms(1)] is_member_uncapped [of db a s]
    descendant_slugs_eq [OF wsdb_ok_slugs [OF assms(1)], of "{p}"]
  by (auto simp: read_scope_def pinned_read_scope_def Let_def split: if_splits)

text \<open>A row only matters to its own workspace and the ones below it.\<close>

lemma member_role_local:
  assumes "workspaces db' = workspaces db" and "distinct (map ws_slug (workspaces db))"
    and "\<And>x. x \<noteq> w \<Longrightarrow> row_of db' u x = row_of db u x"
    and "wsdb_ok db" and "wsdb_ok db'"
    and "s \<noteq> w" and "w \<notin> set (ancestor_slugs (workspaces db) s)"
  shows "member_role db' (uncapped u) s = member_role db (uncapped u) s"
proof -
  have d: "x \<noteq> w \<Longrightarrow> map_of (direct_roles db' u) x = map_of (direct_roles db u) x" for x
    using assms(3) by (simp add: direct_roles_lookup)
  have "r \<in> upstream_roles db' u s \<longleftrightarrow> r \<in> upstream_roles db u s" for r
    unfolding upstream_roles_direct [OF assms(4)] upstream_roles_direct [OF assms(5)] assms(1)
    using d assms(7) by (metis (no_types))
  then have "upstream_roles db' u s = upstream_roles db u s" by blast
  then show ?thesis using d [OF assms(6)] assms(1,2) by (simp add: member_role_eq)
qed

lemma row_of_delete:
  "row_of (delete_row w u db) v x = (if v = u \<and> x = w then None else row_of db v x)"
proof -
  have "find (\<lambda>m. m_user m = v \<and> m_workspace m = x) (filter (\<lambda>m. \<not> row_key w u m) ms)
      = (if v = u \<and> x = w then None else find (\<lambda>m. m_user m = v \<and> m_workspace m = x) ms)"
    for ms :: "membership list"
    by (induction ms) (auto simp: row_key_def)
  then show ?thesis by (simp add: row_of_def delete_row_def)
qed

lemma workspaces_left_iff:
  assumes "wsdb_ok db"
  shows "s \<in> set (workspaces_left db u w) \<longleftrightarrow>
    (s = w \<or> (s \<in> ws_slug ` set (workspaces db) \<and> w \<in> set (ancestor_slugs (workspaces db) s)))
    \<and> \<not> is_member db (uncapped u) s"
proof -
  have "uncapped u \<in> set [uncapped u]" by simp
  note dom = member_roles_domain [OF assms this, of s]
  have "s \<in> fst ` set (member_roles db (uncapped u)) \<longleftrightarrow> is_member db (uncapped u) s"
    using dom unfolding member_roles_def is_member_iff map_of_eq_None_iff by metis
  moreover have "s \<noteq> w \<Longrightarrow> s \<in> descendant_slugs (workspaces db) {w} \<longleftrightarrow> w \<in> set (ancestor_slugs (workspaces db) s)"
    by (simp add: descendant_slugs_eq [OF wsdb_ok_slugs [OF assms]])
  moreover have "w \<notin> descendant_slugs (workspaces db) {w}"
    by (simp add: descendant_slugs_eq [OF wsdb_ok_slugs [OF assms]])
  ultimately show ?thesis
    by (auto simp: workspaces_left_def uncapped_def Let_def)
qed

lemma member_exists:
  assumes "wsdb_ok db" and "is_member db (uncapped u) s"
  shows "s \<in> ws_slug ` set (workspaces db)"
proof (rule ccontr)
  assume out: "s \<notin> ws_slug ` set (workspaces db)"
  then have "ancestor_slugs (workspaces db) s = []"
    by (intro ancestor_slugs_no_parent parent_of_unknown wsdb_ok_slugs assms(1))
  moreover have "row_of db u s = None"
    using out assms(1) row_of_Some [of db u s] by (cases "row_of db u s") (auto simp: wsdb_ok_def)
  ultimately show False
    using assms by (simp add: is_member_iff member_role_eq [OF wsdb_ok_slugs [OF assms(1)]]
        direct_roles_lookup strongest_in_def upstream_roles_def)
qed

lemma sweep_grants:
  fixes g :: 'g
  shows "snd (departure_sweep db rs u w by' g) =
     (if workspaces_left db u w = [] then g
      else fold (\<lambda>r g. snd (rv_fn r u (workspaces_left db u w) by' g)) (ordered_revokers rs) g)"
proof -
  have "snd (fold (\<lambda>r (cs, g). case rv_fn r u left by' g of (n, g') \<Rightarrow>
                (if rv_counted r then AList.update (rv_name r) n cs else cs, g')) rvs (cs, g))
      = fold (\<lambda>r g. snd (rv_fn r u left by' g)) rvs g"
    for rvs :: "'g revoker list" and cs g left
    by (induction rvs arbitrary: cs g) (auto split: prod.split)
  then show ?thesis by (simp add: departure_sweep_def Let_def)
qed

lemma remove_member_Inr:
  "remove_member rs w u by' (db, g) = (Inr (), db', g') \<Longrightarrow>
     \<exists>m. row_of db u w = Some m \<and> \<not> is_last_owner db m \<and> db' = delete_row w u db
       \<and> g' = snd (departure_sweep db' rs u w by' g)"
  by (auto simp: remove_member_def guarded_Inr Let_def split: if_splits)

lemma remove_member_left:
  assumes ok: "wsdb_ok db" and rm: "remove_member rs w u by' (db, g) = (Inr (), db', g')"
    and before: "is_member db (uncapped u) s" and after: "\<not> is_member db' (uncapped u) s"
  shows "s \<in> set (workspaces_left db' u w)"
proof -
  have db': "db' = delete_row w u db" using remove_member_Inr [OF rm] by blast
  have ok': "wsdb_ok db'" unfolding db' by (rule wsdb_ok_delete [OF ok])
  have same: "workspaces db' = workspaces db" by (simp add: db' delete_row_def)
  have "s = w \<or> w \<in> set (ancestor_slugs (workspaces db) s)"
  proof (rule ccontr)
    assume "\<not> (s = w \<or> w \<in> set (ancestor_slugs (workspaces db) s))"
    then have "member_role db' (uncapped u) s = member_role db (uncapped u) s"
      by (intro member_role_local [OF same wsdb_ok_slugs [OF ok] _ ok ok']) (auto simp: db' row_of_delete)
    then show False using before after by (simp add: is_member_iff)
  qed
  then show ?thesis
    using after member_exists [OF ok before] unfolding workspaces_left_iff [OF ok'] same by blast
qed

section \<open>Properties\<close>

definition sample_db :: wsdb where
  "sample_db = \<lparr> workspaces = sample_tree,
     memberships = [\<lparr> m_workspace = ''org'', m_user = 1, m_role = Owner, m_invited_by = None, m_joined = 0 \<rparr>,
                    \<lparr> m_workspace = ''div'', m_user = 2, m_role = Editor, m_invited_by = Some 1, m_joined = 1 \<rparr>,
                    \<lparr> m_workspace = ''div'', m_user = 3, m_role = Owner, m_invited_by = Some 1, m_joined = 2 \<rparr>],
     users = [1, 2, 3] \<rparr>"

lemma sample_db_ok: "wsdb_ok sample_db" "tree_ok (workspaces sample_db)"
  by code_simp+

text \<open>C12. The role listing (\<open>member_roles\<close>, what \<open>slugs_with\<close> and every claim poll read)
  names a role in exactly the workspaces where the gate (\<open>member_role\<close>) finds one, and never a
  stronger one, whatever the tree and the rows hold.\<close>

theorem role_listing_never_exceeds_the_gate:
  assumes "wsdb_ok db"
  shows "(map_of (member_roles db a) w = None \<longleftrightarrow> member_role db a w = None)
    \<and> (\<forall>r. map_of (member_roles db a) w = Some r \<longrightarrow> (\<exists>r'. member_role db a w = Some r' \<and> r \<le> r'))"
  using member_roles_domain [OF assms, of a "[a]" w] member_roles_le [OF assms, of a "[a]" w]
  by (simp add: member_roles_def)

lemma role_listing_never_exceeds_the_gate_witness:
  "\<exists>r'. member_role sample_db (uncapped 1) ''team'' = Some r' \<and> Owner \<le> r'"
proof -
  have "map_of (member_roles sample_db (uncapped 1)) ''team'' = Some Owner" by code_simp
  then show ?thesis
    using role_listing_never_exceeds_the_gate [OF sample_db_ok(1), of "uncapped 1" "''team''"] by blast
qed

text \<open>For a person none of whose own inheriting roles is weaker than one they hold further up,
  the listing and the gate give the same role in every workspace.\<close>

theorem role_listing_agrees_with_the_gate:
  assumes "wsdb_ok db" and "inherits_monotone db (actor_id a)"
  shows "map_of (member_roles db a) w = member_role db a w"
  using member_roles_parity [OF assms(1) _ assms(2), of "[a]"] by (simp add: member_roles_def)

lemma role_listing_agrees_with_the_gate_witness:
  "map_of (member_roles sample_db (uncapped 1)) ''team'' = member_role sample_db (uncapped 1) ''team''
   \<and> member_role sample_db (uncapped 1) ''team'' = Some Owner"
proof
  show "map_of (member_roles sample_db (uncapped 1)) ''team'' = member_role sample_db (uncapped 1) ''team''"
    by (rule role_listing_agrees_with_the_gate [OF sample_db_ok(1)]) code_simp
  show "member_role sample_db (uncapped 1) ''team'' = Some Owner" by code_simp
qed

definition weaker_below_db :: wsdb where
  "weaker_below_db = \<lparr> workspaces = sample_tree,
     memberships = [\<lparr> m_workspace = ''org'', m_user = 1, m_role = Owner, m_invited_by = None, m_joined = 0 \<rparr>,
                    \<lparr> m_workspace = ''div'', m_user = 1, m_role = Admin, m_invited_by = None, m_joined = 1 \<rparr>],
     users = [1] \<rparr>"

text \<open>Without that condition they differ: an owner of the organisation who also has an admin row
  in a division is an owner of the division and of what is below it for the gate, and an admin in
  both for the listing, so \<open>slugs_with\<close> leaves out a workspace where \<open>can\<close> says yes.\<close>

theorem role_listing_misses_an_outranked_admin_row:
  "wsdb_ok weaker_below_db
   \<and> member_role weaker_below_db (uncapped 1) ''div'' = Some Owner
   \<and> map_of (member_roles weaker_below_db (uncapped 1)) ''div'' = Some Admin
   \<and> member_role weaker_below_db (uncapped 1) ''team'' = Some Owner
   \<and> map_of (member_roles weaker_below_db (uncapped 1)) ''team'' = Some Admin
   \<and> can weaker_below_db (uncapped 1) ''team'' OWN = Inr True
   \<and> slugs_with weaker_below_db (uncapped 1) OWN None = Inr [''org'']"
  by code_simp

text \<open>C15. The member list of a workspace (\<open>effective_memberships\<close>) is the gate asked of
  everyone: a person is listed at a role exactly when \<open>member_role\<close> gives them that role.\<close>

theorem member_list_is_the_gate_of_everyone:
  assumes "wsdb_ok db"
  shows "(\<exists>e\<in>set (effective_memberships db w). e_user e = u \<and> e_role e = r)
    \<longleftrightarrow> member_role db (uncapped u) w = Some r"
  by (rule effective_role [OF assms])

lemma member_list_is_the_gate_of_everyone_witness:
  "((\<exists>e\<in>set (effective_memberships sample_db ''team''). e_user e = 3 \<and> e_role e = Owner)
    \<longleftrightarrow> member_role sample_db (uncapped 3) ''team'' = Some Owner)
   \<and> member_role sample_db (uncapped 3) ''team'' = Some Owner"
proof
  show "(\<exists>e\<in>set (effective_memberships sample_db ''team''). e_user e = 3 \<and> e_role e = Owner)
    \<longleftrightarrow> member_role sample_db (uncapped 3) ''team'' = Some Owner"
    by (rule member_list_is_the_gate_of_everyone [OF sample_db_ok(1)])
  show "member_role sample_db (uncapped 3) ''team'' = Some Owner" by code_simp
qed

text \<open>C1. No role change and no removal leaves a workspace without an owner: whichever way the
  operation ends, every workspace that was owned (by a row of its own or of an ancestor) still
  is.\<close>

theorem no_workspace_loses_its_owner:
  assumes "tree_ok (workspaces db)" and "wsdb_ok db" and "owned db v"
  shows "owned (fst (snd (set_member_role rs w u role_str by' (db, g)))) v
    \<and> owned (fst (snd (remove_member rs w u by' (db, g)))) v"
proof
  show "owned (fst (snd (set_member_role rs w u role_str by' (db, g)))) v"
  proof (cases "role_of_name role_str")
    case (Some r)
    have "owned (fst (snd (guarded_owner_mutation w u (\<lambda>m (db, g).
          if r = m_role m then (Inr m, db, g)
          else if is_last_owner db m then (Inl LastOwner, db, g)
          else let db' = set_role_row w u r db;
                   g' = (if m_role m \<in> set INHERITS_DOWN
                         then snd (departure_sweep db' rs u w by' g) else g)
               in (Inr (m\<lparr>m_role := r\<rparr>), db', g')) (db, g)))) v"
      by (rule guarded_snd [where I = "\<lambda>st. owned (fst st) v"])
        (use assms in \<open>auto simp: Let_def split: if_splits intro: owned_set_role\<close>)
    then show ?thesis using Some by (simp add: set_member_role_def)
  qed (use assms in \<open>simp add: set_member_role_def\<close>)
  show "owned (fst (snd (remove_member rs w u by' (db, g)))) v"
    unfolding remove_member_def
    by (rule guarded_snd [where I = "\<lambda>st. owned (fst st) v"])
      (use assms in \<open>auto simp: Let_def split: if_splits intro: owned_delete\<close>)
qed

lemma no_workspace_loses_its_owner_witness:
  "owned (fst (snd (set_member_role ([] :: unit revoker list) ''div'' 3 ''viewer'' None (sample_db, ())))) ''team''
   \<and> owned (fst (snd (remove_member ([] :: unit revoker list) ''div'' 3 None (sample_db, ())))) ''team''"
  by (rule no_workspace_loses_its_owner [OF sample_db_ok(2,1)]) code_simp

text \<open>The two ways of asking for a permission agree with the table and with each other:
  \<open>can\<close> is the table read at the person's role, and every workspace \<open>slugs_with\<close>
  returns is one where \<open>can\<close> says yes and one the caller offered.\<close>

theorem permission_gates_agree:
  assumes "wsdb_ok db" and "slugs_with db a p ss = Inr S" and "s \<in> set S"
  shows "can db a s p = Inr True \<and> role_allows (member_role db a s) p = Inr True
    \<and> s \<in> set (case ss of None \<Rightarrow> S | Some xs \<Rightarrow> xs)"
proof -
  have "can db a s p = Inr True" by (rule slugs_with_sound [OF assms])
  moreover from this have "role_allows (member_role db a s) p = Inr True"
    by (auto simp: can_eq split: if_splits)
  ultimately show ?thesis
    using slugs_with_member [OF assms(2,3)] assms(3) by (auto split: option.splits)
qed

lemma permission_gates_agree_witness:
  "can sample_db (uncapped 3) ''team'' OWN = Inr True
    \<and> role_allows (member_role sample_db (uncapped 3) ''team'') OWN = Inr True
    \<and> ''team'' \<in> set (case None of None \<Rightarrow> [''div'', ''team''] | Some xs \<Rightarrow> xs)"
  by (rule permission_gates_agree [OF sample_db_ok(1)]) code_simp+

text \<open>C13. What a list may span: an unpinned read returns only workspaces the caller is a member of,
  all in one organisation (it is refused otherwise); a pinned read returns the pin and the
  caller's own workspaces below it; and a bulk write pinned to a workspace touches only it.\<close>

theorem scopes_never_mix_organisations:
  assumes "wsdb_ok db" and "tree_ok (workspaces db)"
    and "read_scope db (Some a) pinned = Inr S" and "s \<in> S" and "s' \<in> S"
  shows "(case pinned of
       None \<Rightarrow> is_member db a s \<and> root_of (workspaces db) s = root_of (workspaces db) s'
     | Some p \<Rightarrow> s = p \<or> (is_member db a s \<and> p \<in> set (ancestor_slugs (workspaces db) s)))
    \<and> write_scope db (Some a) (Some s) = Inr {s}"
proof (cases pinned)
  case None
  show ?thesis
    using read_scope_unpinned [OF assms(1,2) assms(3) [unfolded None] assms(4,5)] None
    by (simp add: write_scope_def)
next
  case (Some p)
  show ?thesis
    using read_scope_pinned [OF assms(1) assms(3) [unfolded Some] assms(4)] Some
    by (simp add: write_scope_def)
qed

lemma scopes_never_mix_organisations_witness:
  "(case None of
       None \<Rightarrow> is_member sample_db (uncapped 3) ''div''
         \<and> root_of (workspaces sample_db) ''div'' = root_of (workspaces sample_db) ''team''
     | Some p \<Rightarrow> ''div'' = p \<or> (is_member sample_db (uncapped 3) ''div''
         \<and> p \<in> set (ancestor_slugs (workspaces sample_db) ''div'')))
    \<and> write_scope sample_db (Some (uncapped 3)) (Some ''div'') = Inr {''div''}"
proof (rule scopes_never_mix_organisations [OF sample_db_ok])
  show "read_scope sample_db (Some (uncapped 3)) None = Inr {''div'', ''team''}" by code_simp
qed simp_all

text \<open>Removing someone sweeps every workspace they lose and only workspaces they are no longer in:
  each registered revoker is called once, in its order, with the list of the workspaces left, and
  that list holds every workspace the person was in before and is not in after.\<close>

theorem departure_sweeps_what_was_lost:
  assumes "wsdb_ok db" and "remove_member rs w u by' (db, g) = (Inr (), db', g')"
  shows "{s. is_member db (uncapped u) s \<and> \<not> is_member db' (uncapped u) s} \<subseteq> set (workspaces_left db' u w)
    \<and> set (workspaces_left db' u w) \<inter> {s. is_member db' (uncapped u) s} = {}
    \<and> g' = (if workspaces_left db' u w = [] then g
        else fold (\<lambda>r g. snd (rv_fn r u (workspaces_left db' u w) by' g)) (ordered_revokers rs) g)"
proof -
  obtain m where m: "row_of db u w = Some m \<and> \<not> is_last_owner db m \<and> db' = delete_row w u db
      \<and> g' = snd (departure_sweep db' rs u w by' g)"
    using remove_member_Inr [OF assms(2)] by (elim exE)
  have db': "db' = delete_row w u db" by (rule m [THEN conjunct2, THEN conjunct2, THEN conjunct1])
  have g': "g' = snd (departure_sweep db' rs u w by' g)"
    by (rule m [THEN conjunct2, THEN conjunct2, THEN conjunct2])
  have ok': "wsdb_ok db'" unfolding db' by (rule wsdb_ok_delete [OF assms(1)])
  show ?thesis
  proof (intro conjI subsetI)
    fix s assume "s \<in> {s. is_member db (uncapped u) s \<and> \<not> is_member db' (uncapped u) s}"
    then show "s \<in> set (workspaces_left db' u w)" by (intro remove_member_left [OF assms]) simp_all
  next
    show "set (workspaces_left db' u w) \<inter> {s. is_member db' (uncapped u) s} = {}"
      by (auto simp: workspaces_left_iff [OF ok'])
  next
    show "g' = (if workspaces_left db' u w = [] then g
        else fold (\<lambda>r g. snd (rv_fn r u (workspaces_left db' u w) by' g)) (ordered_revokers rs) g)"
      unfolding g' by (rule sweep_grants)
  qed
qed

definition sample_revoker :: "(slug list) revoker" where
  "sample_revoker = \<lparr> rv_name = ''chats'', rv_order = 10,
     rv_fn = (\<lambda>u left by' g. (length left, filter (\<lambda>s. s \<notin> set left) g)), rv_counted = True \<rparr>"

lemma departure_sweeps_what_was_lost_witness:
  "{s. is_member sample_db (uncapped 3) s \<and> \<not> is_member (delete_row ''div'' 3 sample_db) (uncapped 3) s}
      \<subseteq> set (workspaces_left (delete_row ''div'' 3 sample_db) 3 ''div'')
    \<and> set (workspaces_left (delete_row ''div'' 3 sample_db) 3 ''div'')
      \<inter> {s. is_member (delete_row ''div'' 3 sample_db) (uncapped 3) s} = {}
    \<and> [''org''] = (if workspaces_left (delete_row ''div'' 3 sample_db) 3 ''div'' = [] then [''org'', ''team'']
        else fold (\<lambda>r g. snd (rv_fn r 3 (workspaces_left (delete_row ''div'' 3 sample_db) 3 ''div'') None g))
          (ordered_revokers [sample_revoker]) [''org'', ''team''])"
proof (rule departure_sweeps_what_was_lost [OF sample_db_ok(1)])
  show "remove_member [sample_revoker] ''div'' 3 None (sample_db, [''org'', ''team''])
      = (Inr (), delete_row ''div'' 3 sample_db, [''org''])"
  proof -
    have "remove_member [sample_revoker] ''div'' 3 None (sample_db, [''org'', ''team''])
        = (Inr (), delete_row ''div'' 3 sample_db,
           snd (departure_sweep (delete_row ''div'' 3 sample_db) [sample_revoker] 3 ''div'' None [''org'', ''team'']))"
    proof -
      have "row_of sample_db 3 ''div'' = Some \<lparr> m_workspace = ''div'', m_user = 3, m_role = Owner,
          m_invited_by = Some 1, m_joined = 2 \<rparr>"
        and "\<not> is_last_owner sample_db \<lparr> m_workspace = ''div'', m_user = 3, m_role = Owner,
          m_invited_by = Some 1, m_joined = 2 \<rparr>" by code_simp+
      then show ?thesis by (simp add: remove_member_def guarded_owner_mutation_def atomic_def Let_def)
    qed
    moreover have "snd (departure_sweep (delete_row ''div'' 3 sample_db) [sample_revoker] 3 ''div'' None
        [''org'', ''team'']) = [''org'']" by code_simp
    ultimately show ?thesis by simp
  qed
qed

end
