(* ===== verification/Workspace_Invites.thy ===== *)
theory Workspace_Invites
  imports Workspace_Members
begin

text \<open>
  The two ways into a workspace: invites (\<open>apps/workspaces/invites.py\<close>) and access requests
  (\<open>apps/workspaces/access_requests.py\<close>).  Both end in \<open>services._grant\<close>.  Tokens come
  from the caller (\<open>secrets\<close> is a source of fresh strings), the time is a parameter, and the mail
  and push notices, which change nothing here, are left out.  The workspace table is taken in the
  order of its display names, which is the order \<open>requestable_workspaces\<close> reads it in.
\<close>

section \<open>Mailboxes\<close>

definition partition_at :: "string \<Rightarrow> string \<times> bool \<times> string" where
  "partition_at s = (takeWhile (\<lambda>c. c \<noteq> CHR ''@'') s, CHR ''@'' \<in> set s,
     drop 1 (dropWhile (\<lambda>c. c \<noteq> CHR ''@'') s))"

definition gmail_domains :: "string list" where
  "gmail_domains = [''gmail.com'', ''googlemail.com'']"

definition mailbox_key :: "string \<Rightarrow> string" where
  "mailbox_key email = (let e = py_lower (py_strip email) in
     case partition_at e of (local_part, sep, domain) \<Rightarrow>
       if sep \<and> domain \<in> set gmail_domains
       then filter (\<lambda>c. c \<noteq> CHR ''.'') local_part @ ''@gmail.com'' else e)"

definition email_domain :: "string \<Rightarrow> string" where
  "email_domain email = (let e = py_lower (py_strip email) in
     if CHR ''@'' \<in> set e then rev (takeWhile (\<lambda>c. c \<noteq> CHR ''@'') (rev e)) else '''')"

text \<open>\<open>mask_email\<close>: the mask is three bullets, written as stars on ASCII text.\<close>

definition mask_email :: "string \<Rightarrow> string" where
  "mask_email email = (let e = py_strip email in
     if CHR ''@'' \<notin> set e then ''***''
     else case partition_at e of (local_part, _, domain) \<Rightarrow>
       if local_part = [] then ''***@'' @ domain else [hd local_part] @ ''***@'' @ domain)"


section \<open>The tables\<close>

record invite =
  iv_id :: nat
  iv_workspace :: slug
  iv_email :: string
  iv_role :: role
  iv_token :: string
  iv_invited_by :: user_id
  iv_expires_at :: instant
  iv_accepted_at :: "instant option"
  iv_revoked_at :: "instant option"
  iv_created_at :: instant

datatype request_status = RequestPending | RequestApproved | RequestDenied

record access_request =
  ar_id :: nat
  ar_workspace :: slug
  ar_user :: user_id
  ar_note :: string
  ar_status :: request_status
  ar_role :: "role option"
  ar_auto :: bool
  ar_decided_by :: "user_id option"
  ar_decided_at :: "instant option"
  ar_reason :: string

record accessdb =
  members_db :: wsdb
  invites :: "invite list"
  access_requests :: "access_request list"
  next_id :: nat

definition invite_is_pending :: "instant \<Rightarrow> invite \<Rightarrow> bool" where
  "invite_is_pending now i =
     (if iv_accepted_at i \<noteq> None \<or> iv_revoked_at i \<noteq> None then False else iv_expires_at i > now)"

definition unactioned :: "invite \<Rightarrow> bool" where
  "unactioned i \<longleftrightarrow> iv_accepted_at i = None \<and> iv_revoked_at i = None"


section \<open>Invites\<close>

datatype invite_error = InviteNotFound | InviteExpired | InviteRevoked | InviteAlreadyAccepted | EmailMismatch

definition INVITE_TTL_DAYS :: int where
  "INVITE_TTL_DAYS = 14"

definition newest_first :: "invite list \<Rightarrow> invite list" where
  "newest_first is = sort_key (\<lambda>i. - iv_created_at i) is"

definition update_invite :: "nat \<Rightarrow> (invite \<Rightarrow> invite) \<Rightarrow> accessdb \<Rightarrow> accessdb" where
  "update_invite n f db = db\<lparr>invites := tbl_update (\<lambda>i. iv_id i = n) f (invites db)\<rparr>"

definition rearm :: "string \<Rightarrow> instant \<Rightarrow> role \<Rightarrow> invite \<Rightarrow> invite" where
  "rearm token now r i = i\<lparr>iv_token := token, iv_expires_at := now + days INVITE_TTL_DAYS, iv_role := r\<rparr>"

definition create_invite :: "slug \<Rightarrow> string \<Rightarrow> role \<Rightarrow> user_id \<Rightarrow> string \<Rightarrow> instant \<Rightarrow> accessdb
    \<Rightarrow> invite \<times> accessdb" where
  "create_invite w email r by' token now db =
     (let e = py_lower (py_strip email) in
      case newest_first (filter (\<lambda>i. iv_workspace i = w \<and> iv_email i = e \<and> unactioned i) (invites db)) of
        existing # _ \<Rightarrow>
          if \<not> invite_is_pending now existing \<or> iv_role existing \<noteq> r
          then (rearm token now r existing, update_invite (iv_id existing) (rearm token now r) db)
          else (existing, db)
      | [] \<Rightarrow>
          let i = \<lparr> iv_id = next_id db, iv_workspace = w, iv_email = e, iv_role = r, iv_token = token,
                    iv_invited_by = by', iv_expires_at = now + days INVITE_TTL_DAYS,
                    iv_accepted_at = None, iv_revoked_at = None, iv_created_at = now \<rparr>
          in (i, db\<lparr>invites := invites db @ [i], next_id := Suc (next_id db)\<rparr>))"

definition accept_invite :: "string \<Rightarrow> user_id \<Rightarrow> string \<Rightarrow> instant \<Rightarrow> accessdb
    \<Rightarrow> (invite_error + slug \<times> role) \<times> accessdb" where
  "accept_invite token u user_email now db =
     (case find (\<lambda>i. iv_token i = token) (invites db) of
        None \<Rightarrow> (Inl InviteNotFound, db)
      | Some i \<Rightarrow>
          if iv_accepted_at i \<noteq> None then (Inl InviteAlreadyAccepted, db)
          else if iv_revoked_at i \<noteq> None then (Inl InviteRevoked, db)
          else if iv_expires_at i \<le> now then (Inl InviteExpired, db)
          else if iv_email i \<noteq> '''' \<and> mailbox_key user_email \<noteq> mailbox_key (iv_email i)
          then (Inl EmailMismatch, db)
          else (case grant_role (iv_workspace i) u (iv_role i) (Some (iv_invited_by i)) now (members_db db) of
            (m, wdb) \<Rightarrow> (Inr (iv_workspace i, m_role m),
              update_invite (iv_id i) (\<lambda>i. i\<lparr>iv_accepted_at := Some now\<rparr>) (db\<lparr>members_db := wdb\<rparr>))))"

definition reissue_invite :: "nat \<Rightarrow> string \<Rightarrow> instant \<Rightarrow> accessdb \<Rightarrow> (invite_error + unit) \<times> accessdb" where
  "reissue_invite n token now = atomic (\<lambda>db.
     case tbl_get iv_id n (invites db) of None \<Rightarrow> (Inl InviteNotFound, db)
     | Some i \<Rightarrow>
         if iv_accepted_at i \<noteq> None then (Inl InviteAlreadyAccepted, db)
         else if iv_revoked_at i \<noteq> None then (Inl InviteRevoked, db)
         else (Inr (), update_invite n (\<lambda>i. i\<lparr>iv_token := token,
                          iv_expires_at := now + days INVITE_TTL_DAYS\<rparr>) db))"

definition revoke_invite :: "nat \<Rightarrow> instant \<Rightarrow> accessdb \<Rightarrow> accessdb" where
  "revoke_invite n now db =
     (case tbl_get iv_id n (invites db) of None \<Rightarrow> db
      | Some i \<Rightarrow> if iv_accepted_at i = None \<and> iv_revoked_at i = None
          then update_invite n (\<lambda>i. i\<lparr>iv_revoked_at := Some now\<rparr>) db else db)"

datatype invite_state = StateAccepted | StateRevoked | StateExpired | StatePending

definition invite_status :: "instant \<Rightarrow> invite \<Rightarrow> invite_state" where
  "invite_status now i =
     (if iv_accepted_at i \<noteq> None then StateAccepted
      else if iv_revoked_at i \<noteq> None then StateRevoked
      else if iv_expires_at i \<le> now then StateExpired else StatePending)"

definition unactioned_invites_for :: "accessdb \<Rightarrow> string \<Rightarrow> invite list" where
  "unactioned_invites_for db email =
     (let key = mailbox_key email in
      if key = '''' then []
      else let live = filter unactioned (invites db);
               narrowed = (if suffix ''@gmail.com'' key
                 then filter (\<lambda>i. suffix ''@gmail.com'' (py_lower (iv_email i))
                        \<or> suffix ''@googlemail.com'' (py_lower (iv_email i))) live
                 else filter (\<lambda>i. iv_email i = key) live)
           in filter (\<lambda>i. mailbox_key (iv_email i) = key) (newest_first narrowed))"

definition pending_invite_for_email :: "accessdb \<Rightarrow> instant \<Rightarrow> string \<Rightarrow> invite option" where
  "pending_invite_for_email db now email =
     (case unactioned_invites_for db email of [] \<Rightarrow> None
      | i # _ \<Rightarrow> if invite_is_pending now i then Some i else None)"

definition pending_invites_for :: "accessdb \<Rightarrow> instant \<Rightarrow> string \<Rightarrow> invite list" where
  "pending_invites_for db now email = filter (invite_is_pending now) (unactioned_invites_for db email)"


section \<open>Access requests\<close>

datatype access_error = AccessNotFound | AccessAlreadyMember | AccessNotPending | AccessInvalidRole

definition APPROVABLE_ROLES :: "role list" where
  "APPROVABLE_ROLES = [Viewer, Editor, Admin]"

definition AUTO_APPROVE_ROLES :: "role list" where
  "AUTO_APPROVE_ROLES = [Viewer, Editor]"

definition domain_matches :: "workspace \<Rightarrow> string \<Rightarrow> string" where
  "domain_matches w user_email = (let domain = email_domain user_email in
     if domain \<noteq> '''' \<and> domain \<in> set (map py_lower (ws_access_request_domains w)) then domain else '''')"

definition requestable_workspaces :: "accessdb \<Rightarrow> user_id \<Rightarrow> string
    \<Rightarrow> (workspace \<times> string \<times> access_request option) list" where
  "requestable_workspaces db u user_email =
     (let domain = email_domain user_email in
      if domain = '''' then []
      else let already = user_workspace_slugs (members_db db) u in
        map (\<lambda>w. (w, domain, find (\<lambda>r. ar_workspace r = ws_slug w \<and> ar_user r = u
                \<and> ar_status r = RequestPending) (access_requests db)))
          (filter (\<lambda>w. ws_access_request_domains w \<noteq> [] \<and> ws_slug w \<notin> set already
              \<and> domain_matches w user_email \<noteq> '''') (workspaces (members_db db))))"

definition update_request :: "nat \<Rightarrow> (access_request \<Rightarrow> access_request) \<Rightarrow> accessdb \<Rightarrow> accessdb" where
  "update_request n f db = db\<lparr>access_requests := tbl_update (\<lambda>r. ar_id r = n) f (access_requests db)\<rparr>"

text \<open>\<open>_approve\<close>.\<close>

definition approve_at :: "nat \<Rightarrow> user_id option \<Rightarrow> role \<Rightarrow> bool \<Rightarrow> instant \<Rightarrow> accessdb
    \<Rightarrow> (access_error + access_request) \<times> accessdb" where
  "approve_at n by' r auto now db =
     (if r \<notin> set APPROVABLE_ROLES then (Inl AccessInvalidRole, db)
      else atomic (\<lambda>db.
        case tbl_get ar_id n (access_requests db) of None \<Rightarrow> (Inl AccessNotFound, db)
        | Some locked \<Rightarrow>
            if ar_status locked \<noteq> RequestPending then (Inl AccessNotPending, db)
            else let wdb = snd (grant_role (ar_workspace locked) (ar_user locked) r by' now (members_db db));
                     f = (\<lambda>q. q\<lparr>ar_status := RequestApproved, ar_role := Some r, ar_auto := auto,
                              ar_decided_by := by', ar_decided_at := Some now\<rparr>)
                 in (Inr (f locked), update_request n f (db\<lparr>members_db := wdb\<rparr>))) db)"

definition request_access :: "user_id \<Rightarrow> string \<Rightarrow> slug \<Rightarrow> string \<Rightarrow> instant \<Rightarrow> accessdb
    \<Rightarrow> (access_error + access_request \<times> bool) \<times> accessdb" where
  "request_access u user_email w note now db =
     (case tbl_get ws_slug w (workspaces (members_db db)) of None \<Rightarrow> (Inl AccessNotFound, db)
      | Some ws \<Rightarrow>
          if domain_matches ws user_email = '''' then (Inl AccessNotFound, db)
          else if is_member (members_db db) (uncapped u) w then (Inl AccessAlreadyMember, db)
          else (case find (\<lambda>r. ar_workspace r = w \<and> ar_user r = u \<and> ar_status r = RequestPending)
                  (access_requests db) of
            Some existing \<Rightarrow> (Inr (existing, False), db)
          | None \<Rightarrow>
              let r = \<lparr> ar_id = next_id db, ar_workspace = w, ar_user = u, ar_note = py_strip note,
                        ar_status = RequestPending, ar_role = None, ar_auto = False,
                        ar_decided_by = None, ar_decided_at = None, ar_reason = '''' \<rparr>;
                  db1 = db\<lparr>access_requests := access_requests db @ [r], next_id := Suc (next_id db)\<rparr>
              in (case role_of_name (ws_auto_approve_role ws) of
                    Some auto_role \<Rightarrow>
                      if auto_role \<in> set AUTO_APPROVE_ROLES
                      then (case approve_at (ar_id r) None auto_role True now db1 of
                          (Inl e, db2) \<Rightarrow> (Inl e, db2) | (Inr req, db2) \<Rightarrow> (Inr (req, True), db2))
                      else (Inr (r, True), db1)
                  | None \<Rightarrow> (Inr (r, True), db1))))"

definition approve_access_request :: "nat \<Rightarrow> user_id \<Rightarrow> role \<Rightarrow> instant \<Rightarrow> accessdb
    \<Rightarrow> (access_error + access_request) \<times> accessdb" where
  "approve_access_request n by' r now db = approve_at n (Some by') r False now db"

definition deny_access_request :: "nat \<Rightarrow> user_id \<Rightarrow> string \<Rightarrow> instant \<Rightarrow> accessdb
    \<Rightarrow> (access_error + access_request) \<times> accessdb" where
  "deny_access_request n by' reason now = atomic (\<lambda>db.
     case tbl_get ar_id n (access_requests db) of None \<Rightarrow> (Inl AccessNotFound, db)
     | Some r \<Rightarrow>
         if ar_status r \<noteq> RequestPending then (Inl AccessNotPending, db)
         else let f = (\<lambda>q. q\<lparr>ar_status := RequestDenied, ar_decided_by := Some by',
                         ar_decided_at := Some now, ar_reason := py_strip reason\<rparr>)
              in (Inr (f r), update_request n f db))"

definition access_request_recipients :: "accessdb \<Rightarrow> slug \<Rightarrow> user_id list" where
  "access_request_recipients db w = map e_user
     (filter (\<lambda>e. role_allows (Some (e_role e)) MEMBERS_MANAGE = Inr True)
       (effective_memberships (members_db db) w))"

section \<open>Mailbox keys\<close>

lemma partition_at_split:
  "partition_at e = (l, True, d) \<Longrightarrow> e = l @ CHR ''@'' # d"
proof -
  assume p: "partition_at e = (l, True, d)"
  then have l: "l = takeWhile (\<lambda>c. c \<noteq> CHR ''@'') e" and d: "d = drop 1 (dropWhile (\<lambda>c. c \<noteq> CHR ''@'') e)"
    and at: "CHR ''@'' \<in> set e" by (simp_all add: partition_at_def)
  have "dropWhile (\<lambda>c. c \<noteq> CHR ''@'') e \<noteq> []" using at by auto
  moreover have "hd (dropWhile (\<lambda>c. c \<noteq> CHR ''@'') e) = CHR ''@''"
    using hd_dropWhile [OF calculation] by simp
  ultimately have "dropWhile (\<lambda>c. c \<noteq> CHR ''@'') e = CHR ''@'' # d"
    unfolding d by (cases "dropWhile (\<lambda>c. c \<noteq> CHR ''@'') e") simp_all
  then show ?thesis unfolding l by (metis takeWhile_dropWhile_id)
qed

lemma partition_at_join: "CHR ''@'' \<notin> set l \<Longrightarrow> partition_at (l @ CHR ''@'' # d) = (l, True, d)"
  by (induction l) (auto simp: partition_at_def)

lemma partition_at_local: "partition_at e = (l, b, d) \<Longrightarrow> CHR ''@'' \<notin> set l"
  by (auto simp: partition_at_def dest: set_takeWhileD)

definition normal_email :: "string \<Rightarrow> bool" where
  "normal_email e \<longleftrightarrow> py_lower (py_strip e) = e"

lemma normal_email_norm: "normal_email (py_lower (py_strip e))"
  by (simp add: normal_email_def py_strip_lower)

lemma normal_email_lower: "normal_email e \<Longrightarrow> py_lower e = e"
  unfolding normal_email_def by (metis py_lower_idem)

lemma mailbox_key_cases:
  obtains (folded) l d where "py_lower (py_strip e) = l @ CHR ''@'' # d" "d \<in> set gmail_domains"
      "CHR ''@'' \<notin> set l" "mailbox_key e = filter (\<lambda>c. c \<noteq> CHR ''.'') l @ ''@gmail.com''"
    | (plain) "mailbox_key e = py_lower (py_strip e)"
proof -
  obtain l b d where p: "partition_at (py_lower (py_strip e)) = (l, b, d)" by (metis prod.exhaust)
  show thesis
  proof (cases "b \<and> d \<in> set gmail_domains")
    case True
    then show ?thesis
      using folded [of l d] p partition_at_split [of _ l d] partition_at_local [OF p]
      by (simp add: mailbox_key_def Let_def)
  next
    case False
    then show ?thesis using plain p by (auto simp: mailbox_key_def Let_def)
  qed
qed

lemma mailbox_key_folded:
  assumes "normal_email (l @ CHR ''@'' # d)" and "CHR ''@'' \<notin> set l" and "d \<in> set gmail_domains"
  shows "mailbox_key (l @ CHR ''@'' # d) = filter (\<lambda>c. c \<noteq> CHR ''.'') l @ ''@gmail.com''"
  using assms by (simp add: mailbox_key_def normal_email_def Let_def partition_at_join)

text \<open>An address whose mailbox key is \<open>key\<close> is among those the query narrows to.\<close>

lemma narrowed_contains:
  assumes "normal_email e" and "mailbox_key e = key"
  shows "if suffix ''@gmail.com'' key
    then suffix ''@gmail.com'' (py_lower e) \<or> suffix ''@googlemail.com'' (py_lower e) else e = key"
proof (cases rule: mailbox_key_cases [of e])
  case (folded l d)
  have e: "e = l @ CHR ''@'' # d" using folded(1) assms(1) by (simp add: normal_email_def)
  have "suffix ''@gmail.com'' key" using folded(4) assms(2) by (auto simp: suffix_def)
  moreover have "suffix ''@gmail.com'' e \<or> suffix ''@googlemail.com'' e"
    using e folded(2) by (auto simp: gmail_domains_def suffix_def)
  ultimately show ?thesis using normal_email_lower [OF assms(1)] by simp
next
  case plain
  then have "e = key" using assms by (simp add: normal_email_def)
  then show ?thesis using normal_email_lower [OF assms(1)] by simp
qed

lemma mailbox_key_nonempty: "normal_email e \<Longrightarrow> e \<noteq> '''' \<Longrightarrow> mailbox_key e \<noteq> ''''"
  by (cases rule: mailbox_key_cases [of e]) (auto simp: normal_email_def)

lemma set_newest_first [simp]: "set (newest_first is) = set is"
  by (simp add: newest_first_def)

lemma unactioned_invites_set:
  assumes "\<And>i. i \<in> set (invites db) \<Longrightarrow> normal_email (iv_email i)"
  shows "set (unactioned_invites_for db email) =
    (if mailbox_key email = '''' then {}
     else {i \<in> set (invites db). unactioned i \<and> mailbox_key (iv_email i) = mailbox_key email})"
proof (cases "mailbox_key email = ''''")
  case False
  have narrow: "i \<in> set (invites db) \<Longrightarrow> mailbox_key (iv_email i) = mailbox_key email \<Longrightarrow>
      (if suffix ''@gmail.com'' (mailbox_key email)
       then suffix ''@gmail.com'' (py_lower (iv_email i)) \<or> suffix ''@googlemail.com'' (py_lower (iv_email i))
       else iv_email i = mailbox_key email)" for i
    by (rule narrowed_contains [OF assms])
  show ?thesis
  proof (cases "suffix ''@gmail.com'' (mailbox_key email)")
    case True
    then show ?thesis
      using False narrow unfolding unactioned_invites_for_def Let_def
      by (simp only: if_True if_False set_filter set_newest_first) blast
  next
    case plain: False
    then show ?thesis
      using False narrow unfolding unactioned_invites_for_def Let_def
      by (simp only: if_True if_False set_filter set_newest_first) blast
  qed
qed (simp add: unactioned_invites_for_def Let_def)


section \<open>What the operations keep\<close>

definition one_live_invite :: "invite list \<Rightarrow> bool" where
  "one_live_invite ivs \<longleftrightarrow> (\<forall>i\<in>set ivs. \<forall>j\<in>set ivs. unactioned i \<longrightarrow> unactioned j \<longrightarrow>
     iv_workspace i = iv_workspace j \<longrightarrow> iv_email i = iv_email j \<longrightarrow> iv_id i = iv_id j)"

definition one_open_request :: "access_request list \<Rightarrow> bool" where
  "one_open_request rs \<longleftrightarrow> (\<forall>r\<in>set rs. \<forall>q\<in>set rs.
     ar_status r = RequestPending \<longrightarrow> ar_status q = RequestPending \<longrightarrow>
     ar_workspace r = ar_workspace q \<longrightarrow> ar_user r = ar_user q \<longrightarrow> ar_id r = ar_id q)"

definition invite_rows_ok :: "slug set \<Rightarrow> nat \<Rightarrow> invite list \<Rightarrow> bool" where
  "invite_rows_ok slugs n ivs \<longleftrightarrow> distinct (map iv_id ivs)
     \<and> (\<forall>i\<in>set ivs. iv_id i < n \<and> normal_email (iv_email i) \<and> iv_workspace i \<in> slugs)"

definition request_rows_ok :: "slug set \<Rightarrow> nat \<Rightarrow> access_request list \<Rightarrow> bool" where
  "request_rows_ok slugs n rs \<longleftrightarrow> distinct (map ar_id rs)
     \<and> (\<forall>r\<in>set rs. ar_id r < n \<and> ar_workspace r \<in> slugs)"

abbreviation known_slugs :: "accessdb \<Rightarrow> slug set" where
  "known_slugs db \<equiv> ws_slug ` set (workspaces (members_db db))"

definition access_ok :: "accessdb \<Rightarrow> bool" where
  "access_ok db \<longleftrightarrow> wsdb_ok (members_db db)
     \<and> invite_rows_ok (known_slugs db) (next_id db) (invites db) \<and> one_live_invite (invites db)
     \<and> request_rows_ok (known_slugs db) (next_id db) (access_requests db)
     \<and> one_open_request (access_requests db)"

text \<open>Every way the tables change.\<close>

inductive access_step :: "accessdb \<Rightarrow> accessdb \<Rightarrow> bool" where
  step_create: "w \<in> ws_slug ` set (workspaces (members_db db)) \<Longrightarrow>
      access_step db (snd (create_invite w email r by' token now db))"
| step_accept: "access_step db (snd (accept_invite token u user_email now db))"
| step_reissue: "access_step db (snd (reissue_invite n token now db))"
| step_revoke: "access_step db (revoke_invite n now db)"
| step_request: "access_step db (snd (request_access u user_email w note now db))"
| step_approve: "access_step db (snd (approve_access_request n by' r now db))"
| step_deny: "access_step db (snd (deny_access_request n by' reason now db))"

inductive_cases access_stepE: "access_step db db'"

text \<open>The tables row by row.\<close>

lemma invite_rows_update:
  assumes "invite_rows_ok S n ivs" and "\<And>i. iv_id (f i) = iv_id i" "\<And>i. iv_workspace (f i) = iv_workspace i"
      "\<And>i. iv_email (f i) = iv_email i"
  shows "invite_rows_ok S n (tbl_update P f ivs)"
proof -
  have "map iv_id (tbl_update P f ivs) = map iv_id ivs" by (rule map_tbl_update) (rule assms(2))
  then show ?thesis using assms by (auto simp: invite_rows_ok_def set_tbl_update)
qed

lemma one_live_update:
  assumes ok: "one_live_invite ivs" and f: "\<And>i. iv_id (f i) = iv_id i" "\<And>i. iv_workspace (f i) = iv_workspace i"
      "\<And>i. iv_email (f i) = iv_email i" and live: "\<And>i. unactioned (f i) \<Longrightarrow> unactioned i"
  shows "one_live_invite (tbl_update P f ivs)"
  unfolding one_live_invite_def
proof (intro ballI impI)
  fix i j assume i: "i \<in> set (tbl_update P f ivs)" and j: "j \<in> set (tbl_update P f ivs)"
    and u: "unactioned i" "unactioned j" "iv_workspace i = iv_workspace j" "iv_email i = iv_email j"
  obtain i' where i': "i' \<in> set ivs" "i = (if P i' then f i' else i')"
    using i unfolding set_tbl_update by blast
  obtain j' where j': "j' \<in> set ivs" "j = (if P j' then f j' else j')"
    using j unfolding set_tbl_update by blast
  have "unactioned i'" "unactioned j'" using i' j' u(1,2) live by (auto split: if_splits)
  moreover have "iv_workspace i' = iv_workspace j'" "iv_email i' = iv_email j'"
    using i'(2) j'(2) u(3,4) f by (auto split: if_splits)
  ultimately have "iv_id i' = iv_id j'" using ok i'(1) j'(1) unfolding one_live_invite_def by blast
  then show "iv_id i = iv_id j" using i'(2) j'(2) f(1) by simp
qed

lemma one_live_rearm:
  assumes ok: "one_live_invite ivs" and i: "i \<in> set ivs" "unactioned i" and rows: "invite_rows_ok S n ivs"
    and f: "\<And>i. iv_id (f i) = iv_id i" "\<And>i. iv_workspace (f i) = iv_workspace i"
      "\<And>i. iv_email (f i) = iv_email i" "\<And>i. unactioned (f i) = unactioned i"
  shows "one_live_invite (tbl_update (\<lambda>j. iv_id j = iv_id i) f ivs)"
  by (rule one_live_update [OF ok f(1-3)]) (simp add: f(4))

lemma invite_rows_append:
  assumes "invite_rows_ok S n ivs" and "iv_id i = n" "normal_email (iv_email i)" "iv_workspace i \<in> S"
  shows "invite_rows_ok S (Suc n) (ivs @ [i])"
  using assms by (auto simp: invite_rows_ok_def less_Suc_eq)

lemma one_live_append:
  assumes ok: "one_live_invite ivs"
    and none: "\<And>j. j \<in> set ivs \<Longrightarrow> unactioned j \<Longrightarrow> iv_workspace j = iv_workspace i \<Longrightarrow> iv_email j \<noteq> iv_email i"
  shows "one_live_invite (ivs @ [i])"
  unfolding one_live_invite_def
proof (intro ballI impI)
  fix j k assume jk: "j \<in> set (ivs @ [i])" "k \<in> set (ivs @ [i])"
    and u: "unactioned j" "unactioned k" "iv_workspace j = iv_workspace k" "iv_email j = iv_email k"
  consider "j = k" | "j \<in> set ivs" "k \<in> set ivs" | "j = i" "k \<in> set ivs" | "k = i" "j \<in> set ivs"
    using jk by auto
  then show "iv_id j = iv_id k"
  proof cases
    case 2
    then show ?thesis using ok u unfolding one_live_invite_def by blast
  next
    case 3
    then show ?thesis using none [of k] u by simp
  next
    case 4
    then show ?thesis using none [of j] u by simp
  qed simp
qed

lemma request_rows_update:
  assumes "request_rows_ok S n rs" and "\<And>r. ar_id (f r) = ar_id r" "\<And>r. ar_workspace (f r) = ar_workspace r"
  shows "request_rows_ok S n (tbl_update P f rs)"
proof -
  have "map ar_id (tbl_update P f rs) = map ar_id rs" by (rule map_tbl_update) (rule assms(2))
  then show ?thesis using assms by (auto simp: request_rows_ok_def set_tbl_update)
qed

lemma one_open_update:
  assumes ok: "one_open_request rs" and closed: "\<And>r. ar_status (f r) \<noteq> RequestPending"
  shows "one_open_request (tbl_update P f rs)"
  unfolding one_open_request_def
proof (intro ballI impI)
  fix r q assume "r \<in> set (tbl_update P f rs)" "q \<in> set (tbl_update P f rs)"
    and u: "ar_status r = RequestPending" "ar_status q = RequestPending"
      "ar_workspace r = ar_workspace q" "ar_user r = ar_user q"
  then have "r \<in> set rs" "q \<in> set rs"
    using closed by (auto simp: set_tbl_update split: if_splits)
  then show "ar_id r = ar_id q" using u ok unfolding one_open_request_def by blast
qed

lemma request_rows_append:
  assumes "request_rows_ok S n rs" and "ar_id r = n" "ar_workspace r \<in> S"
  shows "request_rows_ok S (Suc n) (rs @ [r])"
  using assms by (auto simp: request_rows_ok_def less_Suc_eq)

lemma one_open_append:
  assumes ok: "one_open_request rs"
    and none: "\<And>q. q \<in> set rs \<Longrightarrow> ar_status q = RequestPending \<Longrightarrow> ar_workspace q = ar_workspace r \<Longrightarrow> ar_user q \<noteq> ar_user r"
  shows "one_open_request (rs @ [r])"
  unfolding one_open_request_def
proof (intro ballI impI)
  fix j k assume jk: "j \<in> set (rs @ [r])" "k \<in> set (rs @ [r])"
    and u: "ar_status j = RequestPending" "ar_status k = RequestPending"
      "ar_workspace j = ar_workspace k" "ar_user j = ar_user k"
  consider "j = k" | "j \<in> set rs" "k \<in> set rs" | "j = r" "k \<in> set rs" | "k = r" "j \<in> set rs"
    using jk by auto
  then show "ar_id j = ar_id k"
  proof cases
    case 2
    then show ?thesis using ok u unfolding one_open_request_def by blast
  next
    case 3
    then show ?thesis using none [of k] u by simp
  next
    case 4
    then show ?thesis using none [of j] u by simp
  qed simp
qed

text \<open>The operations.\<close>

lemma access_ok_invite_update:
  assumes "access_ok db" and "\<And>i. iv_id (f i) = iv_id i" "\<And>i. iv_workspace (f i) = iv_workspace i"
      "\<And>i. iv_email (f i) = iv_email i" "\<And>i. unactioned (f i) \<Longrightarrow> unactioned i"
  shows "access_ok (update_invite n f db)"
  using assms by (simp add: access_ok_def update_invite_def invite_rows_update one_live_update)

lemma access_ok_request_update:
  assumes "access_ok db" and "\<And>r. ar_id (f r) = ar_id r" "\<And>r. ar_workspace (f r) = ar_workspace r"
    and "\<And>r. ar_status (f r) \<noteq> RequestPending"
  shows "access_ok (update_request n f db)"
  using assms by (simp add: access_ok_def update_request_def request_rows_update one_open_update)

lemma access_ok_invite: "access_ok db \<Longrightarrow> i \<in> set (invites db) \<Longrightarrow>
    normal_email (iv_email i) \<and> iv_workspace i \<in> known_slugs db"
  by (simp add: access_ok_def invite_rows_ok_def)

lemma access_ok_request: "access_ok db \<Longrightarrow> r \<in> set (access_requests db) \<Longrightarrow> ar_workspace r \<in> known_slugs db"
  by (simp add: access_ok_def request_rows_ok_def)

lemma access_ok_grant:
  assumes "access_ok db" and "w \<in> known_slugs db"
  shows "access_ok (db\<lparr>members_db := snd (grant_role w u r by' now (members_db db))\<rparr>)"
proof -
  have "workspaces (snd (grant_role w u r by' now (members_db db))) = workspaces (members_db db)"
    by (simp add: grant_role_def set_role_row_def Let_def split: option.split)
  then show ?thesis
    using assms wsdb_ok_grant [of "members_db db" w u r by' now] by (simp add: access_ok_def)
qed

lemma access_ok_create:
  assumes ok: "access_ok db" and w: "w \<in> known_slugs db"
  shows "access_ok (snd (create_invite w email r by' token now db))"
proof -
  let ?e = "py_lower (py_strip email)"
  let ?live = "newest_first (filter (\<lambda>i. iv_workspace i = w \<and> iv_email i = ?e \<and> unactioned i) (invites db))"
  show ?thesis
  proof (cases ?live)
    case (Cons i rest)
    have "access_ok (update_invite (iv_id i) (rearm token now r) db)"
      by (rule access_ok_invite_update [OF ok]) (simp_all add: rearm_def unactioned_def)
    then show ?thesis using Cons ok by (simp add: create_invite_def Let_def)
  next
    case Nil
    then have "set (filter (\<lambda>i. iv_workspace i = w \<and> iv_email i = ?e \<and> unactioned i) (invites db)) = {}"
      by (metis empty_set set_newest_first)
    then have none: "j \<in> set (invites db) \<Longrightarrow> unactioned j \<Longrightarrow> iv_workspace j = w \<Longrightarrow> iv_email j \<noteq> ?e" for j
      by auto
    define i where "i = \<lparr> iv_id = next_id db, iv_workspace = w, iv_email = ?e, iv_role = r, iv_token = token,
                    iv_invited_by = by', iv_expires_at = now + days INVITE_TTL_DAYS,
                    iv_accepted_at = None, iv_revoked_at = None, iv_created_at = now \<rparr>"
    have db': "snd (create_invite w email r by' token now db)
        = db\<lparr>invites := invites db @ [i], next_id := Suc (next_id db)\<rparr>"
      using Nil by (simp add: create_invite_def Let_def i_def)
    have "invite_rows_ok (known_slugs db) (Suc (next_id db)) (invites db @ [i])"
      by (rule invite_rows_append) (use ok w normal_email_norm in \<open>simp_all add: access_ok_def i_def\<close>)
    moreover have "one_live_invite (invites db @ [i])"
      by (rule one_live_append) (use ok none in \<open>simp_all add: access_ok_def i_def\<close>)
    moreover have "request_rows_ok (known_slugs db) (Suc (next_id db)) (access_requests db)"
      using ok by (auto simp: access_ok_def request_rows_ok_def)
    ultimately show ?thesis unfolding db' using ok by (simp add: access_ok_def)
  qed
qed

lemma access_ok_accept:
  assumes ok: "access_ok db"
  shows "access_ok (snd (accept_invite token u user_email now db))"
proof (cases "find (\<lambda>i. iv_token i = token) (invites db)")
  case None
  then show ?thesis using ok by (simp add: accept_invite_def)
next
  case (Some i)
  then have i: "i \<in> set (invites db)" by (auto simp: find_Some_iff)
  obtain m wdb where g: "grant_role (iv_workspace i) u (iv_role i) (Some (iv_invited_by i)) now (members_db db) = (m, wdb)"
    by (metis prod.exhaust)
  have "access_ok (db\<lparr>members_db := wdb\<rparr>)"
    using access_ok_grant [OF ok, of "iv_workspace i" u "iv_role i" "Some (iv_invited_by i)" now]
      access_ok_invite [OF ok i] g by simp
  then have "access_ok (update_invite (iv_id i) (\<lambda>i. i\<lparr>iv_accepted_at := Some now\<rparr>) (db\<lparr>members_db := wdb\<rparr>))"
    by (rule access_ok_invite_update) (simp_all add: unactioned_def)
  then show ?thesis using Some ok g by (simp add: accept_invite_def)
qed

lemma access_ok_reissue: "access_ok db \<Longrightarrow> access_ok (snd (reissue_invite n token now db))"
proof -
  assume ok: "access_ok db"
  have "access_ok (update_invite n (\<lambda>i. i\<lparr>iv_token := token, iv_expires_at := now + days INVITE_TTL_DAYS\<rparr>) db)"
    by (rule access_ok_invite_update [OF ok]) (simp_all add: unactioned_def)
  then show ?thesis
    unfolding reissue_invite_def
    by (intro atomic_preserves [where I = access_ok] ok) (simp split: option.splits if_splits)
qed

lemma access_ok_revoke: "access_ok db \<Longrightarrow> access_ok (revoke_invite n now db)"
proof -
  assume ok: "access_ok db"
  have "access_ok (update_invite n (\<lambda>i. i\<lparr>iv_revoked_at := Some now\<rparr>) db)"
    by (rule access_ok_invite_update [OF ok]) (simp_all add: unactioned_def)
  then show ?thesis using ok by (simp add: revoke_invite_def split: option.split)
qed

lemma access_ok_approve: "access_ok db \<Longrightarrow> access_ok (snd (approve_at n by' r auto now db))"
proof -
  assume ok: "access_ok db"
  have "access_ok (update_request n (\<lambda>q. q\<lparr>ar_status := RequestApproved, ar_role := Some r, ar_auto := auto,
          ar_decided_by := by', ar_decided_at := Some now\<rparr>)
        (db\<lparr>members_db := snd (grant_role (ar_workspace locked) (ar_user locked) r by' now (members_db db))\<rparr>))"
    if "tbl_get ar_id n (access_requests db) = Some locked" for locked
  proof -
    have "locked \<in> set (access_requests db)" using tbl_get_Some [OF that] by simp
    note w = access_ok_request [OF ok this]
    show ?thesis by (rule access_ok_request_update [OF access_ok_grant [OF ok w]]) simp_all
  qed
  then show ?thesis
    unfolding approve_at_def using ok
    by (cases "r \<in> set APPROVABLE_ROLES")
      (simp_all, intro atomic_preserves [where I = access_ok] ok, simp add: Let_def split: option.splits if_splits)
qed

lemma access_ok_deny: "access_ok db \<Longrightarrow> access_ok (snd (deny_access_request n by' reason now db))"
proof -
  assume ok: "access_ok db"
  have "access_ok (update_request n (\<lambda>q. q\<lparr>ar_status := RequestDenied, ar_decided_by := Some by',
                         ar_decided_at := Some now, ar_reason := py_strip reason\<rparr>) db)"
    by (rule access_ok_request_update [OF ok]) simp_all
  then show ?thesis
    unfolding deny_access_request_def
    by (intro atomic_preserves [where I = access_ok] ok) (simp add: Let_def split: option.splits if_splits)
qed

text \<open>Opening a request, before any automatic approval.\<close>

definition opened_request :: "user_id \<Rightarrow> slug \<Rightarrow> string \<Rightarrow> accessdb \<Rightarrow> access_request" where
  "opened_request u w note db = \<lparr> ar_id = next_id db, ar_workspace = w, ar_user = u, ar_note = py_strip note,
     ar_status = RequestPending, ar_role = None, ar_auto = False,
     ar_decided_by = None, ar_decided_at = None, ar_reason = '''' \<rparr>"

definition open_request :: "user_id \<Rightarrow> slug \<Rightarrow> string \<Rightarrow> accessdb \<Rightarrow> accessdb" where
  "open_request u w note db =
     db\<lparr>access_requests := access_requests db @ [opened_request u w note db], next_id := Suc (next_id db)\<rparr>"

lemma access_ok_open:
  assumes ok: "access_ok db" and w: "w \<in> known_slugs db"
    and none: "find (\<lambda>r. ar_workspace r = w \<and> ar_user r = u \<and> ar_status r = RequestPending) (access_requests db) = None"
  shows "access_ok (open_request u w note db)"
proof -
  have no: "r \<in> set (access_requests db) \<Longrightarrow> ar_status r = RequestPending \<Longrightarrow> ar_workspace r = w \<Longrightarrow> ar_user r \<noteq> u" for r
    using none by (auto simp: find_None_iff)
  have "request_rows_ok (known_slugs db) (Suc (next_id db)) (access_requests db @ [opened_request u w note db])"
    by (rule request_rows_append) (use ok w in \<open>simp_all add: access_ok_def opened_request_def\<close>)
  moreover have "one_open_request (access_requests db @ [opened_request u w note db])"
    by (rule one_open_append) (use ok no in \<open>simp_all add: access_ok_def opened_request_def\<close>)
  moreover have "invite_rows_ok (known_slugs db) (Suc (next_id db)) (invites db)"
    using ok by (auto simp: access_ok_def invite_rows_ok_def)
  ultimately show ?thesis using ok by (simp add: access_ok_def open_request_def)
qed

text \<open>The ways a request to join can go.\<close>

definition open_request_of :: "user_id \<Rightarrow> slug \<Rightarrow> accessdb \<Rightarrow> access_request option" where
  "open_request_of u w db =
     find (\<lambda>r. ar_workspace r = w \<and> ar_user r = u \<and> ar_status r = RequestPending) (access_requests db)"

lemma request_access_eq:
  "request_access u user_email w note now db =
     (case tbl_get ws_slug w (workspaces (members_db db)) of None \<Rightarrow> (Inl AccessNotFound, db)
      | Some ws \<Rightarrow>
          if domain_matches ws user_email = '''' then (Inl AccessNotFound, db)
          else if is_member (members_db db) (uncapped u) w then (Inl AccessAlreadyMember, db)
          else (case open_request_of u w db of
            Some existing \<Rightarrow> (Inr (existing, False), db)
          | None \<Rightarrow> (case role_of_name (ws_auto_approve_role ws) of
              Some r \<Rightarrow> if r \<in> set AUTO_APPROVE_ROLES
                then (case approve_at (next_id db) None r True now (open_request u w note db) of
                    (Inl e, db2) \<Rightarrow> (Inl e, db2) | (Inr req, db2) \<Rightarrow> (Inr (req, True), db2))
                else (Inr (opened_request u w note db, True), open_request u w note db)
            | None \<Rightarrow> (Inr (opened_request u w note db, True), open_request u w note db))))"
  by (simp add: request_access_def open_request_of_def open_request_def opened_request_def Let_def
      split: option.split)

lemma access_ok_request_access:
  assumes ok: "access_ok db"
  shows "access_ok (snd (request_access u user_email w note now db))"
proof (cases "tbl_get ws_slug w (workspaces (members_db db))")
  case None
  then show ?thesis using ok by (simp add: request_access_eq)
next
  case (Some ws)
  then have w: "w \<in> known_slugs db" using tbl_get_Some [OF Some] by blast
  have opened: "access_ok (open_request u w note db)" if "open_request_of u w db = None"
    using that by (intro access_ok_open ok w) (simp add: open_request_of_def)
  have auto: "access_ok (snd (case approve_at (next_id db) None r True now (open_request u w note db) of
                    (Inl e, db2) \<Rightarrow> (Inl e, db2) | (Inr req, db2) \<Rightarrow> (Inr (req, True), db2)))"
    if "open_request_of u w db = None" for r
    using access_ok_approve [OF opened [OF that], of "next_id db" None r True now]
    by (cases "approve_at (next_id db) None r True now (open_request u w note db)") (simp split: sum.split)
  show ?thesis
    unfolding request_access_eq using Some ok opened auto by (simp split: option.split)
qed

lemma access_ok_step: "access_step db db' \<Longrightarrow> access_ok db \<Longrightarrow> access_ok db'"
  by (erule access_stepE) (simp_all add: access_ok_create access_ok_accept access_ok_reissue
      access_ok_revoke access_ok_request_access access_ok_approve access_ok_deny approve_access_request_def)

section \<open>Properties\<close>

definition sample_access :: accessdb where
  "sample_access = \<lparr> members_db = sample_db,
     invites = [\<lparr> iv_id = 0, iv_workspace = ''div'', iv_email = ''ada.lovelace@gmail.com'', iv_role = Admin,
                  iv_token = ''t0'', iv_invited_by = 1, iv_expires_at = 100, iv_accepted_at = None,
                  iv_revoked_at = None, iv_created_at = 0 \<rparr>],
     access_requests = [\<lparr> ar_id = 1, ar_workspace = ''div'', ar_user = 9, ar_note = '''',
                  ar_status = RequestPending, ar_role = None, ar_auto = False, ar_decided_by = None,
                  ar_decided_at = None, ar_reason = '''' \<rparr>],
     next_id = 2 \<rparr>"

lemma sample_access_ok: "access_ok sample_access"
  by code_simp

text \<open>C17. Whatever sequence of invites, acceptances, reissues, revocations, requests, approvals and
  denials runs, there is at most one live invite per workspace and exact normalised address (two
  spellings of one mailbox, dots in a Gmail name say, are two addresses here) and at most one open
  request per workspace and person, every row names a workspace that exists, and each person has
  at most one membership row per workspace.\<close>

theorem access_tables_stay_well_formed:
  assumes "access_step\<^sup>*\<^sup>* db db'" and "access_ok db"
  shows "access_ok db'"
  using assms by (induction rule: rtranclp_induct) (auto intro: access_ok_step)

lemma access_tables_stay_well_formed_witness:
  "access_ok (revoke_invite 0 5 (snd (accept_invite ''t0'' 2 ''ADA.lovelace@gmail.com'' 4 sample_access)))"
proof -
  let ?one = "snd (accept_invite ''t0'' 2 ''ADA.lovelace@gmail.com'' 4 sample_access)"
  have "access_step sample_access ?one" and "access_step ?one (revoke_invite 0 5 ?one)"
    by (rule step_accept, rule step_revoke)
  then have "access_step\<^sup>*\<^sup>* sample_access (revoke_invite 0 5 ?one)" by simp
  then show ?thesis by (rule access_tables_stay_well_formed [OF _ sample_access_ok])
qed

text \<open>Accepting an invite succeeds only for a pending invite addressed to the same mailbox (or to
  nobody in particular); it then gives the person the stronger of the role they hold and the
  invite's, changes nobody else's row, and consumes the invite.  A refused acceptance changes
  nothing.\<close>

theorem accepting_never_demotes:
  assumes ok: "access_ok db"
  shows "case accept_invite token u user_email now db of
      (Inl e, db') \<Rightarrow> db' = db
    | (Inr (w, r), db') \<Rightarrow>
        (\<exists>i\<in>set (invites db). iv_token i = token \<and> invite_status now i = StatePending
           \<and> iv_workspace i = w \<and> (iv_email i = '''' \<or> mailbox_key user_email = mailbox_key (iv_email i))
           \<and> Some r = better (map_of (direct_roles (members_db db) u) w) (Some (iv_role i))
           \<and> (\<exists>j\<in>set (invites db'). iv_id j = iv_id i \<and> invite_status now j = StateAccepted))
        \<and> map_of (direct_roles (members_db db') u) w = Some r
        \<and> {(v, x) |v x. map_of (direct_roles (members_db db') v) x \<noteq> map_of (direct_roles (members_db db) v) x}
            \<subseteq> {(u, w)}"
proof (cases "accept_invite token u user_email now db")
  case (Pair res db')
  show ?thesis
  proof (cases res)
    case (Inl e)
    then show ?thesis
      using Pair by (auto simp: accept_invite_def split: option.splits if_splits prod.splits)
  next
    case (Inr wr)
    then obtain i where i: "find (\<lambda>i. iv_token i = token) (invites db) = Some i"
      "iv_accepted_at i = None" "iv_revoked_at i = None" "\<not> iv_expires_at i \<le> now"
      "iv_email i = '''' \<or> mailbox_key user_email = mailbox_key (iv_email i)"
      using Pair by (auto simp: accept_invite_def split: option.splits if_splits)
    define g where "g = grant_role (iv_workspace i) u (iv_role i) (Some (iv_invited_by i)) now (members_db db)"
    have mailbox: "\<not> (iv_email i \<noteq> '''' \<and> mailbox_key user_email \<noteq> mailbox_key (iv_email i))"
      using i(5) by blast
    have "accept_invite token u user_email now db = (Inr (iv_workspace i, m_role (fst g)),
        update_invite (iv_id i) (\<lambda>i. i\<lparr>iv_accepted_at := Some now\<rparr>) (db\<lparr>members_db := snd g\<rparr>))"
      unfolding accept_invite_def i(1) g_def using i(2-4) mailbox
      by (simp only: option.case if_False if_True simp_thms split: prod.split) simp
    then have wr: "wr = (iv_workspace i, m_role (fst g))"
      and db': "db' = update_invite (iv_id i) (\<lambda>i. i\<lparr>iv_accepted_at := Some now\<rparr>) (db\<lparr>members_db := snd g\<rparr>)"
      using Pair Inr by simp_all
    have member: "i \<in> set (invites db)" and token: "iv_token i = token"
      using i(1) by (auto simp: find_Some_iff)
    have wok: "wsdb_ok (members_db db)" using ok by (simp add: access_ok_def)
    note direct = grant_role_direct [OF wok, of "iv_workspace i" u "iv_role i" "Some (iv_invited_by i)" now, folded g_def]
    have role: "Some (m_role (fst g)) = better (map_of (direct_roles (members_db db) u) (iv_workspace i)) (Some (iv_role i))"
      unfolding g_def grant_role_def direct_roles_lookup
      by (auto simp: Let_def max_def less_eq_role_def split: option.split)
    have consumed: "\<exists>j\<in>set (invites db'). iv_id j = iv_id i \<and> invite_status now j = StateAccepted"
      using member unfolding db'
      by (intro bexI [of _ "i\<lparr>iv_accepted_at := Some now\<rparr>"])
        (auto simp: update_invite_def set_tbl_update invite_status_def intro!: image_eqI [of _ _ i])
    have members: "members_db db' = snd g" by (simp add: db' update_invite_def)
    have "\<exists>i\<in>set (invites db). iv_token i = token \<and> invite_status now i = StatePending
           \<and> iv_workspace i = fst wr \<and> (iv_email i = '''' \<or> mailbox_key user_email = mailbox_key (iv_email i))
           \<and> Some (snd wr) = better (map_of (direct_roles (members_db db) u) (fst wr)) (Some (iv_role i))
           \<and> (\<exists>j\<in>set (invites db'). iv_id j = iv_id i \<and> invite_status now j = StateAccepted)"
      using member token i(2-5) role consumed wr by (intro bexI [of _ i]) (simp_all add: invite_status_def)
    moreover have "map_of (direct_roles (members_db db') u) (fst wr) = Some (snd wr)"
      using direct [of u "iv_workspace i"] role wr members by simp
    moreover have "{(v, x) |v x. map_of (direct_roles (members_db db') v) x
        \<noteq> map_of (direct_roles (members_db db) v) x} \<subseteq> {(u, fst wr)}"
      unfolding members using direct wr by auto
    ultimately show ?thesis using Pair Inr by (cases wr) simp
  qed
qed

lemma accepting_never_demotes_witness:
  "map_of (direct_roles (members_db (snd (accept_invite ''t0'' 2 ''adalovelace@googlemail.com'' 4 sample_access))) 2) ''div''
     = Some Admin"
proof -
  have "fst (accept_invite ''t0'' 2 ''adalovelace@googlemail.com'' 4 sample_access) = Inr (''div'', Admin)"
    by code_simp
  then show ?thesis
    using accepting_never_demotes [OF sample_access_ok, where token = "''t0''" and u = 2
      and user_email = "''adalovelace@googlemail.com''" and now = 4]
    by (cases "accept_invite ''t0'' 2 ''adalovelace@googlemail.com'' 4 sample_access") simp
qed

text \<open>What a person who signs in is shown is what they can take: an addressed invite is among
  the pending invites for their address exactly when accepting it with that address succeeds
  (whatever dot spelling or Gmail domain either address uses).\<close>

theorem listed_invites_are_the_acceptable_ones:
  assumes ok: "access_ok db" and tokens: "distinct (map iv_token (invites db))"
    and i: "i \<in> set (invites db)" and addressed: "iv_email i \<noteq> ''''"
  shows "i \<in> set (pending_invites_for db now user_email)
    \<longleftrightarrow> is_ok (fst (accept_invite (iv_token i) u user_email now db))"
proof -
  have norm: "\<And>j. j \<in> set (invites db) \<Longrightarrow> normal_email (iv_email j)" using access_ok_invite [OF ok] by blast
  have key: "mailbox_key (iv_email i) \<noteq> ''''" by (rule mailbox_key_nonempty [OF norm [OF i] addressed])
  have find: "find (\<lambda>j. iv_token j = iv_token i) (invites db) = Some i"
    using tbl_get_distinct [OF tokens i] by (simp add: tbl_get_def)
  have listed: "i \<in> set (pending_invites_for db now user_email) \<longleftrightarrow>
      mailbox_key user_email = mailbox_key (iv_email i) \<and> unactioned i \<and> invite_is_pending now i"
    using unactioned_invites_set [of db user_email, OF norm] i key by (auto simp: pending_invites_for_def)
  have accepted: "is_ok (fst (accept_invite (iv_token i) u user_email now db)) \<longleftrightarrow>
      iv_accepted_at i = None \<and> iv_revoked_at i = None \<and> \<not> iv_expires_at i \<le> now
        \<and> mailbox_key user_email = mailbox_key (iv_email i)"
    using find addressed by (simp add: accept_invite_def split: prod.split)
  show ?thesis
    unfolding listed accepted unactioned_def invite_is_pending_def by auto
qed

lemma listed_invites_are_the_acceptable_ones_witness:
  "hd (invites sample_access) \<in> set (pending_invites_for sample_access 4 ''a.dalovelace@googlemail.com'')
    \<longleftrightarrow> is_ok (fst (accept_invite (iv_token (hd (invites sample_access))) 2 ''a.dalovelace@googlemail.com'' 4 sample_access))"
  by (rule listed_invites_are_the_acceptable_ones [OF sample_access_ok]) code_simp+

text \<open>Asking to join never makes anyone an admin: whatever the workspace's automatic role says,
  the call either leaves every membership as it was, or gives the asker, who was not a member,
  a viewer or editor row in that workspace and changes nobody else's.\<close>

theorem asking_never_makes_an_admin:
  assumes ok: "access_ok db" and res: "request_access u user_email w note now db = (res, db')"
  shows "members_db db' = members_db db
    \<or> (\<not> is_member (members_db db) (uncapped u) w
        \<and> map_of (direct_roles (members_db db') u) w \<in> {Some Viewer, Some Editor}
        \<and> {(v, x) |v x. map_of (direct_roles (members_db db') v) x \<noteq> map_of (direct_roles (members_db db) v) x}
            \<subseteq> {(u, w)})"
proof -
  have approve: "members_db db2 = members_db db
      \<or> (map_of (direct_roles (members_db db2) u) w = better (map_of (direct_roles (members_db db) u) w) (Some r)
        \<and> {(v, x) |v x. map_of (direct_roles (members_db db2) v) x \<noteq> map_of (direct_roles (members_db db) v) x} \<subseteq> {(u, w)})"
    if a: "approve_at (next_id db) None r True now (open_request u w note db) = (out, db2)" for r out db2
  proof -
    have new: "next_id db \<notin> ar_id ` set (access_requests db)"
      using ok by (auto simp: access_ok_def request_rows_ok_def)
    then have get: "tbl_get ar_id (next_id db) (access_requests (open_request u w note db)) = Some (opened_request u w note db)"
      unfolding tbl_get_None_iff [symmetric] by (simp add: open_request_def tbl_get_append opened_request_def)
    have members: "members_db (open_request u w note db) = members_db db" by (simp add: open_request_def)
    have "members_db db2 = members_db db \<or> members_db db2 = snd (grant_role w u r None now (members_db db))"
      using a get members
      by (auto simp: approve_at_def atomic_def Let_def opened_request_def update_request_def split: if_splits)
    moreover have "wsdb_ok (members_db db)" using ok by (simp add: access_ok_def)
    note direct = grant_role_direct [OF this, of w u r None now]
    have "{(v, x) |v x. map_of (direct_roles (snd (grant_role w u r None now (members_db db))) v) x
        \<noteq> map_of (direct_roles (members_db db) v) x} \<subseteq> {(u, w)}"
      unfolding direct by (auto split: if_splits)
    ultimately show ?thesis by (auto simp: direct)
  qed
  have outcome: "members_db db' = members_db db
      \<or> (\<not> is_member (members_db db) (uncapped u) w \<and> (\<exists>r\<in>set AUTO_APPROVE_ROLES. \<exists>out.
            approve_at (next_id db) None r True now (open_request u w note db) = (out, db')))"
  proof (cases "tbl_get ws_slug w (workspaces (members_db db))")
    case None
    then show ?thesis using res by (auto simp: request_access_eq)
  next
    case (Some ws)
    have auto_out: "\<exists>out. approve_at (next_id db) None r True now (open_request u w note db) = (out, db')"
      if "(case approve_at (next_id db) None r True now (open_request u w note db) of
                    (Inl e, db2) \<Rightarrow> (Inl e, db2) | (Inr req, db2) \<Rightarrow> (Inr (req, True), db2)) = (res, db')" for r
      using that by (cases "approve_at (next_id db) None r True now (open_request u w note db)") (auto split: sum.splits)
    have opened: "members_db (open_request u w note db) = members_db db" by (simp add: open_request_def)
    show ?thesis
      using res Some auto_out opened unfolding request_access_eq
      by (auto split: option.splits if_splits)
  qed
  have nobody: "map_of (direct_roles (members_db db) u) w = None" if "\<not> is_member (members_db db) (uncapped u) w"
  proof -
    have "wsdb_ok (members_db db)" using ok by (simp add: access_ok_def)
    then have "better (map_of (direct_roles (members_db db) u) w) (strongest_in (upstream_roles (members_db db) u w)) = None"
      using that by (simp add: is_member_iff member_role_eq [OF wsdb_ok_slugs])
    then show ?thesis
      by (cases "map_of (direct_roles (members_db db) u) w";
          cases "strongest_in (upstream_roles (members_db db) u w)") simp_all
  qed
  show ?thesis
  proof (cases "members_db db' = members_db db")
    case False
    then obtain r out where r: "\<not> is_member (members_db db) (uncapped u) w" "r \<in> set AUTO_APPROVE_ROLES"
      "approve_at (next_id db) None r True now (open_request u w note db) = (out, db')"
      using outcome by blast
    have "map_of (direct_roles (members_db db') u) w = Some r"
      using approve [OF r(3)] False nobody [OF r(1)] by auto
    then have "map_of (direct_roles (members_db db') u) w \<in> {Some Viewer, Some Editor}"
      using r(2) by (auto simp: AUTO_APPROVE_ROLES_def)
    then show ?thesis using approve [OF r(3)] False r(1) by blast
  qed simp
qed

lemma asking_never_makes_an_admin_witness:
  "members_db (snd (request_access 9 ''x@y.z'' ''div'' '''' 3 sample_access)) = members_db sample_access
    \<or> (\<not> is_member (members_db sample_access) (uncapped 9) ''div''
        \<and> map_of (direct_roles (members_db (snd (request_access 9 ''x@y.z'' ''div'' '''' 3 sample_access))) 9) ''div''
            \<in> {Some Viewer, Some Editor}
        \<and> {(v, x) |v x. map_of (direct_roles (members_db (snd (request_access 9 ''x@y.z'' ''div'' '''' 3 sample_access))) v) x
              \<noteq> map_of (direct_roles (members_db sample_access) v) x} \<subseteq> {(9, ''div'')})"
  by (rule asking_never_makes_an_admin [OF sample_access_ok]) (rule prod.collapse [symmetric])

end
