(* ===== verification/Turn_Tables.thy ===== *)
theory Turn_Tables
  imports Canopy_Prelude "HOL-Library.Char_ord" "HOL-Library.List_Lexorder"
begin

text \<open>
  The tables behind a turn (\<open>apps/harness/models/turn.py\<close>: \<open>Turn\<close>, \<open>TurnEvent\<close>,
  \<open>TurnTranscript\<close>, \<open>TurnAgentToken\<close>), what a conversation requires of its runner
  (\<open>apps/harness/runner_requirements.py\<close>, with \<open>parse_runner_requirements\<close> of the SDK), and
  what a sensitive conversation stores (the verdict and the redactions of
  \<open>apps/harness/sensitivity.py\<close>).  Ids are the UUID texts; strings are the UTF-8 bytes.

  Parameters: \<open>digest\<close> is the length and hash of a payload's JSON (\<open>json.dumps\<close>,
  \<open>hashlib\<close>) and \<open>site_links\<close> the checked resource links of a tool result, which depend on
  what the host site registered.
\<close>

section \<open>JSON and statuses\<close>

datatype json = JNull | JBool bool | JNum int | JStr string
  | JList "json list" | JObj "(string \<times> json) list"

type_synonym payload = "(string \<times> json) list"

text \<open>A JSON value used as a condition.\<close>

definition truthy :: "json \<Rightarrow> bool" where
  "truthy j = (case j of JNull \<Rightarrow> False | JBool b \<Rightarrow> b | JNum i \<Rightarrow> i \<noteq> 0 | JStr s \<Rightarrow> s \<noteq> ''''
     | JList xs \<Rightarrow> xs \<noteq> [] | JObj kvs \<Rightarrow> kvs \<noteq> [])"

datatype turn_status = Queued | Claimed | Running | NeedsHuman | Done | Failed | Lost | Missed | Cancelled

definition status_name :: "turn_status \<Rightarrow> string" where
  "status_name s = (case s of Queued \<Rightarrow> ''queued'' | Claimed \<Rightarrow> ''claimed'' | Running \<Rightarrow> ''running''
     | NeedsHuman \<Rightarrow> ''needs_human'' | Done \<Rightarrow> ''done'' | Failed \<Rightarrow> ''failed'' | Lost \<Rightarrow> ''lost''
     | Missed \<Rightarrow> ''missed'' | Cancelled \<Rightarrow> ''cancelled'')"

definition TERMINAL :: "turn_status list" where
  "TERMINAL = [Done, Failed, Lost, Missed, Cancelled]"

definition NON_TERMINAL :: "turn_status list" where
  "NON_TERMINAL = [Queued, Claimed, Running, NeedsHuman]"

definition EXECUTING :: "turn_status list" where
  "EXECUTING = [Claimed, Running, NeedsHuman]"

lemma terminal_split: "s \<in> set TERMINAL \<longleftrightarrow> s \<notin> set NON_TERMINAL"
  by (cases s) (simp_all add: TERMINAL_def NON_TERMINAL_def)

lemma executing_live: "s \<in> set EXECUTING \<Longrightarrow> s \<in> set NON_TERMINAL"
  by (auto simp: EXECUTING_def NON_TERMINAL_def)


section \<open>The tables\<close>

text \<open>The parts of a conversation (\<open>canopy_sessions.Session\<close>, its runner binding) a turn reads.\<close>

record chat =
  ch_id :: nat
  ch_requirements :: json
  ch_page_state :: payload
  ch_active :: bool
  ch_runner :: "nat option"
  ch_cli :: string
  ch_agent :: "string option"
  ch_workspace :: string
  ch_content_deleted :: bool
  ch_project :: string
  ch_menu :: json

record runner_box =
  rb_id :: nat
  rb_name :: string
  rb_last_heartbeat_at :: "instant option"
  rb_flags :: "string list"
  rb_kind :: string
  rb_caps :: payload
  rb_engine :: string
  rb_status :: string
  rb_ready :: bool
  rb_ready_note :: string
  rb_paused :: bool
  rb_paused_note :: string
  rb_paused_at :: "instant option"
  rb_paused_by :: "user_id option"
  rb_unpause_at :: "instant option"
  rb_last_claim_poll_at :: "instant option"
  rb_fleet :: "nat option"
  rb_power :: string
  rb_workspace :: "slug option"
  rb_owner :: "user_id option"
  rb_machine :: string
  rb_private :: bool
  rb_directed :: bool
  rb_only_agents :: "string list"

record turn =
  turn_id :: string
  status :: turn_status
  prompt :: string
  result_note :: string
  job :: string
  job_repo :: string
  origin_ref :: payload
  session_key :: string
  session_id :: string
  attempts :: nat
  t_cli :: string
  t_agent :: "string option"
  t_project :: string
  t_workspace :: "string option"
  t_origin :: string
  t_routing :: string
  idempotency_key :: string
  idempotency_scope :: string
  capability :: string
  initiator_kind :: string
  created_at :: instant
  claimed_at :: "instant option"
  started_at :: "instant option"
  claimed_by :: "nat option"
  lease_expires_at :: "instant option"
  finished_at :: "instant option"
  content_purged_at :: "instant option"
  rides_turn :: "string option"
  chat_session :: "nat option"
  canopy_session :: "nat option"
  parent_turn :: "string option"
  parent_session :: "nat option"
  parent_provenance :: "(string \<times> string) list"
  pinned_runner :: "nat option"
  turn_mode :: string
  turn_mode_basis :: string
  requested_cli :: string
  initiator_user :: "user_id option"
  enqueued_by :: "user_id option"

record turn_event =
  ev_turn :: string
  ev_seq :: nat
  ev_kind :: string
  ev_payload :: payload

text \<open>\<open>raw_jsonl_gz\<close> is the list of its gzip members: decompressing a concatenation of members
  gives the concatenation of their contents.\<close>

record transcript =
  tr_turn :: string
  tr_members :: "string list"
  tr_line_count :: nat
  tr_bytes_raw :: nat
  tr_truncated :: bool
  tr_last_batch :: string

record agent_token =
  tk_turn :: string
  tk_runner :: nat
  tk_session :: "nat option"
  tk_expires_at :: instant
  tk_revoked_at :: "instant option"

datatype drill_outcome = DrillPending | DrillPass | DrillFail

record drill =
  dr_turn :: "string option"
  dr_outcome :: drill_outcome
  dr_summary :: string
  dr_finished_at :: "instant option"

text \<open>What a transition sets off in other components, in the order it is set off.\<close>

datatype effect =
    EventsAppended string "(nat \<times> string \<times> payload) list" bool
  | ForgetAttachments string
  | TurnFinishedFact string instant
  | RetireMailAnchor nat
  | SessionTurnFinished string
  | EndTurnsAsk string
  | ResolveScheduleNags json
  | JobEndedBadly string
  | OnTurnFailed string
  | CancelOnRunner nat string
  | SessionTurnEnqueued string nat
  | TurnStatusChanged string

record agent_row =
  ag_slug :: string
  ag_workspace :: string
  ag_held :: bool
  ag_clis :: "string list"

record turndb =
  turns :: "turn list"
  agent_rows :: "agent_row list"
  chats :: "chat list"
  boxes :: "runner_box list"
  events :: "turn_event list"
  transcripts :: "transcript list"
  tokens :: "agent_token list"
  drills :: "drill list"
  effects :: "effect list"

text \<open>\<open>Turn.acting_agent\<close>: its own agent, or its chat's.\<close>

definition acting_agent :: "turndb \<Rightarrow> turn \<Rightarrow> agent_row option" where
  "acting_agent db t = (case t_agent t of Some a \<Rightarrow> tbl_get ag_slug a (agent_rows db)
     | None \<Rightarrow> (case chat_session t of None \<Rightarrow> None
         | Some c \<Rightarrow> (case tbl_get ch_id c (chats db) of None \<Rightarrow> None
             | Some s \<Rightarrow> (case ch_agent s of None \<Rightarrow> None | Some a \<Rightarrow> tbl_get ag_slug a (agent_rows db)))))"

abbreviation get_turn :: "turndb \<Rightarrow> string \<Rightarrow> turn option" where
  "get_turn db n \<equiv> tbl_get turn_id n (turns db)"

definition emit :: "effect \<Rightarrow> turndb \<Rightarrow> turndb" where
  "emit e db = db\<lparr>effects := effects db @ [e]\<rparr>"


section \<open>What a conversation requires of its runner\<close>

definition SENSITIVE_DATA :: string where "SENSITIVE_DATA = ''sensitive_data''"
definition UNSATISFIABLE :: string where "UNSATISFIABLE = ''__malformed__''"
definition RUNNER_FLAGS :: "string list" where "RUNNER_FLAGS = [''sensitive_data'']"
definition MAX_ANCESTORS :: nat where "MAX_ANCESTORS = 25"

definition json_str :: "json \<Rightarrow> string option" where
  "json_str j = (case j of JStr s \<Rightarrow> Some s | _ \<Rightarrow> None)"

definition parse_runner_requirements :: "json \<Rightarrow> string list option" where
  "parse_runner_requirements value =
     (case value of
        JNull \<Rightarrow> Some []
      | JList vs \<Rightarrow>
          if \<exists>v\<in>set vs. json_str v = None then None
          else let names = List.map_filter json_str vs in
            if set names \<subseteq> set RUNNER_FLAGS then Some (sort (remdups names)) else None
      | _ \<Rightarrow> None)"

definition parse_stored :: "json \<Rightarrow> string set" where
  "parse_stored raw = (case parse_runner_requirements raw of None \<Rightarrow> {UNSATISFIABLE} | Some rs \<Rightarrow> set rs)"

definition requirements_of_session :: "turndb \<Rightarrow> nat \<Rightarrow> string set" where
  "requirements_of_session db c =
     (case tbl_get ch_id c (chats db) of None \<Rightarrow> {} | Some s \<Rightarrow> parse_stored (ch_requirements s))"

fun split_comma :: "string \<Rightarrow> string list" where
  "split_comma [] = [[]]"
| "split_comma (c # cs) = (if c = CHR '','' then [] # split_comma cs
     else (case split_comma cs of [] \<Rightarrow> [[c]] | w # ws \<Rightarrow> (c # w) # ws))"

text \<open>\<open>lost_lineage\<close>: the provenance says a parent resolved, and the link is null.\<close>

definition lost_lineage :: "turn \<Rightarrow> bool" where
  "lost_lineage t =
     (let record = parent_provenance t;
          had = (case map_of record ''resolved'' of
              Some r \<Rightarrow> set (split_comma r)
            | None \<Rightarrow> let failed = (case map_of record ''unresolved'' of None \<Rightarrow> {[]} | Some u \<Rightarrow> set (split_comma u)) in
                {k. k \<in> {''turn'', ''session''} \<and> (case map_of record k of None \<Rightarrow> False | Some v \<Rightarrow> v \<noteq> '''')
                    \<and> k \<notin> failed})
      in if record = [] then False
         else (''turn'' \<in> had \<and> parent_turn t = None) \<or> (''session'' \<in> had \<and> parent_session t = None))"

definition session_reqs :: "turndb \<Rightarrow> nat option \<Rightarrow> string set" where
  "session_reqs db c = (case c of None \<Rightarrow> {} | Some s \<Rightarrow> requirements_of_session db s)"

definition own_reqs :: "turndb \<Rightarrow> bool \<Rightarrow> turn \<Rightarrow> string set" where
  "own_reqs db live t = session_reqs db (chat_session t) \<union> session_reqs db (canopy_session t)
     \<union> session_reqs db (parent_session t) \<union> (if live \<and> lost_lineage t then {UNSATISFIABLE} else {})"

definition parent_row :: "turndb \<Rightarrow> turn \<Rightarrow> turn option" where
  "parent_row db t = (case parent_turn t of None \<Rightarrow> None | Some p \<Rightarrow> get_turn db p)"

primrec reqs_walk :: "nat \<Rightarrow> turndb \<Rightarrow> bool \<Rightarrow> turn option \<Rightarrow> string set \<Rightarrow> string set \<Rightarrow> string set" where
  "reqs_walk 0 db live node seen reqs = reqs \<union> {UNSATISFIABLE}"
| "reqs_walk (Suc n) db live node seen reqs =
     (case node of None \<Rightarrow> reqs
      | Some t \<Rightarrow> if turn_id t \<in> seen then reqs
          else reqs_walk n db live (parent_row db t) (insert (turn_id t) seen) (reqs \<union> own_reqs db live t))"

definition requirements_of :: "turndb \<Rightarrow> turn \<Rightarrow> string set" where
  "requirements_of db t = reqs_walk (MAX_ANCESTORS + 1) db (status t \<notin> set TERMINAL) (Some t) {} {}"

definition lineage_requirements :: "turndb \<Rightarrow> turn option \<Rightarrow> nat option \<Rightarrow> string set" where
  "lineage_requirements db pt ps =
     (case pt of None \<Rightarrow> {} | Some t \<Rightarrow> requirements_of db t) \<union> session_reqs db ps"

definition satisfies :: "string set \<Rightarrow> string set \<Rightarrow> bool" where
  "satisfies flags reqs \<longleftrightarrow> reqs \<subseteq> flags"

definition flag_needs_data_mode :: "string \<Rightarrow> string option" where
  "flag_needs_data_mode f = (if f = SENSITIVE_DATA then Some SENSITIVE_DATA else None)"

definition reported_data_mode :: "runner_box \<Rightarrow> json" where
  "reported_data_mode r = (case map_of (rb_caps r) ''data_mode'' of None \<Rightarrow> JNull | Some j \<Rightarrow> j)"

definition in_force :: "runner_box \<Rightarrow> string set" where
  "in_force r = {f \<in> set (rb_flags r). case flag_needs_data_mode f of None \<Rightarrow> True
     | Some m \<Rightarrow> reported_data_mode r = JStr m}"

definition is_sensitive_data_box :: "runner_box \<Rightarrow> bool" where
  "is_sensitive_data_box r \<longleftrightarrow> SENSITIVE_DATA \<in> set (rb_flags r) \<or> truthy (reported_data_mode r)"

definition runner_satisfies :: "runner_box \<Rightarrow> string set \<Rightarrow> bool" where
  "runner_satisfies r reqs = satisfies (in_force r) reqs"


section \<open>What a sensitive conversation stores\<close>

definition is_reqs :: "string set \<Rightarrow> bool" where
  "is_reqs reqs \<longleftrightarrow> SENSITIVE_DATA \<in> reqs \<or> UNSATISFIABLE \<in> reqs"

definition is_sensitive :: "turndb \<Rightarrow> turn \<Rightarrow> bool" where
  "is_sensitive db t = is_reqs (requirements_of db t)"

definition is_sensitive_session :: "turndb \<Rightarrow> nat \<Rightarrow> bool" where
  "is_sensitive_session db c = is_reqs (requirements_of_session db c)"

definition conversation_of :: "turn \<Rightarrow> nat option" where
  "conversation_of t = (case chat_session t of Some c \<Rightarrow> Some c | None \<Rightarrow> canopy_session t)"

definition turns_of_session :: "nat \<Rightarrow> turn \<Rightarrow> bool" where
  "turns_of_session c t \<longleftrightarrow> chat_session t = Some c \<or> canopy_session t = Some c"

definition RESULT_KINDS :: "string list" where
  "RESULT_KINDS = [''tool_end'', ''tool_result'']"

definition TOOL_STATUSES :: "string list" where
  "TOOL_STATUSES = [''pending'', ''in_progress'', ''running'', ''completed'', ''complete'', ''failed'',
     ''error'', ''cancelled'', ''canceled'', ''success'', ''ok'']"

definition METADATA_KEYS :: "string list" where
  "METADATA_KEYS = [''id'', ''tool_use_id'', ''name'', ''is_error'', ''status'', ''code'', ''exit_code'',
     ''duration_ms'', ''model'', ''kind'', ''session_id'', ''stop_reason'', ''withheld'']"

definition STRIPPED_KEYS :: "string list" where
  "STRIPPED_KEYS = [''tool_use_id'', ''id'', ''name'', ''is_error'', ''status'', ''withheld'']"

definition MAX_META_STRING :: nat where "MAX_META_STRING = 200"

definition withheld_prefix :: string where "withheld_prefix = ''[sensitive] note withheld''"

text \<open>The shapes \<open>[A-Za-z0-9_.:-]{1,n}\<close>; Python's \<open>$\<close> also matches before one final newline.\<close>

definition id_char :: "char \<Rightarrow> bool" where
  "id_char c = (let n = of_char c :: nat in (65 \<le> n \<and> n \<le> 90) \<or> (97 \<le> n \<and> n \<le> 122) \<or> (48 \<le> n \<and> n \<le> 58)
     \<or> n \<in> {95, 46, 45})"

definition id_shape :: "nat \<Rightarrow> string \<Rightarrow> bool" where
  "id_shape most s = (let core = (if s \<noteq> [] \<and> last s = CHR 0x0A then butlast s else s) in
     core \<noteq> [] \<and> length core \<le> most \<and> (\<forall>c\<in>set core. id_char c))"

definition kept_string :: "string \<Rightarrow> string \<Rightarrow> bool" where
  "kept_string key value =
     (if key = ''status'' then value \<in> set TOOL_STATUSES
      else if key = ''withheld'' then False
      else if key \<in> {''tool_use_id'', ''id''} then id_shape 128 value
      else if key = ''name'' then id_shape 200 value
      else False)"

record redactor =
  digest :: "payload \<Rightarrow> int \<times> string"
  site_links :: "nat option \<Rightarrow> payload \<Rightarrow> (string \<times> string) list \<Rightarrow> json list"

definition stripped_value :: "payload \<Rightarrow> string \<Rightarrow> (string \<times> json) option" where
  "stripped_value p key = (case map_of p key of
     Some (JBool b) \<Rightarrow> Some (key, JBool b) | Some (JNum n) \<Rightarrow> Some (key, JNum n)
   | Some (JStr s) \<Rightarrow> if kept_string key s then Some (key, JStr s) else None | _ \<Rightarrow> None)"

definition strip_result :: "redactor \<Rightarrow> nat option \<Rightarrow> (string \<times> string) list \<Rightarrow> payload \<Rightarrow> payload" where
  "strip_result rd session calls p =
     (let out = AList.update ''withheld'' (JBool True) (List.map_filter (stripped_value p) STRIPPED_KEYS);
          links = site_links rd session p calls
      in if links \<noteq> [] then out @ [(''resource_links'', JList links)] else out)"

definition calls_in :: "(string \<times> payload) list \<Rightarrow> (string \<times> string) list" where
  "calls_in rows = fold (\<lambda>(kind, body) calls. if kind \<noteq> ''tool_start'' then calls
     else (case (map_of body ''id'', map_of body ''name'') of
         (Some (JStr i), Some (JStr n)) \<Rightarrow> AList.update i n calls | _ \<Rightarrow> calls)) rows []"

definition meta_value :: "payload \<Rightarrow> string \<Rightarrow> (string \<times> json) option" where
  "meta_value p key = (case map_of p key of
     Some (JBool b) \<Rightarrow> Some (key, JBool b) | Some (JNum n) \<Rightarrow> Some (key, JNum n)
   | Some (JStr s) \<Rightarrow> if s \<noteq> '''' then Some (key, JStr (take MAX_META_STRING s)) else None | _ \<Rightarrow> None)"

definition input_meta :: "payload \<Rightarrow> payload" where
  "input_meta p = (case map_of p ''input'' of
     Some (JObj inp) \<Rightarrow> (''input_keys'', JList (map JStr (take 50 (sort (map (take MAX_META_STRING \<circ> fst) inp)))))
        # List.map_filter (\<lambda>key. case map_of inp key of
             Some (JStr s) \<Rightarrow> Some (''input_'' @ key, JStr (take MAX_META_STRING s)) | _ \<Rightarrow> None) [''tool'', ''site'']
   | _ \<Rightarrow> [])"

definition redact_payload :: "redactor \<Rightarrow> payload \<Rightarrow> payload" where
  "redact_payload rd p = (''redacted'', JStr ''sensitive'') # List.map_filter (meta_value p) METADATA_KEYS
     @ input_meta p @ (case digest rd p of (bytes, hash) \<Rightarrow> [(''bytes'', JNum bytes), (''sha256'', JStr hash)])"

definition withheld_note :: "string \<Rightarrow> string" where
  "withheld_note note = (if note = '''' \<or> prefix withheld_prefix note then note
     else withheld_prefix @ '' ('' @ nat_digits (length note) @ '' bytes)'')"

section \<open>Requirements down a chain of turns\<close>

definition closed_rows :: "turndb \<Rightarrow> turn set \<Rightarrow> bool" where
  "closed_rows db S \<longleftrightarrow> (\<forall>v\<in>S. \<forall>q. parent_row db v = Some q \<longrightarrow> q \<in> S)"

lemma reqs_walk_upper:
  assumes "finite S" and "inj_on turn_id S" and "closed_rows db S"
  shows "card {v \<in> S. turn_id v \<notin> seen} < n \<Longrightarrow> (\<forall>v. node = Some v \<longrightarrow> v \<in> S)
    \<Longrightarrow> reqs_walk n db live node seen reqs \<subseteq> reqs \<union> (\<Union>v\<in>S. own_reqs db live v)"
proof (induction n arbitrary: node seen reqs)
  case 0
  then show ?case by simp
next
  case (Suc n)
  show ?case
  proof (cases node)
    case None
    then show ?thesis by simp
  next
    case (Some v)
    then have v: "v \<in> S" using Suc.prems by blast
    show ?thesis
    proof (cases "turn_id v \<in> seen")
      case True
      then show ?thesis using Some by simp
    next
      case False
      have "{w \<in> S. turn_id w \<notin> insert (turn_id v) seen} = {w \<in> S. turn_id w \<notin> seen} - {v}"
        using assms(2) v by (auto dest: inj_onD)
      then have "card {w \<in> S. turn_id w \<notin> insert (turn_id v) seen} < n"
        using card_Diff1_less [of "{w \<in> S. turn_id w \<notin> seen}" v] Suc.prems(1) v False assms(1) by simp
      moreover have "\<forall>w. parent_row db v = Some w \<longrightarrow> w \<in> S"
        using assms(3) v by (simp add: closed_rows_def)
      ultimately have "reqs_walk n db live (parent_row db v) (insert (turn_id v) seen) (reqs \<union> own_reqs db live v)
          \<subseteq> (reqs \<union> own_reqs db live v) \<union> (\<Union>v\<in>S. own_reqs db live v)"
        by (rule Suc.IH)
      then show ?thesis using Some False v by auto
    qed
  qed
qed

lemma parent_row_row: "parent_row db v = Some q \<Longrightarrow> get_turn db (turn_id q) = Some q"
  by (auto simp: parent_row_def split: option.splits dest: tbl_get_Some)

lemma reqs_walk_mono: "reqs \<subseteq> reqs_walk n db live node seen reqs"
proof (induction n arbitrary: node seen reqs)
  case (Suc n)
  show ?case
  proof (cases node)
    case (Some t)
    show ?thesis using Some Suc [of "reqs \<union> own_reqs db live t" "parent_row db t" "insert (turn_id t) seen"] by auto
  qed simp
qed auto

lemma reqs_walk_lower:
  assumes "UNSATISFIABLE \<notin> reqs_walk n db live node seen reqs"
    and "\<forall>t. node = Some t \<longrightarrow> get_turn db (turn_id t) = Some t"
  shows "\<exists>S. finite S \<and> card S < n \<and> (\<forall>v\<in>S. get_turn db (turn_id v) = Some v)
    \<and> (\<forall>t. node = Some t \<longrightarrow> t \<in> S \<or> turn_id t \<in> seen)
    \<and> (\<forall>v\<in>S. \<forall>q. parent_row db v = Some q \<longrightarrow> q \<in> S \<or> turn_id q \<in> seen)
    \<and> (\<Union>v\<in>S. own_reqs db live v) \<subseteq> reqs_walk n db live node seen reqs"
  using assms
proof (induction n arbitrary: node seen reqs)
  case 0
  then show ?case by simp
next
  case (Suc n)
  show ?case
  proof (cases "\<exists>t. node = Some t \<and> turn_id t \<notin> seen")
    case False
    then show ?thesis by (intro exI [of _ "{}"]) auto
  next
    case True
    then obtain t where t: "node = Some t" "turn_id t \<notin> seen" by blast
    let ?seen = "insert (turn_id t) seen" and ?reqs = "reqs \<union> own_reqs db live t"
    have step: "reqs_walk (Suc n) db live node seen reqs = reqs_walk n db live (parent_row db t) ?seen ?reqs"
      using t by simp
    have "UNSATISFIABLE \<notin> reqs_walk n db live (parent_row db t) ?seen ?reqs" using Suc.prems(1) step by simp
    then obtain S where S: "finite S" "card S < n" "\<forall>v\<in>S. get_turn db (turn_id v) = Some v"
      "\<forall>q. parent_row db t = Some q \<longrightarrow> q \<in> S \<or> turn_id q \<in> ?seen"
      "\<forall>v\<in>S. \<forall>q. parent_row db v = Some q \<longrightarrow> q \<in> S \<or> turn_id q \<in> ?seen"
      "(\<Union>v\<in>S. own_reqs db live v) \<subseteq> reqs_walk n db live (parent_row db t) ?seen ?reqs"
      using Suc.IH [of "parent_row db t" ?seen ?reqs] parent_row_row by blast
    have row: "get_turn db (turn_id t) = Some t" using Suc.prems(2) t by blast
    have same: "q = t" if "parent_row db v = Some q" "turn_id q = turn_id t" for v q
      using parent_row_row [OF that(1)] that(2) row by simp
    have "own_reqs db live t \<subseteq> reqs_walk n db live (parent_row db t) ?seen ?reqs"
      using reqs_walk_mono [of ?reqs] by blast
    moreover have "card (insert t S) < Suc n" using S(1,2) by (simp add: card_insert_if)
    moreover have "\<forall>v\<in>insert t S. \<forall>q. parent_row db v = Some q \<longrightarrow> q \<in> insert t S \<or> turn_id q \<in> seen"
      using S(4,5) same by (metis insert_iff)
    ultimately show ?thesis
      using S(1,3,6) row t unfolding step by (intro exI [of _ "insert t S"]) auto
  qed
qed

lemma reqs_walk_cong:
  assumes "turns db' = turns db" and "chats db' = chats db"
  shows "reqs_walk n db' live node seen reqs = reqs_walk n db live node seen reqs"
proof (induction n arbitrary: node seen reqs)
  case (Suc n)
  have "session_reqs db' = session_reqs db"
    unfolding fun_eq_iff session_reqs_def requirements_of_session_def assms(2) by simp
  then have "own_reqs db' live t = own_reqs db live t" for t by (simp add: own_reqs_def)
  moreover have "parent_row db' t = parent_row db t" for t
    unfolding parent_row_def assms(1) by simp
  ultimately show ?case by (simp add: Suc split: option.split)
qed simp

lemma is_sensitive_cong: "turns db' = turns db \<Longrightarrow> chats db' = chats db \<Longrightarrow> is_sensitive db' t = is_sensitive db t"
  by (simp only: is_sensitive_def requirements_of_def reqs_walk_cong [of db' db])

lemma own_reqs_live: "own_reqs db live t \<subseteq> own_reqs db True t"
  by (auto simp: own_reqs_def)

lemma requirements_of_own: "own_reqs db (status t \<notin> set TERMINAL) t \<subseteq> requirements_of db t"
  unfolding requirements_of_def
  using reqs_walk_mono [of "own_reqs db (status t \<notin> set TERMINAL) t"] by simp

lemma requirements_of_parent:
  assumes row: "get_turn db (turn_id t) = Some t" and live: "status t \<notin> set TERMINAL"
    and p: "parent_row db t = Some p" and ok: "UNSATISFIABLE \<notin> requirements_of db t"
  shows "requirements_of db p \<subseteq> requirements_of db t"
proof -
  have "UNSATISFIABLE \<notin> reqs_walk (MAX_ANCESTORS + 1) db True (Some t) {} {}"
    using ok live by (simp add: requirements_of_def)
  from reqs_walk_lower [OF this] obtain S where S: "finite S" "card S < MAX_ANCESTORS + 1"
    "\<forall>v\<in>S. get_turn db (turn_id v) = Some v" "t \<in> S"
    "\<forall>v\<in>S. \<forall>q. parent_row db v = Some q \<longrightarrow> q \<in> S"
    "(\<Union>v\<in>S. own_reqs db True v) \<subseteq> requirements_of db t"
    using row live unfolding requirements_of_def by auto
  have inj: "inj_on turn_id S" using S(3) by (metis inj_onI option.inject)
  have "p \<in> S" using S p by blast
  moreover have "closed_rows db S" using S(5) by (simp add: closed_rows_def)
  moreover have "card {v \<in> S. turn_id v \<notin> {}} < MAX_ANCESTORS + 1" using S(2) by simp
  ultimately have "requirements_of db p \<subseteq> {} \<union> (\<Union>v\<in>S. own_reqs db (status p \<notin> set TERMINAL) v)"
    unfolding requirements_of_def by (intro reqs_walk_upper [OF S(1) inj]) auto
  also have "\<dots> \<subseteq> (\<Union>v\<in>S. own_reqs db True v)" using own_reqs_live by fastforce
  finally show ?thesis using S(6) by blast
qed

text \<open>What a conversation requires only grows down a chain of turns: a live turn is sensitive
  whenever the turn it was started from or any conversation it belongs to is, and a machine that may
  run it may hold what those require, however long the chain is and even if it loops.\<close>

theorem requirements_grow_down_the_chain:
  assumes row: "get_turn db (turn_id t) = Some t" and live: "status t \<notin> set TERMINAL"
    and parent: "parent_row db t = Some p" and flags: "UNSATISFIABLE \<notin> set (rb_flags r)"
  shows "(is_sensitive db p \<longrightarrow> is_sensitive db t)
    \<and> (runner_satisfies r (requirements_of db t) \<longrightarrow>
        runner_satisfies r (requirements_of db p)
        \<and> (\<forall>c. c \<in> {chat_session t, canopy_session t, parent_session t} \<longrightarrow> runner_satisfies r (session_reqs db c)))"
proof (cases "UNSATISFIABLE \<in> requirements_of db t")
  case True
  then show ?thesis using flags by (auto simp: is_sensitive_def is_reqs_def runner_satisfies_def satisfies_def in_force_def)
next
  case False
  have "requirements_of db p \<subseteq> requirements_of db t" by (rule requirements_of_parent [OF row live parent False])
  moreover have "\<And>c. c \<in> {chat_session t, canopy_session t, parent_session t} \<Longrightarrow> session_reqs db c \<subseteq> requirements_of db t"
    using requirements_of_own [of db t] by (auto simp: own_reqs_def)
  ultimately show ?thesis
    by (auto simp: is_sensitive_def is_reqs_def runner_satisfies_def satisfies_def)
qed

definition plain_turn :: "string \<Rightarrow> turn" where
  "plain_turn n = \<lparr> turn_id = n, status = Running, prompt = ''hello'', result_note = '''', job = '''',
     job_repo = '''', origin_ref = [], session_key = '''', session_id = '''', attempts = 0, t_cli = '''', t_agent = Some ''eva'',
     t_project = '''', t_workspace = None, t_origin = ''api'', t_routing = ''prefer_local'',
     idempotency_key = n, idempotency_scope = ''acme'', capability = '''', initiator_kind = ''user'', created_at = 0, claimed_at = None, started_at = None,
     claimed_by = Some 1, lease_expires_at = Some 10, finished_at = None,
     content_purged_at = None, rides_turn = None, chat_session = None, canopy_session = None,
     parent_turn = None, parent_session = None, parent_provenance = [],
     pinned_runner = None, turn_mode = '''', turn_mode_basis = '''', requested_cli = '''', initiator_user = None,
     enqueued_by = None \<rparr>"

definition plain_box :: "nat \<Rightarrow> string \<Rightarrow> runner_box" where
  "plain_box i kind = \<lparr> rb_id = i, rb_name = ''box'', rb_last_heartbeat_at = Some 0, rb_flags = [], rb_kind = kind,
     rb_caps = [], rb_engine = ''emdash'', rb_status = ''online'', rb_ready = True, rb_ready_note = '''',
     rb_paused = False, rb_paused_note = '''', rb_paused_at = None, rb_paused_by = None, rb_unpause_at = None,
     rb_last_claim_poll_at = None, rb_fleet = None, rb_power = ''on'', rb_workspace = Some ''acme'', rb_owner = Some 1,
     rb_machine = '''', rb_private = False, rb_directed = False, rb_only_agents = [] \<rparr>"

definition sample_turns :: turndb where
  "sample_turns = \<lparr>
     turns = [plain_turn ''aaaaaaaa-1''\<lparr>chat_session := Some 1\<rparr>,
              plain_turn ''bbbbbbbb-2''\<lparr>parent_turn := Some ''aaaaaaaa-1''\<rparr>,
              plain_turn ''cccccccc-3''\<lparr>status := Queued, lease_expires_at := None, claimed_by := None\<rparr>,
              plain_turn ''dddddddd-4''\<lparr>rides_turn := Some ''eeeeeeee-5''\<rparr>,
              plain_turn ''eeeeeeee-5''],
     agent_rows = [\<lparr> ag_slug = ''eva'', ag_workspace = ''acme'', ag_held = False, ag_clis = [] \<rparr>],
     chats = [\<lparr> ch_id = 1, ch_requirements = JList [JStr ''sensitive_data''], ch_page_state = [],
               ch_active = True, ch_runner = None, ch_cli = '''', ch_agent = Some ''eva'', ch_workspace = ''acme'',
               ch_content_deleted = False, ch_project = '''', ch_menu = JNull \<rparr>],
     boxes = [], events = [], transcripts = [], tokens = [], drills = [], effects = [] \<rparr>"

lemma requirements_grow_down_the_chain_witness:
  "is_sensitive sample_turns (plain_turn ''bbbbbbbb-2''\<lparr>parent_turn := Some ''aaaaaaaa-1''\<rparr>)"
proof -
  let ?p = "plain_turn ''aaaaaaaa-1''\<lparr>chat_session := Some 1\<rparr>"
    and ?t = "plain_turn ''bbbbbbbb-2''\<lparr>parent_turn := Some ''aaaaaaaa-1''\<rparr>"
  have row: "get_turn sample_turns (turn_id ?t) = Some ?t" by (simp add: sample_turns_def plain_turn_def)
  have parent: "parent_row sample_turns ?t = Some ?p" by (simp add: sample_turns_def plain_turn_def parent_row_def)
  have live: "status ?t \<notin> set TERMINAL" by code_simp
  have "is_sensitive sample_turns ?p" by code_simp
  moreover have "UNSATISFIABLE \<notin> set (rb_flags (plain_box 1 ''cloud''))" by (simp add: plain_box_def)
  ultimately show ?thesis using requirements_grow_down_the_chain [OF row live parent] by blast
qed

end
