(* ===== verification/Turn_Ledger.thy ===== *)
theory Turn_Ledger
  imports Turn_Tables
begin

text \<open>
  A turn's record (\<open>apps/harness/ledger.py\<close>): the append-only event ledger, written by
  \<open>append_events\<close> only, and the retained raw transcript, written by \<open>append_transcript\<close>
  under a ceiling per turn.  A gzip member is kept as its content: \<open>gzip.decompress\<close> of
  concatenated members is the concatenation of their contents.  Strings are UTF-8 bytes, so
  \<open>length\<close> is the number of bytes.
\<close>

section \<open>The event ledger\<close>

definition metadata_of :: "redactor \<Rightarrow> string \<Rightarrow> payload \<Rightarrow> payload" where
  "metadata_of rd kind p =
     (let out = redact_payload rd p;
          links = (if kind \<in> set RESULT_KINDS then map_of p ''resource_links'' else None)
      in case links of None \<Rightarrow> out
         | Some l \<Rightarrow> if truthy l then AList.update ''resource_links'' l out else out)"

text \<open>\<open>_stripped\<close>: a sensitive conversation's tool results lose what came back.\<close>

definition stripped_events :: "redactor \<Rightarrow> bool \<Rightarrow> nat option \<Rightarrow> (string \<times> payload) list \<Rightarrow> (string \<times> payload) list" where
  "stripped_events rd sensitive conversation es =
     (if \<not> (sensitive \<and> (\<exists>e\<in>set es. fst e \<in> set RESULT_KINDS)) then es
      else let calls = calls_in es in
        map (\<lambda>(kind, p). (kind, if kind \<in> set RESULT_KINDS then strip_result rd conversation calls p else p)) es)"

definition max_seq :: "turndb \<Rightarrow> string \<Rightarrow> nat" where
  "max_seq db n = Max (insert 0 (ev_seq ` set (filter (\<lambda>e. ev_turn e = n) (events db))))"

definition stored_rows :: "redactor \<Rightarrow> bool \<Rightarrow> string \<Rightarrow> nat \<Rightarrow> (string \<times> payload) list \<Rightarrow> turn_event list" where
  "stored_rows rd sensitive n current es =
     map (\<lambda>(i, kind, p). \<lparr> ev_turn = n, ev_seq = current + i + 1, ev_kind = kind,
            ev_payload = (if sensitive then metadata_of rd kind p else p) \<rparr>) (enumerate 0 es)"

datatype ledger_error = NoSuchTurn

definition append_events :: "redactor \<Rightarrow> string \<Rightarrow> (string \<times> payload) list \<Rightarrow> turndb
    \<Rightarrow> (ledger_error + nat) \<times> turndb" where
  "append_events rd n es db =
     (case get_turn db n of None \<Rightarrow> (Inl NoSuchTurn, db)
      | Some locked \<Rightarrow>
          if content_purged_at locked \<noteq> None then (Inr 0, db)
          else let sensitive = is_sensitive db locked;
                   es' = stripped_events rd sensitive (conversation_of locked) es;
                   current = max_seq db n;
                   rows = stored_rows rd sensitive n current es';
                   live = map (\<lambda>(i, kind, p). (current + i + 1, kind, p)) (enumerate 0 es')
               in (Inr (length rows),
                   emit (EventsAppended n live sensitive) (db\<lparr>events := events db @ rows\<rparr>)))"


section \<open>The transcript\<close>

definition TRANSCRIPT_TURN_MAX_BYTES :: nat where
  "TRANSCRIPT_TURN_MAX_BYTES = 104857600"

definition newline :: string where "newline = [CHR 0x0A]"

fun join_lines :: "string list \<Rightarrow> string" where
  "join_lines [] = []"
| "join_lines [l] = l"
| "join_lines (l # ls) = l @ newline @ join_lines ls"

text \<open>\<open>json.dumps\<close> of the marker, as its bytes.\<close>

definition dq :: string where "dq = [CHR 0x22]"

definition truncation_marker :: string where
  "truncation_marker =
     ''{'' @ dq @ ''type'' @ dq @ '': '' @ dq @ ''canopy_transcript_truncated'' @ dq @ '', '' @ dq @ ''reason'' @ dq
     @ '': '' @ dq @ ''turn transcript exceeded 104857600 bytes; further content for this turn was dropped'' @ dq @ ''}''"

definition empty_transcript :: "string \<Rightarrow> transcript" where
  "empty_transcript n = \<lparr> tr_turn = n, tr_members = [], tr_line_count = 0, tr_bytes_raw = 0,
     tr_truncated = False, tr_last_batch = '''' \<rparr>"

text \<open>What a batch adds to a transcript that accepts it (\<open>tr\<close> is None before the first batch).\<close>

definition batch_content :: "nat \<Rightarrow> string list \<Rightarrow> string \<times> nat \<times> bool" where
  "batch_content existing ls =
     (let content = join_lines ls in
      if existing + length content > TRANSCRIPT_TURN_MAX_BYTES then (truncation_marker, 1, True)
      else (content, length ls, False))"

definition apply_batch :: "string \<Rightarrow> string list \<Rightarrow> string \<Rightarrow> transcript option \<Rightarrow> transcript" where
  "apply_batch n ls batch tr =
     (let existing = (case tr of None \<Rightarrow> 0 | Some t \<Rightarrow> tr_bytes_raw t);
          (content, added_lines, newly) = batch_content existing ls;
          new_raw = (if existing \<noteq> 0 \<and> content \<noteq> [] then newline @ content else content);
          members = (if new_raw \<noteq> [] then [new_raw] else [])
      in case tr of
           None \<Rightarrow> \<lparr> tr_turn = n, tr_members = members, tr_line_count = added_lines,
                     tr_bytes_raw = length new_raw, tr_truncated = newly, tr_last_batch = batch \<rparr>
         | Some t \<Rightarrow>
             if members \<noteq> []
             then t\<lparr> tr_members := tr_members t @ members, tr_line_count := tr_line_count t + added_lines,
                     tr_bytes_raw := tr_bytes_raw t + length new_raw, tr_truncated := tr_truncated t \<or> newly,
                     tr_last_batch := (if batch \<noteq> '''' then batch else tr_last_batch t) \<rparr>
             else t)"

definition put_transcript :: "transcript \<Rightarrow> turndb \<Rightarrow> turndb" where
  "put_transcript t db =
     (case tbl_get tr_turn (tr_turn t) (transcripts db) of
        None \<Rightarrow> db\<lparr>transcripts := transcripts db @ [t]\<rparr>
      | Some _ \<Rightarrow> db\<lparr>transcripts := tbl_update (\<lambda>r. tr_turn r = tr_turn t) (\<lambda>_. t) (transcripts db)\<rparr>)"

definition append_transcript :: "string \<Rightarrow> string list \<Rightarrow> string \<Rightarrow> turndb
    \<Rightarrow> (ledger_error + transcript) \<times> turndb" where
  "append_transcript n raw_lines batch db =
     (case get_turn db n of None \<Rightarrow> (Inl NoSuchTurn, db)
      | Some t \<Rightarrow>
          if is_sensitive db t \<or> content_purged_at t \<noteq> None then (Inr (empty_transcript n), db)
          else let ls = filter (\<lambda>l. l \<noteq> []) raw_lines;
                   tr = tbl_get tr_turn n (transcripts db)
               in if batch \<noteq> '''' \<and> (case tr of None \<Rightarrow> False | Some x \<Rightarrow> tr_last_batch x = batch)
                  then (Inr (the tr), db)
                  else if (case tr of None \<Rightarrow> False | Some x \<Rightarrow> tr_truncated x) then (Inr (the tr), db)
                  else let out = apply_batch n ls batch tr in (Inr out, put_transcript out db))"

definition read_transcript :: "turndb \<Rightarrow> string \<Rightarrow> string" where
  "read_transcript db n = (case tbl_get tr_turn n (transcripts db) of None \<Rightarrow> [] | Some t \<Rightarrow> concat (tr_members t))"

text \<open>\<open>iter_transcript\<close>: the same bytes in chunks of a bounded size (at least one byte).\<close>

function chunks :: "nat \<Rightarrow> string \<Rightarrow> string list" where
  "chunks k s = (if s = [] \<or> k = 0 then [] else take k s # chunks k (drop k s))"
  by pat_completeness auto
termination by (relation "measure (length \<circ> snd)") auto

declare chunks.simps [simp del]

definition iter_transcript :: "turndb \<Rightarrow> string \<Rightarrow> nat \<Rightarrow> string list" where
  "iter_transcript db n k = chunks k (read_transcript db n)"

text \<open>\<open>iter_transcript_lines\<close>: chunks re-cut at newlines; \<open>split_nl\<close> is \<open>split(b"\n")\<close>.\<close>

fun split_nl :: "string \<Rightarrow> string list" where
  "split_nl [] = [[]]"
| "split_nl (c # cs) = (if c = CHR 0x0A then [] # split_nl cs
     else (case split_nl cs of [] \<Rightarrow> [[c]] | w # ws \<Rightarrow> (c # w) # ws))"

fun cut_lines :: "string \<Rightarrow> string list \<Rightarrow> string list" where
  "cut_lines pending [] = (if pending \<noteq> [] then [pending] else [])"
| "cut_lines pending (c # cs) = (let parts = split_nl (pending @ c) in butlast parts @ cut_lines (last parts) cs)"

definition iter_transcript_lines :: "turndb \<Rightarrow> string \<Rightarrow> nat \<Rightarrow> string list" where
  "iter_transcript_lines db n k = cut_lines [] (iter_transcript db n k)"


section \<open>The ledger is numbered and append-only\<close>

abbreviation rows_of :: "turndb \<Rightarrow> string \<Rightarrow> turn_event list" where
  "rows_of db n \<equiv> filter (\<lambda>e. ev_turn e = n) (events db)"

definition ledger_ok :: "turndb \<Rightarrow> bool" where
  "ledger_ok db \<longleftrightarrow> (\<forall>n. map ev_seq (rows_of db n) = [1..<Suc (length (rows_of db n))])"

lemma max_seq_ok: "ledger_ok db \<Longrightarrow> max_seq db n = length (rows_of db n)"
proof -
  assume "ledger_ok db"
  then have "ev_seq ` set (rows_of db n) = {1..<Suc (length (rows_of db n))}"
    unfolding ledger_ok_def by (metis list.set_map set_upt)
  moreover have "Max (insert 0 {1..<Suc k}) = k" for k :: nat
    by (rule Max_eqI) auto
  ultimately show ?thesis by (simp add: max_seq_def)
qed

lemma stored_rows_length [simp]: "length (stored_rows rd b n c es) = length es"
  by (simp add: stored_rows_def)

lemma stored_rows_turn: "e \<in> set (stored_rows rd b n c es) \<Longrightarrow> ev_turn e = n"
  by (auto simp: stored_rows_def)

lemma stored_rows_seq: "map ev_seq (stored_rows rd b n c es) = [Suc c..<Suc (c + length es)]"
  by (rule nth_equalityI) (simp_all add: stored_rows_def nth_enumerate_eq case_prod_beta del: upt_Suc)

lemma stored_rows_row:
  assumes "e \<in> set (stored_rows rd True n c es)"
  shows "\<exists>kind p. (kind, p) \<in> set es \<and> ev_kind e = kind \<and> ev_payload e = metadata_of rd kind p"
proof -
  obtain i kind p where x: "(i, kind, p) \<in> set (enumerate 0 es)"
    and e: "ev_kind e = kind" "ev_payload e = metadata_of rd kind p"
    using assms by (auto simp: stored_rows_def)
  then have "(kind, p) \<in> set es" by (auto simp: enumerate_eq_zip dest: set_zip_rightD)
  with e show ?thesis by blast
qed

lemma stripped_events_length [simp]: "length (stripped_events rd b c es) = length es"
  by (simp add: stripped_events_def Let_def)

lemma append_events_cases:
  assumes "append_events rd n es db = (res, db')"
  obtains (missing) "get_turn db n = None" "res = Inl NoSuchTurn" "db' = db"
    | (purged) t where "get_turn db n = Some t" "content_purged_at t \<noteq> None" "res = Inr 0" "db' = db"
    | (appended) t es' live where "get_turn db n = Some t" "content_purged_at t = None"
        "es' = stripped_events rd (is_sensitive db t) (conversation_of t) es" "res = Inr (length es)"
        "db' = emit (EventsAppended n live (is_sensitive db t))
          (db\<lparr>events := events db @ stored_rows rd (is_sensitive db t) n (max_seq db n) es'\<rparr>)"
proof (cases "get_turn db n")
  case None
  with assms show ?thesis by (intro missing) (simp_all add: append_events_def)
next
  case (Some t)
  show ?thesis
  proof (cases "content_purged_at t")
    case None
    show ?thesis
      by (rule appended [OF Some None refl, where live = "map (\<lambda>(i, kind, p). (max_seq db n + i + 1, kind, p))
            (enumerate 0 (stripped_events rd (is_sensitive db t) (conversation_of t) es))"])
        (use assms Some None in \<open>simp_all add: append_events_def Let_def\<close>)
  next
    case (Some x)
    show ?thesis
      by (rule purged [OF \<open>get_turn db n = Some t\<close>])
        (use assms \<open>get_turn db n = Some t\<close> Some in \<open>simp_all add: append_events_def\<close>)
  qed
qed

lemma emit_simps [simp]:
  "turns (emit e db) = turns db" "chats (emit e db) = chats db" "boxes (emit e db) = boxes db"
  "events (emit e db) = events db" "transcripts (emit e db) = transcripts db"
  "tokens (emit e db) = tokens db" "drills (emit e db) = drills db"
  "effects (emit e db) = effects db @ [e]"
  by (simp_all add: emit_def)

lemma ledger_ok_append:
  assumes ok: "ledger_ok db"
  shows "ledger_ok (snd (append_events rd n es db))"
proof (cases "append_events rd n es db")
  case (Pair res db')
  from Pair show ?thesis
  proof (cases rule: append_events_cases)
    case (appended t es' live)
    let ?rows = "stored_rows rd (is_sensitive db t) n (max_seq db n) es'"
    have "filter (\<lambda>e. ev_turn e = m) ?rows = (if m = n then ?rows else [])" for m
      using stored_rows_turn by (auto simp: filter_empty_conv filter_id_conv)
    then have rows: "rows_of db' m = rows_of db m @ (if m = n then ?rows else [])" for m
      unfolding appended(5) by simp
    have seqs: "map ev_seq ?rows = [Suc (length (rows_of db n))..<Suc (length (rows_of db n) + length es)]"
      by (simp only: stored_rows_seq max_seq_ok [OF ok] appended(3) stripped_events_length)
    have len: "length ?rows = length es" by (simp add: appended(3))
    have old: "map ev_seq (rows_of db m) = [1..<Suc (length (rows_of db m))]" for m
      using ok unfolding ledger_ok_def by blast
    have "map ev_seq (rows_of db' m) = [1..<Suc (length (rows_of db' m))]" for m
    proof (cases "m = n")
      case True
      have "[1..<Suc (length (rows_of db n))] @ [Suc (length (rows_of db n))..<Suc (length (rows_of db n) + length es)]
          = [1..<Suc (length (rows_of db n) + length es)]"
        by (metis add_Suc le_add1 plus_1_eq_Suc upt_add_eq_append)
      then show ?thesis
        unfolding rows True by (simp only: refl if_True map_append old seqs length_append len)
    next
      case False
      then show ?thesis unfolding rows using old by simp
    qed
    then show ?thesis using Pair by (simp add: ledger_ok_def)
  qed (use ok Pair in simp_all)
qed

text \<open>C9. A turn's event ledger is append-only and numbered 1, 2, 3, ... without a gap: appending
  keeps every stored row in its place, adds exactly one row per event with the next numbers, never
  touches another turn's rows, and adds nothing to a turn whose content was purged.\<close>

theorem ledger_is_append_only:
  assumes ok: "ledger_ok db" and res: "append_events rd n es db = (Inr k, db')"
  shows "ledger_ok db' \<and> (\<exists>new. events db' = events db @ new \<and> length new = k
      \<and> (\<forall>e\<in>set new. ev_turn e = n))
    \<and> (case get_turn db n of None \<Rightarrow> False
        | Some t \<Rightarrow> k = (if content_purged_at t = None then length es else 0))
    \<and> turns db' = turns db \<and> transcripts db' = transcripts db"
proof -
  have "ledger_ok db'" using ledger_ok_append [OF ok, of rd n es] res by simp
  with res show ?thesis
    by (cases rule: append_events_cases) (auto intro: stored_rows_turn)
qed

lemma ledger_is_append_only_witness:
  "length (events (snd (append_events \<lparr>digest = \<lambda>_. (0, []), site_links = \<lambda>_ _ _. []\<rparr> ''cccccccc-3''
      [(''status'', []), (''assistant'', [])] sample_turns))) = 2"
proof -
  have "ledger_ok sample_turns" by (simp add: ledger_ok_def sample_turns_def)
  moreover have "fst (append_events \<lparr>digest = \<lambda>_. (0, []), site_links = \<lambda>_ _ _. []\<rparr> ''cccccccc-3''
      [(''status'', []), (''assistant'', [])] sample_turns) = Inr 2" by code_simp
  ultimately show ?thesis
    using ledger_is_append_only [of sample_turns "\<lparr>digest = \<lambda>_. (0, []), site_links = \<lambda>_ _ _. []\<rparr>" "''cccccccc-3''"
        "[(''status'', []), (''assistant'', [])]" 2]
    by (metis (no_types, lifting) append_Nil prod.collapse sample_turns_def turndb.select_convs(5))
qed

section \<open>What a sensitive turn's rows hold\<close>

definition stored_keys :: "string \<Rightarrow> string set" where
  "stored_keys kind = set METADATA_KEYS \<union> {''redacted'', ''input_keys'', ''input_tool'', ''input_site'', ''bytes'', ''sha256''}
     \<union> (if kind \<in> set RESULT_KINDS then {''resource_links''} else {})"

lemma meta_value_key: "meta_value p k = Some kv \<Longrightarrow> fst kv = k"
  by (auto simp: meta_value_def split: option.splits json.splits if_splits)

lemma map_filter_keys: "(\<And>k kv. f k = Some kv \<Longrightarrow> fst kv = k) \<Longrightarrow> fst ` set (List.map_filter f ks) \<subseteq> set ks"
  by (induction ks) (auto split: option.splits)

lemma input_meta_keys: "fst ` set (input_meta p) \<subseteq> {''input_keys'', ''input_tool'', ''input_site''}"
proof (cases "map_of p ''input''")
  case (Some v)
  show ?thesis
  proof (cases v)
    case (JObj inp)
    let ?f = "\<lambda>key. case map_of inp key of
        Some (JStr s) \<Rightarrow> Some (''input_'' @ key, JStr (take MAX_META_STRING s)) | _ \<Rightarrow> None"
    have "?f key = Some kv \<Longrightarrow> fst kv = ''input_'' @ key" for key kv
      by (auto split: option.splits json.splits)
    then have "fst ` set (List.map_filter ?f [''tool'', ''site'']) \<subseteq> {''input_tool'', ''input_site''}"
      by (fastforce simp only: set_map_filter_Some list.set append.simps insert_iff empty_iff image_iff)
    then show ?thesis using Some JObj unfolding input_meta_def by auto
  qed (simp_all add: input_meta_def Some)
qed (simp add: input_meta_def)

lemma redact_payload_keys: "fst ` set (redact_payload rd p) \<subseteq> stored_keys kind"
proof -
  have "fst ` set (List.map_filter (meta_value p) METADATA_KEYS) \<subseteq> set METADATA_KEYS"
    by (rule map_filter_keys) (rule meta_value_key)
  then show ?thesis
    using input_meta_keys [of p] unfolding redact_payload_def stored_keys_def
    by (auto split: prod.splits)
qed

lemma metadata_of_shape:
  obtains "metadata_of rd kind p = redact_payload rd p"
    | l where "kind \<in> set RESULT_KINDS" "map_of p ''resource_links'' = Some l"
        "metadata_of rd kind p = AList.update ''resource_links'' l (redact_payload rd p)"
proof (cases "kind \<in> set RESULT_KINDS \<and> (\<exists>l. map_of p ''resource_links'' = Some l \<and> truthy l)")
  case True
  then obtain l where "kind \<in> set RESULT_KINDS" "map_of p ''resource_links'' = Some l" "truthy l" by blast
  then show ?thesis by (intro that(2) [of l]) (simp_all add: metadata_of_def)
next
  case False
  then show ?thesis
    by (intro that(1)) (auto simp: metadata_of_def Let_def split: option.split)
qed

lemma metadata_of_keys: "fst ` set (metadata_of rd kind p) \<subseteq> stored_keys kind"
proof (cases rule: metadata_of_shape [of rd kind p])
  case 1
  then show ?thesis using redact_payload_keys by metis
next
  case (2 l)
  have "fst ` set (AList.update ''resource_links'' l (redact_payload rd p))
      = insert ''resource_links'' (fst ` set (redact_payload rd p))"
    by (simp only: dom_map_of_conv_image_fst [symmetric] AList.update_conv' dom_fun_upd)
      (simp only: if_False option.distinct not_None_eq)
  moreover have "''resource_links'' \<in> stored_keys kind" using 2(1) by (simp add: stored_keys_def)
  ultimately show ?thesis using redact_payload_keys [of rd p kind] 2(3) by auto
qed

lemma strip_result_links:
  assumes "map_of (strip_result rd c calls p) ''resource_links'' = Some l"
  shows "l = JList (site_links rd c p calls)"
proof -
  have "fst kv = k" if "stripped_value p k = Some kv" for k kv
    using that by (auto simp: stripped_value_def split: option.splits json.splits if_splits)
  then have "fst ` set (List.map_filter (stripped_value p) STRIPPED_KEYS) \<subseteq> set STRIPPED_KEYS"
    by (rule map_filter_keys)
  moreover have "''resource_links'' \<notin> set STRIPPED_KEYS" by code_simp
  ultimately have "''resource_links'' \<notin> fst ` set (List.map_filter (stripped_value p) STRIPPED_KEYS)" by blast
  then have "map_of (AList.update ''withheld'' (JBool True) (List.map_filter (stripped_value p) STRIPPED_KEYS)) ''resource_links'' = None"
    by (simp add: AList.update_conv' map_of_eq_None_iff)
  then show ?thesis
    using assms by (simp add: strip_result_def Let_def map_add_def split: if_splits)
qed

text \<open>C18. Nothing a sensitive turn read is kept on its ledger, whatever the runner sends: every row
  appended to it holds only the allow-listed metadata keys, the names of a tool's arguments and the
  payload's size and hash, plus, on a tool result, the resource links the host's own check let
  through.\<close>

theorem sensitive_ledger_keeps_metadata_only:
  assumes res: "append_events rd n es db = (Inr k, db')" and t: "get_turn db n = Some t"
    and sensitive: "is_sensitive db t" and e: "e \<in> set (events db') - set (events db)"
  shows "fst ` set (ev_payload e) \<subseteq> stored_keys (ev_kind e)
    \<and> (\<exists>p calls. ev_payload e = redact_payload rd p
        \<or> (ev_kind e \<in> set RESULT_KINDS \<and> (\<exists>q. p = strip_result rd (conversation_of t) calls q
            \<and> ev_payload e = AList.update ''resource_links''
                (JList (site_links rd (conversation_of t) q calls)) (redact_payload rd p))))"
  using res
proof (cases rule: append_events_cases)
  case (appended t' es' live)
  have t': "t' = t" using appended(1) t by simp
  from appended(5) e sensitive t' have "e \<in> set (stored_rows rd True n (max_seq db n) es')" by auto
  then obtain kind p where row: "(kind, p) \<in> set es'" "ev_kind e = kind" "ev_payload e = metadata_of rd kind p"
    using stored_rows_row by blast
  note keys = metadata_of_keys [of rd kind p]
  show ?thesis
  proof (cases rule: metadata_of_shape [of rd kind p])
    case 1
    then show ?thesis using keys row by auto
  next
    case (2 l)
    have "\<exists>e\<in>set es. fst e \<in> set RESULT_KINDS"
      using row(1) 2(1) sensitive t' appended(3) by (force simp: stripped_events_def split: if_splits)
    then obtain q where q: "p = strip_result rd (conversation_of t) (calls_in es) q"
      using row(1) 2(1) sensitive t' appended(3) by (auto simp: stripped_events_def Let_def split: if_splits)
    then have "l = JList (site_links rd (conversation_of t) q (calls_in es))"
      using strip_result_links 2(2) by simp
    then show ?thesis using 2 row keys q by metis
  qed
qed (use e in simp_all)

definition blind_redactor :: redactor where
  "blind_redactor = \<lparr>digest = \<lambda>p. (int (length p), ''00''), site_links = \<lambda>_ _ _. []\<rparr>"

lemma sensitive_ledger_keeps_metadata_only_witness:
  "fst ` set (ev_payload (last (events (snd (append_events blind_redactor ''aaaaaaaa-1''
      [(''assistant'', [(''text'', JStr ''the secret'')])] sample_turns))))) \<subseteq> stored_keys ''assistant''"
proof -
  let ?es = "[(''assistant'', [(''text'', JStr ''the secret'')])]"
  let ?db = "snd (append_events blind_redactor ''aaaaaaaa-1'' ?es sample_turns)"
  let ?t = "plain_turn ''aaaaaaaa-1''\<lparr>chat_session := Some 1\<rparr>"
  have ok: "fst (append_events blind_redactor ''aaaaaaaa-1'' ?es sample_turns) = Inr 1" by code_simp
  have res: "append_events blind_redactor ''aaaaaaaa-1'' ?es sample_turns = (Inr 1, ?db)"
    by (metis ok prod.collapse)
  have t: "get_turn sample_turns ''aaaaaaaa-1'' = Some ?t" by (simp add: sample_turns_def plain_turn_def)
  have s: "is_sensitive sample_turns ?t" by code_simp
  have "events ?db \<noteq> [] \<and> ev_kind (last (events ?db)) = ''assistant''" by code_simp
  moreover from this have "last (events ?db) \<in> set (events ?db) - set (events sample_turns)"
    by (simp add: sample_turns_def)
  ultimately show ?thesis
    using sensitive_ledger_keeps_metadata_only [OF res t s, of "last (events ?db)"] by (metis (no_types, lifting))
qed


section \<open>The transcript reads back what was appended\<close>

lemma join_lines_append:
  "xs \<noteq> [] \<Longrightarrow> ys \<noteq> [] \<Longrightarrow> join_lines (xs @ ys) = join_lines xs @ newline @ join_lines ys"
  by (induction xs rule: join_lines.induct) (auto simp: neq_Nil_conv)

lemma join_lines_eq_Nil: "[] \<notin> set ls \<Longrightarrow> join_lines ls = [] \<longleftrightarrow> ls = []"
  by (cases ls rule: join_lines.cases) auto

lemma split_nl_nonempty [simp]: "split_nl s \<noteq> []"
  by (induction s) (auto split: list.splits)

lemma split_nl_plain: "CHR 0x0A \<notin> set s \<Longrightarrow> split_nl s = [s]"
  by (induction s) auto

lemma split_nl_append:
  "split_nl (s @ t) = butlast (split_nl s) @ (last (split_nl s) @ hd (split_nl t)) # tl (split_nl t)"
proof (induction s)
  case Nil
  then show ?case by (cases "split_nl t") auto
next
  case (Cons c s)
  obtain w ws where w: "split_nl s = w # ws" using split_nl_nonempty [of s] by (cases "split_nl s") auto
  show ?case
  proof (cases "c = CHR 0x0A")
    case True
    then show ?thesis using Cons w by simp
  next
    case False
    then show ?thesis using Cons w by (cases ws) auto
  qed
qed

lemma split_nl_join: "ls \<noteq> [] \<Longrightarrow> \<forall>l\<in>set ls. CHR 0x0A \<notin> set l \<Longrightarrow> split_nl (join_lines ls) = ls"
  by (induction ls rule: join_lines.induct) (simp_all add: split_nl_append split_nl_plain newline_def)

lemma concat_chunks: "0 < k \<Longrightarrow> concat (chunks k s) = s"
proof (induction k s rule: chunks.induct)
  case (1 k s)
  then show ?case by (cases "s = []") (simp_all add: chunks.simps [of k s] chunks.simps [of k "[]"])
qed

lemma chunks_bound: "c \<in> set (chunks k s) \<Longrightarrow> c \<noteq> [] \<and> length c \<le> k"
proof (induction k s rule: chunks.induct)
  case (1 k s)
  show ?case
  proof (cases "s = [] \<or> k = 0")
    case True
    then show ?thesis using 1(2) by (auto simp: chunks.simps [of k s])
  next
    case False
    then have "c = take k s \<or> c \<in> set (chunks k (drop k s))" using 1(2) by (simp add: chunks.simps [of k s])
    then show ?thesis using 1(1) False by auto
  qed
qed

text \<open>Re-cutting does not depend on where the chunks were cut.\<close>

definition lines_of :: "string \<Rightarrow> string list" where
  "lines_of s = (let parts = split_nl s in butlast parts @ (if last parts \<noteq> [] then [last parts] else []))"

lemma split_nl_last_plain: "CHR 0x0A \<notin> set (last (split_nl s))"
  by (induction s) (auto split: list.splits)

lemma lines_of_append: "lines_of (s @ t) = butlast (split_nl s) @ lines_of (last (split_nl s) @ t)"
proof -
  obtain w ws where w: "split_nl t = w # ws" using split_nl_nonempty [of t] by (cases "split_nl t") auto
  have "split_nl (last (split_nl s)) = [last (split_nl s)]" by (rule split_nl_plain [OF split_nl_last_plain])
  then show ?thesis
    using w by (simp add: lines_of_def Let_def split_nl_append [of s] split_nl_append [of "last (split_nl s)"] butlast_append)
qed

lemma cut_lines_eq: "CHR 0x0A \<notin> set pending \<Longrightarrow> cut_lines pending cs = lines_of (pending @ concat cs)"
proof (induction cs arbitrary: pending)
  case Nil
  then show ?case by (simp add: lines_of_def split_nl_plain)
next
  case (Cons c cs)
  then show ?case
    using lines_of_append [of "pending @ c" "concat cs"] split_nl_last_plain by (simp add: Let_def)
qed

lemma iter_lines_eq: "0 < k \<Longrightarrow> iter_transcript_lines db n k = lines_of (read_transcript db n)"
  by (simp add: iter_transcript_lines_def iter_transcript_def cut_lines_eq concat_chunks)

lemma lines_of_join:
  assumes "[] \<notin> set ls" and "\<forall>l\<in>set ls. CHR 0x0A \<notin> set l"
  shows "lines_of (join_lines ls) = ls"
proof (cases "ls = []")
  case False
  then have "last ls \<noteq> []" using assms(1) by (metis last_in_set)
  then show ?thesis using False split_nl_join [OF False assms(2)] by (simp add: lines_of_def Let_def)
qed (simp add: lines_of_def)


text \<open>What a transcript row stands for: the lines it holds, while it is not cut off.\<close>

definition holds_lines :: "transcript option \<Rightarrow> string list \<Rightarrow> bool" where
  "holds_lines tr ls \<longleftrightarrow> (case tr of None \<Rightarrow> ls = []
     | Some t \<Rightarrow> concat (tr_members t) = join_lines ls \<and> tr_bytes_raw t = length (join_lines ls)
         \<and> tr_line_count t = length ls \<and> \<not> tr_truncated t)"

lemma apply_batch_holds:
  assumes old: "holds_lines tr ls" and blank: "[] \<notin> set ls" "[] \<notin> set new"
    and fits: "length (join_lines (ls @ new)) \<le> TRANSCRIPT_TURN_MAX_BYTES"
  shows "holds_lines (Some (apply_batch n new b tr)) (ls @ new)"
proof -
  have bytes: "(case tr of None \<Rightarrow> 0 | Some t \<Rightarrow> tr_bytes_raw t) = length (join_lines ls)"
    using old by (auto simp: holds_lines_def split: option.splits)
  have "length (join_lines ls) + length (join_lines new) \<le> length (join_lines (ls @ new))"
    by (cases "ls = []"; cases "new = []") (simp_all add: join_lines_append)
  then have content: "batch_content (length (join_lines ls)) new = (join_lines new, length new, False)"
    using fits by (simp add: batch_content_def Let_def)
  have joined: "join_lines (ls @ new) = join_lines ls @ (if ls \<noteq> [] \<and> new \<noteq> [] then newline else []) @ join_lines new"
    by (cases "ls = []"; cases "new = []") (simp_all add: join_lines_append)
  show ?thesis
  proof (cases tr)
    case None
    then show ?thesis
      using content bytes old by (simp add: apply_batch_def holds_lines_def Let_def)
  next
    case (Some t)
    then show ?thesis
      using content bytes old blank joined
      by (simp add: apply_batch_def holds_lines_def Let_def join_lines_eq_Nil newline_def)
  qed
qed

lemma apply_batch_turn: "(case tr of None \<Rightarrow> True | Some t \<Rightarrow> tr_turn t = n) \<Longrightarrow> tr_turn (apply_batch n ls b tr) = n"
  by (auto simp: apply_batch_def Let_def split: option.splits prod.splits)

lemma apply_batch_last:
  "tr_last_batch (apply_batch n ls b tr) \<in> {b} \<union> (case tr of None \<Rightarrow> {} | Some t \<Rightarrow> {tr_last_batch t})"
  by (auto simp: apply_batch_def Let_def split: option.splits prod.splits)

lemma put_transcript_get: "tbl_get tr_turn m (transcripts (put_transcript t db))
    = (if m = tr_turn t then Some t else tbl_get tr_turn m (transcripts db))"
proof (cases "tbl_get tr_turn (tr_turn t) (transcripts db)")
  case None
  then show ?thesis by (simp add: put_transcript_def tbl_get_append split: option.split)
next
  case (Some r)
  have "tbl_get tr_turn m (tbl_update (\<lambda>r. tr_turn r = tr_turn t) (\<lambda>_. t) (transcripts db))
      = map_option (\<lambda>r. if tr_turn r = tr_turn t then t else r) (tbl_get tr_turn m (transcripts db))"
    by (rule tbl_get_tbl_update) simp
  with Some show ?thesis
    by (auto simp: put_transcript_def map_option_case split: option.splits dest: tbl_get_Some)
qed

lemma put_transcript_idem: "put_transcript t (put_transcript t db) = put_transcript t db"
proof -
  have r: "tbl_get tr_turn (tr_turn t) (transcripts (put_transcript t db)) = Some t"
    by (simp add: put_transcript_get)
  have "tbl_update (\<lambda>r. tr_turn r = tr_turn t) (\<lambda>_. t) (transcripts (put_transcript t db))
      = transcripts (put_transcript t db)"
  proof (cases "tbl_get tr_turn (tr_turn t) (transcripts db)")
    case None
    then have "tr_turn t \<notin> tr_turn ` set (transcripts db)" by (rule tbl_get_None_iff [THEN iffD1])
    then have "\<forall>r\<in>set (transcripts db). tr_turn r \<noteq> tr_turn t" by (metis imageI)
    then have "tbl_update (\<lambda>r. tr_turn r = tr_turn t) (\<lambda>_. t) (transcripts db) = transcripts db"
      by (intro tbl_update_none) blast
    with None show ?thesis by (simp add: put_transcript_def)
  next
    case (Some x)
    then show ?thesis by (simp add: put_transcript_def tbl_update_def)
  qed
  then show ?thesis using r by (simp add: put_transcript_def [of t "put_transcript t db"])
qed

lemma put_transcript_simps [simp]:
  "turns (put_transcript t db) = turns db" "chats (put_transcript t db) = chats db"
  "events (put_transcript t db) = events db" "tokens (put_transcript t db) = tokens db"
  "drills (put_transcript t db) = drills db" "effects (put_transcript t db) = effects db"
  by (simp_all add: put_transcript_def split: option.split)

definition open_turn :: "turndb \<Rightarrow> string \<Rightarrow> bool" where
  "open_turn db n \<longleftrightarrow> (case get_turn db n of None \<Rightarrow> False
     | Some t \<Rightarrow> \<not> is_sensitive db t \<and> content_purged_at t = None)"

lemma open_turn_put [simp]: "open_turn (put_transcript t db) n = open_turn db n"
  by (simp add: open_turn_def is_sensitive_cong [of "put_transcript t db" db] split: option.split)

definition append_batches :: "string \<Rightarrow> (string list \<times> string) list \<Rightarrow> turndb \<Rightarrow> turndb" where
  "append_batches n bs db = fold (\<lambda>(ls, b) db. snd (append_transcript n ls b db)) bs db"

definition batch_lines :: "(string list \<times> string) list \<Rightarrow> string list" where
  "batch_lines bs = concat (map (\<lambda>(ls, b). filter (\<lambda>l. l \<noteq> []) ls) bs)"

lemma append_batches_holds:
  assumes "open_turn db n" and "holds_lines (tbl_get tr_turn n (transcripts db)) ls" and "[] \<notin> set ls"
    and "length (join_lines (ls @ batch_lines bs)) \<le> TRANSCRIPT_TURN_MAX_BYTES"
    and "distinct (filter (\<lambda>b. b \<noteq> '''') (map snd bs))"
    and "\<forall>t. tbl_get tr_turn n (transcripts db) = Some t \<longrightarrow> tr_last_batch t = '''' \<or> tr_last_batch t \<notin> snd ` set bs"
  shows "holds_lines (tbl_get tr_turn n (transcripts (append_batches n bs db))) (ls @ batch_lines bs)"
  using assms
proof (induction bs arbitrary: db ls)
  case Nil
  then show ?case by (simp add: append_batches_def batch_lines_def)
next
  case (Cons lb bs)
  obtain raw b where lb: "lb = (raw, b)" by (cases lb)
  let ?new = "filter (\<lambda>l. l \<noteq> []) raw" and ?tr = "tbl_get tr_turn n (transcripts db)"
  let ?out = "apply_batch n ?new b ?tr"
  have out: "snd (append_transcript n raw b db) = put_transcript ?out db"
    using Cons.prems(1,2,6) lb
    by (auto simp: append_transcript_def open_turn_def holds_lines_def Let_def split: option.splits)
  have turn: "tr_turn ?out = n"
    by (rule apply_batch_turn) (auto split: option.split dest: tbl_get_Some)
  have get: "tbl_get tr_turn n (transcripts (put_transcript ?out db)) = Some ?out"
    by (simp add: put_transcript_get turn)
  have split: "ls @ batch_lines (lb # bs) = (ls @ ?new) @ batch_lines bs" by (simp add: batch_lines_def lb)
  have "length (join_lines (ls @ ?new)) \<le> length (join_lines ((ls @ ?new) @ batch_lines bs))"
    by (cases "ls @ ?new = []"; cases "batch_lines bs = []") (simp_all add: join_lines_append del: append_assoc)
  then have "holds_lines (Some ?out) (ls @ ?new)"
    using Cons.prems(2-4) split by (intro apply_batch_holds) simp_all
  moreover have "open_turn (put_transcript ?out db) n"
    using Cons.prems(1) by simp
  moreover have "tr_last_batch ?out = '''' \<or> tr_last_batch ?out \<notin> snd ` set bs"
    using apply_batch_last [of n ?new b ?tr] Cons.prems(5,6) lb
    by (auto split: option.splits if_splits) (metis image_eqI snd_conv)+
  ultimately have "holds_lines (tbl_get tr_turn n (transcripts (append_batches n bs (put_transcript ?out db))))
      ((ls @ ?new) @ batch_lines bs)"
    using Cons.prems(3-5) split get lb by (intro Cons.IH) (auto split: if_splits)
  then show ?case using out split lb by (simp add: append_batches_def)
qed

text \<open>C14. The retained transcript is exact: batches appended to a turn, in any cut of the stream, are
  read back line for line in order, whatever the chunk size of the reader, with the counters equal
  to what is stored, as long as the total stays within the ceiling.\<close>

theorem transcript_reads_back:
  assumes "open_turn db n" and "n \<notin> tr_turn ` set (transcripts db)"
    and ids: "distinct (filter (\<lambda>b. b \<noteq> '''') (map snd bs))"
    and fits: "length (join_lines (batch_lines bs)) \<le> TRANSCRIPT_TURN_MAX_BYTES"
    and lines: "\<forall>l\<in>set (batch_lines bs). CHR 0x0A \<notin> set l" and k: "0 < k"
  shows "iter_transcript_lines (append_batches n bs db) n k = batch_lines bs
    \<and> read_transcript (append_batches n bs db) n = join_lines (batch_lines bs)
    \<and> (case tbl_get tr_turn n (transcripts (append_batches n bs db)) of None \<Rightarrow> batch_lines bs = []
        | Some t \<Rightarrow> tr_line_count t = length (batch_lines bs)
            \<and> tr_bytes_raw t = length (read_transcript (append_batches n bs db) n))"
proof -
  have none: "tbl_get tr_turn n (transcripts db) = None" using assms(2) by (simp add: tbl_get_None_iff)
  then have held: "holds_lines (tbl_get tr_turn n (transcripts (append_batches n bs db))) (batch_lines bs)"
    using append_batches_holds [OF assms(1), of "[]" bs] ids fits by (simp add: holds_lines_def)
  then have read: "read_transcript (append_batches n bs db) n = join_lines (batch_lines bs)"
    by (auto simp: read_transcript_def holds_lines_def split: option.splits)
  moreover have "[] \<notin> set (batch_lines bs)" by (auto simp: batch_lines_def)
  ultimately show ?thesis
    using held lines k by (auto simp: iter_lines_eq lines_of_join holds_lines_def split: option.splits)
qed

lemma transcript_reads_back_witness:
  "iter_transcript_lines (append_batches ''cccccccc-3'' [([''{a}'', '''', ''{b}''], ''x''), ([''''], []), ([''{c}''], ''y'')]
      sample_turns) ''cccccccc-3'' 2 = [''{a}'', ''{b}'', ''{c}'']"
proof -
  let ?bs = "[([''{a}'', '''', ''{b}''], ''x''), ([''''], []), ([''{c}''], ''y'')]"
  have ls: "batch_lines ?bs = [''{a}'', ''{b}'', ''{c}'']" by (simp add: batch_lines_def)
  have "iter_transcript_lines (append_batches ''cccccccc-3'' ?bs sample_turns) ''cccccccc-3'' 2 = batch_lines ?bs"
  proof (rule transcript_reads_back [THEN conjunct1])
    show "open_turn sample_turns ''cccccccc-3''" by code_simp
    show "length (join_lines (batch_lines ?bs)) \<le> TRANSCRIPT_TURN_MAX_BYTES"
      unfolding ls by (simp add: TRANSCRIPT_TURN_MAX_BYTES_def newline_def)
    show "\<forall>l\<in>set (batch_lines ?bs). CHR 0x0A \<notin> set l" unfolding ls by simp
  qed (simp_all add: sample_turns_def)
  then show ?thesis unfolding ls .
qed

definition transcript_row_ok :: "transcript \<Rightarrow> bool" where
  "transcript_row_ok t \<longleftrightarrow> tr_bytes_raw t = length (concat (tr_members t))
     \<and> tr_bytes_raw t \<le> TRANSCRIPT_TURN_MAX_BYTES + 1
          + (if tr_truncated t then 1 + length truncation_marker else 0)"

definition transcripts_ok :: "turndb \<Rightarrow> bool" where
  "transcripts_ok db \<longleftrightarrow> distinct (map tr_turn (transcripts db)) \<and> (\<forall>t\<in>set (transcripts db). transcript_row_ok t)"

lemma batch_content_bound:
  "batch_content e ls = (c, m, full) \<Longrightarrow>
    (full \<longrightarrow> c = truncation_marker) \<and> (\<not> full \<longrightarrow> e + length c \<le> TRANSCRIPT_TURN_MAX_BYTES)"
  by (auto simp: batch_content_def Let_def split: if_splits)

lemma apply_batch_ok:
  assumes "\<And>t. tr = Some t \<Longrightarrow> transcript_row_ok t \<and> \<not> tr_truncated t"
  shows "transcript_row_ok (apply_batch n ls b tr)"
proof -
  define e where "e = (case tr of None \<Rightarrow> 0 | Some t \<Rightarrow> tr_bytes_raw t)"
  obtain c m full where c: "batch_content e ls = (c, m, full)" by (cases "batch_content e ls")
  note bound = batch_content_bound [OF c]
  have marker: "0 < length truncation_marker" by (simp add: truncation_marker_def)
  have e: "e \<le> TRANSCRIPT_TURN_MAX_BYTES + 1"
    using assms by (auto simp: e_def transcript_row_ok_def split: option.split)
  show ?thesis
  proof (cases tr)
    case None
    then show ?thesis using c bound e
      by (auto simp: apply_batch_def transcript_row_ok_def e_def)
  next
    case (Some t)
    then have e': "e = tr_bytes_raw t" "tr_bytes_raw t = length (concat (tr_members t))" "\<not> tr_truncated t"
      using assms by (simp_all add: e_def transcript_row_ok_def)
    show ?thesis
      using Some c bound e e' assms
      by (auto simp: apply_batch_def transcript_row_ok_def newline_def split: if_splits)
  qed
qed

lemma put_transcript_ok:
  assumes "transcripts_ok db" and "transcript_row_ok t"
  shows "transcripts_ok (put_transcript t db)"
proof (cases "tbl_get tr_turn (tr_turn t) (transcripts db)")
  case None
  then have "put_transcript t db = db\<lparr>transcripts := transcripts db @ [t]\<rparr>"
    and "tr_turn t \<notin> tr_turn ` set (transcripts db)"
    by (simp add: put_transcript_def) (rule tbl_get_None_iff [THEN iffD1, OF None])
  then show ?thesis using assms by (auto simp: transcripts_ok_def)
next
  case (Some r)
  have "map tr_turn (tbl_update (\<lambda>r. tr_turn r = tr_turn t) (\<lambda>_. t) (transcripts db)) = map tr_turn (transcripts db)"
    by (rule map_tbl_update) simp
  with Some show ?thesis
    using assms by (auto simp: put_transcript_def transcripts_ok_def set_tbl_update)
qed

text \<open>C19. A transcript can never break the columns that hold it: every append keeps each turn's stored
  byte count equal to the bytes stored and below the ceiling plus one separator (plus the one marker
  line where it was cut off), which fits the signed 32-bit column; a transcript that was cut off
  never changes again, and sending a batch a second time changes nothing.\<close>

theorem transcript_stays_bounded:
  assumes ok: "transcripts_ok db" and res: "append_transcript n ls b db = (res, db')"
  shows "transcripts_ok db'
    \<and> (\<forall>t\<in>set (transcripts db'). tr_bytes_raw t < 2 ^ 31)
    \<and> (\<forall>t\<in>set (transcripts db). tr_truncated t \<longrightarrow> t \<in> set (transcripts db'))
    \<and> (b = '''' \<or> snd (append_transcript n ls b db') = db')
    \<and> events db' = events db \<and> turns db' = turns db"
proof -
  have small: "t \<in> set (transcripts db') \<Longrightarrow> tr_bytes_raw t < 2 ^ 31" if "transcripts_ok db'" for t
  proof -
    assume "t \<in> set (transcripts db')"
    then have "tr_bytes_raw t \<le> TRANSCRIPT_TURN_MAX_BYTES + 2 + length truncation_marker"
      using that by (auto simp: transcripts_ok_def transcript_row_ok_def split: if_splits)
    also have "\<dots> < 2 ^ 31" by (simp add: TRANSCRIPT_TURN_MAX_BYTES_def truncation_marker_def dq_def)
    finally show ?thesis .
  qed
  let ?tr = "tbl_get tr_turn n (transcripts db)"
  let ?out = "apply_batch n (filter (\<lambda>l. l \<noteq> []) ls) b ?tr"
  show ?thesis
  proof (cases "db' = db")
    case True
    then have "snd (append_transcript n ls b db') = db'" using res by simp
    then show ?thesis using True ok small by auto
  next
    case False
    then have db': "db' = put_transcript ?out db" and fresh: "\<And>t. ?tr = Some t \<Longrightarrow> \<not> tr_truncated t"
      using res by (auto simp: append_transcript_def Let_def split: option.splits if_splits)
    have "transcript_row_ok ?out"
      using ok fresh by (intro apply_batch_ok) (auto simp: transcripts_ok_def dest: tbl_get_Some)
    then have ok': "transcripts_ok db'" unfolding db' by (rule put_transcript_ok [OF ok])
    have turn: "tr_turn ?out = n"
      by (rule apply_batch_turn) (auto split: option.split dest: tbl_get_Some)
    have latched: "t \<in> set (transcripts db')" if t: "t \<in> set (transcripts db)" "tr_truncated t" for t
    proof -
      have "?tr = Some t" if "tr_turn t = n"
        using tbl_get_distinct [of tr_turn "transcripts db" t] ok t(1) that by (simp add: transcripts_ok_def)
      then have "tr_turn t \<noteq> n" using fresh t(2) by blast
      then show ?thesis using t(1) turn unfolding db'
        by (auto simp: put_transcript_def set_tbl_update split: option.split)
    qed
    have retry: "snd (append_transcript n ls b db') = db'" if nb: "b \<noteq> ''''"
    proof (cases "tr_last_batch ?out = b")
      case True
      then show ?thesis
        using nb turn unfolding db'
        by (simp add: append_transcript_def put_transcript_get split: option.split)
    next
      case False
      then obtain t where t: "?tr = Some t" "?out = t" "apply_batch n (filter (\<lambda>l. l \<noteq> []) ls) b (Some t) = t"
        using nb by (cases ?tr) (auto simp: apply_batch_def Let_def split: prod.splits if_splits)
      have "put_transcript ?out db' = db'" unfolding db' by (rule put_transcript_idem)
      then show ?thesis
        using t turn unfolding db'
        by (simp add: append_transcript_def put_transcript_get Let_def split: option.split)
    qed
    have "events db' = events db" "turns db' = turns db" unfolding db' by simp_all
    then show ?thesis using ok' small latched retry by blast
  qed
qed

lemma transcript_stays_bounded_witness:
  "transcripts_ok (snd (append_transcript ''cccccccc-3'' [''{a}''] ''x'' sample_turns))"
  using transcript_stays_bounded [of sample_turns "''cccccccc-3''" "[''{a}'']" "''x''"]
  by (metis prod.collapse transcripts_ok_def sample_turns_def turndb.select_convs(6) distinct.simps(1) list.map(1)
      empty_iff list.set(1))

text \<open>The ceiling is compared before the separating newline is counted, so a transcript may end one
  byte above it without being cut off.\<close>

lemma one_byte_over_the_ceiling:
  assumes "tr_bytes_raw t = TRANSCRIPT_TURN_MAX_BYTES - 1" and "\<not> tr_truncated t"
  shows "tr_bytes_raw (apply_batch n [[c]] b (Some t)) = TRANSCRIPT_TURN_MAX_BYTES + 1
    \<and> \<not> tr_truncated (apply_batch n [[c]] b (Some t))"
  using assms by (simp add: apply_batch_def batch_content_def newline_def TRANSCRIPT_TURN_MAX_BYTES_def)

end
