(* ===== verification/Turn_Close.thy ===== *)
theory Turn_Close
  imports Turn_Ledger
begin

text \<open>
  How a turn ends: \<open>close_turn\<close> and \<open>close_riders\<close> (\<open>apps/harness/turn_close.py\<close>), the lease
  sweep (\<open>claim.sweep_expired_leases\<close>), aborts (\<open>apps/harness/turn_abort.py\<close>) and the turn's
  agent logins (\<open>turn_agent_tokens.revoke_for_turn\<close>, \<open>revoke_stale\<close>).  The caller's copy of a
  turn is its current row; hooks of other components are recorded in \<open>effects\<close>.  Writing an
  instant as text (\<open>strftime\<close>) is the parameter \<open>stamp\<close>.  Texts that are cut at a length are
  taken to be ASCII there.
\<close>

section \<open>Closing one turn\<close>

record close_opts =
  from_states :: "turn_status list"
  extra_where :: "turn \<Rightarrow> bool"
  ledger_line :: bool
  event_extra :: payload
  with_riders :: bool
  chat_hooks :: bool
  drill_note :: "string option"
  auto_debug :: bool
  canopys_note :: bool

definition close_defaults :: "turn_status list \<Rightarrow> close_opts" where
  "close_defaults states = \<lparr> from_states = states, extra_where = (\<lambda>_. True), ledger_line = True,
     event_extra = [], with_riders = True, chat_hooks = True, drill_note = None, auto_debug = True,
     canopys_note = False \<rparr>"

definition close_fields :: "bool \<Rightarrow> turn_status \<Rightarrow> string option \<Rightarrow> close_opts \<Rightarrow> instant \<Rightarrow> turn \<Rightarrow> turn" where
  "close_fields sensitive st msg opts now t =
     t\<lparr> status := st, finished_at := Some now,
        result_note := (case msg of None \<Rightarrow> result_note t
          | Some s \<Rightarrow> if sensitive \<and> s \<noteq> '''' \<and> \<not> canopys_note opts then withheld_note s else s),
        prompt := (if sensitive then '''' else prompt t) \<rparr>"

definition forget_the_page :: "nat \<Rightarrow> turndb \<Rightarrow> turndb" where
  "forget_the_page c db =
     (if \<exists>t\<in>set (turns db). turns_of_session c t \<and> status t \<in> set NON_TERMINAL then db
      else db\<lparr>chats := tbl_update (\<lambda>s. ch_id s = c \<and> ch_page_state s \<noteq> []) (\<lambda>s. s\<lparr>ch_page_state := []\<rparr>) (chats db)\<rparr>)"

definition revoke_for_turn :: "string \<Rightarrow> instant \<Rightarrow> turndb \<Rightarrow> turndb" where
  "revoke_for_turn n now db =
     db\<lparr>tokens := tbl_update (\<lambda>k. tk_turn k = n \<and> tk_session k = None \<and> tk_revoked_at k = None)
        (\<lambda>k. k\<lparr>tk_revoked_at := Some now\<rparr>) (tokens db)\<rparr>"

definition status_payload :: "turn_status \<Rightarrow> string option \<Rightarrow> payload \<Rightarrow> payload" where
  "status_payload st msg extra =
     dict_merge ((''status'', JStr (status_name st))
       # (case msg of None \<Rightarrow> [] | Some s \<Rightarrow> [(''result_note'', JStr s)])) extra"

text \<open>What is withheld, revoked and written down right after the row moved.\<close>

definition close_record :: "redactor \<Rightarrow> turn \<Rightarrow> bool \<Rightarrow> turn_status \<Rightarrow> string option \<Rightarrow> close_opts \<Rightarrow> instant
    \<Rightarrow> turndb \<Rightarrow> turndb" where
  "close_record rd t sensitive st msg opts now db =
     (let n = turn_id t;
          db = (case conversation_of t of None \<Rightarrow> db | Some c \<Rightarrow> if sensitive then forget_the_page c db else db);
          db = (if sensitive \<and> chat_session t \<noteq> None then emit (ForgetAttachments n) db else db);
          db = revoke_for_turn n now db;
          db = (if ledger_line opts
                then snd (append_events rd n [(''status'', status_payload st msg (event_extra opts))] db) else db)
      in emit (TurnFinishedFact n now) db)"

text \<open>The hooks of other components, and the drill.\<close>

definition chat_hook :: "turn \<Rightarrow> close_opts \<Rightarrow> turndb \<Rightarrow> turndb" where
  "chat_hook t opts db =
     (case chat_session t of None \<Rightarrow> db | Some c \<Rightarrow>
        if chat_hooks opts
        then emit (EndTurnsAsk (turn_id t)) (emit (SessionTurnFinished (turn_id t)) (emit (RetireMailAnchor c) db))
        else emit (RetireMailAnchor c) db)"

definition schedule_hook :: "turn \<Rightarrow> turn_status \<Rightarrow> turndb \<Rightarrow> turndb" where
  "schedule_hook t st db =
     (case map_of (origin_ref t) ''schedule_id'' of None \<Rightarrow> db
      | Some sid \<Rightarrow> if st = Done \<and> truthy sid then emit (ResolveScheduleNags sid) db else db)"

definition job_hook :: "turn \<Rightarrow> turn_status \<Rightarrow> turndb \<Rightarrow> turndb" where
  "job_hook t st db = (if job t \<noteq> '''' \<and> st \<in> {Failed, Lost} then emit (JobEndedBadly (turn_id t)) db else db)"

definition drill_hook :: "turn \<Rightarrow> close_opts \<Rightarrow> instant \<Rightarrow> turndb \<Rightarrow> turndb" where
  "drill_hook t opts now db =
     (case drill_note opts of None \<Rightarrow> db | Some summary \<Rightarrow>
        db\<lparr>drills := tbl_update (\<lambda>d. dr_turn d = Some (turn_id t) \<and> dr_outcome d = DrillPending)
          (\<lambda>d. d\<lparr>dr_outcome := DrillFail, dr_summary := summary, dr_finished_at := Some now\<rparr>) (drills db)\<rparr>)"

definition debug_hook :: "turn \<Rightarrow> turn_status \<Rightarrow> close_opts \<Rightarrow> turndb \<Rightarrow> turndb" where
  "debug_hook t st opts db =
     (if auto_debug opts \<and> st \<in> {Failed, Lost} then emit (OnTurnFailed (turn_id t)) db else db)"

definition close_hooks :: "turn \<Rightarrow> turn_status \<Rightarrow> close_opts \<Rightarrow> instant \<Rightarrow> turndb \<Rightarrow> turndb" where
  "close_hooks t st opts now db =
     debug_hook t st opts (drill_hook t opts now (job_hook t st (schedule_hook t st (chat_hook t opts db))))"

lemmas hook_defs = chat_hook_def schedule_hook_def job_hook_def drill_hook_def debug_hook_def

datatype close_error = NeedsTerminalStatus | NoTurn

definition may_close :: "close_opts \<Rightarrow> turn \<Rightarrow> bool" where
  "may_close opts t \<longleftrightarrow> status t \<in> set (from_states opts) \<and> extra_where opts t"

definition close_with :: "(string \<Rightarrow> turn_status \<Rightarrow> instant \<Rightarrow> turndb \<Rightarrow> turndb) \<Rightarrow> redactor \<Rightarrow> string \<Rightarrow> turn_status
    \<Rightarrow> string option \<Rightarrow> close_opts \<Rightarrow> instant \<Rightarrow> turndb \<Rightarrow> (close_error + bool) \<times> turndb" where
  "close_with end_riders rd n st msg opts now db =
     (if st \<notin> set TERMINAL then (Inl NeedsTerminalStatus, db)
      else case get_turn db n of None \<Rightarrow> (Inl NoTurn, db)
      | Some t \<Rightarrow>
          if \<not> may_close opts t then (Inr False, db)
          else let sensitive = is_sensitive db t;
                   db1 = db\<lparr>turns := tbl_update (\<lambda>r. turn_id r = n \<and> may_close opts r)
                              (close_fields sensitive st msg opts now) (turns db)\<rparr>;
                   db2 = close_record rd t sensitive st msg opts now db1;
                   db3 = (if with_riders opts then end_riders n st now db2 else db2)
               in (Inr True, close_hooks t st opts now db3))"

text \<open>The dash of the note is the three bytes of its UTF-8 form.\<close>

definition rider_note :: "string \<Rightarrow> turn_status \<Rightarrow> string" where
  "rider_note n st = ''delivered into the running turn '' @ take 8 n @ '' '' @ [CHR 0xE2, CHR 0x80, CHR 0x94]
     @ '' '' @ status_name st"

definition rider_opts :: "string \<Rightarrow> close_opts" where
  "rider_opts n = (close_defaults EXECUTING)\<lparr> event_extra := [(''rode'', JStr n)], with_riders := False,
     chat_hooks := False, auto_debug := False \<rparr>"

definition is_rider :: "string \<Rightarrow> turn \<Rightarrow> bool" where
  "is_rider n t \<longleftrightarrow> rides_turn t = Some n \<and> status t \<in> set EXECUTING"

definition close_rider :: "redactor \<Rightarrow> string \<Rightarrow> turn_status \<Rightarrow> instant \<Rightarrow> turn \<Rightarrow> turndb \<Rightarrow> turndb" where
  "close_rider rd n st now rider db =
     snd (close_with (\<lambda>_ _ _ db. db) rd (turn_id rider) st (Some (rider_note n st)) (rider_opts n) now db)"

definition close_riders :: "redactor \<Rightarrow> string \<Rightarrow> turn_status \<Rightarrow> instant \<Rightarrow> turndb \<Rightarrow> turndb" where
  "close_riders rd n st now db = fold (close_rider rd n st now) (filter (is_rider n) (turns db)) db"

definition close_turn :: "redactor \<Rightarrow> string \<Rightarrow> turn_status \<Rightarrow> string option \<Rightarrow> close_opts \<Rightarrow> instant
    \<Rightarrow> turndb \<Rightarrow> (close_error + bool) \<times> turndb" where
  "close_turn rd = close_with (close_riders rd) rd"


section \<open>The lease sweep\<close>

definition ago :: "instant \<Rightarrow> instant \<Rightarrow> string" where
  "ago t now = (let s = (if now \<ge> t then (now - t) div 1000000 else - ((t - now) div 1000000)) in
     if s < 120 then int_str s @ ''s ago''
     else if s < 7200 then int_str (s div 60) @ '' min ago''
     else int_str (s div 3600) @ '' h ago'')"

definition dash :: string where
  "dash = '' '' @ [CHR 0xE2, CHR 0x80, CHR 0x94] @ '' ''"

definition lease_lapse_note :: "(instant \<Rightarrow> string) \<Rightarrow> turndb \<Rightarrow> turn \<Rightarrow> instant \<Rightarrow> string" where
  "lease_lapse_note stamp db t now =
     (let lapsed_txt = (case lease_expires_at t of None \<Rightarrow> ''unknown''
            | Some l \<Rightarrow> stamp l @ ''Z ('' @ ago l now @ '')'')
      in case (case claimed_by t of None \<Rightarrow> None | Some r \<Rightarrow> tbl_get rb_id r (boxes db)) of
           None \<Rightarrow> ''[canopy] lease expired at '' @ lapsed_txt @ ''; no runner held the turn''
         | Some r \<Rightarrow>
             let (beat_txt, why) = (case rb_last_heartbeat_at r of
                   None \<Rightarrow> (''has never heartbeat'', ''the runner went away'')
                 | Some beat \<Rightarrow> (''last heartbeat '' @ stamp beat @ ''Z ('' @ ago beat now @ '')'',
                     (if (case lease_expires_at t of None \<Rightarrow> False | Some l \<Rightarrow> beat > l)
                      then ''the runner is still heartbeating but stopped renewing this turn'' @ dash
                        @ ''it lost track of it (a restart that could not adopt it, or a wedged worker)''
                      else ''the runner stopped heartbeating (stopped, crashed or powered off)'')))
             in take 2000 (''[canopy] lost: runner '' @ rb_name r @ '' ('' @ nat_digits (rb_id r)
                  @ '') held this turn and its lease expired at '' @ lapsed_txt @ ''; '' @ beat_txt
                  @ ''. '' @ why @ ''.''))"

definition lease_expired :: "instant \<Rightarrow> turn \<Rightarrow> bool" where
  "lease_expired now t \<longleftrightarrow> (case lease_expires_at t of None \<Rightarrow> False | Some l \<Rightarrow> l < now)"

definition token_held :: "turndb \<Rightarrow> agent_token \<Rightarrow> bool" where
  "token_held db k =
     (case tk_session k of
        None \<Rightarrow> (case get_turn db (tk_turn k) of None \<Rightarrow> False
          | Some t \<Rightarrow> status t \<in> set EXECUTING \<and> claimed_by t = Some (tk_runner k))
      | Some c \<Rightarrow> (case tbl_get ch_id c (chats db) of None \<Rightarrow> False
          | Some s \<Rightarrow> ch_active s \<and> ch_runner s = Some (tk_runner k)))"

definition revoke_stale :: "instant \<Rightarrow> turndb \<Rightarrow> turndb" where
  "revoke_stale now db =
     db\<lparr>tokens := tbl_update (\<lambda>k. tk_expires_at k > now \<and> \<not> token_held db k \<and> tk_revoked_at k = None)
        (\<lambda>k. k\<lparr>tk_revoked_at := Some now\<rparr>) (tokens db)\<rparr>"

definition sweep_status :: "turndb \<Rightarrow> string \<Rightarrow> turn_status" where
  "sweep_status db n = (if \<exists>e\<in>set (events db). ev_turn e = n \<and> ev_kind e = ''cancel_requested''
     then Cancelled else Lost)"

definition sweep_opts :: "instant \<Rightarrow> turn_status \<Rightarrow> close_opts" where
  "sweep_opts now st = (close_defaults NON_TERMINAL)\<lparr> extra_where := lease_expired now,
     event_extra := [(''reason'', JStr ''lease_expired'')], with_riders := False,
     drill_note := Some (if st = Cancelled then ''drill turn cancelled (lease expired after cancel was requested)''
       else ''runner lost the turn (lease expired mid-drill)'') \<rparr>"

definition sweep_one :: "redactor \<Rightarrow> (instant \<Rightarrow> string) \<Rightarrow> instant \<Rightarrow> turn \<Rightarrow> nat \<times> turndb \<Rightarrow> nat \<times> turndb" where
  "sweep_one rd stamp now t cdb =
     (case cdb of (count, db) \<Rightarrow>
        let st = sweep_status db (turn_id t);
            msg = (if py_strip (result_note t) \<noteq> '''' then None else Some (lease_lapse_note stamp db t now))
        in (case close_turn rd (turn_id t) st msg (sweep_opts now st) now db of
             (Inr True, db') \<Rightarrow> (Suc count, db') | (_, db') \<Rightarrow> (count, db')))"

definition sweep_expired_leases :: "redactor \<Rightarrow> (instant \<Rightarrow> string) \<Rightarrow> instant \<Rightarrow> turndb \<Rightarrow> nat \<times> turndb" where
  "sweep_expired_leases rd stamp now db =
     (case fold (sweep_one rd stamp now)
             (filter (\<lambda>t. status t \<in> set EXECUTING \<and> lease_expired now t) (turns db)) (0, db) of
        (count, db') \<Rightarrow> (count, revoke_stale now db'))"


section \<open>Aborting\<close>

definition ABORTABLE :: "turn_status list" where
  "ABORTABLE = EXECUTING @ [Done]"

fun py_split :: "string \<Rightarrow> string \<Rightarrow> string list" where
  "py_split word [] = (if word = [] then [] else [word])"
| "py_split word (c # cs) = (if is_space c then (if word = [] then [] else [word]) @ py_split [] cs
     else py_split (word @ [c]) cs)"

fun join_spaces :: "string list \<Rightarrow> string" where
  "join_spaces [] = []"
| "join_spaces [w] = w"
| "join_spaces (w # ws) = w @ '' '' @ join_spaces ws"

definition abort_note :: "string \<Rightarrow> string \<Rightarrow> string" where
  "abort_note reason tool =
     (let r = take 1500 (join_spaces (py_split [] reason));
          r = (if r = '''' then ''no reason given'' else r);
          at = (if tool \<noteq> '''' then '' in '' @ tool else '''')
      in ''Aborted by canopy: the turn could not do its work'' @ at @ ''. '' @ r)"

datatype abort_error = NotAbortable turn_status | AbortNoTurn

definition abort_event :: "string \<Rightarrow> string \<Rightarrow> payload" where
  "abort_event tool by' = (''aborted'', JBool True)
     # (if tool \<noteq> '''' then [(''tool'', JStr (take 200 tool))] else [])
     @ (if by' \<noteq> '''' then [(''by'', JStr by')] else [])"

definition abort :: "redactor \<Rightarrow> string \<Rightarrow> string \<Rightarrow> string \<Rightarrow> string \<Rightarrow> instant \<Rightarrow> turndb
    \<Rightarrow> (abort_error + unit) \<times> turndb" where
  "abort rd n reason tool by' now db =
     (case get_turn db n of None \<Rightarrow> (Inl AbortNoTurn, db)
      | Some t \<Rightarrow>
          if status t = Failed then (Inr (), db)
          else if status t \<notin> set ABORTABLE then (Inl (NotAbortable (status t)), db)
          else let msg = abort_note reason tool in
            (case close_turn rd n Failed (Some msg)
                   ((close_defaults ABORTABLE)\<lparr>event_extra := abort_event tool by'\<rparr>) now db of
              (Inr True, db1) \<Rightarrow>
                let db2 = snd (append_events rd n [(''error'', [(''detail'', JStr msg)])] db1)
                in (Inr (), (case claimed_by t of
                      Some r \<Rightarrow> if status t \<in> set EXECUTING then emit (CancelOnRunner r n) db2 else db2
                    | None \<Rightarrow> db2))
            | (_, db1) \<Rightarrow> (Inl (NotAbortable (status t)), db1)))"


section \<open>What one transition changes\<close>

lemma append_events_frame [simp]:
  "turns (snd (append_events rd n es db)) = turns db" "chats (snd (append_events rd n es db)) = chats db"
  "tokens (snd (append_events rd n es db)) = tokens db" "drills (snd (append_events rd n es db)) = drills db"
  "transcripts (snd (append_events rd n es db)) = transcripts db" "boxes (snd (append_events rd n es db)) = boxes db"
  by (simp_all add: append_events_def Let_def split: option.split)

lemma forget_the_page_frame [simp]:
  "turns (forget_the_page c db) = turns db" "events (forget_the_page c db) = events db"
  "tokens (forget_the_page c db) = tokens db" "effects (forget_the_page c db) = effects db"
  "drills (forget_the_page c db) = drills db" "transcripts (forget_the_page c db) = transcripts db"
  by (simp_all add: forget_the_page_def)

lemma hook_frame [simp]:
  "turns (chat_hook t opts db) = turns db" "events (chat_hook t opts db) = events db"
  "tokens (chat_hook t opts db) = tokens db"
  "turns (schedule_hook t st db) = turns db" "events (schedule_hook t st db) = events db"
  "tokens (schedule_hook t st db) = tokens db"
  "turns (job_hook t st db) = turns db" "events (job_hook t st db) = events db"
  "tokens (job_hook t st db) = tokens db"
  "turns (drill_hook t opts now db) = turns db" "events (drill_hook t opts now db) = events db"
  "tokens (drill_hook t opts now db) = tokens db" "effects (drill_hook t opts now db) = effects db"
  "turns (debug_hook t st opts db) = turns db" "events (debug_hook t st opts db) = events db"
  "tokens (debug_hook t st opts db) = tokens db"
  by (simp_all add: hook_defs split: option.split)

lemma close_hooks_frame [simp]:
  "turns (close_hooks t st opts now db) = turns db" "events (close_hooks t st opts now db) = events db"
  "tokens (close_hooks t st opts now db) = tokens db"
  by (simp_all add: close_hooks_def)

definition finished_count :: "turndb \<Rightarrow> string \<Rightarrow> nat" where
  "finished_count db m = length (filter (\<lambda>e. case e of TurnFinishedFact k _ \<Rightarrow> k = m | _ \<Rightarrow> False) (effects db))"

lemma finished_count_emit [simp]:
  "finished_count (emit e db) m = finished_count db m + (case e of TurnFinishedFact k _ \<Rightarrow> if k = m then 1 else 0 | _ \<Rightarrow> 0)"
  by (cases e) (simp_all add: finished_count_def)

lemma finished_count_frame [simp]:
  "finished_count (db\<lparr>events := es\<rparr>) m = finished_count db m"
  "finished_count (db\<lparr>drills := ds\<rparr>) m = finished_count db m"
  "finished_count (db\<lparr>turns := ts\<rparr>) m = finished_count db m"
  "finished_count (db\<lparr>tokens := ks\<rparr>) m = finished_count db m"
  "finished_count (db\<lparr>chats := cs\<rparr>) m = finished_count db m"
  "finished_count (db\<lparr>transcripts := trs\<rparr>) m = finished_count db m"
  by (simp_all add: finished_count_def)

lemma finished_count_hook [simp]:
  "finished_count (chat_hook t opts db) m = finished_count db m"
  "finished_count (schedule_hook t st db) m = finished_count db m"
  "finished_count (job_hook t st db) m = finished_count db m"
  "finished_count (drill_hook t opts now db) m = finished_count db m"
  "finished_count (debug_hook t st opts db) m = finished_count db m"
  by (simp_all add: hook_defs split: option.split)

lemma finished_count_hooks [simp]: "finished_count (close_hooks t st opts now db) m = finished_count db m"
  by (simp add: close_hooks_def)

lemma finished_count_append [simp]: "finished_count (snd (append_events rd n es db)) m = finished_count db m"
  by (simp add: append_events_def Let_def split: option.split)

lemma finished_count_forget [simp]: "finished_count (forget_the_page c db) m = finished_count db m"
  by (simp add: forget_the_page_def)

lemma finished_count_revoke [simp]: "finished_count (revoke_for_turn n now db) m = finished_count db m"
  by (simp add: revoke_for_turn_def)

lemma revoke_for_turn_frame [simp]:
  "turns (revoke_for_turn n now db) = turns db" "events (revoke_for_turn n now db) = events db"
  "chats (revoke_for_turn n now db) = chats db"
  by (simp_all add: revoke_for_turn_def)

abbreviation tokens_of :: "turndb \<Rightarrow> string \<Rightarrow> agent_token list" where
  "tokens_of db m \<equiv> filter (\<lambda>k. tk_turn k = m) (tokens db)"

text \<open>Turn \<open>m\<close> is as it was, or has ended in this step.\<close>

definition untouched :: "turndb \<Rightarrow> turndb \<Rightarrow> string \<Rightarrow> bool" where
  "untouched db db' m \<longleftrightarrow> get_turn db' m = get_turn db m \<and> finished_count db' m = finished_count db m
     \<and> rows_of db' m = rows_of db m \<and> tokens_of db' m = tokens_of db m"

definition ended :: "turn_status \<Rightarrow> string option \<Rightarrow> close_opts \<Rightarrow> instant \<Rightarrow> turndb \<Rightarrow> turndb \<Rightarrow> turn \<Rightarrow> bool" where
  "ended st msg opts now db db' t \<longleftrightarrow>
     (\<exists>s. get_turn db' (turn_id t) = Some (close_fields s st msg opts now t))
     \<and> finished_count db' (turn_id t) = Suc (finished_count db (turn_id t))
     \<and> (\<exists>line. rows_of db' (turn_id t) = rows_of db (turn_id t) @ line
          \<and> length line = (if ledger_line opts \<and> content_purged_at t = None then 1 else 0)
          \<and> (\<forall>e\<in>set line. ev_kind e = ''status''))
     \<and> (\<forall>k\<in>set (tokens_of db' (turn_id t)). tk_session k = None \<longrightarrow> tk_revoked_at k \<noteq> None)"

lemma ended_status: "ended st msg opts now db db' t \<Longrightarrow> map_option status (get_turn db' (turn_id t)) = Some st"
  by (auto simp: ended_def close_fields_def)

lemma untouched_refl [simp]: "untouched db db m"
  by (simp add: untouched_def)

lemma untouched_trans: "untouched a b m \<Longrightarrow> untouched b c m \<Longrightarrow> untouched a c m"
  by (simp add: untouched_def)

lemma ended_untouched: "ended st msg opts now a b t \<Longrightarrow> untouched b c (turn_id t) \<Longrightarrow> ended st msg opts now a c t"
  unfolding ended_def untouched_def by metis

lemma untouched_ended: "untouched a b (turn_id t) \<Longrightarrow> ended st msg opts now b c t \<Longrightarrow> ended st msg opts now a c t"
  unfolding ended_def untouched_def by metis

lemma close_fields_simps [simp]:
  "turn_id (close_fields s st msg opts now t) = turn_id t"
  "status (close_fields s st msg opts now t) = st"
  "content_purged_at (close_fields s st msg opts now t) = content_purged_at t"
  "rides_turn (close_fields s st msg opts now t) = rides_turn t"
  "lease_expires_at (close_fields s st msg opts now t) = lease_expires_at t"
  "chat_session (close_fields s st msg opts now t) = chat_session t"
  "claimed_by (close_fields s st msg opts now t) = claimed_by t"
  by (simp_all add: close_fields_def)

lemma append_events_rows:
  assumes "get_turn db n = Some t"
  shows "\<exists>new. rows_of (snd (append_events rd n es db)) m = rows_of db m @ new
    \<and> length new = (if m = n \<and> content_purged_at t = None then length es else 0)
    \<and> (\<forall>e\<in>set new. ev_kind e \<in> fst ` set es)"
proof (cases "append_events rd n es db")
  case (Pair res db')
  then show ?thesis
  proof (cases rule: append_events_cases)
    case (appended t' es' live)
    let ?rows = "stored_rows rd (is_sensitive db t') n (max_seq db n) es'"
    have kinds: "ev_kind ` set ?rows \<subseteq> fst ` set es"
    proof -
      have "map fst es' = map fst es"
        by (auto simp: appended(3) stripped_events_def Let_def)
      moreover have "map ev_kind ?rows = map fst es'"
        by (rule nth_equalityI) (simp_all add: stored_rows_def nth_enumerate_eq case_prod_beta)
      ultimately show ?thesis by (metis list.set_map order_refl)
    qed
    have "filter (\<lambda>e. ev_turn e = m) ?rows = (if m = n then ?rows else [])"
      using stored_rows_turn by (auto simp: filter_empty_conv filter_id_conv)
    then have "rows_of db' m = rows_of db m @ (if m = n then ?rows else [])"
      unfolding appended(5) by simp
    then show ?thesis
      using Pair kinds appended assms by (intro exI [of _ "if m = n then ?rows else []"]) auto
  qed (use assms Pair in \<open>auto intro: exI [of _ "[]"]\<close>)
qed


lemma revoke_for_turn_tokens:
  "tokens_of (revoke_for_turn n now db) m
    = (if m = n then map (\<lambda>k. if tk_session k = None \<and> tk_revoked_at k = None then k\<lparr>tk_revoked_at := Some now\<rparr> else k)
         (tokens_of db n) else tokens_of db m)"
proof -
  have "filter (\<lambda>k. tk_turn k = m) (tbl_update (\<lambda>k. tk_turn k = n \<and> tk_session k = None \<and> tk_revoked_at k = None)
        (\<lambda>k. k\<lparr>tk_revoked_at := Some now\<rparr>) ks)
    = (if m = n then map (\<lambda>k. if tk_session k = None \<and> tk_revoked_at k = None then k\<lparr>tk_revoked_at := Some now\<rparr> else k)
         (filter (\<lambda>k. tk_turn k = n) ks) else filter (\<lambda>k. tk_turn k = m) ks)" for ks :: "agent_token list"
    by (induction ks) auto
  from this [of "tokens db"] show ?thesis by (simp add: revoke_for_turn_def)
qed

lemma tokens_emit: "tokens_of (emit e db) m = tokens_of db m"
  by simp

text \<open>The part of a transition after the row moved, on its own turn and on any other.\<close>

lemma close_record_effect:
  assumes row: "get_turn db (turn_id t) = Some t'" and purged: "content_purged_at t' = content_purged_at t"
    and db'_eq: "db' = close_record rd t s st msg opts now db"
  shows "turns db' = turns db"
    and "finished_count db' m = finished_count db m + (if m = turn_id t then 1 else 0)"
    and "\<exists>line. rows_of db' m = rows_of db m @ line
      \<and> length line = (if m = turn_id t \<and> ledger_line opts \<and> content_purged_at t = None then 1 else 0)
      \<and> (\<forall>e\<in>set line. ev_kind e = ''status'')"
    and "m \<noteq> turn_id t \<Longrightarrow> tokens_of db' m = tokens_of db m"
    and "\<forall>k\<in>set (tokens_of db' (turn_id t)). tk_session k = None \<longrightarrow> tk_revoked_at k \<noteq> None"
proof -
  define db1 where "db1 = (case conversation_of t of None \<Rightarrow> db | Some c \<Rightarrow> if s then forget_the_page c db else db)"
  define db2 where "db2 = (if s \<and> chat_session t \<noteq> None then emit (ForgetAttachments (turn_id t)) db1 else db1)"
  define db3 where "db3 = revoke_for_turn (turn_id t) now db2"
  define db4 where "db4 = (if ledger_line opts
      then snd (append_events rd (turn_id t) [(''status'', status_payload st msg (event_extra opts))] db3) else db3)"
  have db': "db' = emit (TurnFinishedFact (turn_id t) now) db4"
    unfolding db'_eq close_record_def Let_def db4_def db3_def db2_def db1_def by (rule refl)
  have 1: "turns db1 = turns db" "events db1 = events db" "tokens db1 = tokens db" "finished_count db1 m = finished_count db m"
    by (simp_all add: db1_def split: option.split)
  have 2: "turns db2 = turns db" "events db2 = events db" "tokens db2 = tokens db" "finished_count db2 m = finished_count db m"
    by (simp_all add: db2_def 1)
  have 3: "turns db3 = turns db" "events db3 = events db" "finished_count db3 m = finished_count db m"
    by (simp_all add: db3_def 2)
  have 4: "turns db4 = turns db" "tokens db4 = tokens db3" "finished_count db4 m = finished_count db m"
    by (simp_all add: db4_def 3)
  show "turns db' = turns db" by (simp add: db' 4)
  show "finished_count db' m = finished_count db m + (if m = turn_id t then 1 else 0)"
    by (simp add: db' 4)
  have row3: "get_turn db3 (turn_id t) = Some t'" using row by (simp add: 3)
  show "\<exists>line. rows_of db' m = rows_of db m @ line
      \<and> length line = (if m = turn_id t \<and> ledger_line opts \<and> content_purged_at t = None then 1 else 0)
      \<and> (\<forall>e\<in>set line. ev_kind e = ''status'')"
  proof (cases "ledger_line opts")
    case True
    then show ?thesis
      using append_events_rows [OF row3, where rd = rd and es = "[(''status'', status_payload st msg (event_extra opts))]" and m = m] purged
      by (auto simp: db' db4_def 3)
  next
    case False
    then show ?thesis by (simp add: db' db4_def 3)
  qed
  have tokens: "tokens_of db' k = tokens_of (revoke_for_turn (turn_id t) now db2) k" for k
    by (simp add: db' 4 db3_def)
  show "m \<noteq> turn_id t \<Longrightarrow> tokens_of db' m = tokens_of db m"
    unfolding tokens revoke_for_turn_tokens by (simp add: 2)
  show "\<forall>k\<in>set (tokens_of db' (turn_id t)). tk_session k = None \<longrightarrow> tk_revoked_at k \<noteq> None"
    unfolding tokens revoke_for_turn_tokens by auto
qed


lemma get_turn_closed:
  "tbl_get turn_id m (tbl_update (\<lambda>r. turn_id r = n \<and> may_close opts r) (close_fields s st msg opts now) ts)
    = map_option (\<lambda>r. if turn_id r = n \<and> may_close opts r then close_fields s st msg opts now r else r)
        (tbl_get turn_id m ts)"
  by (rule tbl_get_tbl_update) simp

lemma close_with_missed:
  "close_with end_riders rd n st msg opts now db = (Inr False, db') \<Longrightarrow> db' = db"
  by (simp add: close_with_def Let_def split: if_splits option.splits)

lemma close_with_guard:
  "st \<in> set TERMINAL \<Longrightarrow> get_turn db n = Some t \<Longrightarrow>
    fst (close_with end_riders rd n st msg opts now db) = Inr (may_close opts t)"
  by (simp add: close_with_def Let_def)

text \<open>Closing a turn whose riders are left alone.\<close>

lemma close_one_effect:
  assumes st: "st \<in> set TERMINAL" and t: "get_turn db n = Some t" and may: "may_close opts t"
    and alone: "\<not> with_riders opts \<or> (\<forall>db. end_riders n st now db = db)"
    and db': "db' = snd (close_with end_riders rd n st msg opts now db)"
  shows "ended st msg opts now db db' t" and "m \<noteq> n \<Longrightarrow> untouched db db' m"
    and "map turn_id (turns db') = map turn_id (turns db)"
proof -
  let ?s = "is_sensitive db t"
  let ?db1 = "db\<lparr>turns := tbl_update (\<lambda>r. turn_id r = n \<and> may_close opts r) (close_fields ?s st msg opts now) (turns db)\<rparr>"
  let ?db2 = "close_record rd t ?s st msg opts now ?db1"
  have n: "turn_id t = n" using tbl_get_Some [OF t] by simp
  have db'': "db' = close_hooks t st opts now ?db2"
    using st t may alone unfolding db' close_with_def by (cases "with_riders opts") (simp_all add: Let_def)
  have row: "get_turn ?db1 m = map_option (\<lambda>r. if turn_id r = n \<and> may_close opts r then close_fields ?s st msg opts now r else r)
      (get_turn db m)" for m
    using get_turn_closed by simp
  have rown: "get_turn ?db1 (turn_id t) = Some (close_fields ?s st msg opts now t)"
    using row [of n] t may n by simp
  note eff = close_record_effect [OF rown _ refl, where rd = rd and s = ?s and st = st and msg = msg
      and opts = opts and now = now, simplified close_fields_simps, OF refl]
  have same: "finished_count ?db1 m = finished_count db m" "rows_of ?db1 m = rows_of db m" "tokens_of ?db1 m = tokens_of db m" for m
    by simp_all
  have here: "get_turn db' m = get_turn ?db1 m" "finished_count db' m = finished_count ?db2 m" "rows_of db' m = rows_of ?db2 m"
    "tokens_of db' m = tokens_of ?db2 m" for m
    unfolding db'' using eff(1) by simp_all
  show "ended st msg opts now db db' t"
    unfolding ended_def here
  proof (intro conjI)
    show "\<exists>s. get_turn ?db1 (turn_id t) = Some (close_fields s st msg opts now t)" using rown by blast
    show "finished_count ?db2 (turn_id t) = Suc (finished_count db (turn_id t))"
      using eff(2) [of "turn_id t"] same(1) by simp
    show "\<exists>line. rows_of ?db2 (turn_id t) = rows_of db (turn_id t) @ line
        \<and> length line = (if ledger_line opts \<and> content_purged_at t = None then 1 else 0)
        \<and> (\<forall>e\<in>set line. ev_kind e = ''status'')"
      using eff(3) [of "turn_id t"] unfolding same(2) by (simp only: refl simp_thms)
    show "\<forall>k\<in>set (tokens_of ?db2 (turn_id t)). tk_session k = None \<longrightarrow> tk_revoked_at k \<noteq> None"
      by (rule eff(5))
  qed
  show "untouched db db' m" if "m \<noteq> n"
  proof -
    have "get_turn ?db1 m = get_turn db m"
      unfolding row using that by (cases "get_turn db m") (auto dest: tbl_get_Some)
    moreover have "rows_of ?db2 m = rows_of ?db1 m" using eff(3) [of m] that n by auto
    ultimately show ?thesis
      unfolding untouched_def here using that n eff(2,4) same by simp
  qed
  have "turns db' = turns ?db1" unfolding db'' using eff(1) by simp
  then show "map turn_id (turns db') = map turn_id (turns db)" by (simp add: map_tbl_update)
qed

lemma close_with_untouched:
  assumes "st \<in> set TERMINAL" and "get_turn db n = Some t" and "\<not> may_close opts t"
  shows "snd (close_with end_riders rd n st msg opts now db) = db"
  using assms by (simp add: close_with_def)

lemma terminal_not_executing: "st \<in> set TERMINAL \<Longrightarrow> st \<notin> set EXECUTING"
  by (auto simp: TERMINAL_def EXECUTING_def)

lemma rider_may_close: "status x \<in> set EXECUTING \<Longrightarrow> may_close (rider_opts n) x"
  by (simp add: may_close_def rider_opts_def close_defaults_def)

lemma rider_opts_simps [simp]: "\<not> with_riders (rider_opts n)" "ledger_line (rider_opts n)"
  by (simp_all add: rider_opts_def close_defaults_def)

text \<open>Ending several turns one after the other: each step ends its own row (in the sense \<open>E\<close>) and
  leaves every other turn alone.\<close>

locale ends_each =
  fixes f :: "turn \<Rightarrow> turndb \<Rightarrow> turndb"
    and G :: "turn \<Rightarrow> bool"
    and E :: "turndb \<Rightarrow> turndb \<Rightarrow> turn \<Rightarrow> bool"
  assumes step_ends: "get_turn db (turn_id x) = Some x \<Longrightarrow> G x \<Longrightarrow> E db (f x db) x"
    and step_leaves: "get_turn db (turn_id x) = Some x \<Longrightarrow> G x \<Longrightarrow> m \<noteq> turn_id x \<Longrightarrow> untouched db (f x db) m"
    and step_ids: "get_turn db (turn_id x) = Some x \<Longrightarrow> G x \<Longrightarrow> map turn_id (turns (f x db)) = map turn_id (turns db)"
    and stays_ended: "E a b x \<Longrightarrow> untouched b c (turn_id x) \<Longrightarrow> E a c x"
    and ends_later: "untouched a b (turn_id x) \<Longrightarrow> E b c x \<Longrightarrow> E a c x"
begin

definition pending :: "turn list \<Rightarrow> turndb \<Rightarrow> bool" where
  "pending xs db \<longleftrightarrow> distinct (map turn_id xs) \<and> (\<forall>x\<in>set xs. get_turn db (turn_id x) = Some x \<and> G x)"

lemma pending_step: "pending (x # xs) db \<Longrightarrow> pending xs (f x db)"
proof -
  assume p: "pending (x # xs) db"
  have "get_turn (f x db) (turn_id y) = Some y" if "y \<in> set xs" for y
  proof -
    have "turn_id y \<noteq> turn_id x" using p that unfolding pending_def by simp (metis imageI)
    then have "untouched db (f x db) (turn_id y)" using p by (intro step_leaves) (simp_all add: pending_def)
    then show ?thesis using p that by (simp add: untouched_def pending_def)
  qed
  then show ?thesis using p by (simp add: pending_def)
qed

lemma fold_ends:
  "pending xs db \<Longrightarrow> (\<forall>x\<in>set xs. E db (fold f xs db) x)
    \<and> (\<forall>m. m \<notin> turn_id ` set xs \<longrightarrow> untouched db (fold f xs db) m)
    \<and> map turn_id (turns (fold f xs db)) = map turn_id (turns db)"
proof (induction xs arbitrary: db)
  case Nil
  then show ?case by simp
next
  case (Cons x xs)
  let ?db' = "fold f xs (f x db)"
  have x: "get_turn db (turn_id x) = Some x" "G x" and fresh: "turn_id x \<notin> turn_id ` set xs"
    using Cons.prems by (simp_all add: pending_def)
  note ih = Cons.IH [OF pending_step [OF Cons.prems]]
  have "E db ?db' x" using ih fresh by (intro stays_ended [OF step_ends [OF x]]) blast
  moreover have "E db ?db' y" if "y \<in> set xs" for y
  proof -
    have "turn_id y \<noteq> turn_id x" using fresh that by (metis imageI)
    then show ?thesis using ih that by (intro ends_later [OF step_leaves [OF x]]) blast+
  qed
  moreover have "untouched db ?db' m" if "m \<notin> turn_id ` set (x # xs)" for m
  proof -
    have "m \<noteq> turn_id x" "m \<notin> turn_id ` set xs" using that by simp_all
    then show ?thesis using untouched_trans [OF step_leaves [OF x]] ih by blast
  qed
  moreover have "map turn_id (turns ?db') = map turn_id (turns db)" using ih step_ids [OF x] by simp
  ultimately show ?case by simp
qed

end

lemma close_rider_effect:
  assumes "st \<in> set TERMINAL" and "get_turn db (turn_id x) = Some x" and "status x \<in> set EXECUTING"
  shows "ended st (Some (rider_note n st)) (rider_opts n) now db (close_rider rd n st now x db) x"
    and "m \<noteq> turn_id x \<Longrightarrow> untouched db (close_rider rd n st now x db) m"
    and "map turn_id (turns (close_rider rd n st now x db)) = map turn_id (turns db)"
  using close_one_effect [OF assms(1,2) rider_may_close [OF assms(3)] _ close_rider_def] by simp_all

interpretation riders: ends_each "close_rider rd n st now" "\<lambda>x. st \<in> set TERMINAL \<and> status x \<in> set EXECUTING"
    "ended st (Some (rider_note n st)) (rider_opts n) now" for rd n st now
  by unfold_locales (auto intro: close_rider_effect ended_untouched untouched_ended)

abbreviation turn_ids_ok :: "turndb \<Rightarrow> bool" where
  "turn_ids_ok db \<equiv> distinct (map turn_id (turns db))"

lemma get_turn_row: "turn_ids_ok db \<Longrightarrow> t \<in> set (turns db) \<Longrightarrow> get_turn db (turn_id t) = Some t"
  by (rule tbl_get_distinct)

lemma close_riders_effect:
  assumes st: "st \<in> set TERMINAL" and ids: "turn_ids_ok db"
  shows "get_turn db m = Some r \<Longrightarrow> is_rider n r \<Longrightarrow>
      ended st (Some (rider_note n st)) (rider_opts n) now db (close_riders rd n st now db) r"
    and "(\<And>r. get_turn db m = Some r \<Longrightarrow> \<not> is_rider n r) \<Longrightarrow> untouched db (close_riders rd n st now db) m"
    and "map turn_id (turns (close_riders rd n st now db)) = map turn_id (turns db)"
proof -
  let ?xs = "filter (is_rider n) (turns db)"
  have rows: "\<forall>x\<in>set ?xs. get_turn db (turn_id x) = Some x \<and> status x \<in> set EXECUTING"
    using get_turn_row [OF ids] by (simp add: is_rider_def)
  then have "riders.pending st ?xs db" 
    unfolding riders.pending_def using ids st by (simp add: distinct_map_filter)
  then have fold: "(\<forall>x\<in>set ?xs. ended st (Some (rider_note n st)) (rider_opts n) now db (close_riders rd n st now db) x)
      \<and> (\<forall>m. m \<notin> turn_id ` set ?xs \<longrightarrow> untouched db (close_riders rd n st now db) m)
      \<and> map turn_id (turns (close_riders rd n st now db)) = map turn_id (turns db)"
    unfolding close_riders_def by (rule riders.fold_ends)
  show "get_turn db m = Some r \<Longrightarrow> is_rider n r \<Longrightarrow>
      ended st (Some (rider_note n st)) (rider_opts n) now db (close_riders rd n st now db) r"
    using fold tbl_get_Some by fastforce
  show "(\<And>r. get_turn db m = Some r \<Longrightarrow> \<not> is_rider n r) \<Longrightarrow> untouched db (close_riders rd n st now db) m"
  proof -
    assume none: "\<And>r. get_turn db m = Some r \<Longrightarrow> \<not> is_rider n r"
    have "m \<notin> turn_id ` set ?xs"
    proof
      assume "m \<in> turn_id ` set ?xs"
      then obtain x where "x \<in> set ?xs" "m = turn_id x" by blast
      then show False using none [of x] rows by simp
    qed
    then show ?thesis using fold by blast
  qed
  show "map turn_id (turns (close_riders rd n st now db)) = map turn_id (turns db)" using fold by blast
qed

lemma close_turn_ends_it_once':
  assumes ids: "turn_ids_ok db" and t: "get_turn db n = Some t" and st: "st \<in> set TERMINAL"
    and res: "close_turn rd n st msg opts now db = (Inr b, db')"
  shows "b = may_close opts t
    \<and> (if b then ended st msg opts now db db' t
         \<and> (\<forall>m r. m \<noteq> n \<longrightarrow> get_turn db m = Some r \<longrightarrow>
              (if with_riders opts \<and> is_rider n r
               then ended st (Some (rider_note n st)) (rider_opts n) now db db' r
               else untouched db db' m))
       else db' = db)
    \<and> map turn_id (turns db') = map turn_id (turns db)"
proof (cases "may_close opts t")
  case False
  then show ?thesis using res t st by (simp add: close_turn_def close_with_def)
next
  case True
  have n: "turn_id t = n" using tbl_get_Some [OF t] by simp
  have b: "b" using res t st True by (simp add: close_turn_def close_with_def Let_def)
  let ?alone = "close_with (\<lambda>_ _ _ db. db) rd n st msg opts now db"
  define db2 where "db2 = (let s = is_sensitive db t in close_record rd t s st msg opts now
      (db\<lparr>turns := tbl_update (\<lambda>r. turn_id r = n \<and> may_close opts r) (close_fields s st msg opts now) (turns db)\<rparr>))"
  have alone: "snd ?alone = close_hooks t st opts now db2"
    using st t True by (simp add: close_with_def db2_def Let_def)
  have "close_turn rd n st msg opts now db
      = (Inr True, close_hooks t st opts now (if with_riders opts then close_riders rd n st now db2 else db2))"
    using st t True by (simp add: close_turn_def close_with_def db2_def Let_def)
  then have db': "db' = close_hooks t st opts now (if with_riders opts then close_riders rd n st now db2 else db2)"
    using res by simp
  have hooks: "untouched d (close_hooks t st opts now d) m" for d m by (simp add: untouched_def)
  have unhooks: "untouched (close_hooks t st opts now d) d m" for d m by (simp add: untouched_def)
  note one = close_one_effect [OF st t True _ refl, where end_riders = "\<lambda>_ _ _ db. db" and now = now and rd = rd and msg = msg, unfolded alone]
  have self: "ended st msg opts now db db2 t" using ended_untouched [OF one(1) unhooks] by simp
  have rest: "m \<noteq> n \<Longrightarrow> untouched db db2 m" for m using untouched_trans [OF one(2) unhooks] by simp
  have ids2: "map turn_id (turns db2) = map turn_id (turns db)" using one(3) by simp
  show ?thesis
  proof (cases "with_riders opts")
    case False
    then show ?thesis
      using b True self rest ids2 ended_untouched [OF self hooks] untouched_trans [OF rest hooks] db' by simp
  next
    case riders: True
    have "turn_ids_ok db2" using ids ids2 by simp
    note riders_end = close_riders_effect [OF st this, where n = n and now = now and rd = rd]
    obtain s where row: "get_turn db2 n = Some (close_fields s st msg opts now t)"
      using self n by (auto simp: ended_def)
    have dbr: "db' = close_hooks t st opts now (close_riders rd n st now db2)" using db' riders by simp
    have "untouched db2 (close_riders rd n st now db2) n"
      using riders_end(2) [of n] row terminal_not_executing [OF st] by (simp add: is_rider_def)
    then have "ended st msg opts now db db' t"
      unfolding dbr using ended_untouched [OF ended_untouched [OF self] hooks] n by simp
    moreover have "if is_rider n r then ended st (Some (rider_note n st)) (rider_opts n) now db db' r else untouched db db' m"
      if m: "m \<noteq> n" "get_turn db m = Some r" for m r
    proof -
      have "get_turn db2 m = Some r" using rest [OF m(1)] m(2) by (simp add: untouched_def)
      moreover have "turn_id r = m" using tbl_get_Some [OF m(2)] by simp
      ultimately show ?thesis
        unfolding dbr
        using riders_end(1) [of m r] riders_end(2) [of m] m rest [OF m(1)]
          untouched_trans [OF untouched_trans [OF rest [OF m(1)]] hooks]
          ended_untouched [OF untouched_ended [OF _, of db db2 r] hooks]
        by auto
    qed
    moreover have "map turn_id (turns db') = map turn_id (turns db)" unfolding dbr using riders_end(3) ids2 by simp
    ultimately show ?thesis using b True riders by simp
  qed
qed

text \<open>The row of the turn itself, a sensitive turn's note withheld.\<close>

lemma close_turn_row:
  assumes ids: "turn_ids_ok db" and t: "get_turn db n = Some t" and st: "st \<in> set TERMINAL" and may: "may_close opts t"
    and res: "close_turn rd n st msg opts now db = (res, db')"
  shows "get_turn db' n = Some (close_fields (is_sensitive db t) st msg opts now t)"
proof -
  let ?s = "is_sensitive db t"
  let ?db1 = "db\<lparr>turns := tbl_update (\<lambda>r. turn_id r = n \<and> may_close opts r) (close_fields ?s st msg opts now) (turns db)\<rparr>"
  let ?db2 = "close_record rd t ?s st msg opts now ?db1"
  have n: "turn_id t = n" using tbl_get_Some [OF t] by simp
  have rown: "get_turn ?db1 (turn_id t) = Some (close_fields ?s st msg opts now t)"
    using t may n get_turn_closed by simp
  note eff = close_record_effect [OF rown _ refl, where rd = rd and s = ?s and st = st and msg = msg
      and opts = opts and now = now, simplified close_fields_simps, OF refl]
  have row: "get_turn ?db2 n = Some (close_fields ?s st msg opts now t)" using rown eff(1) n by simp
  have ids2: "turn_ids_ok ?db2"
    using ids eff(1) by (simp add: map_tbl_update close_fields_def)
  have "\<not> is_rider n (close_fields ?s st msg opts now t)"
    using terminal_not_executing [OF st] by (simp add: is_rider_def close_fields_def)
  then have "untouched ?db2 (close_riders rd n st now ?db2) n"
    using close_riders_effect(2) [OF st ids2, of n n rd now] row by simp
  moreover have "db' = close_hooks t st opts now (if with_riders opts then close_riders rd n st now ?db2 else ?db2)"
    using res st t may by (simp add: close_turn_def close_with_def Let_def)
  ultimately show ?thesis using row by (simp add: untouched_def)
qed

text \<open>C20. A turn ends once and completely: \<open>close_turn\<close> reports success exactly when the turn was in one
  of the caller's states, and a miss changes nothing.  On success the turn holds the final status and
  its end time, its one \<open>status\<close> line and one analytics fact are written and every login issued for
  it is revoked; the running follow-ups delivered into it end the same way when the caller asks for
  them; and no other turn, ledger or login is touched.\<close>

theorem close_turn_ends_it_once:
  assumes ids: "turn_ids_ok db" and t: "get_turn db n = Some t" and st: "st \<in> set TERMINAL"
    and res: "close_turn rd n st msg opts now db = (Inr b, db')"
  shows "b = may_close opts t
    \<and> (if b then ended st msg opts now db db' t
         \<and> (\<forall>m r. m \<noteq> n \<longrightarrow> get_turn db m = Some r \<longrightarrow>
              (if with_riders opts \<and> is_rider n r
               then ended st (Some (rider_note n st)) (rider_opts n) now db db' r
               else untouched db db' m))
       else db' = db)
    \<and> map turn_id (turns db') = map turn_id (turns db)"
  by (rule close_turn_ends_it_once' [OF assms])

lemma close_turn_ends_it_once_witness:
  "map_option status (get_turn (snd (close_turn blind_redactor ''eeeeeeee-5'' Done None (close_defaults EXECUTING) 5 sample_turns))
     ''dddddddd-4'') = Some Done"
proof -
  let ?res = "close_turn blind_redactor ''eeeeeeee-5'' Done None (close_defaults EXECUTING) 5 sample_turns"
  have res: "?res = (Inr True, snd ?res)" by (rule prod_eqI) (code_simp, simp)
  have rows: "get_turn sample_turns ''eeeeeeee-5'' = Some (plain_turn ''eeeeeeee-5'')"
    "get_turn sample_turns ''dddddddd-4'' = Some (plain_turn ''dddddddd-4''\<lparr>rides_turn := Some ''eeeeeeee-5''\<rparr>)"
    "turn_ids_ok sample_turns" by (simp_all add: sample_turns_def plain_turn_def)
  let ?rider = "plain_turn ''dddddddd-4''\<lparr>rides_turn := Some ''eeeeeeee-5''\<rparr>"
  have rider: "is_rider ''eeeeeeee-5'' ?rider" "with_riders (close_defaults EXECUTING)" "Done \<in> set TERMINAL"
    by code_simp+
  have other: "''dddddddd-4'' \<noteq> ''eeeeeeee-5''" by simp
  have "ended Done (Some (rider_note ''eeeeeeee-5'' Done)) (rider_opts ''eeeeeeee-5'') 5 sample_turns (snd ?res) ?rider"
    using close_turn_ends_it_once [OF rows(3,1) rider(3) res] rows(2) rider(1,2) other by (simp only: if_True simp_thms)
  from ended_status [OF this] show ?thesis by (simp add: plain_turn_def)
qed

section \<open>The lease sweep\<close>

definition lapsed :: "instant \<Rightarrow> turn \<Rightarrow> bool" where
  "lapsed now t \<longleftrightarrow> status t \<in> set EXECUTING \<and> lease_expired now t"

definition sweep_ended :: "instant \<Rightarrow> turndb \<Rightarrow> turndb \<Rightarrow> turn \<Rightarrow> bool" where
  "sweep_ended now a b t \<longleftrightarrow>
     (\<exists>msg. ended (sweep_status a (turn_id t)) msg (sweep_opts now (sweep_status a (turn_id t))) now a b t)"

lemma sweep_status_terminal: "sweep_status db n \<in> set TERMINAL"
  by (simp add: sweep_status_def TERMINAL_def)

lemma sweep_status_untouched: "untouched a b n \<Longrightarrow> sweep_status b n = sweep_status a n"
proof -
  assume "untouched a b n"
  then have "set (rows_of b n) = set (rows_of a n)" by (simp add: untouched_def)
  then have "(\<exists>e\<in>set (events b). ev_turn e = n \<and> ev_kind e = k) = (\<exists>e\<in>set (events a). ev_turn e = n \<and> ev_kind e = k)" for k
    by (auto simp: set_eq_iff)
  then show ?thesis by (simp add: sweep_status_def)
qed

lemma sweep_may_close: "lapsed now t \<Longrightarrow> may_close (sweep_opts now st) t"
  using executing_live by (simp add: lapsed_def may_close_def sweep_opts_def close_defaults_def)

lemma close_turn_alone:
  assumes "st \<in> set TERMINAL" and "get_turn db n = Some t" and "may_close opts t" and "\<not> with_riders opts"
  shows "ended st msg opts now db (snd (close_turn rd n st msg opts now db)) t"
    and "m \<noteq> n \<Longrightarrow> untouched db (snd (close_turn rd n st msg opts now db)) m"
    and "map turn_id (turns (snd (close_turn rd n st msg opts now db))) = map turn_id (turns db)"
proof -
  have alone: "\<not> with_riders opts \<or> (\<forall>db. close_riders rd n st now db = db)" using assms(4) by simp
  have db': "snd (close_turn rd n st msg opts now db) = snd (close_with (close_riders rd) rd n st msg opts now db)"
    by (simp add: close_turn_def)
  show "ended st msg opts now db (snd (close_turn rd n st msg opts now db)) t"
    by (rule close_one_effect(1) [where end_riders = "close_riders rd", OF assms(1-3) alone db'])
  show "m \<noteq> n \<Longrightarrow> untouched db (snd (close_turn rd n st msg opts now db)) m"
    by (rule close_one_effect(2) [where end_riders = "close_riders rd", OF assms(1-3) alone db'])
  show "map turn_id (turns (snd (close_turn rd n st msg opts now db))) = map turn_id (turns db)"
    by (rule close_one_effect(3) [where end_riders = "close_riders rd", OF assms(1-3) alone db'])
qed

lemma sweep_one_effect:
  assumes x: "get_turn db (turn_id x) = Some x" and l: "lapsed now x"
  shows "fst (sweep_one rd stamp now x (c, db)) = Suc c"
    and "sweep_ended now db (snd (sweep_one rd stamp now x (c, db))) x"
    and "m \<noteq> turn_id x \<Longrightarrow> untouched db (snd (sweep_one rd stamp now x (c, db))) m"
    and "map turn_id (turns (snd (sweep_one rd stamp now x (c, db)))) = map turn_id (turns db)"
proof -
  define st where "st = sweep_status db (turn_id x)"
  define msg where "msg = (if py_strip (result_note x) \<noteq> '''' then None else Some (lease_lapse_note stamp db x now))"
  let ?res = "close_turn rd (turn_id x) st msg (sweep_opts now st) now db"
  have st: "st \<in> set TERMINAL" by (simp add: st_def sweep_status_terminal)
  have "fst ?res = Inr True"
    unfolding close_turn_def using close_with_guard [OF st x] sweep_may_close [OF l] by simp
  then have one: "sweep_one rd stamp now x (c, db) = (Suc c, snd ?res)"
    by (cases ?res) (simp add: sweep_one_def Let_def st_def [symmetric] msg_def [symmetric])
  have "\<not> with_riders (sweep_opts now st)" by (simp add: sweep_opts_def close_defaults_def)
  note eff = close_turn_alone [OF st x sweep_may_close [OF l] this, where rd = rd and msg = msg and now = now]
  show "fst (sweep_one rd stamp now x (c, db)) = Suc c" by (simp add: one)
  show "sweep_ended now db (snd (sweep_one rd stamp now x (c, db))) x"
    using eff(1) unfolding one sweep_ended_def st_def [symmetric] by auto
  show "m \<noteq> turn_id x \<Longrightarrow> untouched db (snd (sweep_one rd stamp now x (c, db))) m"
    using eff(2) by (simp add: one)
  show "map turn_id (turns (snd (sweep_one rd stamp now x (c, db)))) = map turn_id (turns db)"
    using eff(3) by (simp add: one)
qed

lemma sweep_ended_untouched: "sweep_ended now a b x \<Longrightarrow> untouched b c (turn_id x) \<Longrightarrow> sweep_ended now a c x"
  unfolding sweep_ended_def using ended_untouched by blast

lemma untouched_sweep_ended: "untouched a b (turn_id x) \<Longrightarrow> sweep_ended now b c x \<Longrightarrow> sweep_ended now a c x"
  unfolding sweep_ended_def using untouched_ended sweep_status_untouched by metis

interpretation sweeps: ends_each "\<lambda>x db. snd (sweep_one rd stamp now x (0, db))" "lapsed now" "sweep_ended now"
  for rd stamp now
  by unfold_locales (auto intro: sweep_one_effect sweep_ended_untouched untouched_sweep_ended)

lemma sweep_one_count: "snd (sweep_one rd stamp now x (c, db)) = snd (sweep_one rd stamp now x (0, db))"
  by (simp add: sweep_one_def Let_def split: prod.split sum.split bool.split)

lemma sweep_fold:
  "sweeps.pending now xs db \<Longrightarrow> fold (sweep_one rd stamp now) xs (c, db)
     = (c + length xs, fold (\<lambda>x db. snd (sweep_one rd stamp now x (0, db))) xs db)"
proof (induction xs arbitrary: c db)
  case (Cons x xs)
  then have "get_turn db (turn_id x) = Some x" "lapsed now x" by (simp_all add: sweeps.pending_def)
  then have "sweep_one rd stamp now x (c, db) = (Suc c, snd (sweep_one rd stamp now x (0, db)))"
    by (intro prod_eqI) (simp_all add: sweep_one_effect(1) sweep_one_count [of rd stamp now x c db])
  then show ?case using Cons.IH [OF sweeps.pending_step [OF Cons.prems]] by simp
qed simp

lemma revoke_stale_frame [simp]:
  "turns (revoke_stale now db) = turns db" "events (revoke_stale now db) = events db"
  "chats (revoke_stale now db) = chats db" "finished_count (revoke_stale now db) m = finished_count db m"
  by (simp_all add: revoke_stale_def)

lemma token_held_cong: "turns db' = turns db \<Longrightarrow> chats db' = chats db \<Longrightarrow> token_held db' k = token_held db k"
proof -
  assume same: "turns db' = turns db" "chats db' = chats db"
  show ?thesis unfolding token_held_def same ..
qed

lemma revoke_stale_tokens:
  assumes "k \<in> set (tokens (revoke_stale now db))"
  shows "tk_revoked_at k \<noteq> None \<or> tk_expires_at k \<le> now \<or> token_held db k"
    and "\<exists>k0\<in>set (tokens db). tk_turn k = tk_turn k0 \<and> tk_session k = tk_session k0
      \<and> (tk_revoked_at k0 \<noteq> None \<longrightarrow> tk_revoked_at k \<noteq> None)"
proof -
  obtain k0 where k0: "k0 \<in> set (tokens db)"
    "k = (if tk_expires_at k0 > now \<and> \<not> token_held db k0 \<and> tk_revoked_at k0 = None then k0\<lparr>tk_revoked_at := Some now\<rparr> else k0)"
    using assms by (auto simp: revoke_stale_def set_tbl_update)
  then show "tk_revoked_at k \<noteq> None \<or> tk_expires_at k \<le> now \<or> token_held db k" by (auto split: if_splits)
  show "\<exists>k0\<in>set (tokens db). tk_turn k = tk_turn k0 \<and> tk_session k = tk_session k0
      \<and> (tk_revoked_at k0 \<noteq> None \<longrightarrow> tk_revoked_at k \<noteq> None)"
    using k0 by (intro bexI [of _ k0]) auto
qed

lemma ended_revoke_stale: "ended st msg opts now a b t \<Longrightarrow> ended st msg opts now a (revoke_stale now' b) t"
proof -
  assume e: "ended st msg opts now a b t"
  have "tk_revoked_at k \<noteq> None"
    if k: "k \<in> set (tokens_of (revoke_stale now' b) (turn_id t))" "tk_session k = None" for k
  proof -
    obtain k0 where "k0 \<in> set (tokens_of b (turn_id t))" "tk_session k0 = None"
      "tk_revoked_at k0 \<noteq> None \<longrightarrow> tk_revoked_at k \<noteq> None"
      using revoke_stale_tokens(2) [of k now' b] k by force
    then show ?thesis using e unfolding ended_def by blast
  qed
  then show ?thesis using e unfolding ended_def by (simp only: revoke_stale_frame) blast
qed

lemma sweep_ends_exactly_the_lapsed':
  assumes ids: "turn_ids_ok db" and res: "sweep_expired_leases rd stamp now db = (count, db')"
  shows "count = length (filter (lapsed now) (turns db))
    \<and> (\<forall>m r. get_turn db m = Some r \<longrightarrow>
        (if lapsed now r then sweep_ended now db db' r
         else get_turn db' m = Some r \<and> rows_of db' m = rows_of db m \<and> finished_count db' m = finished_count db m))
    \<and> (\<forall>t\<in>set (turns db'). \<not> lapsed now t)
    \<and> (\<forall>k\<in>set (tokens db'). tk_revoked_at k \<noteq> None \<or> tk_expires_at k \<le> now \<or> token_held db' k)"
proof -
  let ?xs = "filter (lapsed now) (turns db)"
  define db1 where "db1 = fold (\<lambda>x db. snd (sweep_one rd stamp now x (0, db))) ?xs db"
  have "sweeps.pending now ?xs db"
    using get_turn_row [OF ids] ids by (simp add: sweeps.pending_def distinct_map_filter)
  note fold = sweeps.fold_ends [OF this, where rd = rd and stamp = stamp, folded db1_def]
    and counted = sweep_fold [OF this, where rd = rd and stamp = stamp and c = 0, folded db1_def]
  have db': "db' = revoke_stale now db1" and count: "count = length ?xs"
    using res counted unfolding sweep_expired_leases_def lapsed_def by simp_all
  have row: "if lapsed now r then sweep_ended now db db1 r else untouched db db1 m" if r: "get_turn db m = Some r" for m r
  proof (cases "lapsed now r")
    case True
    then show ?thesis using fold tbl_get_Some [OF r] by simp
  next
    case False
    have "m \<notin> turn_id ` set ?xs"
    proof
      assume "m \<in> turn_id ` set ?xs"
      then obtain x where "x \<in> set (turns db)" "lapsed now x" "m = turn_id x" by auto
      then show False using get_turn_row [OF ids, of x] r False by simp
    qed
    then show ?thesis using fold False by simp
  qed
  have "if lapsed now r then sweep_ended now db db' r
      else get_turn db' m = Some r \<and> rows_of db' m = rows_of db m \<and> finished_count db' m = finished_count db m"
    if r: "get_turn db m = Some r" for m r
  proof (cases "lapsed now r")
    case True
    then have "sweep_ended now db db1 r" using row [OF r] by simp
    then have "sweep_ended now db db' r" unfolding db' sweep_ended_def by (blast intro: ended_revoke_stale)
    then show ?thesis using True by simp
  next
    case False
    then show ?thesis using row [OF r] r by (simp add: db' untouched_def)
  qed
  moreover have "\<not> lapsed now t" if t: "t \<in> set (turns db')" for t
  proof -
    have ids1: "map turn_id (turns db1) = map turn_id (turns db)" using fold by blast
    then have "turn_id t \<in> turn_id ` set (turns db)" using t by (metis db' image_eqI list.set_map revoke_stale_frame(1))
    then obtain r where r: "r \<in> set (turns db)" "turn_id r = turn_id t" by auto
    then have "get_turn db (turn_id t) = Some r" using get_turn_row [OF ids r(1)] by simp
    moreover have "get_turn db1 (turn_id t) = Some t"
      using t ids ids1 by (intro get_turn_row) (simp_all add: db')
    moreover have "if lapsed now r then sweep_ended now db db1 r else untouched db db1 (turn_id t)"
      using row [of "turn_id t" r] calculation(1) .
    ultimately have "if lapsed now r then status t = sweep_status db (turn_id r) else t = r"
      using ended_status r(2) by (fastforce simp: untouched_def sweep_ended_def split: if_splits)
    then show ?thesis
      using terminal_not_executing [OF sweep_status_terminal] by (auto simp: lapsed_def split: if_splits)
  qed
  moreover have "tk_revoked_at k \<noteq> None \<or> tk_expires_at k \<le> now \<or> token_held db' k" if "k \<in> set (tokens db')" for k
    using revoke_stale_tokens(1) [of k now db1] that token_held_cong [of db' db1 k] unfolding db' by simp
  ultimately show ?thesis using count by blast
qed

text \<open>C21. The lease sweep closes exactly the turns whose lease ran out: it reports how many they were,
  ends each of them once (cancelled where a cancel had been asked for, lost otherwise), leaves the
  row, ledger and facts of every other turn as they were, and afterwards no running turn holds a
  lapsed lease and no live login outlives the work it was issued for.\<close>

theorem sweep_ends_exactly_the_lapsed:
  assumes ids: "turn_ids_ok db" and res: "sweep_expired_leases rd stamp now db = (count, db')"
  shows "count = length (filter (lapsed now) (turns db))
    \<and> (\<forall>m r. get_turn db m = Some r \<longrightarrow>
        (if lapsed now r then sweep_ended now db db' r
         else get_turn db' m = Some r \<and> rows_of db' m = rows_of db m \<and> finished_count db' m = finished_count db m))
    \<and> (\<forall>t\<in>set (turns db'). \<not> lapsed now t)
    \<and> (\<forall>k\<in>set (tokens db'). tk_revoked_at k \<noteq> None \<or> tk_expires_at k \<le> now \<or> token_held db' k)"
  by (rule sweep_ends_exactly_the_lapsed' [OF assms])

lemma sweep_ends_exactly_the_lapsed_witness:
  "fst (sweep_expired_leases blind_redactor (\<lambda>_. []) 11 sample_turns) = length (filter (lapsed 11) (turns sample_turns))"
proof -
  have "turn_ids_ok sample_turns" by (simp add: sample_turns_def plain_turn_def)
  then show ?thesis
    using sweep_ends_exactly_the_lapsed [of sample_turns blind_redactor "\<lambda>_. []" 11] by (metis prod.collapse)
qed

section \<open>Aborts, and the steps that end turns\<close>

abbreviation status_of :: "turndb \<Rightarrow> string \<Rightarrow> turn_status option" where
  "status_of db n \<equiv> map_option status (get_turn db n)"

text \<open>The steps that end turns or write their record.  Ids are primary keys; the callers of
  \<open>close_turn\<close> outside \<open>abort\<close> close running or queued turns only.\<close>

inductive turn_step :: "turndb \<Rightarrow> turndb \<Rightarrow> bool" where
  step_events: "turn_ids_ok db \<Longrightarrow> turn_step db (snd (append_events rd n es db))"
| step_transcript: "turn_ids_ok db \<Longrightarrow> turn_step db (snd (append_transcript n ls b db))"
| step_close: "turn_ids_ok db \<Longrightarrow> set (from_states opts) \<subseteq> set NON_TERMINAL
    \<Longrightarrow> turn_step db (snd (close_turn rd n st msg opts now db))"
| step_sweep: "turn_ids_ok db \<Longrightarrow> turn_step db (snd (sweep_expired_leases rd stamp now db))"
| step_abort: "turn_ids_ok db \<Longrightarrow> turn_step db (snd (abort rd n reason tool by' now db))"

inductive_cases turn_stepE [consumes 1, case_names flush batch close sweep abort]: "turn_step db db'"

lemma close_turn_status:
  assumes ids: "turn_ids_ok db" and m: "get_turn db m = Some r"
  shows "status_of (snd (close_turn rd n st msg opts now db)) m \<in> {Some (status r), Some st}
    \<and> (status_of (snd (close_turn rd n st msg opts now db)) m \<noteq> Some (status r) \<longrightarrow>
        (if m = n then status r \<in> set (from_states opts) else status r \<in> set EXECUTING))"
proof (cases "st \<in> set TERMINAL \<and> (\<exists>t. get_turn db n = Some t)")
  case False
  then show ?thesis using m by (auto simp: close_turn_def close_with_def split: option.splits)
next
  case True
  then obtain t where st: "st \<in> set TERMINAL" and t: "get_turn db n = Some t" by blast
  obtain b db' where res: "close_turn rd n st msg opts now db = (Inr b, db')"
    using close_with_guard [OF st t] unfolding close_turn_def by (metis prod.collapse)
  note whole = close_turn_ends_it_once' [OF ids t st res]
  show ?thesis
  proof (cases b)
    case False
    then show ?thesis using whole res m by simp
  next
    case b: True
    have idm: "turn_id r = m" and idn: "turn_id t = n" using tbl_get_Some [OF m] tbl_get_Some [OF t] by simp_all
    show ?thesis
    proof (cases "m = n")
      case True
      then have "status_of db' m = Some st" "r = t" using whole b m t ended_status idn by fastforce+
      then show ?thesis using whole b res True by (simp add: may_close_def)
    next
      case False
      then have "if with_riders opts \<and> is_rider n r then ended st (Some (rider_note n st)) (rider_opts n) now db db' r
          else untouched db db' m" using whole b m by simp
      then show ?thesis
        using ended_status [of st _ _ now db db' r] res m idm False
        by (auto simp: untouched_def is_rider_def split: if_splits)
    qed
  qed
qed

lemma abort_cases:
  assumes "abort rd n reason tool by' now db = (res, db')"
  obtains "res \<noteq> Inr ()" "db' = db" "status_of db n \<notin> Some ` ({Failed} \<union> set ABORTABLE)"
    | "res = Inr ()" "db' = db" "status_of db n = Some Failed"
    | t db1 where "get_turn db n = Some t" "status t \<in> set ABORTABLE" "status t \<noteq> Failed" "res = Inr ()"
        "close_turn rd n Failed (Some (abort_note reason tool))
           ((close_defaults ABORTABLE)\<lparr>event_extra := abort_event tool by'\<rparr>) now db = (Inr True, db1)"
        "turns db' = turns db1"
        "events db' = events (snd (append_events rd n [(''error'', [(''detail'', JStr (abort_note reason tool))])] db1))"
proof (cases "get_turn db n")
  case None
  then show ?thesis using assms by (intro that(1)) (auto simp: abort_def)
next
  case (Some t)
  let ?opts = "(close_defaults ABORTABLE)\<lparr>event_extra := abort_event tool by'\<rparr>"
  show ?thesis
  proof (cases "status t = Failed \<or> status t \<notin> set ABORTABLE")
    case True
    then show ?thesis
    proof (cases "status t = Failed")
      case True
      then show ?thesis using assms Some by (intro that(2)) (auto simp: abort_def)
    next
      case False
      then show ?thesis using assms Some \<open>status t = Failed \<or> status t \<notin> set ABORTABLE\<close>
        by (intro that(1)) (auto simp: abort_def)
    qed
  next
    case False
    have "may_close ?opts t" using False by (simp add: may_close_def close_defaults_def)
    moreover have "Failed \<in> set TERMINAL" by (simp add: TERMINAL_def)
    ultimately have ok: "fst (close_turn rd n Failed (Some (abort_note reason tool)) ?opts now db) = Inr True"
      using close_with_guard [OF _ Some] by (simp add: close_turn_def)
    define db1 where "db1 = snd (close_turn rd n Failed (Some (abort_note reason tool)) ?opts now db)"
    have closed: "close_turn rd n Failed (Some (abort_note reason tool)) ?opts now db = (Inr True, db1)"
      using ok by (simp add: db1_def prod_eq_iff)
    then show ?thesis
      using assms Some False by (intro that(3) [OF Some _ _ _ closed]) (auto simp: abort_def Let_def split: option.splits if_splits)
  qed
qed

lemma append_transcript_turns [simp]: "turns (snd (append_transcript n ls b db)) = turns db"
  by (simp add: append_transcript_def Let_def split: option.split)

text \<open>An abort is never silent and never rewrites history: it succeeds exactly on a turn that was
  running, done or already failed, after which the turn is failed; the first abort leaves a
  \<open>status\<close> and an \<open>error\<close> line on the turn's ledger; and a refused abort (the turn ended some
  other way) changes nothing.\<close>

theorem abort_fails_or_refuses:
  assumes ids: "turn_ids_ok db" and t: "get_turn db n = Some t" and kept: "content_purged_at t = None"
    and res: "abort rd n reason tool by' now db = (res, db')"
  shows "(is_ok res \<longleftrightarrow> status t \<in> set EXECUTING \<union> {Done, Failed})
    \<and> (is_ok res \<longrightarrow> status_of db' n = Some Failed)
    \<and> (is_ok res \<and> status t \<noteq> Failed \<longrightarrow>
        map ev_kind (rows_of db' n) = map ev_kind (rows_of db n) @ [''status'', ''error''])
    \<and> (\<not> is_ok res \<or> status t = Failed \<longrightarrow> db' = db)"
  using res
proof (cases rule: abort_cases)
  case 1
  then show ?thesis using t by (cases res) (auto simp: ABORTABLE_def)
next
  case 2
  then show ?thesis using t by simp
next
  case (3 t' db1)
  have t': "t' = t" and idn: "turn_id t = n" using 3(1) t tbl_get_Some [OF t] by simp_all
  have fin: "Failed \<in> set TERMINAL" by (simp add: TERMINAL_def)
  let ?opts = "(close_defaults ABORTABLE)\<lparr>event_extra := abort_event tool by'\<rparr>"
  have "ended Failed (Some (abort_note reason tool)) ?opts now db db1 t"
    using close_turn_ends_it_once' [OF ids t fin 3(5)] by simp
  then obtain line s where row: "get_turn db1 n = Some (close_fields s Failed (Some (abort_note reason tool)) ?opts now t)"
    and line: "rows_of db1 n = rows_of db n @ line" "length line = 1" "\<forall>e\<in>set line. ev_kind e = ''status''"
    using kept unfolding ended_def idn by (auto simp: close_defaults_def)
  obtain new where new: "rows_of db' n = rows_of db1 n @ new" "length new = 1" "\<forall>e\<in>set new. ev_kind e = ''error''"
    using append_events_rows [OF row, where rd = rd and es = "[(''error'', [(''detail'', JStr (abort_note reason tool))])]" and m = n]
      kept 3(7) by auto
  have "map ev_kind line = [''status'']" "map ev_kind new = [''error'']"
    using line(2,3) new(2,3) by (auto simp: length_Suc_conv)
  then have "map ev_kind (rows_of db' n) = map ev_kind (rows_of db n) @ [''status'', ''error'']"
    unfolding new(1) line(1) by simp
  moreover have "status_of db' n = Some Failed" using row 3(6) by simp
  moreover have "status t \<in> set EXECUTING \<union> {Done, Failed}" using 3(2) t' by (auto simp: ABORTABLE_def)
  ultimately show ?thesis using 3(3,4) t' by simp
qed

lemma abort_fails_or_refuses_witness:
  "status_of (snd (abort blind_redactor ''eeeeeeee-5'' ''no login'' ''drive'' '''' 5 sample_turns)) ''eeeeeeee-5'' = Some Failed"
proof -
  let ?res = "abort blind_redactor ''eeeeeeee-5'' ''no login'' ''drive'' '''' 5 sample_turns"
  have rows: "turn_ids_ok sample_turns" "get_turn sample_turns ''eeeeeeee-5'' = Some (plain_turn ''eeeeeeee-5'')"
    "content_purged_at (plain_turn ''eeeeeeee-5'') = None" by (simp_all add: sample_turns_def plain_turn_def)
  have "status (plain_turn ''eeeeeeee-5'') \<in> set EXECUTING \<union> {Done, Failed}" by (simp add: plain_turn_def EXECUTING_def)
  then show ?thesis
    using abort_fails_or_refuses [OF rows, of blind_redactor "''no login''" "''drive''" "''''" 5] by (metis prod.collapse)
qed

end
