(* ===== verification/Turn_Finish.thy ===== *)
theory Turn_Finish
  imports Turn_Close
begin

text \<open>
  The rest of a turn's life around its claim (\<open>apps/harness/services.py\<close>): \<open>mark_running\<close>,
  \<open>finish_turn\<close> with its two ways back to the queue, \<open>cancel_queued_turn\<close>, \<open>cancel_turn\<close> and
  \<open>stopped_by\<close>.  The caller's copy of a turn is its current row.  \<open>cancel_turn\<close> follows the turn a
  follow-up rides; the number of turns bounds that walk, and None is a walk that does not end.
\<close>

section \<open>Running and finishing\<close>

definition MAX_SESSIONLESS_RETRIES :: nat where "MAX_SESSIONLESS_RETRIES = 3"

definition MIDTURN_FAILED :: string where "MIDTURN_FAILED = ''midturn_failed''"

definition CLIS :: "string list" where "CLIS = [''claude-code'', ''codex'']"

definition pin_conversation :: "nat option list \<Rightarrow> string \<Rightarrow> turndb \<Rightarrow> turndb" where
  "pin_conversation session_ids cli db =
     (let ids = List.map_filter id session_ids in
      if ids \<noteq> [] \<and> cli \<in> set CLIS
      then db\<lparr>chats := tbl_update (\<lambda>c. ch_id c \<in> set ids \<and> ch_cli c = '''') (\<lambda>c. c\<lparr>ch_cli := cli\<rparr>) (chats db)\<rparr>
      else db)"

definition mark_running :: "redactor \<Rightarrow> string \<Rightarrow> string \<Rightarrow> instant \<Rightarrow> turndb \<Rightarrow> turndb" where
  "mark_running rd n sid now db =
     (case get_turn db n of None \<Rightarrow> db
      | Some t \<Rightarrow>
          let go = (\<lambda>r. turn_id r = n \<and> status r \<in> {Claimed, Running});
              (updated, ts) = tbl_cas go (\<lambda>r. r\<lparr> status := Running,
                 started_at := (if started_at t = None then Some now else started_at r),
                 session_id := (if sid \<noteq> '''' then sid else session_id r) \<rparr>) (turns db)
          in if updated = 0 then db
             else snd (append_events rd n [(''status'', [(''status'', JStr (status_name Running))])]
                (db\<lparr>turns := ts\<rparr>)))"

text \<open>Back to the queue: what the row loses, and the two cases.\<close>

definition unclaim :: "string \<Rightarrow> turn \<Rightarrow> turn" where
  "unclaim msg t = t\<lparr> status := Queued, claimed_by := None, claimed_at := None, lease_expires_at := None,
     started_at := None, result_note := msg, t_cli := '''' \<rparr>"

definition sessionless :: "string \<Rightarrow> turn \<Rightarrow> bool" where
  "sessionless n r \<longleftrightarrow> turn_id r = n \<and> status r \<in> {Claimed, Running} \<and> session_key r = ''''"

definition rider_waits :: "string \<Rightarrow> turn \<Rightarrow> turn \<Rightarrow> turn" where
  "rider_waits msg t r = (unclaim msg r)\<lparr> rides_turn := None,
     origin_ref := dict_merge (origin_ref t) [(MIDTURN_FAILED, JBool True)] \<rparr>"

definition retry_later :: "string \<Rightarrow> turn \<Rightarrow> turn" where
  "retry_later msg r = (unclaim msg r)\<lparr> attempts := attempts r + 1 \<rparr>"

definition is_bounced_rider :: "turn_status \<Rightarrow> turn \<Rightarrow> bool" where
  "is_bounced_rider st t \<longleftrightarrow> st = Failed \<and> rides_turn t \<noteq> None \<and> session_key t = ''''"

definition has_drill :: "turndb \<Rightarrow> string \<Rightarrow> bool" where
  "has_drill db n \<longleftrightarrow> (\<exists>d\<in>set (drills db). dr_turn d = Some n)"

definition is_non_attempt :: "turndb \<Rightarrow> turn_status \<Rightarrow> turn \<Rightarrow> bool" where
  "is_non_attempt db st t \<longleftrightarrow> st = Failed \<and> job t = '''' \<and> session_key t = ''''
     \<and> attempts t < MAX_SESSIONLESS_RETRIES \<and> \<not> has_drill db (turn_id t)"

definition waiting_line :: "string \<Rightarrow> string \<times> payload" where
  "waiting_line msg = (''status'', [(''status'', JStr (status_name Queued)), (''midturn_failed'', JBool True),
     (''detail'', JStr msg)])"

definition requeued_line :: "string \<Rightarrow> nat \<Rightarrow> string \<times> payload" where
  "requeued_line msg k = (''status'', [(''status'', JStr (status_name Queued)),
     (''requeued_after'', JStr (status_name Failed)), (''attempt'', JNum (int k)), (''detail'', JStr msg)])"

text \<open>\<open>.lstrip\<close> of blanks and dashes; a dash is three bytes.\<close>

function lstrip_dash :: "string \<Rightarrow> string" where
  "lstrip_dash s = (if s \<noteq> [] \<and> hd s = CHR '' '' then lstrip_dash (tl s)
     else if prefix [CHR 0xE2, CHR 0x80, CHR 0x94] s then lstrip_dash (drop 3 s)
     else s)"
  by pat_completeness auto
termination by (relation "measure length") (auto simp: prefix_def)

declare lstrip_dash.simps [simp del]

definition stop_ignored :: "turndb \<Rightarrow> turn_status \<Rightarrow> string \<Rightarrow> bool" where
  "stop_ignored db st n \<longleftrightarrow> st = Done \<and> (\<exists>e\<in>set (events db). ev_turn e = n \<and> ev_kind e = ''cancel_requested'')"

definition stop_note :: "string \<Rightarrow> string" where
  "stop_note msg = lstrip_dash (msg @ dash @ ''NOTE: you asked to stop this turn and it ran to completion ''
     @ ''anyway; the cancel never reached the runner'')"

definition drill_summary :: "bool \<Rightarrow> turn_status \<Rightarrow> string \<Rightarrow> string option" where
  "drill_summary ignored st msg =
     (if st = Done \<and> \<not> ignored
      then Some (''drill turn finished without reporting''
        @ (if msg \<noteq> '''' then dash @ ''the agent said: '' @ take 1500 msg else ''''))
      else if ignored then Some ''drill turn completed after a cancel that never landed''
      else if st = Cancelled then Some ''drill turn cancelled''
      else if st = Failed then Some (if msg \<noteq> '''' then msg else ''drill turn failed'')
      else None)"

definition finish_opts :: "bool \<Rightarrow> string option \<Rightarrow> close_opts" where
  "finish_opts allow_queued summary =
     (close_defaults (EXECUTING @ (if allow_queued then [Queued] else [])))\<lparr> drill_note := summary \<rparr>"

definition FINISH_STATUSES :: "turn_status list" where
  "FINISH_STATUSES = [Done, Failed, Missed, Cancelled]"

datatype finish_error = BadFinishStatus | FinishNoTurn

definition finish_for_good :: "redactor \<Rightarrow> turn \<Rightarrow> turn_status \<Rightarrow> string \<Rightarrow> bool \<Rightarrow> instant \<Rightarrow> turndb \<Rightarrow> turndb" where
  "finish_for_good rd t st msg allow_queued now db =
     (let n = turn_id t;
          ignored = stop_ignored db st n;
          msg = (if ignored then stop_note msg else msg);
          db = (if st = Done \<and> t_cli t \<noteq> '''' then pin_conversation [chat_session t, canopy_session t] (t_cli t) db else db)
      in case close_turn rd n st (Some msg) (finish_opts allow_queued (drill_summary ignored st msg)) now db of
           (Inr True, db') \<Rightarrow>
             (if ignored
              then snd (append_events rd n [(''error'', [(''detail'',
                     JStr (''your stop never reached the runner'' @ dash @ ''this turn ran to completion''))])] db')
              else db')
         | (_, db') \<Rightarrow> db')"

definition finish_turn :: "redactor \<Rightarrow> string \<Rightarrow> turn_status \<Rightarrow> string \<Rightarrow> bool \<Rightarrow> instant \<Rightarrow> turndb
    \<Rightarrow> (finish_error + unit) \<times> turndb" where
  "finish_turn rd n st result allow_queued now db =
     (if st \<notin> set FINISH_STATUSES then (Inl BadFinishStatus, db)
      else case get_turn db n of None \<Rightarrow> (Inl FinishNoTurn, db)
      | Some t \<Rightarrow>
          let db0 = revoke_for_turn n now db;
              msg = (if is_sensitive db0 t then withheld_note result else result);
              (waiting, wts) = (if is_bounced_rider st t
                 then tbl_cas (sessionless n) (rider_waits msg t) (turns db0) else (0, turns db0))
          in if waiting \<noteq> 0 then (Inr (), snd (append_events rd n [waiting_line msg] (db0\<lparr>turns := wts\<rparr>)))
             else
               let (requeued, rts) = (if is_non_attempt db0 st t
                     then tbl_cas (sessionless n) (retry_later msg) (turns db0) else (0, turns db0))
               in if requeued \<noteq> 0
                  then (Inr (), snd (append_events rd n [requeued_line msg (attempts t + 1)]
                          (close_riders rd n Failed now (db0\<lparr>turns := rts\<rparr>))))
                  else (Inr (), finish_for_good rd t st msg allow_queued now db0))"


section \<open>Stopping\<close>

definition cancel_queued_turn :: "redactor \<Rightarrow> string \<Rightarrow> instant \<Rightarrow> turndb \<Rightarrow> bool \<times> turndb" where
  "cancel_queued_turn rd n now db =
     (case get_turn db n of None \<Rightarrow> (False, db)
      | Some t \<Rightarrow> if status t \<noteq> Queued then (False, db)
          else (True, snd (finish_turn rd n Cancelled ''cancelled'' True now db)))"

definition who_stopped :: "string \<Rightarrow> payload" where
  "who_stopped by' = (if by' \<noteq> '''' then [(''by'', JStr by')] else [])"

definition cancel_opts :: "string \<Rightarrow> close_opts" where
  "cancel_opts by' = (close_defaults [Queued])\<lparr> event_extra := who_stopped by',
     drill_note := Some ''drill turn cancelled'' \<rparr>"

definition request_cancel :: "redactor \<Rightarrow> string \<Rightarrow> turn \<Rightarrow> turndb \<Rightarrow> turndb" where
  "request_cancel rd by' t db =
     (let db = snd (append_events rd (turn_id t) [(''cancel_requested'', who_stopped by')] db)
      in case claimed_by t of None \<Rightarrow> db | Some r \<Rightarrow> emit (CancelOnRunner r (turn_id t)) db)"

definition executing_holder :: "turndb \<Rightarrow> turn \<Rightarrow> turn option" where
  "executing_holder db t = (case rides_turn t of None \<Rightarrow> None
     | Some h \<Rightarrow> (case get_turn db h of None \<Rightarrow> None
         | Some x \<Rightarrow> if status x \<in> set EXECUTING then Some x else None))"

primrec cancel_walk :: "nat \<Rightarrow> redactor \<Rightarrow> string \<Rightarrow> string \<Rightarrow> instant \<Rightarrow> turndb \<Rightarrow> (bool \<times> turndb) option" where
  "cancel_walk 0 rd n by' now db = None"
| "cancel_walk (Suc k) rd n by' now db =
     (case get_turn db n of
        None \<Rightarrow> Some (False, db)
      | Some t0 \<Rightarrow>
          let (closed, db) = (if status t0 = Queued
                then close_turn rd n Cancelled (Some ''cancelled'') (cancel_opts by') now db else (Inr False, db))
          in if closed = Inr True then Some (True, db)
             else (case get_turn db n of
                 None \<Rightarrow> Some (False, db)
               | Some t \<Rightarrow>
                   if status t \<notin> set EXECUTING then Some (False, db)
                   else (case executing_holder db t of
                       Some h \<Rightarrow> map_option (\<lambda>r. (True, snd r)) (cancel_walk k rd (turn_id h) by' now db)
                     | None \<Rightarrow> Some (True, request_cancel rd by' t db))))"

definition cancel_turn :: "redactor \<Rightarrow> string \<Rightarrow> string \<Rightarrow> instant \<Rightarrow> turndb \<Rightarrow> (bool \<times> turndb) option" where
  "cancel_turn rd n by' now db = cancel_walk (Suc (length (turns db))) rd n by' now db"

text \<open>\<open>str\<close> of the recorded name; every writer records text.\<close>

fun find_by :: "turn_event list \<Rightarrow> string" where
  "find_by [] = ''''"
| "find_by (e # es) = (case map_of (ev_payload e) ''by'' of
     Some (JStr by') \<Rightarrow> if by' \<noteq> '''' then by' else find_by es
   | _ \<Rightarrow> find_by es)"

definition stopped_by :: "turndb \<Rightarrow> string \<Rightarrow> string" where
  "stopped_by db n = find_by (rev (sort_key ev_seq
     (filter (\<lambda>e. ev_turn e = n \<and> ev_kind e \<in> {''cancel_requested'', ''status''}) (events db))))"

section \<open>The three ways a finish goes\<close>

lemma filter_key:
  "distinct (map key ts) \<Longrightarrow> tbl_get key k ts = Some r \<Longrightarrow>
    filter (\<lambda>x. key x = k \<and> P x) ts = (if P r then [r] else [])"
proof (induction ts)
  case (Cons x xs)
  show ?case
  proof (cases "key x = k")
    case True
    then have "filter (\<lambda>x. key x = k \<and> P x) xs = []"
      using Cons.prems(1) by (auto simp: filter_empty_conv) (metis imageI)
    then show ?thesis using Cons.prems(2) True by simp
  next
    case False
    then show ?thesis using Cons by simp
  qed
qed simp

lemma sessionless_count:
  assumes "turn_ids_ok db" and "get_turn db n = Some t"
  shows "fst (tbl_cas (sessionless n) f (turns db)) = (if sessionless n t then 1 else 0)"
proof -
  have "filter (\<lambda>x. turn_id x = n \<and> status x \<in> {Claimed, Running} \<and> session_key x = '''') (turns db)
      = (if status t \<in> {Claimed, Running} \<and> session_key t = '''' then [t] else [])"
    by (rule filter_key [OF assms])
  then show ?thesis using tbl_get_Some [OF assms(2)] by (simp add: tbl_cas_def sessionless_def [abs_def])
qed

definition back_to_queue :: "redactor \<Rightarrow> string \<times> payload \<Rightarrow> (turn \<Rightarrow> turn) \<Rightarrow> string \<Rightarrow> turndb \<Rightarrow> turndb" where
  "back_to_queue rd line f n db =
     snd (append_events rd n [line] (db\<lparr>turns := tbl_update (sessionless n) f (turns db)\<rparr>))"

definition stored_result :: "turndb \<Rightarrow> turn \<Rightarrow> string \<Rightarrow> string" where
  "stored_result db t result = (if is_sensitive db t then withheld_note result else result)"

lemma revoke_sensitive [simp]: "is_sensitive (revoke_for_turn n now db) t = is_sensitive db t"
  by (rule is_sensitive_cong) simp_all

lemma revoke_drills [simp]: "drills (revoke_for_turn n now db) = drills db" "effects (revoke_for_turn n now db) = effects db"
  by (simp_all add: revoke_for_turn_def)

lemma is_non_attempt_revoke [simp]: "is_non_attempt (revoke_for_turn n now db) st t = is_non_attempt db st t"
  by (simp add: is_non_attempt_def has_drill_def)

lemma finish_turn_eq:
  assumes ids: "turn_ids_ok db" and t: "get_turn db n = Some t" and st: "st \<in> set FINISH_STATUSES"
  shows "finish_turn rd n st result q now db = (Inr (),
    (let db0 = revoke_for_turn n now db; msg = stored_result db t result in
     if is_bounced_rider st t \<and> sessionless n t
     then back_to_queue rd (waiting_line msg) (rider_waits msg t) n db0
     else if is_non_attempt db st t \<and> sessionless n t
     then snd (append_events rd n [requeued_line msg (attempts t + 1)]
            (close_riders rd n Failed now (db0\<lparr>turns := tbl_update (sessionless n) (retry_later msg) (turns db0)\<rparr>)))
     else finish_for_good rd t st msg q now db0))"
proof -
  have t0: "get_turn (revoke_for_turn n now db) n = Some t" and ids0: "turn_ids_ok (revoke_for_turn n now db)"
    using t ids by simp_all
  have cas: "tbl_cas (sessionless n) f (turns (revoke_for_turn n now db))
      = (if sessionless n t then 1 else 0, tbl_update (sessionless n) f (turns (revoke_for_turn n now db)))" for f
    using sessionless_count [OF ids0 t0, of f] by (simp add: tbl_cas_def)
  show ?thesis
    using st unfolding finish_turn_def t
    by (simp add: cas Let_def stored_result_def back_to_queue_def del: revoke_for_turn_frame)
qed

lemma unclaim_simps [simp]:
  "turn_id (unclaim msg t) = turn_id t" "status (unclaim msg t) = Queued" "claimed_by (unclaim msg t) = None"
  "attempts (unclaim msg t) = attempts t" "rides_turn (unclaim msg t) = rides_turn t"
  "prompt (unclaim msg t) = prompt t" "content_purged_at (unclaim msg t) = content_purged_at t"
  "session_key (unclaim msg t) = session_key t" "job (unclaim msg t) = job t"
  by (simp_all add: unclaim_def)

lemma tbl_get_sessionless:
  assumes t: "tbl_get turn_id n ts = Some t" and s: "sessionless n t" and f: "\<And>r. turn_id (f r) = turn_id r"
  shows "tbl_get turn_id m (tbl_update (sessionless n) f ts) = (if m = n then Some (f t) else tbl_get turn_id m ts)"
proof -
  have get: "tbl_get turn_id m (tbl_update (sessionless n) f ts)
      = map_option (\<lambda>r. if sessionless n r then f r else r) (tbl_get turn_id m ts)" for m
    by (rule tbl_get_tbl_update) (rule f)
  show ?thesis
  proof (cases "m = n")
    case True
    then show ?thesis using get t s by simp
  next
    case False
    then have "\<not> sessionless n r" if "tbl_get turn_id m ts = Some r" for r
      using tbl_get_Some [OF that] by (simp add: sessionless_def)
    then show ?thesis using False get by (cases "tbl_get turn_id m ts") auto
  qed
qed

text \<open>One event on a turn's ledger: nothing else changes.\<close>

lemma append_one:
  assumes "get_turn db n = Some t"
  shows "finished_count (snd (append_events rd n [e] db)) m = finished_count db m"
    and "m \<noteq> n \<Longrightarrow> rows_of (snd (append_events rd n [e] db)) m = rows_of db m"
    and "m \<noteq> n \<Longrightarrow> untouched db (snd (append_events rd n [e] db)) m"
proof -
  show rows: "m \<noteq> n \<Longrightarrow> rows_of (snd (append_events rd n [e] db)) m = rows_of db m"
    using append_events_rows [OF assms, where rd = rd and es = "[e]" and m = m] by auto
  show "m \<noteq> n \<Longrightarrow> untouched db (snd (append_events rd n [e] db)) m"
    unfolding untouched_def using rows by simp
qed simp

lemma revoke_untouched: "m \<noteq> n \<Longrightarrow> untouched db (revoke_for_turn n now db) m"
  by (simp add: untouched_def revoke_for_turn_tokens)

lemma revoked_tokens: "\<forall>k\<in>set (tokens_of (revoke_for_turn n now db) n). tk_session k = None \<longrightarrow> tk_revoked_at k \<noteq> None"
  by (auto simp: revoke_for_turn_tokens)

lemma pin_frame [simp]:
  "turns (pin_conversation cs c db) = turns db" "events (pin_conversation cs c db) = events db"
  "tokens (pin_conversation cs c db) = tokens db" "drills (pin_conversation cs c db) = drills db"
  "effects (pin_conversation cs c db) = effects db" "transcripts (pin_conversation cs c db) = transcripts db"
  by (simp_all add: pin_conversation_def Let_def)

lemma finished_count_pin [simp]: "finished_count (pin_conversation cs c db) m = finished_count db m"
  by (simp add: finished_count_def)

text \<open>What a finish leaves: the row of \<open>n\<close>, how many times it ended, the status its running follow-ups
  ended in (None when they were left alone), and every other turn.\<close>

definition settles :: "turndb \<Rightarrow> turndb \<Rightarrow> string \<Rightarrow> turn option \<Rightarrow> nat \<Rightarrow> turn_status option \<Rightarrow> bool" where
  "settles db db' n row k riders \<longleftrightarrow> get_turn db' n = row \<and> finished_count db' n = finished_count db n + k
     \<and> (\<forall>j\<in>set (tokens_of db' n). tk_session j = None \<longrightarrow> tk_revoked_at j \<noteq> None)
     \<and> (\<forall>m r. m \<noteq> n \<longrightarrow> get_turn db m = Some r \<longrightarrow>
          (if is_rider n r \<and> riders \<noteq> None then status_of db' m = riders else untouched db db' m))
     \<and> map turn_id (turns db') = map turn_id (turns db)"

lemma settles_wait:
  assumes ids: "turn_ids_ok db" and t: "get_turn db n = Some t" and s: "sessionless n t"
  shows "settles db (back_to_queue rd line (rider_waits msg t) n (revoke_for_turn n now db)) n (Some (rider_waits msg t t)) 0 None"
proof -
  let ?a = "revoke_for_turn n now db"
  let ?b = "?a\<lparr>turns := tbl_update (sessionless n) (rider_waits msg t) (turns ?a)\<rparr>"
  have get: "get_turn ?b m = (if m = n then Some (rider_waits msg t t) else get_turn db m)" for m
    using tbl_get_sessionless [OF t s, of "rider_waits msg t" m] by (simp add: rider_waits_def)
  have row: "get_turn ?b n = Some (rider_waits msg t t)" using get by simp
  have "m \<noteq> n \<Longrightarrow> untouched db ?b m" for m
    using revoke_untouched [of m n db now] get [of m] by (simp add: untouched_def)
  moreover have "map turn_id (turns ?b) = map turn_id (turns db)"
    by (simp add: rider_waits_def map_tbl_update)
  ultimately show ?thesis
    unfolding settles_def back_to_queue_def
    using append_one [OF row, where rd = rd and e = line] untouched_trans row revoked_tokens [of n now db]
    by simp blast
qed

lemma settles_retry:
  assumes ids: "turn_ids_ok db" and t: "get_turn db n = Some t" and s: "sessionless n t"
    and db': "db' = snd (append_events rd n [line] (close_riders rd n Failed now
        ((revoke_for_turn n now db)\<lparr>turns := tbl_update (sessionless n) (retry_later msg) (turns (revoke_for_turn n now db))\<rparr>)))"
  shows "settles db db' n (Some (retry_later msg t)) 0 (Some Failed)"
proof -
  let ?a = "revoke_for_turn n now db"
  let ?b = "?a\<lparr>turns := tbl_update (sessionless n) (retry_later msg) (turns ?a)\<rparr>"
  let ?c = "close_riders rd n Failed now ?b"
  have get: "get_turn ?b m = (if m = n then Some (retry_later msg t) else get_turn db m)" for m
    using tbl_get_sessionless [OF t s, of "retry_later msg" m] by (simp add: retry_later_def)
  have b: "m \<noteq> n \<Longrightarrow> untouched db ?b m" for m
    using revoke_untouched [of m n db now] get [of m] by (simp add: untouched_def)
  have ids_b: "map turn_id (turns ?b) = map turn_id (turns db)"
    by (simp add: retry_later_def map_tbl_update)
  have failed: "Failed \<in> set TERMINAL" by (simp add: TERMINAL_def)
  have okb: "turn_ids_ok ?b" using ids ids_b by simp
  note riders = close_riders_effect [OF failed okb, where rd = rd and n = n and now = now]
  have "\<not> is_rider n (retry_later msg t)" by (simp add: is_rider_def retry_later_def EXECUTING_def)
  then have self: "untouched ?b ?c n" using riders(2) [of n] get [of n] by simp
  then have row: "get_turn ?c n = Some (retry_later msg t)" using get [of n] by (simp add: untouched_def)
  have c: "if is_rider n r then status_of ?c m = Some Failed else untouched db ?c m"
    if "m \<noteq> n" "get_turn db m = Some r" for m r
    using untouched_trans [OF b [OF that(1)] riders(2) [of m]] riders(1) [of m r, THEN ended_status]
      tbl_get_Some [OF that(2)] that get [of m] by auto
  have tok: "tokens_of ?c n = tokens_of ?a n" and cnt: "finished_count ?c n = finished_count db n"
    using self by (simp_all add: untouched_def)
  have "\<forall>j\<in>set (tokens_of db' n). tk_session j = None \<longrightarrow> tk_revoked_at j \<noteq> None"
    using revoked_tokens [of n now db] tok unfolding db' by simp
  moreover have "if is_rider n r then status_of db' m = Some Failed else untouched db db' m"
    if "m \<noteq> n" "get_turn db m = Some r" for m r
    unfolding db' using c [OF that] untouched_trans [OF _ append_one(3) [OF row that(1)]]
    by (simp del: revoke_for_turn_frame)
  moreover have "map turn_id (turns db') = map turn_id (turns db)" unfolding db' using riders(3) ids_b by simp
  moreover have "get_turn db' n = Some (retry_later msg t)" "finished_count db' n = finished_count db n"
    using row cnt by (simp_all add: db')
  ultimately show ?thesis unfolding settles_def by simp
qed

lemma finish_may_close: "may_close (finish_opts q summary) t \<longleftrightarrow> status t \<in> set EXECUTING \<or> (q \<and> status t = Queued)"
  by (auto simp: may_close_def finish_opts_def close_defaults_def)

lemma finish_statuses_end: "st \<in> set FINISH_STATUSES \<Longrightarrow> st \<in> set TERMINAL"
  by (auto simp: FINISH_STATUSES_def TERMINAL_def)

lemma finish_opts_riders [simp]: "with_riders (finish_opts q summary)"
  by (simp add: finish_opts_def close_defaults_def)

lemma settles_for_good:
  assumes ids: "turn_ids_ok db" and t: "get_turn db n = Some t" and st: "st \<in> set FINISH_STATUSES"
    and db': "db' = finish_for_good rd t st msg q now (revoke_for_turn n now db)"
  shows "if status t \<in> set EXECUTING \<or> (q \<and> status t = Queued)
     then \<exists>t'. settles db db' n (Some t') 1 (Some st) \<and> status t' = st \<and> finished_at t' = Some now
     else settles db db' n (Some t) 0 None"
proof -
  have n: "turn_id t = n" using tbl_get_Some [OF t] by simp
  define a where "a = (if st = Done \<and> t_cli t \<noteq> '''' then pin_conversation [chat_session t, canopy_session t] (t_cli t)
      (revoke_for_turn n now db) else revoke_for_turn n now db)"
  have frame: "turns a = turns db" "events a = events db" "finished_count a m = finished_count db m"
    "tokens_of a m = tokens_of (revoke_for_turn n now db) m" for m
    by (simp_all add: a_def)
  have a: "m \<noteq> n \<Longrightarrow> untouched db a m" for m
    unfolding untouched_def frame by (simp add: revoke_for_turn_tokens)
  define ignored where "ignored = stop_ignored (revoke_for_turn n now db) st n"
  define note' where "note' = (if ignored then stop_note msg else msg)"
  define opts where "opts = finish_opts q (drill_summary ignored st note')"
  have idsa: "turn_ids_ok a" and ta: "get_turn a n = Some t" using ids t by (simp_all add: frame)
  have end': "st \<in> set TERMINAL" by (rule finish_statuses_end [OF st])
  obtain b c where res: "close_turn rd n st (Some note') opts now a = (Inr b, c)"
    using close_with_guard [OF end' ta] unfolding close_turn_def by (metis prod.collapse)
  have whole: "db' = (if b \<and> ignored then snd (append_events rd n [(''error'', [(''detail'',
        JStr (''your stop never reached the runner'' @ dash @ ''this turn ran to completion''))])] c) else c)"
    using res unfolding db' finish_for_good_def Let_def n a_def [symmetric] ignored_def [symmetric]
      note'_def [symmetric] opts_def [symmetric] by (simp split: bool.split)
  note one = close_turn_ends_it_once' [OF idsa ta end' res]
  have b: "b \<longleftrightarrow> status t \<in> set EXECUTING \<or> (q \<and> status t = Queued)"
    using one unfolding opts_def finish_may_close by simp
  show ?thesis
  proof (cases b)
    case False
    then have "db' = a" using one whole by simp
    then have "settles db db' n (Some t) 0 None"
      unfolding settles_def using a ta revoked_tokens [of n now db] by (simp add: frame)
    then show ?thesis using False b by auto
  next
    case True
    then have ended: "ended st (Some note') opts now a c t"
      and rest: "\<And>m r. m \<noteq> n \<Longrightarrow> get_turn a m = Some r \<Longrightarrow>
        if is_rider n r then status_of c m = Some st else untouched a c m"
      using one ended_status tbl_get_Some by (auto simp: opts_def) fastforce+
    have idc: "map turn_id (turns c) = map turn_id (turns db)" using one frame by simp
    then obtain s where row: "get_turn c n = Some (close_fields s st (Some note') opts now t)"
      using ended n by (auto simp: ended_def)
    have "if is_rider n r then status_of db' m = Some st else untouched db db' m"
      if "m \<noteq> n" "get_turn db m = Some r" for m r
      using rest [of m r] append_one(3) [OF row that(1)] untouched_trans a [OF that(1)] that
      unfolding whole by (auto simp: frame)
    moreover have "get_turn db' n = Some (close_fields s st (Some note') opts now t)" using row whole by simp
    moreover have "finished_count db' n = finished_count db n + 1" "tokens_of db' n = tokens_of c n"
      using ended n whole by (simp_all add: ended_def frame)
    moreover have "map turn_id (turns db') = map turn_id (turns db)" using idc whole by simp
    moreover have "\<forall>j\<in>set (tokens_of c n). tk_session j = None \<longrightarrow> tk_revoked_at j \<noteq> None"
      using ended n unfolding ended_def by blast
    ultimately have "settles db db' n (Some (close_fields s st (Some note') opts now t)) 1 (Some st)"
      unfolding settles_def by simp
    then show ?thesis using True b by (auto simp: close_fields_def)
  qed
qed

definition goes_back :: "turndb \<Rightarrow> turn_status \<Rightarrow> turn \<Rightarrow> bool" where
  "goes_back db st t \<longleftrightarrow> st = Failed \<and> status t \<in> {Claimed, Running} \<and> session_key t = ''''
     \<and> (rides_turn t \<noteq> None \<or> (job t = '''' \<and> attempts t < MAX_SESSIONLESS_RETRIES \<and> \<not> has_drill db (turn_id t)))"

text \<open>What a turn that went back to the queue kept and lost.\<close>

definition queued_again :: "turn \<Rightarrow> turn \<Rightarrow> bool" where
  "queued_again t t' \<longleftrightarrow> status t' = Queued \<and> claimed_by t' = None \<and> lease_expires_at t' = None
     \<and> prompt t' = prompt t \<and> idempotency_key t' = idempotency_key t
     \<and> (if rides_turn t = None then attempts t' = attempts t + 1 \<and> origin_ref t' = origin_ref t
        else attempts t' = attempts t \<and> rides_turn t' = None
          \<and> map_of (origin_ref t') MIDTURN_FAILED = Some (JBool True))"

lemma queued_again_wait: "rides_turn t \<noteq> None \<Longrightarrow> queued_again t (rider_waits msg t t)"
  by (simp add: queued_again_def rider_waits_def unclaim_def map_of_dict_merge)

lemma queued_again_retry: "rides_turn t = None \<Longrightarrow> queued_again t (retry_later msg t)"
  by (simp add: queued_again_def retry_later_def unclaim_def)

lemma finish_turn_settles:
  assumes ids: "turn_ids_ok db" and t: "get_turn db n = Some t" and st: "st \<in> set FINISH_STATUSES"
    and res: "finish_turn rd n st result q now db = (r, db')"
  shows "r = Inr () \<and>
    (if goes_back db st t then \<exists>t'. settles db db' n (Some t') 0 (if rides_turn t = None then Some Failed else None) \<and> queued_again t t'
     else if status t \<in> set EXECUTING \<or> (q \<and> status t = Queued)
     then \<exists>t'. settles db db' n (Some t') 1 (Some st) \<and> status t' = st \<and> finished_at t' = Some now
     else settles db db' n (Some t) 0 None)"
proof -
  have n: "turn_id t = n" using tbl_get_Some [OF t] by simp
  let ?msg = "stored_result db t result" and ?a = "revoke_for_turn n now db"
  note eq = finish_turn_eq [OF ids t st, of rd result q now, unfolded res Let_def]
  have goes: "goes_back db st t \<longleftrightarrow> (is_bounced_rider st t \<or> is_non_attempt db st t) \<and> sessionless n t"
    using n by (auto simp: goes_back_def is_bounced_rider_def is_non_attempt_def sessionless_def)
  show ?thesis
  proof (cases "is_bounced_rider st t \<and> sessionless n t")
    case True
    then have rides: "rides_turn t \<noteq> None" and s: "sessionless n t" by (simp_all add: is_bounced_rider_def)
    have "db' = back_to_queue rd (waiting_line ?msg) (rider_waits ?msg t) n ?a" "r = Inr ()" using eq True by simp_all
    then have "settles db db' n (Some (rider_waits ?msg t t)) 0 None" using settles_wait [OF ids t s] by simp
    then show ?thesis using queued_again_wait [OF rides] goes True rides \<open>r = Inr ()\<close> by auto
  next
    case no_rider: False
    show ?thesis
    proof (cases "is_non_attempt db st t \<and> sessionless n t")
      case True
      then have rides: "rides_turn t = None" and s: "sessionless n t"
        using no_rider by (auto simp: is_bounced_rider_def is_non_attempt_def)
      have "db' = snd (append_events rd n [requeued_line ?msg (attempts t + 1)] (close_riders rd n Failed now
          (?a\<lparr>turns := tbl_update (sessionless n) (retry_later ?msg) (turns ?a)\<rparr>)))" "r = Inr ()"
        using eq True no_rider by auto
      from settles_retry [OF ids t s this(1)] show ?thesis
        using queued_again_retry [OF rides] goes True rides \<open>r = Inr ()\<close> by auto
    next
      case False
      have "db' = finish_for_good rd t st ?msg q now ?a" "r = Inr ()" using eq False no_rider by auto
      then show ?thesis
        using settles_for_good [OF ids t st, where rd = rd and msg = ?msg and q = q and now = now] goes False no_rider
        by auto
    qed
  qed
qed

text \<open>C11. What a runner's report of a turn's end does.  A failure that names no session goes back to the
  queue with its prompt, unclaimed: a follow-up marked so that it never rides again, any other turn
  counted as one more attempt, unless it is a job, a drill or out of attempts.  Every other report ends
  an executing turn (a queued one too, for a caller who may) in exactly the reported status, even when a
  stop was asked for, and leaves a turn that already ended as it is.  In each case the logins issued
  for the turn are revoked; running follow-ups delivered into it end with it (as failed when it goes
  back to the queue); and every other turn is untouched.\<close>

theorem finish_turn_requeues_or_ends:
  assumes "turn_ids_ok db" and "get_turn db n = Some t" and "st \<in> set FINISH_STATUSES"
    and "finish_turn rd n st result q now db = (r, db')"
  shows "r = Inr () \<and>
    (if goes_back db st t then \<exists>t'. settles db db' n (Some t') 0 (if rides_turn t = None then Some Failed else None) \<and> queued_again t t'
     else if status t \<in> set EXECUTING \<or> (q \<and> status t = Queued)
     then \<exists>t'. settles db db' n (Some t') 1 (Some st) \<and> status t' = st \<and> finished_at t' = Some now
     else settles db db' n (Some t) 0 None)"
  by (rule finish_turn_settles [OF assms])

lemma finish_turn_requeues_or_ends_witness:
  "status_of (snd (finish_turn blind_redactor ''eeeeeeee-5'' Failed ''no emdash'' False 5 sample_turns)) ''eeeeeeee-5'' = Some Queued
   \<and> status_of (snd (finish_turn blind_redactor ''eeeeeeee-5'' Done '''' False 5 sample_turns)) ''eeeeeeee-5'' = Some Done"
proof -
  let ?t = "plain_turn ''eeeeeeee-5''"
  have rows: "turn_ids_ok sample_turns" "get_turn sample_turns ''eeeeeeee-5'' = Some ?t"
    by (simp_all add: sample_turns_def plain_turn_def)
  have goes: "goes_back sample_turns Failed ?t" "\<not> goes_back sample_turns Done ?t" "status ?t \<in> set EXECUTING"
    by (simp_all add: goes_back_def plain_turn_def MAX_SESSIONLESS_RETRIES_def has_drill_def sample_turns_def EXECUTING_def)
  have sts: "Failed \<in> set FINISH_STATUSES" "Done \<in> set FINISH_STATUSES" by (simp_all add: FINISH_STATUSES_def)
  show ?thesis
    using finish_turn_requeues_or_ends [OF rows sts(1), of blind_redactor "''no emdash''" False 5, OF prod.collapse [symmetric]]
      finish_turn_requeues_or_ends [OF rows sts(2), of blind_redactor "''''" False 5, OF prod.collapse [symmetric]] goes
    by (auto simp: settles_def queued_again_def)
qed

text \<open>What happens to the row of \<open>n\<close> over time.  \<open>k\<close> counts by outcome: a report of the end of \<open>n\<close> found it
  executing, delivered on its own, and left it queued.  Any other operation may do anything to the tables
  except remove the row or lower its attempts.\<close>

inductive sent_back :: "string \<Rightarrow> nat \<Rightarrow> turndb \<Rightarrow> turndb \<Rightarrow> bool" for n :: string where
  sent_start: "sent_back n 0 db db"
| sent_other: "sent_back n k db a \<Longrightarrow> get_turn a n = Some t \<Longrightarrow> get_turn b n = Some t' \<Longrightarrow> attempts t \<le> attempts t'
    \<Longrightarrow> sent_back n k db b"
| sent_again: "sent_back n k db a \<Longrightarrow> turn_ids_ok a \<Longrightarrow> get_turn a n = Some t \<Longrightarrow> rides_turn t = None
    \<Longrightarrow> status t \<in> set EXECUTING \<Longrightarrow> st \<in> set FINISH_STATUSES
    \<Longrightarrow> status_of (snd (finish_turn rd n st result q now a)) n = Some Queued
    \<Longrightarrow> sent_back n (Suc k) db (snd (finish_turn rd n st result q now a))"

lemma queued_after_finish:
  assumes ids: "turn_ids_ok db" and t: "get_turn db n = Some t" and st: "st \<in> set FINISH_STATUSES"
    and s: "status t \<in> set EXECUTING" and rides: "rides_turn t = None"
    and again: "status_of (snd (finish_turn rd n st result q now db)) n = Some Queued"
  shows "attempts t < MAX_SESSIONLESS_RETRIES
    \<and> (\<exists>t'. get_turn (snd (finish_turn rd n st result q now db)) n = Some t' \<and> attempts t' = attempts t + 1)"
proof -
  note out = finish_turn_settles [OF ids t st prod.collapse [symmetric], of rd result q now, THEN conjunct2]
  have "st \<noteq> Queued" "status t \<noteq> Queued" using st s by (auto simp: FINISH_STATUSES_def EXECUTING_def)
  then have goes: "goes_back db st t" using out again s by (auto simp: settles_def split: if_splits)
  then obtain t' where "get_turn (snd (finish_turn rd n st result q now db)) n = Some t'" "queued_again t t'"
    using out unfolding settles_def by metis
  then show ?thesis using goes rides by (simp add: goes_back_def queued_again_def)
qed

lemma sent_back_attempts:
  "sent_back n k db db' \<Longrightarrow> get_turn db n = Some t \<Longrightarrow>
    \<exists>t'. get_turn db' n = Some t' \<and> attempts t + k \<le> attempts t' \<and> (k = 0 \<or> k + attempts t \<le> MAX_SESSIONLESS_RETRIES)"
proof (induction rule: sent_back.induct)
  case (sent_other k db a u b u')
  then show ?case by auto
next
  case (sent_again k db a u st rd result q now)
  then have le: "attempts t + k \<le> attempts u" by auto
  from queued_after_finish [OF sent_again(2,3,6,5,4,7)] le show ?case by auto
qed simp

text \<open>C22. Retries end: whatever else happens in between (claims, leases that lapse, edits of the row that
  do not lower its attempts), and whatever the reports say, the end of a turn that was delivered on its
  own puts it back into the queue at most three times, less the attempts it had already spent.\<close>

theorem sessionless_retries_end:
  assumes "sent_back n k db db'" and "get_turn db n = Some t"
  shows "k \<le> 3 - attempts t"
  using sent_back_attempts [OF assms] by (auto simp: MAX_SESSIONLESS_RETRIES_def)

lemma sessionless_retries_end_witness: "(1::nat) \<le> 3 - attempts (plain_turn ''eeeeeeee-5'')"
proof -
  let ?t = "plain_turn ''eeeeeeee-5''"
  have rows: "turn_ids_ok sample_turns" "get_turn sample_turns ''eeeeeeee-5'' = Some ?t"
    by (simp_all add: sample_turns_def plain_turn_def)
  have goes: "rides_turn ?t = None" "goes_back sample_turns Failed ?t"
    by (simp_all add: goes_back_def plain_turn_def MAX_SESSIONLESS_RETRIES_def has_drill_def sample_turns_def)
  have st: "Failed \<in> set FINISH_STATUSES" and ex: "status ?t \<in> set EXECUTING"
    by (simp_all add: FINISH_STATUSES_def EXECUTING_def plain_turn_def)
  let ?db = "snd (finish_turn blind_redactor ''eeeeeeee-5'' Failed '''' False 5 sample_turns)"
  have "status_of ?db ''eeeeeeee-5'' = Some Queued"
    using finish_turn_settles [OF rows st prod.collapse [symmetric], of blind_redactor "''''" False 5] goes
    by (auto simp: settles_def queued_again_def)
  then have "sent_back ''eeeeeeee-5'' (Suc 0) sample_turns ?db"
    by (rule sent_again [OF sent_start rows goes(1) ex st])
  from sessionless_retries_end [OF this rows(2)] show ?thesis by simp
qed

section \<open>What pressing stop does\<close>

text \<open>A follow-up never rides a follow-up (\<open>may_ride\<close> asks the holder to ride nothing), so the walk to the
  running turn is one step.\<close>

definition flat_rides :: "turndb \<Rightarrow> bool" where
  "flat_rides db \<longleftrightarrow> (\<forall>t\<in>set (turns db). \<forall>h. executing_holder db t = Some h \<longrightarrow> rides_turn h = None)"

lemma executing_holder_row: "executing_holder db t = Some h \<Longrightarrow> get_turn db (turn_id h) = Some h \<and> status h \<in> set EXECUTING"
  by (auto simp: executing_holder_def split: option.splits if_splits dest: tbl_get_Some)

lemma cancel_walk_executing:
  assumes t: "get_turn db n = Some t" and s: "status t \<in> set EXECUTING"
  shows "cancel_walk (Suc k) rd n by' now db =
    (case executing_holder db t of
       Some h \<Rightarrow> map_option (\<lambda>r. (True, snd r)) (cancel_walk k rd (turn_id h) by' now db)
     | None \<Rightarrow> Some (True, request_cancel rd by' t db))"
proof -
  have "status t \<noteq> Queued" using s by (auto simp: EXECUTING_def)
  then show ?thesis using t s by simp
qed

lemma cancel_may_close: "status t = Queued \<Longrightarrow> may_close (cancel_opts by') t"
  by (simp add: may_close_def cancel_opts_def close_defaults_def)

lemma cancelled_terminal: "Cancelled \<in> set TERMINAL"
  by (simp add: TERMINAL_def)

lemma cancel_walk_queued:
  assumes t: "get_turn db n = Some t" and s: "status t = Queued"
  shows "cancel_walk (Suc k) rd n by' now db
    = Some (True, snd (close_turn rd n Cancelled (Some ''cancelled'') (cancel_opts by') now db))"
proof -
  let ?c = "close_turn rd n Cancelled (Some ''cancelled'') (cancel_opts by') now db"
  have "fst ?c = Inr True"
    unfolding close_turn_def using close_with_guard [OF cancelled_terminal t] cancel_may_close [OF s] by simp
  then obtain db' where "?c = (Inr True, db')" by (metis prod.collapse)
  then show ?thesis using t s by simp
qed

lemma cancel_turn_eq:
  assumes t: "get_turn db n = Some t" and flat: "flat_rides db"
  shows "cancel_turn rd n by' now db = Some
    (if status t = Queued then (True, snd (close_turn rd n Cancelled (Some ''cancelled'') (cancel_opts by') now db))
     else if status t \<notin> set EXECUTING then (False, db)
     else (True, request_cancel rd by' (case executing_holder db t of None \<Rightarrow> t | Some h \<Rightarrow> h) db))"
proof -
  have row: "t \<in> set (turns db)" using tbl_get_Some [OF t] by simp
  then obtain k where k: "length (turns db) = Suc k" by (cases "turns db") auto
  consider "status t = Queued" | "status t \<noteq> Queued" "status t \<notin> set EXECUTING" | "status t \<in> set EXECUTING" by blast
  then show ?thesis
  proof cases
    case 1
    then show ?thesis unfolding cancel_turn_def cancel_walk_queued [OF t 1] by simp
  next
    case 2
    then show ?thesis using t unfolding cancel_turn_def by simp
  next
    case 3
    then have nq: "status t \<noteq> Queued" by (auto simp: EXECUTING_def)
    show ?thesis
    proof (cases "executing_holder db t")
      case None
      then show ?thesis using 3 nq unfolding cancel_turn_def cancel_walk_executing [OF t 3] by simp
    next
      case (Some h)
      note h = executing_holder_row [OF Some, THEN conjunct1] executing_holder_row [OF Some, THEN conjunct2]
      have "rides_turn h = None" using flat row Some by (auto simp: flat_rides_def)
      then have "executing_holder db h = None" by (simp add: executing_holder_def)
      then show ?thesis
        using 3 nq Some unfolding cancel_turn_def cancel_walk_executing [OF t 3] k
        by (simp add: cancel_walk_executing [OF h] del: cancel_walk.simps)
    qed
  qed
qed

lemma request_cancel_frame [simp]:
  "turns (request_cancel rd by' t db) = turns db" "tokens (request_cancel rd by' t db) = tokens db"
  "finished_count (request_cancel rd by' t db) m = finished_count db m"
  by (simp_all add: request_cancel_def Let_def split: option.split)

lemma request_cancel_untouched: "m \<noteq> turn_id t \<Longrightarrow> untouched db (request_cancel rd by' t db) m"
proof -
  assume m: "m \<noteq> turn_id t"
  let ?a = "snd (append_events rd (turn_id t) [(''cancel_requested'', who_stopped by')] db)"
  have "events (request_cancel rd by' t db) = events ?a"
    by (simp add: request_cancel_def Let_def split: option.split)
  moreover have "rows_of ?a m = rows_of db m"
  proof (cases "get_turn db (turn_id t)")
    case None
    then show ?thesis by (simp add: append_events_def)
  next
    case (Some x)
    then show ?thesis by (rule append_one(2)) (rule m)
  qed
  ultimately show ?thesis by (simp add: untouched_def)
qed

text \<open>C23. Pressing stop always answers.  A queued turn ends as cancelled at once.  An executing turn is
  never forced: the request is written on its own ledger, or on the turn it was delivered into, the
  runner is told, and no turn's status changes.  A turn that already ended is left alone.\<close>

theorem stop_cancels_or_asks:
  assumes ids: "turn_ids_ok db" and flat: "flat_rides db" and t: "get_turn db n = Some t"
  shows "\<exists>db'. cancel_turn rd n by' now db = Some (status t \<in> set NON_TERMINAL, db')
    \<and> (if status t = Queued
       then ended Cancelled (Some ''cancelled'') (cancel_opts by') now db db' t
       else turns db' = turns db)
    \<and> (if status t \<in> set EXECUTING
       then let h = (case executing_holder db t of None \<Rightarrow> t | Some h \<Rightarrow> h) in
         status h \<in> set EXECUTING \<and> (content_purged_at h = None \<longrightarrow>
           (\<exists>e. rows_of db' (turn_id h) = rows_of db (turn_id h) @ [e] \<and> ev_kind e = ''cancel_requested''))
         \<and> (\<forall>r. claimed_by h = Some r \<longrightarrow> last (effects db') = CancelOnRunner r (turn_id h))
       else status t \<in> set TERMINAL \<longrightarrow> db' = db)"
proof -
  have live: "status t \<in> set NON_TERMINAL \<longleftrightarrow> status t = Queued \<or> status t \<in> set EXECUTING"
    by (auto simp: NON_TERMINAL_def EXECUTING_def)
  have final: "status t \<in> set TERMINAL \<Longrightarrow> status t \<noteq> Queued" by (auto simp: TERMINAL_def)
  let ?c = "close_turn rd n Cancelled (Some ''cancelled'') (cancel_opts by') now db"
  consider "status t = Queued" | "status t \<in> set TERMINAL" | "status t \<in> set EXECUTING"
    using live terminal_split by blast
  then show ?thesis
  proof cases
    case 1
    have "fst ?c = Inr True"
      unfolding close_turn_def using close_with_guard [OF cancelled_terminal t] cancel_may_close [OF 1] by simp
    then have "?c = (Inr True, snd ?c)" by (metis prod.collapse)
    from close_turn_ends_it_once' [OF ids t cancelled_terminal this]
    have "ended Cancelled (Some ''cancelled'') (cancel_opts by') now db (snd ?c) t" by simp
    then show ?thesis using 1 by (simp add: cancel_turn_eq [OF t flat] NON_TERMINAL_def EXECUTING_def TERMINAL_def)
  next
    case 2
    then show ?thesis
      using final [OF 2] terminal_not_executing [OF 2] by (simp add: cancel_turn_eq [OF t flat] live)
  next
    case 3
    define h where "h = (case executing_holder db t of None \<Rightarrow> t | Some h \<Rightarrow> h)"
    have nq: "status t \<noteq> Queued" using 3 by (auto simp: EXECUTING_def)
    have h: "get_turn db (turn_id h) = Some h" "status h \<in> set EXECUTING"
      using executing_holder_row [of db t] t 3 tbl_get_Some [OF t] by (auto simp: h_def split: option.splits)
    have "events (request_cancel rd by' h db)
        = events (snd (append_events rd (turn_id h) [(''cancel_requested'', who_stopped by')] db))"
      by (simp add: request_cancel_def Let_def split: option.split)
    moreover obtain new where new: "rows_of (snd (append_events rd (turn_id h) [(''cancel_requested'', who_stopped by')] db)) (turn_id h)
        = rows_of db (turn_id h) @ new" "length new = (if content_purged_at h = None then 1 else 0)"
        "\<forall>e\<in>set new. ev_kind e = ''cancel_requested''"
      using append_events_rows [OF h(1), where rd = rd and es = "[(''cancel_requested'', who_stopped by')]" and m = "turn_id h"] by auto
    ultimately have "content_purged_at h = None \<longrightarrow>
        (\<exists>e. rows_of (request_cancel rd by' h db) (turn_id h) = rows_of db (turn_id h) @ [e] \<and> ev_kind e = ''cancel_requested'')"
      by (cases new) (auto split: if_splits)
    moreover have "\<forall>r. claimed_by h = Some r \<longrightarrow> last (effects (request_cancel rd by' h db)) = CancelOnRunner r (turn_id h)"
      by (simp add: request_cancel_def Let_def)
    ultimately show ?thesis
      using 3 nq h(2) terminal_not_executing by (auto simp: cancel_turn_eq [OF t flat] live h_def [symmetric])
  qed
qed

lemma stop_cancels_or_asks_witness:
  "map_option fst (cancel_turn blind_redactor ''dddddddd-4'' ''ada'' 5 sample_turns) = Some True
   \<and> status_of (snd (the (cancel_turn blind_redactor ''cccccccc-3'' ''ada'' 5 sample_turns))) ''cccccccc-3'' = Some Cancelled"
proof -
  have rows: "turn_ids_ok sample_turns" by (simp add: sample_turns_def plain_turn_def)
  have d: "get_turn sample_turns ''dddddddd-4'' = Some (plain_turn ''dddddddd-4''\<lparr>rides_turn := Some ''eeeeeeee-5''\<rparr>)"
    and c: "get_turn sample_turns ''cccccccc-3'' = Some (plain_turn ''cccccccc-3''\<lparr>status := Queued, lease_expires_at := None, claimed_by := None\<rparr>)"
    by (simp_all add: sample_turns_def plain_turn_def)
  have flat: "flat_rides sample_turns"
    by (simp add: flat_rides_def sample_turns_def plain_turn_def executing_holder_def)
  show ?thesis
    using stop_cancels_or_asks [OF rows flat d, of blind_redactor "''ada''" 5]
      stop_cancels_or_asks [OF rows flat c, of blind_redactor "''ada''" 5] ended_status
    by (auto simp: plain_turn_def NON_TERMINAL_def dest!: ended_status)
qed


section \<open>Who pressed stop\<close>

lemma sort_key_sorted: "sorted (map f xs) \<Longrightarrow> sort_key f xs = xs"
proof (induction xs)
  case (Cons x xs)
  then show ?case by (cases xs) simp_all
qed simp

lemma sorted_filter_rows: "ledger_ok db \<Longrightarrow> sorted (map ev_seq (filter P (rows_of db n)))"
proof -
  assume "ledger_ok db"
  then have "sorted (map ev_seq (rows_of db n))" by (metis ledger_ok_def sorted_upt)
  then show ?thesis by (rule sorted_filter)
qed

lemma stopped_by_rows:
  assumes "ledger_ok db"
  shows "stopped_by db n = find_by (rev (filter (\<lambda>e. ev_kind e \<in> {''cancel_requested'', ''status''}) (rows_of db n)))"
proof -
  have "filter (\<lambda>e. ev_turn e = n \<and> ev_kind e \<in> {''cancel_requested'', ''status''}) (events db)
      = filter (\<lambda>e. ev_kind e \<in> {''cancel_requested'', ''status''}) (rows_of db n)"
    by (simp add: conj_commute)
  then show ?thesis
    unfolding stopped_by_def by (simp only: sort_key_sorted [OF sorted_filter_rows [OF assms]])
qed

lemma append_one_row:
  assumes t: "get_turn db n = Some t" and "content_purged_at t = None" and kind: "kind \<notin> set RESULT_KINDS"
  shows "rows_of (snd (append_events rd n [(kind, p)] db)) n = rows_of db n
    @ [\<lparr> ev_turn = n, ev_seq = max_seq db n + 1, ev_kind = kind,
         ev_payload = (if is_sensitive db t then metadata_of rd kind p else p) \<rparr>]"
  using assms by (simp add: append_events_def Let_def stripped_events_def stored_rows_def enumerate_eq_zip)

lemma metadata_of_no_by: "map_of (metadata_of rd kind p) ''by'' = None"
proof -
  have "''by'' \<notin> stored_keys kind" by (simp add: stored_keys_def METADATA_KEYS_def RESULT_KINDS_def)
  then have "''by'' \<notin> fst ` set (metadata_of rd kind p)" using metadata_of_keys by blast
  then show ?thesis by (simp add: map_of_eq_None_iff)
qed

text \<open>Ending a turn never makes it more sensitive: what it requires afterwards it required before.\<close>

definition same_lineage :: "turn \<Rightarrow> turn \<Rightarrow> bool" where
  "same_lineage t u \<longleftrightarrow> turn_id t = turn_id u \<and> chat_session t = chat_session u \<and> canopy_session t = canopy_session u
     \<and> parent_turn t = parent_turn u \<and> parent_session t = parent_session u \<and> parent_provenance t = parent_provenance u"

lemma session_reqs_chats: "chats db' = chats db \<Longrightarrow> session_reqs db' = session_reqs db"
  by (simp add: fun_eq_iff session_reqs_def requirements_of_session_def split: option.split)

lemma own_reqs_same:
  assumes "session_reqs db' = session_reqs db" and "same_lineage t' t" and "live' \<longrightarrow> live"
  shows "own_reqs db' live' t' \<subseteq> own_reqs db live t"
proof -
  have "lost_lineage t' = lost_lineage t"
    using assms(2) by (simp add: lost_lineage_def same_lineage_def)
  then show ?thesis using assms by (auto simp: own_reqs_def same_lineage_def)
qed

lemma reqs_walk_same:
  assumes chats: "session_reqs db' = session_reqs db" and rows: "\<And>m. rel_option same_lineage (get_turn db' m) (get_turn db m)"
    and live: "live' \<longrightarrow> live"
  shows "rel_option same_lineage node' node \<Longrightarrow> reqs' \<subseteq> reqs \<Longrightarrow>
    reqs_walk k db' live' node' seen reqs' \<subseteq> reqs_walk k db live node seen reqs"
proof (induction k arbitrary: node' node seen reqs' reqs)
  case (Suc k)
  show ?case
  proof (cases node)
    case None
    then show ?thesis using Suc.prems by simp
  next
    case (Some t)
    with Suc.prems(1) obtain t' where t': "node' = Some t'" "same_lineage t' t" by (auto simp: option_rel_Some2)
    have id: "turn_id t' = turn_id t" using t'(2) by (simp add: same_lineage_def)
    have "rel_option same_lineage (parent_row db' t') (parent_row db t)"
      using t'(2) rows by (simp add: parent_row_def same_lineage_def split: option.split)
    moreover have "reqs' \<union> own_reqs db' live' t' \<subseteq> reqs \<union> own_reqs db live t"
      using own_reqs_same [OF chats t'(2) live] Suc.prems(2) by blast
    ultimately show ?thesis using Suc.IH Suc.prems(2) Some t'(1) id by simp
  qed
qed auto

lemma closed_not_sensitive:
  assumes plain: "\<not> is_sensitive db t" and live: "status t \<notin> set TERMINAL" and st: "st \<in> set TERMINAL"
    and chats: "chats db' = chats db"
    and ts: "turns db' = tbl_update (\<lambda>r. turn_id r = n \<and> P r) (close_fields s st msg opts now) (turns db)"
  shows "\<not> is_sensitive db' (close_fields s st msg opts now t)"
proof -
  have same: "same_lineage (close_fields s st msg opts now r) r" for r
    by (simp add: same_lineage_def close_fields_def)
  have "same_lineage r r" for r by (simp add: same_lineage_def)
  then have rows: "rel_option same_lineage (get_turn db' m) (get_turn db m)" for m
    unfolding ts tbl_get_tbl_update [of "\<lambda>r. turn_id r = n \<and> P r" turn_id, OF close_fields_simps(1)]
    using same by (cases "get_turn db m") simp_all
  have "requirements_of db' (close_fields s st msg opts now t) \<subseteq> requirements_of db t"
    unfolding requirements_of_def
    by (rule reqs_walk_same [OF session_reqs_chats [OF chats] rows]) (use same live st in simp_all)
  then show ?thesis using plain by (auto simp: is_sensitive_def is_reqs_def)
qed

lemma close_turn_line:
  assumes ids: "turn_ids_ok db" and t: "get_turn db n = Some t" and st: "st \<in> set TERMINAL" and may: "may_close opts t"
    and plain: "\<not> is_sensitive db t" and live: "status t \<notin> set TERMINAL" and kept: "content_purged_at t = None"
    and line: "ledger_line opts" and riders: "with_riders opts"
  shows "\<exists>e. rows_of (snd (close_turn rd n st msg opts now db)) n = rows_of db n @ [e]
    \<and> ev_kind e = ''status'' \<and> ev_payload e = status_payload st msg (event_extra opts)"
proof -
  let ?db1 = "db\<lparr>turns := tbl_update (\<lambda>r. turn_id r = n \<and> may_close opts r) (close_fields False st msg opts now) (turns db)\<rparr>"
  let ?t1 = "close_fields False st msg opts now t"
  let ?db2 = "close_record rd t False st msg opts now ?db1"
  have idn: "turn_id t = n" using tbl_get_Some [OF t] by simp
  have whole: "snd (close_turn rd n st msg opts now db)
      = close_hooks t st opts now (close_riders rd n st now ?db2)"
    using t st may plain riders by (simp add: close_turn_def close_with_def Let_def)
  have row: "get_turn ?db1 n = Some ?t1" using get_turn_closed t may idn by simp
  define db3 where "db3 = revoke_for_turn n now ?db1"
  have db2: "?db2 = emit (TurnFinishedFact n now)
      (snd (append_events rd n [(''status'', status_payload st msg (event_extra opts))] db3))"
    using line by (simp add: close_record_def Let_def idn db3_def split: option.split)
  have row3: "get_turn db3 n = Some ?t1" and kept3: "content_purged_at ?t1 = None"
    using row kept by (simp_all add: db3_def)
  have "\<not> is_sensitive ?db1 ?t1"
    by (rule closed_not_sensitive [OF plain live st, where db' = ?db1 and n = n and P = "may_close opts"]) simp_all
  then have plain3: "\<not> is_sensitive db3 ?t1" by (simp add: db3_def)
  have "''status'' \<notin> set RESULT_KINDS" by (simp add: RESULT_KINDS_def)
  from append_one_row [OF row3 kept3 this, of rd "status_payload st msg (event_extra opts)"] plain3
  have rows2: "\<exists>e. rows_of ?db2 n = rows_of db n @ [e] \<and> ev_kind e = ''status''
      \<and> ev_payload e = status_payload st msg (event_extra opts)"
    unfolding db2 by (simp add: db3_def)
  have turns2: "turns ?db2 = turns ?db1" unfolding db2 by (simp add: db3_def)
  have "turn_ids_ok ?db2" using ids unfolding turns2 by (simp add: map_tbl_update)
  then have "untouched ?db2 (close_riders rd n st now ?db2) n"
    using close_riders_effect(2) [OF st, of ?db2 n n rd now] row terminal_not_executing [OF st]
    unfolding turns2 by (simp add: is_rider_def)
  then show ?thesis using rows2 unfolding whole untouched_def by simp
qed

lemma ledger_ok_cong: "events db' = events db \<Longrightarrow> ledger_ok db' = ledger_ok db"
  by (simp add: ledger_ok_def)

lemma ledger_ok_close_with:
  assumes ok: "ledger_ok db" and riders: "\<And>d. ledger_ok d \<Longrightarrow> ledger_ok (end_riders n st now d)"
  shows "ledger_ok (snd (close_with end_riders rd n st msg opts now db))"
proof -
  have recorded: "ledger_ok d \<Longrightarrow> ledger_ok (close_record rd t s st msg opts now d)" for d t s
  proof -
    assume d: "ledger_ok d"
    define d1 where "d1 = (case conversation_of t of None \<Rightarrow> d | Some c \<Rightarrow> if s then forget_the_page c d else d)"
    define d2 where "d2 = revoke_for_turn (turn_id t) now (if s \<and> chat_session t \<noteq> None then emit (ForgetAttachments (turn_id t)) d1 else d1)"
    have "events d2 = events d" by (simp add: d1_def d2_def split: option.split)
    then have ok2: "ledger_ok d2" using d ledger_ok_cong by blast
    have "close_record rd t s st msg opts now d = emit (TurnFinishedFact (turn_id t) now)
        (if ledger_line opts then snd (append_events rd (turn_id t) [(''status'', status_payload st msg (event_extra opts))] d2) else d2)"
      unfolding close_record_def Let_def d1_def d2_def by (rule refl)
    moreover have "ledger_ok (if ledger_line opts
        then snd (append_events rd (turn_id t) [(''status'', status_payload st msg (event_extra opts))] d2) else d2)"
      using ledger_ok_append [OF ok2] ok2 by simp
    ultimately show ?thesis using ledger_ok_cong by (metis emit_simps(4))
  qed
  have turns: "ledger_ok (db\<lparr>turns := ts\<rparr>)" for ts using ok ledger_ok_cong [of "db\<lparr>turns := ts\<rparr>" db] by simp
  have hooks: "ledger_ok d \<Longrightarrow> ledger_ok (close_hooks t st opts now d)" for d t
    using ledger_ok_cong [of "close_hooks t st opts now d" d] by simp
  show ?thesis
    unfolding close_with_def Let_def
    by (auto simp: ok split: option.split intro!: hooks riders recorded turns)
qed

lemma ledger_ok_close_turn: "ledger_ok db \<Longrightarrow> ledger_ok (snd (close_turn rd n st msg opts now db))"
proof -
  have "ledger_ok d \<Longrightarrow> ledger_ok (close_rider rd k s now' x d)" for d k s now' x
    unfolding close_rider_def by (rule ledger_ok_close_with)
  then have fold: "ledger_ok d \<Longrightarrow> ledger_ok (fold (close_rider rd k s now') xs d)" for d k s now' xs
    by (induction xs arbitrary: d) auto
  assume "ledger_ok db"
  then show ?thesis
    unfolding close_turn_def by (rule ledger_ok_close_with) (simp add: close_riders_def fold)
qed

text \<open>The turn whose ledger a stop is written on.\<close>

definition stopped_turn :: "turndb \<Rightarrow> turn \<Rightarrow> turn" where
  "stopped_turn db t = (if status t = Queued then t else case executing_holder db t of None \<Rightarrow> t | Some h \<Rightarrow> h)"

lemma find_by_last: "by' \<noteq> '''' \<Longrightarrow> map_of (ev_payload e) ''by'' = Some (JStr by') \<Longrightarrow> find_by (e # es) = by'"
  by simp

lemma cancel_payload: "by' \<noteq> '''' \<Longrightarrow>
    map_of (status_payload Cancelled (Some ''cancelled'') (event_extra (cancel_opts by'))) ''by'' = Some (JStr by')"
  by (simp add: status_payload_def cancel_opts_def close_defaults_def who_stopped_def map_of_dict_merge)

text \<open>The name of whoever pressed stop is read back from the ledger of the turn that was stopped, the one
  a follow-up was delivered into when it was one; and the ledger of a sensitive turn that was executing
  keeps no name, so there nothing new is read back.\<close>

theorem stopped_by_names_the_stopper:
  assumes ids: "turn_ids_ok db" and flat: "flat_rides db" and ok: "ledger_ok db" and t: "get_turn db n = Some t"
    and live: "status t \<in> set NON_TERMINAL" and name: "by' \<noteq> ''''"
    and target: "x = stopped_turn db t" and kept: "content_purged_at x = None"
    and res: "cancel_turn rd n by' now db = Some (b, db')"
  shows "if \<not> is_sensitive db x then stopped_by db' (turn_id x) = by'
    else status t \<noteq> Queued \<longrightarrow> stopped_by db' (turn_id x) = stopped_by db (turn_id x)"
proof -
  have n: "turn_id t = n" using tbl_get_Some [OF t] by simp
  show ?thesis
  proof (cases "status t = Queued")
    case True
    have x: "x = t" using True target by (simp add: stopped_turn_def)
    have db': "db' = snd (close_turn rd n Cancelled (Some ''cancelled'') (cancel_opts by') now db)"
      using res True by (simp add: cancel_turn_eq [OF t flat])
    have okay: "ledger_ok db'" unfolding db' by (rule ledger_ok_close_turn [OF ok])
    have opts: "ledger_line (cancel_opts by')" "with_riders (cancel_opts by')"
      by (simp_all add: cancel_opts_def close_defaults_def)
    have lives: "status t \<notin> set TERMINAL" using True by (simp add: TERMINAL_def)
    show ?thesis
    proof (cases "is_sensitive db t")
      case False
      from close_turn_line [OF ids t cancelled_terminal cancel_may_close [OF True] False lives kept [unfolded x] opts]
      obtain e where e: "rows_of db' n = rows_of db n @ [e]" "ev_kind e = ''status''"
        "ev_payload e = status_payload Cancelled (Some ''cancelled'') (event_extra (cancel_opts by'))"
        unfolding db' by blast
      then have "map_of (ev_payload e) ''by'' = Some (JStr by')" using cancel_payload [OF name] by simp
      then show ?thesis
        using False e(1,2) name unfolding stopped_by_rows [OF okay] x n by (simp add: find_by_last)
    qed (use True x in simp)
  next
    case nq: False
    then have ex: "status t \<in> set EXECUTING" using live by (auto simp: NON_TERMINAL_def EXECUTING_def)
    have x: "x = (case executing_holder db t of None \<Rightarrow> t | Some h \<Rightarrow> h)" using nq target by (simp add: stopped_turn_def)
    have db': "db' = request_cancel rd by' x db" using res nq ex x by (simp add: cancel_turn_eq [OF t flat])
    have rowx: "get_turn db (turn_id x) = Some x"
      using executing_holder_row [of db t] t n by (auto simp: x split: option.splits)
    have same: "events db' = events (snd (append_events rd (turn_id x) [(''cancel_requested'', who_stopped by')] db))"
      by (simp add: db' request_cancel_def Let_def split: option.split)
    have okay: "ledger_ok db'" using ledger_ok_append [OF ok] ledger_ok_cong [OF same] by blast
    have kind: "''cancel_requested'' \<notin> set RESULT_KINDS" by (simp add: RESULT_KINDS_def)
    define p where "p = (if is_sensitive db x then metadata_of rd ''cancel_requested'' (who_stopped by') else who_stopped by')"
    have rows: "rows_of db' (turn_id x) = rows_of db (turn_id x)
        @ [\<lparr> ev_turn = turn_id x, ev_seq = max_seq db (turn_id x) + 1, ev_kind = ''cancel_requested'', ev_payload = p \<rparr>]"
      using append_one_row [OF rowx kept kind, of rd "who_stopped by'"] by (simp add: same p_def)
    show ?thesis
    proof (cases "is_sensitive db x")
      case True
      then have "map_of p ''by'' = None" using metadata_of_no_by by (simp add: p_def)
      then show ?thesis
        using True unfolding stopped_by_rows [OF okay] stopped_by_rows [OF ok] rows by simp
    next
      case False
      then have "p = [(''by'', JStr by')]" using name by (simp add: p_def who_stopped_def)
      then show ?thesis using False name unfolding stopped_by_rows [OF okay] rows by simp
    qed
  qed
qed

lemma stopped_by_names_the_stopper_witness:
  "stopped_by (snd (the (cancel_turn blind_redactor ''dddddddd-4'' ''ada'' 5 sample_turns))) ''eeeeeeee-5'' = ''ada''"
proof -
  let ?t = "plain_turn ''dddddddd-4''\<lparr>rides_turn := Some ''eeeeeeee-5''\<rparr>"
  let ?res = "cancel_turn blind_redactor ''dddddddd-4'' ''ada'' 5 sample_turns"
  have rows: "turn_ids_ok sample_turns" "get_turn sample_turns ''dddddddd-4'' = Some ?t"
    by (simp_all add: sample_turns_def plain_turn_def)
  have flat: "flat_rides sample_turns"
    by (simp add: flat_rides_def sample_turns_def plain_turn_def executing_holder_def)
  have ok: "ledger_ok sample_turns" by (simp add: ledger_ok_def sample_turns_def)
  have x: "stopped_turn sample_turns ?t = plain_turn ''eeeeeeee-5''"
    by (simp add: stopped_turn_def executing_holder_def sample_turns_def plain_turn_def EXECUTING_def)
  have plain: "\<not> is_sensitive sample_turns (plain_turn ''eeeeeeee-5'')" by code_simp
  have live: "status ?t \<in> set NON_TERMINAL" by (simp add: plain_turn_def NON_TERMINAL_def)
  have kept: "content_purged_at (plain_turn ''eeeeeeee-5'') = None" by (simp add: plain_turn_def)
  have "\<exists>r. ?res = Some r" unfolding cancel_turn_eq [OF rows(2) flat] by (rule exI) (rule refl)
  then obtain b db' where res: "?res = Some (b, db')" by (metis surj_pair)
  show ?thesis
    using stopped_by_names_the_stopper [OF rows(1) flat ok rows(2) live _ x [symmetric] kept res] plain res
    by (simp add: plain_turn_def)
qed

section \<open>The life of a turn, abstractly\<close>

text \<open>What the rest of the program is told about a turn is its status: a board of them, on which a turn
  that waits or executes may end, an executing one may be running or go back to waiting, and the one end
  that may still change is done, to failed.\<close>

type_synonym board = "string \<Rightarrow> turn_status option"

definition board_of :: "turndb \<Rightarrow> board" where
  "board_of db n = status_of db n"

definition flow :: "turn_status \<Rightarrow> turn_status \<Rightarrow> bool" where
  "flow a b \<longleftrightarrow> a = b \<or> (a \<in> set NON_TERMINAL \<and> b \<in> set TERMINAL)
     \<or> (a \<in> {Claimed, Running} \<and> b \<in> {Running, Queued}) \<or> (a = Done \<and> b = Failed)"

definition board_step :: "board \<Rightarrow> board \<Rightarrow> bool" where
  "board_step f g \<longleftrightarrow> (\<forall>n. rel_option flow (f n) (g n))"

text \<open>The operations modelled here and in \<open>Turn_Close\<close>, on tables whose ids are keys and whose follow-ups
  ride no follow-up.\<close>

inductive turn_op :: "turndb \<Rightarrow> turndb \<Rightarrow> bool" where
  op_step: "turn_step db db' \<Longrightarrow> turn_op db db'"
| op_running: "turn_ids_ok db \<Longrightarrow> turn_op db (mark_running rd n sid now db)"
| op_finish: "turn_ids_ok db \<Longrightarrow> turn_op db (snd (finish_turn rd n st result q now db))"
| op_cancel: "turn_ids_ok db \<Longrightarrow> flat_rides db \<Longrightarrow> cancel_turn rd n by' now db = Some (b, db') \<Longrightarrow> turn_op db db'"

inductive_cases turn_opE [consumes 1, case_names base running finish cancel]: "turn_op db db'"

lemma flow_refl [simp]: "flow s s"
  by (simp add: flow_def)

lemma flow_end: "a \<in> set NON_TERMINAL \<Longrightarrow> b \<in> set TERMINAL \<Longrightarrow> flow a b"
  by (simp add: flow_def)

lemma board_stepI:
  assumes same: "map turn_id (turns db') = map turn_id (turns db)"
    and each: "\<And>m r. get_turn db m = Some r \<Longrightarrow> \<exists>s. status_of db' m = Some s \<and> flow (status r) s"
  shows "board_step (board_of db) (board_of db')"
  unfolding board_step_def
proof (rule allI)
  fix m
  show "rel_option flow (board_of db m) (board_of db' m)"
  proof (cases "get_turn db m")
    case None
    then have "m \<notin> turn_id ` set (turns db)" by (rule tbl_get_None_iff [THEN iffD1])
    moreover have "turn_id ` set (turns db') = turn_id ` set (turns db)" using same by (metis list.set_map)
    ultimately have "get_turn db' m = None" by (intro tbl_get_None_iff [THEN iffD2]) simp
    then show ?thesis using None by (simp add: board_of_def)
  next
    case (Some r)
    obtain z where "get_turn db' m = Some z" "flow (status r) (status z)" using each [OF Some] by auto
    then show ?thesis by (simp add: board_of_def Some)
  qed
qed

lemma board_step_same: "turns db' = turns db \<Longrightarrow> board_step (board_of db) (board_of db')"
  by (rule board_stepI) simp_all

lemma close_turn_ids: "turn_ids_ok db \<Longrightarrow>
    map turn_id (turns (snd (close_turn rd n st msg opts now db))) = map turn_id (turns db)"
proof (cases "st \<in> set TERMINAL \<and> (\<exists>t. get_turn db n = Some t)")
  case True
  assume ids: "turn_ids_ok db"
  from True obtain t where st: "st \<in> set TERMINAL" and t: "get_turn db n = Some t" by blast
  obtain b db' where res: "close_turn rd n st msg opts now db = (Inr b, db')"
    using close_with_guard [OF st t] unfolding close_turn_def by (metis prod.collapse)
  then show ?thesis using close_turn_ends_it_once' [OF ids t st res] by simp
qed (auto simp: close_turn_def close_with_def split: option.splits)

lemma close_turn_bad: "st \<notin> set TERMINAL \<Longrightarrow> snd (close_turn rd n st msg opts now db) = db"
  by (simp add: close_turn_def close_with_def)

lemma board_close:
  assumes ids: "turn_ids_ok db" and start: "\<And>s. s \<in> set (from_states opts) \<Longrightarrow> flow s st \<or> st \<notin> set TERMINAL"
  shows "board_step (board_of db) (board_of (snd (close_turn rd n st msg opts now db)))"
proof (cases "st \<in> set TERMINAL")
  case False
  then show ?thesis by (simp add: close_turn_bad board_step_same)
next
  case True
  show ?thesis
  proof (rule board_stepI [OF close_turn_ids [OF ids]])
    fix m r assume r: "get_turn db m = Some r"
    have "status r \<in> set EXECUTING \<Longrightarrow> flow (status r) st" using flow_end [OF executing_live True] .
    then show "\<exists>s. status_of (snd (close_turn rd n st msg opts now db)) m = Some s \<and> flow (status r) s"
      using close_turn_status [OF ids r, where rd = rd and n = n and st = st and msg = msg and opts = opts and now = now]
        start [of "status r"] True by (auto split: if_splits)
  qed
qed

lemma sweep_ids:
  assumes ids: "turn_ids_ok db"
  shows "map turn_id (turns (snd (sweep_expired_leases rd stamp now db))) = map turn_id (turns db)"
proof -
  have one: "turn_ids_ok d \<Longrightarrow> map turn_id (turns (snd (sweep_one rd stamp now x (c, d)))) = map turn_id (turns d)" for x c d
  proof -
    let ?r = "close_turn rd (turn_id x) (sweep_status d (turn_id x))
        (if py_strip (result_note x) \<noteq> '''' then None else Some (lease_lapse_note stamp d x now))
        (sweep_opts now (sweep_status d (turn_id x))) now d"
    assume "turn_ids_ok d"
    moreover have "snd (sweep_one rd stamp now x (c, d)) = snd ?r"
      by (simp add: sweep_one_def Let_def split: prod.split sum.split bool.split)
    ultimately show ?thesis using close_turn_ids by simp
  qed
  have fold: "turn_ids_ok (snd s) \<Longrightarrow> map turn_id (turns (snd (fold (sweep_one rd stamp now) xs s))) = map turn_id (turns (snd s))" for xs s
  proof (induction xs arbitrary: s)
    case (Cons x xs)
    have "map turn_id (turns (snd (sweep_one rd stamp now x s))) = map turn_id (turns (snd s))"
      using one [of "snd s" x "fst s"] Cons.prems by simp
    then show ?case using Cons by simp
  qed simp
  show ?thesis
    using fold [of "(0, db)"] ids
    by (simp add: sweep_expired_leases_def revoke_stale_def split: prod.split) (metis snd_conv)
qed

lemma board_sweep:
  assumes ids: "turn_ids_ok db"
  shows "board_step (board_of db) (board_of (snd (sweep_expired_leases rd stamp now db)))"
proof (rule board_stepI [OF sweep_ids [OF ids]])
  fix m r assume r: "get_turn db m = Some r"
  let ?db' = "snd (sweep_expired_leases rd stamp now db)"
  have "if lapsed now r then sweep_ended now db ?db' r else get_turn ?db' m = Some r"
    using sweep_ends_exactly_the_lapsed' [OF ids prod.collapse [symmetric], of rd stamp now] r by simp
  moreover have "lapsed now r \<Longrightarrow> status r \<in> set NON_TERMINAL" using executing_live by (simp add: lapsed_def)
  moreover have "turn_id r = m" using tbl_get_Some [OF r] by simp
  ultimately show "\<exists>s. status_of ?db' m = Some s \<and> flow (status r) s"
    using flow_end sweep_status_terminal ended_status unfolding sweep_ended_def
    by (cases "lapsed now r") fastforce+
qed

lemma abort_states: "s \<in> set ABORTABLE \<Longrightarrow> flow s Failed"
  by (auto simp: ABORTABLE_def flow_def EXECUTING_def NON_TERMINAL_def TERMINAL_def)

lemma board_abort:
  assumes ids: "turn_ids_ok db"
  shows "board_step (board_of db) (board_of (snd (abort rd n reason tool by' now db)))"
proof -
  obtain res db' where res: "abort rd n reason tool by' now db = (res, db')" by (metis surj_pair)
  have "board_step (board_of db) (board_of db')"
    using res
  proof (cases rule: abort_cases)
    case (3 t db1)
    have "board_step (board_of db) (board_of (snd (close_turn rd n Failed (Some (abort_note reason tool))
        ((close_defaults ABORTABLE)\<lparr>event_extra := abort_event tool by'\<rparr>) now db)))"
      by (rule board_close [OF ids]) (simp add: close_defaults_def abort_states)
    then have "board_step (board_of db) (board_of db1)" by (simp only: 3(5) snd_conv)
    then show ?thesis using 3(6) by (simp add: board_step_def board_of_def)
  qed (simp_all add: board_step_same)
  then show ?thesis using res by simp
qed

lemma live_flow: "set ss \<subseteq> set NON_TERMINAL \<Longrightarrow> s \<in> set ss \<Longrightarrow> flow s st \<or> st \<notin> set TERMINAL"
  using flow_end by blast

lemma board_turn_step:
  assumes "turn_step db db'"
  shows "board_step (board_of db) (board_of db')"
  using assms
proof (cases rule: turn_stepE)
  case (close opts rd n st msg now)
  then show ?thesis using board_close [OF close(2)] live_flow [OF close(3)] by blast
next
  case (sweep rd stamp now)
  then show ?thesis using board_sweep by blast
next
  case (abort rd n reason tool by' now)
  then show ?thesis using board_abort by blast
qed (simp_all add: board_step_same)

lemma board_running:
  assumes ids: "turn_ids_ok db"
  shows "board_step (board_of db) (board_of (mark_running rd n sid now db))"
proof (cases "get_turn db n")
  case (Some t)
  let ?P = "\<lambda>r. turn_id r = n \<and> status r \<in> {Claimed, Running}"
  let ?f = "\<lambda>r. r\<lparr> status := Running, started_at := (if started_at t = None then Some now else started_at r),
                 session_id := (if sid \<noteq> '''' then sid else session_id r) \<rparr>"
  have same: "turns (mark_running rd n sid now db) \<in> {turns db, tbl_update ?P ?f (turns db)}"
    using Some by (simp add: mark_running_def tbl_cas_def Let_def)
  have get: "tbl_get turn_id m (tbl_update ?P ?f (turns db)) = map_option (\<lambda>r. if ?P r then ?f r else r) (get_turn db m)" for m
    by (rule tbl_get_tbl_update) simp
  show ?thesis
  proof (rule board_stepI)
    show "map turn_id (turns (mark_running rd n sid now db)) = map turn_id (turns db)"
      using same by (auto simp: map_tbl_update)
    fix m r assume "get_turn db m = Some r"
    then show "\<exists>s. status_of (mark_running rd n sid now db) m = Some s \<and> flow (status r) s"
      using same get [of m] by (auto simp: flow_def)
  qed
qed (simp add: mark_running_def board_step_same)

lemma board_finish:
  assumes ids: "turn_ids_ok db"
  shows "board_step (board_of db) (board_of (snd (finish_turn rd n st result q now db)))"
proof (cases "st \<in> set FINISH_STATUSES \<and> (\<exists>t. get_turn db n = Some t)")
  case True
  then obtain t where st: "st \<in> set FINISH_STATUSES" and t: "get_turn db n = Some t" by blast
  let ?db' = "snd (finish_turn rd n st result q now db)"
  from finish_turn_settles [OF ids t st prod.collapse [symmetric], of rd result q now]
  obtain t' k riders where s: "settles db ?db' n (Some t') k riders" and f: "flow (status t) (status t')"
    and riders: "riders = None \<or> (\<exists>s \<in> set TERMINAL. riders = Some s)"
    using finish_statuses_end [OF st] executing_live [of "status t"]
    by (auto simp: goes_back_def queued_again_def flow_def NON_TERMINAL_def TERMINAL_def split: if_splits)
  show ?thesis
  proof (rule board_stepI)
    show "map turn_id (turns ?db') = map turn_id (turns db)" using s by (simp add: settles_def)
    fix m r assume r: "get_turn db m = Some r"
    show "\<exists>s. status_of ?db' m = Some s \<and> flow (status r) s"
    proof (cases "m = n")
      case True
      then show ?thesis using s f r t by (simp add: settles_def)
    next
      case False
      then have "if is_rider n r \<and> riders \<noteq> None then status_of ?db' m = riders else untouched db ?db' m"
        using s r by (simp add: settles_def)
      then show ?thesis
        using riders r flow_end executing_live by (auto simp: is_rider_def untouched_def split: if_splits)
    qed
  qed
qed (auto simp: finish_turn_def board_step_same split: option.splits)

lemma board_cancel:
  assumes ids: "turn_ids_ok db" and flat: "flat_rides db" and res: "cancel_turn rd n by' now db = Some (b, db')"
  shows "board_step (board_of db) (board_of db')"
proof (cases "get_turn db n")
  case None
  then show ?thesis using res by (simp add: cancel_turn_def board_step_same)
next
  case (Some t)
  have "board_step (board_of db) (board_of (snd (close_turn rd n Cancelled (Some ''cancelled'') (cancel_opts by') now db)))"
    by (rule board_close [OF ids]) (simp add: cancel_opts_def close_defaults_def flow_def NON_TERMINAL_def TERMINAL_def)
  then show ?thesis
    using res unfolding cancel_turn_eq [OF Some flat] by (auto simp: board_step_same split: if_splits)
qed

lemma board_turn_op: "turn_op db db' \<Longrightarrow> board_step (board_of db) (board_of db')"
  by (cases rule: turn_opE) (auto intro: board_turn_step board_running board_finish board_cancel)

text \<open>C8. Every operation on turns is, for everyone who only sees statuses, one step of the board: however
  reports, stops, sweeps, aborts and flushes are interleaved, each turn's status moves along the
  allowed edges only, no turn appears or disappears, and what has ended for good never moves.\<close>

theorem turns_refine_the_board:
  assumes "turn_op\<^sup>*\<^sup>* db db'"
  shows "board_step\<^sup>*\<^sup>* (board_of db) (board_of db')
    \<and> dom (board_of db') = dom (board_of db)
    \<and> (\<forall>n s. board_of db n = Some s \<longrightarrow> s \<in> set TERMINAL \<longrightarrow> s \<noteq> Done \<longrightarrow> board_of db' n = Some s)"
  using assms
proof (induction rule: rtranclp_induct)
  case (step a b)
  have one: "board_step (board_of a) (board_of b)" by (rule board_turn_op [OF step(2)])
  have same: "board_of b n = None \<longleftrightarrow> board_of a n = None" for n
    using one unfolding board_step_def by (metis option.rel_distinct(1,2) option.exhaust)
  have "board_of b n = Some s" if ended: "board_of a n = Some s" "s \<in> set TERMINAL" "s \<noteq> Done" for n s
  proof -
    have "rel_option flow (board_of a n) (board_of b n)" using one by (simp add: board_step_def)
    then obtain s' where "board_of b n = Some s'" "flow s s'" unfolding ended(1) by (auto simp: option_rel_Some1)
    moreover have "s \<notin> set NON_TERMINAL" using ended(2) terminal_split by blast
    ultimately show ?thesis using ended(3) by (auto simp: flow_def NON_TERMINAL_def)
  qed
  moreover have "dom (board_of b) = dom (board_of a)" using same by (auto simp: dom_def)
  ultimately show ?case using step(3) one by (metis rtranclp.rtrancl_into_rtrancl)
qed simp

lemma turns_refine_the_board_witness:
  "dom (board_of (snd (finish_turn blind_redactor ''eeeeeeee-5'' Failed '''' False 5 sample_turns))) = dom (board_of sample_turns)"
proof -
  have "turn_ids_ok sample_turns" by (simp add: sample_turns_def plain_turn_def)
  then have "turn_op\<^sup>*\<^sup>* sample_turns (snd (finish_turn blind_redactor ''eeeeeeee-5'' Failed '''' False 5 sample_turns))"
    by (intro r_into_rtranclp op_finish)
  from turns_refine_the_board [OF this] show ?thesis by blast
qed

end
