(* ===== verification/Admission.thy ===== *)
theory Admission
  imports Turn_Close "HOL-Library.Product_Lexorder"
begin

text \<open>
  Which turns are refused before they run (\<open>apps/admission\<close>): a workspace's rules and their
  validation (\<open>models.AdmissionRule\<close>), the seeded defaults (\<open>defaults.py\<close>), matching a turn against a
  rule when part of what the rule asks is not known yet, the choice of one rule and what a rejection
  records (\<open>evaluate.py\<close>), and managing the rules (\<open>rules.py\<close>).

  Parameters: \<open>reach\<close> answers where a turn stands with the runners (\<open>claim_reach.turn_reach\<close>) with
  the sentence naming them, \<open>covered\<close> the queued turns a runner could take
  (\<open>queued_turns_covered_by\<close>).  Waits are in microseconds.  Not modelled: the notices' delivery, the
  stored snapshot of a refused turn, the audit lines of rule edits.
\<close>

section \<open>Rules\<close>

datatype rule_action = RejectTurn | AllowTurn | AutoMode

datatype rule_field = FOrigin | FPrincipal | FSender | FAccess | FCapability | FTurnMode | FRunnerKind | FReach

definition CONDITIONS :: "rule_field list" where
  "CONDITIONS = [FOrigin, FPrincipal, FSender, FAccess, FCapability, FTurnMode, FRunnerKind, FReach]"

record adm_rule =
  ar_id :: nat
  ar_workspace :: string
  ar_agent :: "string option"
  ar_origin :: string
  ar_principal :: string
  ar_access :: string
  ar_capability :: string
  ar_turn_mode :: string
  ar_sender :: string
  ar_runner_kind :: string
  ar_reach :: string
  ar_wait_hours :: nat
  ar_action :: rule_action
  ar_reason :: string
  ar_notify_sender :: bool
  ar_notify_owner :: bool
  ar_enabled :: bool
  ar_seed_key :: string
  ar_fired_count :: nat
  ar_last_fired_at :: "instant option"

primrec want :: "adm_rule \<Rightarrow> rule_field \<Rightarrow> string" where
  "want r FOrigin = ar_origin r"
| "want r FPrincipal = ar_principal r"
| "want r FSender = ar_sender r"
| "want r FAccess = ar_access r"
| "want r FCapability = ar_capability r"
| "want r FTurnMode = ar_turn_mode r"
| "want r FRunnerKind = ar_runner_kind r"
| "want r FReach = ar_reach r"

definition is_refusal :: "adm_rule \<Rightarrow> bool" where
  "is_refusal r \<longleftrightarrow> ar_sender r = ''blocked'' \<or> ar_access r = ''none''"

definition specificity :: "adm_rule \<Rightarrow> nat" where
  "specificity r = sum_list (map (\<lambda>f. if want r f \<noteq> '''' then 1 else 0) CONDITIONS)
     + (if ar_agent r \<noteq> None then 1 else 0)"

text \<open>The stored choices of each condition, with the labels a summary shows.\<close>

definition ORIGIN_CHOICES :: "(string \<times> string) list" where
  "ORIGIN_CHOICES = [(''api'', ''API''), (''ace_web'', ''ace-web''), (''canopy_web_chat'', ''canopy-web chat''),
     (''canopy_scheduler'', ''canopy scheduler''), (''email'', ''Email''), (''slack'', ''Slack''), (''local'', ''Local'')]"

definition PRINCIPALS :: "(string \<times> string) list" where
  "PRINCIPALS = [(''member'', ''from a member''), (''contact'', ''from a contact''),
     (''agent'', ''from another agent''), (''system'', ''from canopy itself'')]"

definition RUNNER_KINDS :: "(string \<times> string) list" where
  "RUNNER_KINDS = [(''emdash'', ''Laptop (emdash)''), (''cloud'', ''Cloud''), (''remote'', ''Remote'')]"

definition blank_or :: "string list \<Rightarrow> string \<Rightarrow> bool" where
  "blank_or cs s \<longleftrightarrow> s = '''' \<or> s \<in> set cs"

definition choices_ok :: "adm_rule \<Rightarrow> bool" where
  "choices_ok r \<longleftrightarrow> blank_or (map fst ORIGIN_CHOICES) (ar_origin r) \<and> blank_or (map fst PRINCIPALS) (ar_principal r)
     \<and> blank_or [''confined'', ''full'', ''none''] (ar_access r) \<and> length (ar_capability r) \<le> 64
     \<and> blank_or [''manual'', ''auto''] (ar_turn_mode r) \<and> blank_or [''blocked''] (ar_sender r)
     \<and> blank_or (map fst RUNNER_KINDS) (ar_runner_kind r) \<and> blank_or [''paused'', ''offline''] (ar_reach r)
     \<and> ar_reason r \<noteq> ''''"

datatype rule_error = BadChoice | AgentElsewhere | RefusalIsAccess | RefusalBeforeRunner | ReachBeforeClaim
  | AutoNeedsClaim | AllowAboutReach | NoCondition | SeedTaken | NoAgentHere | NoSuchRule

definition agent_elsewhere :: "turndb \<Rightarrow> adm_rule \<Rightarrow> bool" where
  "agent_elsewhere db r \<longleftrightarrow> (case ar_agent r of None \<Rightarrow> False | Some a \<Rightarrow>
     map_option ag_workspace (tbl_get ag_slug a (agent_rows db)) \<noteq> Some (ar_workspace r))"

definition clean :: "turndb \<Rightarrow> adm_rule \<Rightarrow> rule_error option" where
  "clean db r =
     (if agent_elsewhere db r then Some AgentElsewhere
      else if is_refusal r \<and> ar_action r = AllowTurn then Some RefusalIsAccess
      else if is_refusal r \<and> (ar_turn_mode r \<noteq> '''' \<or> ar_runner_kind r \<noteq> '''') then Some RefusalBeforeRunner
      else if ar_reach r \<noteq> '''' \<and> (ar_turn_mode r \<noteq> '''' \<or> ar_runner_kind r \<noteq> '''') then Some ReachBeforeClaim
      else if ar_action r = AutoMode \<and> (is_refusal r \<or> ar_reach r \<noteq> '''') then Some AutoNeedsClaim
      else if ar_reach r \<noteq> '''' \<and> ar_action r = AllowTurn then Some AllowAboutReach
      else if specificity r = 0 then Some NoCondition
      else None)"

text \<open>\<open>full_clean\<close>: the fields' own choices, \<open>clean\<close>, and the one seeded rule per key and workspace.\<close>

definition full_clean :: "turndb \<Rightarrow> adm_rule list \<Rightarrow> adm_rule \<Rightarrow> rule_error option" where
  "full_clean db others r =
     (if \<not> choices_ok r then Some BadChoice
      else case clean db r of Some e \<Rightarrow> Some e
      | None \<Rightarrow> if ar_seed_key r \<noteq> '''' \<and> (\<exists>s\<in>set others. ar_id s \<noteq> ar_id r \<and> ar_workspace s = ar_workspace r
                   \<and> ar_seed_key s = ar_seed_key r) then Some SeedTaken
                else None)"


section \<open>A turn as a rule sees it\<close>

record facts =
  known :: "rule_field \<Rightarrow> string option"
  waited :: int

definition principal_for :: "string \<Rightarrow> string" where
  "principal_for kind = (if kind = ''user'' then ''member'' else if kind = ''contact'' then ''contact''
     else if kind = ''agent'' then ''agent'' else ''system'')"

definition facts_of :: "turn \<Rightarrow> runner_box option \<Rightarrow> string option \<Rightarrow> facts" where
  "facts_of t runner mode =
     \<lparr> known = (\<lambda>f. case f of
          FReach \<Rightarrow> (if runner \<noteq> None then Some ''live'' else None)
        | FOrigin \<Rightarrow> Some (t_origin t)
        | FPrincipal \<Rightarrow> Some (principal_for (initiator_kind t))
        | FSender \<Rightarrow> Some ''''
        | FAccess \<Rightarrow> Some (if capability t \<noteq> '''' then ''confined'' else ''full'')
        | FCapability \<Rightarrow> Some (capability t)
        | FTurnMode \<Rightarrow> mode
        | FRunnerKind \<Rightarrow> map_option rb_kind runner),
       waited = 0 \<rparr>"

definition is_read_mode :: "string \<Rightarrow> bool" where
  "is_read_mode s \<longleftrightarrow> s \<in> {''ask'', ''read''}"

definition HOUR :: int where "HOUR = 3600000000"

fun match_loop :: "adm_rule \<Rightarrow> facts \<Rightarrow> rule_field list \<Rightarrow> bool \<Rightarrow> bool option" where
  "match_loop r k [] unknown = (if unknown then None else Some True)"
| "match_loop r k (f # fs) unknown =
     (if want r f = '''' then match_loop r k fs unknown
      else case known k f of
        None \<Rightarrow> match_loop r k fs True
      | Some have' \<Rightarrow>
          if have' \<noteq> want r f \<and> \<not> (f = FCapability \<and> is_read_mode have' \<and> is_read_mode (want r f)) then Some False
          else if f = FReach \<and> want r f = ''offline'' \<and> waited k < int (ar_wait_hours r) * HOUR then Some False
          else match_loop r k fs unknown)"

definition rule_match :: "adm_rule \<Rightarrow> facts \<Rightarrow> bool option" where
  "rule_match r k = match_loop r k CONDITIONS False"

definition rule_key :: "adm_rule \<Rightarrow> int \<times> nat" where
  "rule_key r = (- int (specificity r), ar_id r)"

definition first_rule :: "adm_rule list \<Rightarrow> adm_rule option" where
  "first_rule rs = (if rs = [] then None else Some (hd (sort_key rule_key rs)))"

definition decide :: "facts \<Rightarrow> adm_rule list \<Rightarrow> adm_rule option" where
  "decide k rules =
     (if \<exists>r\<in>set rules. ar_action r = AllowTurn \<and> rule_match r k \<noteq> Some False then None
      else first_rule (filter (\<lambda>r. ar_action r = RejectTurn \<and> rule_match r k = Some True) rules))"


section \<open>Rejecting\<close>

record admission =
  world :: turndb
  adm_rules :: "adm_rule list"
  next_rule :: nat
  notices_owed :: "(string \<times> nat \<times> string) list"
  last_sweep :: "instant option"

definition rules_for :: "admission \<Rightarrow> agent_row \<Rightarrow> adm_rule list" where
  "rules_for ad a = filter (\<lambda>r. ar_workspace r = ag_workspace a \<and> ar_enabled r
     \<and> (ar_agent r = None \<or> ar_agent r = Some (ag_slug a))) (adm_rules ad)"

datatype reach_kind = ReachLive | ReachParked | ReachOffline | ReachSignedOut | ReachUnrouted

record reach_answer =
  re_kind :: reach_kind
  re_held_until :: "instant option"
  re_situation :: string

type_synonym reach_api = "turndb \<Rightarrow> turn \<Rightarrow> reach_answer"

definition reach_state :: "reach_answer \<Rightarrow> string" where
  "reach_state a = (case re_kind a of
       ReachParked \<Rightarrow> (if re_held_until a \<noteq> None then ''held'' else ''paused'')
     | ReachOffline \<Rightarrow> ''offline'' | ReachSignedOut \<Rightarrow> ''offline''
     | ReachLive \<Rightarrow> ''live'' | ReachUnrouted \<Rightarrow> ''config'')"

definition with_reach :: "reach_api \<Rightarrow> turndb \<Rightarrow> turn \<Rightarrow> instant \<Rightarrow> facts \<Rightarrow> facts \<times> string" where
  "with_reach reach db t now k =
     (let a = reach db t; s = reach_state a in
      (k\<lparr> known := (known k)(FReach := Some s), waited := now - created_at t \<rparr>,
       if s \<in> {''paused'', ''offline''} then re_situation a else ''''))"

fun join_with :: "string \<Rightarrow> string list \<Rightarrow> string" where
  "join_with sep [] = []"
| "join_with sep [w] = w"
| "join_with sep (w # ws) = w @ sep @ join_with sep ws"

definition label_of :: "(string \<times> string) list \<Rightarrow> string \<Rightarrow> string" where
  "label_of ls s = (case map_of ls s of None \<Rightarrow> s | Some l \<Rightarrow> l)"

definition rule_summary :: "adm_rule \<Rightarrow> string" where
  "rule_summary r =
     (let parts = [if ar_origin r \<noteq> '''' then label_of ORIGIN_CHOICES (ar_origin r) else ''Any turn'']
            @ (if ar_principal r \<noteq> '''' then [label_of PRINCIPALS (ar_principal r)] else [])
            @ (if ar_sender r = ''blocked'' then [''from a blocked sender''] else [])
            @ (case ar_agent r of None \<Rightarrow> [] | Some a \<Rightarrow> [''to '' @ a]);
          extra = (if ar_access r = ''none'' then [''offered nothing'']
              else if ar_access r \<noteq> '''' then [ar_access r] else [])
            @ (if ar_capability r \<noteq> '''' then [if is_read_mode (ar_capability r) then ''read mode''
                 else ''host site '' @ ar_capability r] else [])
            @ (if ar_turn_mode r \<noteq> '''' then [ar_turn_mode r] else [])
            @ (if ar_runner_kind r \<noteq> '''' then [''on a '' @ label_of RUNNER_KINDS (ar_runner_kind r) @ '' runner''] else [])
            @ (if ar_reach r = ''paused'' then [''every runner that could take it paused indefinitely'']
               else if ar_reach r = ''offline'' then [''no runner that could take it reachable for ''
                 @ nat_digits (ar_wait_hours r) @ ''h''] else []);
          txt = join_with '' '' parts
      in if extra \<noteq> [] then txt @ '', '' @ join_with '', '' extra else txt)"

definition rejection_note :: "adm_rule \<Rightarrow> string \<Rightarrow> string" where
  "rejection_note r detail = ''rejected: admission rule '' @ nat_digits (ar_id r) @ '' ('' @ rule_summary r @ '')'' @ dash
     @ py_strip (ar_reason r @ '' '' @ detail)"

text \<open>\<open>_fire\<close>.\<close>

definition fire :: "redactor \<Rightarrow> string \<Rightarrow> adm_rule \<Rightarrow> string \<Rightarrow> payload \<Rightarrow> string \<Rightarrow> instant \<Rightarrow> admission \<Rightarrow> admission" where
  "fire rd n r msg stage detail now ad =
     ad\<lparr> adm_rules := tbl_update (\<lambda>s. ar_id s = ar_id r)
            (\<lambda>s. s\<lparr> ar_fired_count := ar_fired_count s + 1, ar_last_fired_at := Some now \<rparr>) (adm_rules ad),
         world := snd (append_events rd n [(''status'', dict_merge [(''status'', JStr (status_name Cancelled)),
            (''result_note'', JStr msg), (''admission_rule'', JNum (int (ar_id r)))] stage)] (world ad)),
         notices_owed := notices_owed ad @ [(n, ar_id r, detail)] \<rparr>"

definition reject_opts :: "string \<Rightarrow> close_opts" where
  "reject_opts msg = (close_defaults [Queued])\<lparr> ledger_line := False, drill_note := Some (''drill turn refused: '' @ msg) \<rparr>"

definition reject :: "redactor \<Rightarrow> turn \<Rightarrow> adm_rule \<Rightarrow> string \<Rightarrow> payload \<Rightarrow> instant \<Rightarrow> admission \<Rightarrow> bool \<times> admission" where
  "reject rd t r detail stage now ad =
     (let n = turn_id t; msg = rejection_note r detail in
      case close_turn rd n Cancelled (Some msg) (reject_opts msg) now (world ad) of
        (Inr True, db) \<Rightarrow> (True, fire rd n r msg stage detail now (ad\<lparr>world := db\<rparr>))
      | (_, db) \<Rightarrow> (False, ad\<lparr>world := db\<rparr>))"

definition at_enqueue :: "redactor \<Rightarrow> reach_api \<Rightarrow> turn \<Rightarrow> instant \<Rightarrow> admission \<Rightarrow> bool \<times> admission" where
  "at_enqueue rd reach t now ad =
     (if status t \<noteq> Queued then (False, ad)
      else case acting_agent (world ad) t of None \<Rightarrow> (False, ad)
      | Some a \<Rightarrow>
          let rules = rules_for ad a;
              (k, detail) = (if \<exists>r\<in>set rules. ar_reach r \<noteq> ''''
                 then with_reach reach (world ad) t now (facts_of t None None) else (facts_of t None None, ''''))
          in (case decide k rules of None \<Rightarrow> (False, ad)
             | Some r \<Rightarrow> reject rd t r detail [(''at'', JStr ''enqueue'')] now ad))"

definition recheck :: "redactor \<Rightarrow> reach_api \<Rightarrow> turn \<Rightarrow> instant \<Rightarrow> admission \<Rightarrow> bool \<times> admission" where
  "recheck rd reach t now ad =
     (if status t \<noteq> Queued then (False, ad)
      else case acting_agent (world ad) t of None \<Rightarrow> (False, ad)
      | Some a \<Rightarrow>
          let rules = rules_for ad a in
          if \<not> (\<exists>r\<in>set rules. ar_reach r \<noteq> '''') then (False, ad)
          else case with_reach reach (world ad) t now (facts_of t None None) of (k, detail) \<Rightarrow>
            (case decide k rules of None \<Rightarrow> (False, ad)
             | Some r \<Rightarrow> reject rd t r detail [(''at'', JStr ''recheck'')] now ad))"

definition at_claim :: "redactor \<Rightarrow> turn \<Rightarrow> runner_box \<Rightarrow> string \<Rightarrow> instant \<Rightarrow> admission \<Rightarrow> bool \<times> admission" where
  "at_claim rd t runner mode now ad =
     (case acting_agent (world ad) t of None \<Rightarrow> (False, ad)
      | Some a \<Rightarrow>
          (case decide (facts_of t (Some runner) (Some mode)) (rules_for ad a) of None \<Rightarrow> (False, ad)
           | Some r \<Rightarrow> reject rd t r '''' [(''runner'', JStr (rb_name runner)), (''runner_kind'', JStr (rb_kind runner))] now ad))"

definition refusal_rules :: "admission \<Rightarrow> agent_row \<Rightarrow> facts \<Rightarrow> adm_rule list" where
  "refusal_rules ad a k = filter (\<lambda>r. ar_action r = RejectTurn \<and> (ar_sender r = ''blocked'' \<or> ar_access r = ''none'')
     \<and> rule_match r k = Some True) (rules_for ad a)"

definition at_refusal :: "redactor \<Rightarrow> turn \<Rightarrow> string \<Rightarrow> string \<Rightarrow> instant \<Rightarrow> admission \<Rightarrow> adm_rule option \<times> admission" where
  "at_refusal rd t sender access now ad =
     (case acting_agent (world ad) t of None \<Rightarrow> (None, ad)
      | Some a \<Rightarrow>
          let k0 = facts_of t None None;
              k = k0\<lparr> known := ((known k0)(FSender := Some sender))
                    (FAccess := (if access \<noteq> '''' then Some access else known k0 FAccess)) \<rparr>
          in (case first_rule (refusal_rules ad a k) of None \<Rightarrow> (None, ad)
             | Some r \<Rightarrow> (Some r, fire rd (turn_id t) r (result_note t) [(''at'', JStr ''refusal'')] '''' now ad)))"

text \<open>\<open>auto_rule\<close>: the resolved mode and whether it may be raised come from the mode ladder.\<close>

definition auto_rule :: "admission \<Rightarrow> turn \<Rightarrow> runner_box \<Rightarrow> (string \<times> bool) option \<Rightarrow> adm_rule option" where
  "auto_rule ad t runner mode =
     (case mode of Some (m, raisable) \<Rightarrow>
        if m \<noteq> ''manual'' \<or> \<not> raisable then None
        else (case acting_agent (world ad) t of None \<Rightarrow> None
          | Some a \<Rightarrow> first_rule (filter (\<lambda>r. ar_action r = AutoMode
              \<and> rule_match r (facts_of t (Some runner) (Some ''manual'')) = Some True) (rules_for ad a)))
      | None \<Rightarrow> None)"

fun recheck_all :: "redactor \<Rightarrow> reach_api \<Rightarrow> turn list \<Rightarrow> instant \<Rightarrow> nat \<times> admission \<Rightarrow> nat \<times> admission" where
  "recheck_all rd reach [] now s = s"
| "recheck_all rd reach (t # ts) now s =
     (case recheck rd reach t now (snd s) of (b, ad) \<Rightarrow>
        recheck_all rd reach ts now (fst s + (if b then 1 else 0), ad))"

definition recheck_stranded :: "redactor \<Rightarrow> reach_api \<Rightarrow> (turndb \<Rightarrow> nat \<Rightarrow> turn list) \<Rightarrow> nat \<Rightarrow> instant
    \<Rightarrow> admission \<Rightarrow> nat \<times> admission" where
  "recheck_stranded rd reach covered runner now ad = recheck_all rd reach (covered (world ad) runner) now (0, ad)"

definition SWEEP_EVERY :: int where "SWEEP_EVERY = 300000000"

definition offline_waits :: "admission \<Rightarrow> nat list" where
  "offline_waits ad = map ar_wait_hours (filter (\<lambda>r. ar_enabled r \<and> ar_action r = RejectTurn \<and> ar_reach r = ''offline'')
     (adm_rules ad))"

definition sweep_unrunnable :: "redactor \<Rightarrow> reach_api \<Rightarrow> instant \<Rightarrow> admission \<Rightarrow> nat \<times> admission" where
  "sweep_unrunnable rd reach now ad =
     (if (case last_sweep ad of None \<Rightarrow> False | Some s \<Rightarrow> now < s + SWEEP_EVERY) then (0, ad)
      else let ad = ad\<lparr>last_sweep := Some now\<rparr>; waits = offline_waits ad in
        if waits = [] then (0, ad)
        else recheck_all rd reach (sort_key created_at (filter (\<lambda>t. status t = Queued
                 \<and> created_at t + int (Min (set waits)) * HOUR \<le> now) (turns (world ad)))) now (0, ad))"

section \<open>Managing the rules\<close>

text \<open>The fields a create or an update may write.\<close>

datatype rule_change = SetAgent string | SetField rule_field string | SetWait nat | SetAction rule_action
  | SetReason string | SetNotifySender bool | SetNotifyOwner bool | SetEnabled bool

definition blank_rule :: "nat \<Rightarrow> string \<Rightarrow> adm_rule" where
  "blank_rule pk ws = \<lparr> ar_id = pk, ar_workspace = ws, ar_agent = None, ar_origin = '''', ar_principal = '''',
     ar_access = '''', ar_capability = '''', ar_turn_mode = '''', ar_sender = '''', ar_runner_kind = '''',
     ar_reach = '''', ar_wait_hours = 24, ar_action = RejectTurn, ar_reason = '''', ar_notify_sender = False,
     ar_notify_owner = True, ar_enabled = True, ar_seed_key = '''', ar_fired_count = 0, ar_last_fired_at = None \<rparr>"

primrec set_want :: "rule_field \<Rightarrow> string \<Rightarrow> adm_rule \<Rightarrow> adm_rule" where
  "set_want FOrigin s r = r\<lparr>ar_origin := s\<rparr>"
| "set_want FPrincipal s r = r\<lparr>ar_principal := s\<rparr>"
| "set_want FSender s r = r\<lparr>ar_sender := s\<rparr>"
| "set_want FAccess s r = r\<lparr>ar_access := s\<rparr>"
| "set_want FCapability s r = r\<lparr>ar_capability := s\<rparr>"
| "set_want FTurnMode s r = r\<lparr>ar_turn_mode := s\<rparr>"
| "set_want FRunnerKind s r = r\<lparr>ar_runner_kind := s\<rparr>"
| "set_want FReach s r = r\<lparr>ar_reach := s\<rparr>"

primrec apply_change :: "turndb \<Rightarrow> rule_change \<Rightarrow> adm_rule \<Rightarrow> rule_error + adm_rule" where
  "apply_change db (SetAgent slug) r =
     (if slug = '''' then Inr (r\<lparr>ar_agent := None\<rparr>)
      else if map_option ag_workspace (tbl_get ag_slug slug (agent_rows db)) = Some (ar_workspace r)
      then Inr (r\<lparr>ar_agent := Some slug\<rparr>) else Inl NoAgentHere)"
| "apply_change db (SetField f s) r = Inr (set_want f s r)"
| "apply_change db (SetWait h) r = Inr (r\<lparr>ar_wait_hours := h\<rparr>)"
| "apply_change db (SetAction a) r = Inr (r\<lparr>ar_action := a\<rparr>)"
| "apply_change db (SetReason s) r = Inr (r\<lparr>ar_reason := s\<rparr>)"
| "apply_change db (SetNotifySender b) r = Inr (r\<lparr>ar_notify_sender := b\<rparr>)"
| "apply_change db (SetNotifyOwner b) r = Inr (r\<lparr>ar_notify_owner := b\<rparr>)"
| "apply_change db (SetEnabled b) r = Inr (r\<lparr>ar_enabled := b\<rparr>)"

fun apply_changes :: "turndb \<Rightarrow> rule_change list \<Rightarrow> adm_rule \<Rightarrow> rule_error + adm_rule" where
  "apply_changes db [] r = Inr r"
| "apply_changes db (c # cs) r = (case apply_change db c r of Inl e \<Rightarrow> Inl e | Inr r' \<Rightarrow> apply_changes db cs r')"

definition create_rule :: "string \<Rightarrow> rule_change list \<Rightarrow> admission \<Rightarrow> (rule_error + adm_rule) \<times> admission" where
  "create_rule ws data ad =
     (case apply_changes (world ad) data (blank_rule (next_rule ad) ws) of
        Inl e \<Rightarrow> (Inl e, ad)
      | Inr r \<Rightarrow> (case full_clean (world ad) (adm_rules ad) r of
          Some e \<Rightarrow> (Inl e, ad)
        | None \<Rightarrow> (Inr r, ad\<lparr>adm_rules := adm_rules ad @ [r], next_rule := next_rule ad + 1\<rparr>)))"

definition find_rule :: "string \<Rightarrow> nat \<Rightarrow> admission \<Rightarrow> adm_rule option" where
  "find_rule ws pk ad = find (\<lambda>r. ar_id r = pk \<and> ar_workspace r = ws) (adm_rules ad)"

definition update_rule :: "string \<Rightarrow> nat \<Rightarrow> rule_change list \<Rightarrow> admission \<Rightarrow> (rule_error + adm_rule) \<times> admission" where
  "update_rule ws pk data ad =
     (case find_rule ws pk ad of None \<Rightarrow> (Inl NoSuchRule, ad)
      | Some r \<Rightarrow>
          (case apply_changes (world ad) data r of Inl e \<Rightarrow> (Inl e, ad)
           | Inr r' \<Rightarrow>
               (case full_clean (world ad) (adm_rules ad) r' of Some e \<Rightarrow> (Inl e, ad)
                | None \<Rightarrow> (Inr r', ad\<lparr>adm_rules := tbl_update (\<lambda>s. ar_id s = pk) (\<lambda>_. r') (adm_rules ad)\<rparr>))))"

definition delete_rule :: "string \<Rightarrow> nat \<Rightarrow> admission \<Rightarrow> (rule_error + unit) \<times> admission" where
  "delete_rule ws pk ad =
     (case find_rule ws pk ad of None \<Rightarrow> (Inl NoSuchRule, ad)
      | Some r \<Rightarrow> (Inr (), ad\<lparr>adm_rules := filter (\<lambda>s. ar_id s \<noteq> pk) (adm_rules ad)\<rparr>))"

text \<open>The seeded defaults.\<close>

definition no_approver :: "string \<Rightarrow> string" where
  "no_approver where' = ''email from a caller who is not the owner runs in manual mode, and '' @ where' @ '' has no one ''
     @ ''to approve the reply.''"

definition DEFAULTS :: "adm_rule list" where
  "DEFAULTS =
     [(blank_rule 0 '''')\<lparr> ar_seed_key := ''email-confined-manual-cloud'', ar_origin := ''email'',
         ar_access := ''confined'', ar_turn_mode := ''manual'', ar_runner_kind := ''cloud'', ar_notify_sender := True,
         ar_reason := no_approver ''a cloud session'' \<rparr>,
      (blank_rule 0 '''')\<lparr> ar_seed_key := ''email-confined-manual-laptop'', ar_origin := ''email'',
         ar_access := ''confined'', ar_turn_mode := ''manual'', ar_runner_kind := ''emdash'', ar_notify_sender := True,
         ar_enabled := False, ar_reason := no_approver ''a laptop session nobody is watching'' \<rparr>,
      (blank_rule 0 '''')\<lparr> ar_seed_key := ''blocked-sender'', ar_origin := ''email'', ar_sender := ''blocked'',
         ar_notify_owner := False, ar_reason := ''the sender is blocked in this workspace, so their mail is not run.'' \<rparr>,
      (blank_rule 0 '''')\<lparr> ar_seed_key := ''no-runner-paused'', ar_reach := ''paused'',
         ar_reason := ''every runner that could take this is paused with no time set to resume, so it would sit queued until someone noticed.'' \<rparr>,
      (blank_rule 0 '''')\<lparr> ar_seed_key := ''no-runner-offline'', ar_reach := ''offline'', ar_wait_hours := 24,
         ar_reason := ''no runner that could take this has been reachable for a day.'' \<rparr>,
      (blank_rule 0 '''')\<lparr> ar_seed_key := ''offered-nothing'', ar_access := ''none'', ar_notify_owner := False,
         ar_reason := ''the agent's access list gives this person nothing: they are not one of its admins and no entry on its access list names them.'' \<rparr>]"

fun number_rules :: "nat \<Rightarrow> string \<Rightarrow> adm_rule list \<Rightarrow> adm_rule list" where
  "number_rules pk ws [] = []"
| "number_rules pk ws (r # rs) = r\<lparr>ar_id := pk, ar_workspace := ws\<rparr> # number_rules (pk + 1) ws rs"

definition seed :: "string \<Rightarrow> string list option \<Rightarrow> admission \<Rightarrow> nat \<times> admission" where
  "seed ws keys ad =
     (let have' = set (map ar_seed_key (filter (\<lambda>r. ar_workspace r = ws \<and> ar_seed_key r \<noteq> '''') (adm_rules ad)));
          rows = number_rules (next_rule ad) ws (filter (\<lambda>d. ar_seed_key d \<notin> have'
             \<and> (case keys of None \<Rightarrow> True | Some ks \<Rightarrow> ar_seed_key d \<in> set ks)) DEFAULTS)
      in (length rows, ad\<lparr>adm_rules := adm_rules ad @ rows, next_rule := next_rule ad + length rows\<rparr>))"

section \<open>Matching with part of the turn unknown\<close>

definition misfit :: "adm_rule \<Rightarrow> facts \<Rightarrow> rule_field \<Rightarrow> bool" where
  "misfit r k f \<longleftrightarrow> want r f \<noteq> '''' \<and> (case known k f of None \<Rightarrow> False
     | Some h \<Rightarrow> (h \<noteq> want r f \<and> \<not> (f = FCapability \<and> is_read_mode h \<and> is_read_mode (want r f)))
         \<or> (f = FReach \<and> want r f = ''offline'' \<and> waited k < int (ar_wait_hours r) * HOUR))"

definition open_question :: "adm_rule \<Rightarrow> facts \<Rightarrow> rule_field \<Rightarrow> bool" where
  "open_question r k f \<longleftrightarrow> want r f \<noteq> '''' \<and> known k f = None"

lemma all_conditions: "set CONDITIONS = UNIV"
proof -
  have "f \<in> set CONDITIONS" for f by (cases f) (simp_all add: CONDITIONS_def)
  then show ?thesis by blast
qed

lemma match_loop_step:
  "match_loop r k (f # fs) unknown = (if misfit r k f then Some False
     else match_loop r k fs (unknown \<or> open_question r k f))"
  by (cases "want r f = []"; cases "known k f"; cases "misfit r k f")
    (auto simp: misfit_def open_question_def simp del: want.simps)

lemma match_loop_eq:
  "match_loop r k fs unknown = (if \<exists>f\<in>set fs. misfit r k f then Some False
     else if unknown \<or> (\<exists>f\<in>set fs. open_question r k f) then None else Some True)"
proof (induction fs arbitrary: unknown)
  case (Cons f fs)
  show ?case by (auto simp only: match_loop_step Cons.IH list.set insert_iff split: if_splits)
qed simp

lemma rule_match_eq:
  "rule_match r k = (if \<exists>f. misfit r k f then Some False
     else if \<exists>f. open_question r k f then None else Some True)"
  by (simp add: rule_match_def match_loop_eq all_conditions)

text \<open>Knowing more: what was known stays as it was, the wait included once it was asked for.\<close>

definition learns :: "facts \<Rightarrow> facts \<Rightarrow> bool" where
  "learns k k' \<longleftrightarrow> (\<forall>f. known k f = None \<or> known k' f = known k f) \<and> (known k FReach = None \<or> waited k' = waited k)"

lemma misfit_learns: "learns k k' \<Longrightarrow> misfit r k f \<Longrightarrow> misfit r k' f"
proof -
  assume l: "learns k k'" and m: "misfit r k f"
  then obtain h where h: "known k f = Some h" by (auto simp: misfit_def split: option.splits)
  then have "known k' f = Some h" using l by (metis learns_def option.distinct(1))
  moreover have "f = FReach \<Longrightarrow> waited k' = waited k" using l h by (auto simp: learns_def)
  ultimately show ?thesis using m h by (cases "f = FReach") (simp_all add: misfit_def)
qed

lemma match_learns: "learns k k' \<Longrightarrow> rule_match r k = Some b \<Longrightarrow> rule_match r k' = Some b"
proof -
  assume l: "learns k k'" and m: "rule_match r k = Some b"
  show ?thesis
  proof (cases "\<exists>f. misfit r k f")
    case True
    then show ?thesis using m misfit_learns [OF l] by (auto simp: rule_match_eq)
  next
    case False
    then have b: "b" and all: "\<And>f. \<not> open_question r k f" using m by (auto simp: rule_match_eq split: if_splits)
    have same: "want r f \<noteq> '''' \<Longrightarrow> known k' f = known k f" for f
      using l all [of f] unfolding learns_def open_question_def by metis
    have "\<not> misfit r k' f" for f
    proof
      assume m': "misfit r k' f"
      then have w: "want r f \<noteq> ''''" by (simp add: misfit_def)
      moreover have "f = FReach \<Longrightarrow> waited k' = waited k"
        using l all [of f] w by (auto simp: learns_def open_question_def)
      ultimately have "misfit r k f"
        using m' same [OF w] by (cases "known k f"; cases "f = FReach") (simp_all add: misfit_def)
      then show False using False by blast
    qed
    moreover have "\<not> open_question r k' f" for f using all [of f] same [of f] by (auto simp: open_question_def)
    ultimately show ?thesis using b by (simp add: rule_match_eq)
  qed
qed


section \<open>Which rule decides\<close>

interpretation deciding: least_choice rule_key first_rule
  unfolding first_rule_def [abs_def] by (rule srt.least_choice_axioms)

definition rejecting :: "facts \<Rightarrow> adm_rule list \<Rightarrow> adm_rule list" where
  "rejecting k rules = filter (\<lambda>r. ar_action r = RejectTurn \<and> rule_match r k = Some True) rules"

definition exempted :: "facts \<Rightarrow> adm_rule list \<Rightarrow> bool" where
  "exempted k rules \<longleftrightarrow> (\<exists>r\<in>set rules. ar_action r = AllowTurn \<and> rule_match r k \<noteq> Some False)"

lemma decide_eq: "decide k rules = (if exempted k rules then None else first_rule (rejecting k rules))"
  unfolding decide_def exempted_def rejecting_def by (rule refl)

definition outranks :: "adm_rule \<Rightarrow> adm_rule \<Rightarrow> bool" where
  "outranks r s \<longleftrightarrow> specificity s < specificity r \<or> (specificity s = specificity r \<and> ar_id r < ar_id s)"

lemma rule_key_less: "rule_key r < rule_key s \<longleftrightarrow> outranks r s"
  by (auto simp: rule_key_def outranks_def)

lemma decide_is_the_best':
  assumes keys: "inj_on ar_id (set rules)"
  shows "decide k rules = Some r \<longleftrightarrow> \<not> exempted k rules \<and> r \<in> set (rejecting k rules)
    \<and> (\<forall>s\<in>set (rejecting k rules). s = r \<or> outranks r s)"
proof -
  have sub: "set (rejecting k rules) \<subseteq> set rules" by (auto simp: rejecting_def)
  have total: "s = r \<or> outranks r s \<or> outranks s r" if "r \<in> set (rejecting k rules)" "s \<in> set (rejecting k rules)" for s
  proof -
    have "s \<noteq> r \<longrightarrow> ar_id s \<noteq> ar_id r" using keys sub that by (metis inj_onD subsetD)
    then show ?thesis by (auto simp: outranks_def)
  qed
  have no: "\<not> (rule_key r \<le> rule_key s \<and> outranks s r)" for s by (auto simp: rule_key_less [symmetric])
  show ?thesis
  proof
    assume "decide k rules = Some r"
    then have "\<not> exempted k rules" "first_rule (rejecting k rules) = Some r" by (simp_all add: decide_eq split: if_splits)
    then show "\<not> exempted k rules \<and> r \<in> set (rejecting k rules) \<and> (\<forall>s\<in>set (rejecting k rules). s = r \<or> outranks r s)"
      using deciding.pick_least total no by blast
  next
    assume r: "\<not> exempted k rules \<and> r \<in> set (rejecting k rules) \<and> (\<forall>s\<in>set (rejecting k rules). s = r \<or> outranks r s)"
    then have "first_rule (rejecting k rules) = Some r"
      by (intro deciding.pick_single_least) (auto simp: rule_key_less)
    then show "decide k rules = Some r" using r by (simp add: decide_eq)
  qed
qed

text \<open>C24. A turn is refused by exactly one rule, whatever order the rules were read in: when no enabled
  \<open>allow\<close> rule could still match it, the rule that decides is the \<open>reject\<close> rule whose every condition is
  known to hold and that outranks all others of that kind, by more conditions, then by age.  A condition
  not known yet keeps a \<open>reject\<close> rule out and an \<open>allow\<close> rule in.\<close>

theorem decide_is_the_best:
  assumes "inj_on ar_id (set rules)"
  shows "(decide k rules = Some r \<longleftrightarrow>
      (\<forall>a\<in>set rules. ar_action a = AllowTurn \<longrightarrow> (\<exists>f. misfit a k f))
      \<and> r \<in> set rules \<and> ar_action r = RejectTurn \<and> (\<forall>f. \<not> misfit r k f \<and> \<not> open_question r k f)
      \<and> (\<forall>s\<in>set rules. ar_action s = RejectTurn \<longrightarrow> (\<forall>f. \<not> misfit s k f \<and> \<not> open_question s k f)
          \<longrightarrow> s = r \<or> outranks r s))
    \<and> (set rules' = set rules \<longrightarrow> decide k rules' = decide k rules)"
proof
  have sure: "rule_match s k = Some True \<longleftrightarrow> (\<forall>f. \<not> misfit s k f \<and> \<not> open_question s k f)" for s
    by (auto simp: rule_match_eq)
  have never: "rule_match s k \<noteq> Some False \<longleftrightarrow> (\<forall>f. \<not> misfit s k f)" for s
    by (auto simp: rule_match_eq)
  show "decide k rules = Some r \<longleftrightarrow>
      (\<forall>a\<in>set rules. ar_action a = AllowTurn \<longrightarrow> (\<exists>f. misfit a k f))
      \<and> r \<in> set rules \<and> ar_action r = RejectTurn \<and> (\<forall>f. \<not> misfit r k f \<and> \<not> open_question r k f)
      \<and> (\<forall>s\<in>set rules. ar_action s = RejectTurn \<longrightarrow> (\<forall>f. \<not> misfit s k f \<and> \<not> open_question s k f)
          \<longrightarrow> s = r \<or> outranks r s)"
    unfolding decide_is_the_best' [OF assms] exempted_def rejecting_def set_filter mem_Collect_eq sure never by blast
  show "set rules' = set rules \<longrightarrow> decide k rules' = decide k rules"
  proof
    assume same: "set rules' = set rules"
    then have "inj_on ar_id (set rules')" using assms by simp
    then have "decide k rules' = Some x \<longleftrightarrow> decide k rules = Some x" for x
      unfolding decide_is_the_best' [OF assms] decide_is_the_best' [OF \<open>inj_on ar_id (set rules')\<close>]
        exempted_def rejecting_def set_filter same by simp
    then show "decide k rules' = decide k rules" by (metis not_None_eq)
  qed
qed
definition any_api :: adm_rule where
  "any_api = (blank_rule 1 ''acme'')\<lparr> ar_origin := ''api'', ar_reason := ''not here'' \<rparr>"

definition member_api :: adm_rule where
  "member_api = (blank_rule 2 ''acme'')\<lparr> ar_origin := ''api'', ar_principal := ''member'', ar_reason := ''not by hand'' \<rparr>"

lemma decide_is_the_best_witness:
  "decide (facts_of (plain_turn ''cccccccc-3'') None None) [any_api, member_api]
    = decide (facts_of (plain_turn ''cccccccc-3'') None None) [member_api, any_api]"
  using decide_is_the_best [of "[member_api, any_api]" "facts_of (plain_turn ''cccccccc-3'') None None" any_api
      "[any_api, member_api]"]
  by (simp add: insert_commute any_api_def member_api_def blank_rule_def)


section \<open>A rejection, and when it is made\<close>

lemma learns_claim: "learns (facts_of t None None) (facts_of t (Some b) (Some m))"
  unfolding learns_def facts_of_def by (auto split: rule_field.split)

lemma reject_may_close: "status t = Queued \<Longrightarrow> may_close (reject_opts msg) t"
  by (simp add: may_close_def reject_opts_def close_defaults_def)

text \<open>What a rejection leaves behind.\<close>

definition rejected :: "admission \<Rightarrow> admission \<Rightarrow> turn \<Rightarrow> adm_rule \<Rightarrow> string \<Rightarrow> bool" where
  "rejected ad ad' t r detail \<longleftrightarrow>
     map_option status (get_turn (world ad') (turn_id t)) = Some Cancelled
     \<and> map_option result_note (get_turn (world ad') (turn_id t)) = Some (if is_sensitive (world ad) t
          then withheld_note (rejection_note r detail) else rejection_note r detail)
     \<and> finished_count (world ad') (turn_id t) = Suc (finished_count (world ad) (turn_id t))
     \<and> (content_purged_at t = None \<longrightarrow> (\<exists>e. rows_of (world ad') (turn_id t) = rows_of (world ad) (turn_id t) @ [e] \<and> ev_kind e = ''status''))
     \<and> notices_owed ad' = notices_owed ad @ [(turn_id t, ar_id r, detail)]
     \<and> map ar_fired_count (adm_rules ad')
         = map (\<lambda>s. ar_fired_count s + (if ar_id s = ar_id r then 1 else 0)) (adm_rules ad)"

lemma reject_eq:
  assumes ids: "turn_ids_ok (world ad)" and t: "get_turn (world ad) (turn_id t) = Some t"
  shows "fst (reject rd t r detail stage now ad) = (status t = Queued)
    \<and> (if status t = Queued then rejected ad (snd (reject rd t r detail stage now ad)) t r detail
       else snd (reject rd t r detail stage now ad) = ad)"
proof -
  let ?msg = "rejection_note r detail" and ?n = "turn_id t"
  have cancelled: "Cancelled \<in> set TERMINAL" by (simp add: TERMINAL_def)
  obtain b db where res: "close_turn rd ?n Cancelled (Some ?msg) (reject_opts ?msg) now (world ad) = (Inr b, db)"
    using close_with_guard [OF cancelled t] unfolding close_turn_def by (metis prod.collapse)
  note one = close_turn_ends_it_once' [OF ids t cancelled res]
  have b: "b = (status t = Queued)"
    using one by (simp add: may_close_def reject_opts_def close_defaults_def)
  show ?thesis
  proof (cases "status t = Queued")
    case False
    then show ?thesis using one b res by (simp add: reject_def Let_def)
  next
    case True
    have ended: "ended Cancelled (Some ?msg) (reject_opts ?msg) now (world ad) db t" using one b True by simp
    then obtain s where row: "get_turn db ?n = Some (close_fields s Cancelled (Some ?msg) (reject_opts ?msg) now t)"
      by (auto simp: ended_def)
    have quiet: "\<not> ledger_line (reject_opts ?msg)" by (simp add: reject_opts_def close_defaults_def)
    have rows: "rows_of db ?n = rows_of (world ad) ?n" using ended quiet by (auto simp: ended_def)
    have may: "may_close (reject_opts ?msg) t" by (rule reject_may_close [OF True])
    have noted: "get_turn db ?n = Some (close_fields (is_sensitive (world ad) t) Cancelled (Some ?msg) (reject_opts ?msg) now t)"
      by (rule close_turn_row [OF ids t cancelled may res])
    have said: "result_note (close_fields s Cancelled (Some ?msg) (reject_opts ?msg) now t) = (if s then withheld_note ?msg else ?msg)" for s
      by (simp add: close_fields_def reject_opts_def close_defaults_def rejection_note_def)
    have res': "reject rd t r detail stage now ad = (True, fire rd ?n r ?msg stage detail now (ad\<lparr>world := db\<rparr>))"
      using res b True by (simp add: reject_def Let_def)
    define line where "line = (''status'', dict_merge [(''status'', JStr (status_name Cancelled)),
        (''result_note'', JStr ?msg), (''admission_rule'', JNum (int (ar_id r)))] stage)"
    obtain new where new: "rows_of (snd (append_events rd ?n [line] db)) ?n = rows_of db ?n @ new"
      "length new = (if content_purged_at t = None then 1 else 0)" "\<forall>e\<in>set new. ev_kind e = ''status''"
      using append_events_rows [OF row, where rd = rd and es = "[line]" and m = ?n] by (auto simp: line_def)
    have "content_purged_at t = None \<longrightarrow> (\<exists>e. new = [e] \<and> ev_kind e = ''status'')"
      using new(2,3) by (cases new) (auto split: if_splits)
    moreover have "finished_count db ?n = Suc (finished_count (world ad) ?n)" using ended by (simp add: ended_def)
    ultimately have "rejected ad (fire rd ?n r ?msg stage detail now (ad\<lparr>world := db\<rparr>)) t r detail"
      unfolding rejected_def fire_def line_def [symmetric] using new(1) rows noted
      by (simp add: tbl_update_def comp_def said)
    then show ?thesis using res' True by simp
  qed
qed

lemma rules_for_keys: "inj_on ar_id (set (adm_rules ad)) \<Longrightarrow> inj_on ar_id (set (rules_for ad a))"
  by (erule inj_on_subset) (auto simp: rules_for_def)

definition sample_admission :: admission where
  "sample_admission = \<lparr> world = sample_turns, adm_rules = [any_api, member_api], next_rule = 3, notices_owed = [],
     last_sweep = None \<rparr>"

definition no_reach :: reach_api where
  "no_reach db t = \<lparr> re_kind = ReachLive, re_held_until = None, re_situation = '''' \<rparr>"


section \<open>The rule table stays well-formed\<close>

definition one_per_seed :: "adm_rule list \<Rightarrow> bool" where
  "one_per_seed rs \<longleftrightarrow> (\<forall>r\<in>set rs. \<forall>s\<in>set rs. ar_seed_key r \<noteq> '''' \<longrightarrow> ar_workspace r = ar_workspace s
     \<longrightarrow> ar_seed_key r = ar_seed_key s \<longrightarrow> ar_id r = ar_id s)"

definition rules_ok :: "admission \<Rightarrow> bool" where
  "rules_ok ad \<longleftrightarrow> distinct (map ar_id (adm_rules ad)) \<and> (\<forall>r\<in>set (adm_rules ad). ar_id r < next_rule ad)
     \<and> (\<forall>r\<in>set (adm_rules ad). choices_ok r \<and> clean (world ad) r = None) \<and> one_per_seed (adm_rules ad)"

inductive rules_op :: "admission \<Rightarrow> admission \<Rightarrow> bool" where
  op_create: "rules_op ad (snd (create_rule ws data ad))"
| op_update: "rules_op ad (snd (update_rule ws pk data ad))"
| op_delete: "rules_op ad (snd (delete_rule ws pk ad))"
| op_seed: "rules_op ad (snd (seed ws keys ad))"
| op_fire: "rules_op ad (fire rd n r msg stage detail now ad)"

inductive_cases rules_opE [consumes 1, case_names create update delete seed fire]: "rules_op ad ad'"

lemma apply_change_keeps: "apply_change db c r = Inr r' \<Longrightarrow>
    ar_id r' = ar_id r \<and> ar_workspace r' = ar_workspace r \<and> ar_seed_key r' = ar_seed_key r"
proof (cases c)
  case (SetField f s)
  assume "apply_change db c r = Inr r'"
  then show ?thesis using SetField by (cases f) auto
qed (auto split: if_splits)

lemma apply_changes_keeps: "apply_changes db cs r = Inr r' \<Longrightarrow>
    ar_id r' = ar_id r \<and> ar_workspace r' = ar_workspace r \<and> ar_seed_key r' = ar_seed_key r"
proof (induction cs arbitrary: r)
  case (Cons c cs)
  then show ?case using apply_change_keeps by (fastforce split: sum.splits)
qed simp

lemma full_clean_None:
  assumes "full_clean db rs r = None"
  shows "choices_ok r \<and> clean db r = None \<and> (ar_seed_key r \<noteq> '''' \<longrightarrow>
    (\<forall>s\<in>set rs. ar_id s \<noteq> ar_id r \<longrightarrow> ar_workspace s = ar_workspace r \<longrightarrow> ar_seed_key s \<noteq> ar_seed_key r))"
  using assms by (auto simp: full_clean_def split: if_splits option.splits)

lemma one_per_seed_append:
  assumes old: "one_per_seed rs" and new: "one_per_seed new"
    and apart: "\<And>r s. r \<in> set rs \<Longrightarrow> s \<in> set new \<Longrightarrow> ar_seed_key s \<noteq> ''''
      \<Longrightarrow> ar_workspace r = ar_workspace s \<Longrightarrow> ar_seed_key r \<noteq> ar_seed_key s"
  shows "one_per_seed (rs @ new)"
  unfolding one_per_seed_def
proof (intro ballI impI)
  fix r s assume rs: "r \<in> set (rs @ new)" "s \<in> set (rs @ new)" "ar_seed_key r \<noteq> ''''"
    "ar_workspace r = ar_workspace s" "ar_seed_key r = ar_seed_key s"
  have "\<not> (r \<in> set rs \<and> s \<in> set new)" using apart [of r s] rs(3-5) by metis
  moreover have "\<not> (s \<in> set rs \<and> r \<in> set new)" using apart [of s r] rs(3-5) by metis
  ultimately consider "r \<in> set rs" "s \<in> set rs" | "r \<in> set new" "s \<in> set new" using rs(1,2) by auto
  then show "ar_id r = ar_id s"
  proof cases
    case 1
    then show ?thesis using old rs(3-5) unfolding one_per_seed_def by blast
  next
    case 2
    then show ?thesis using new rs(3-5) unfolding one_per_seed_def by blast
  qed
qed

lemma number_rules_ids: "map ar_id (number_rules pk ws rs) = [pk..<pk + length rs]"
  by (induction rs arbitrary: pk) (simp_all add: upt_conv_Cons del: upt_Suc)

lemma number_rules_row: "r \<in> set (number_rules pk ws rs) \<Longrightarrow>
    \<exists>d\<in>set rs. \<exists>i. r = d\<lparr>ar_id := i, ar_workspace := ws\<rparr> \<and> pk \<le> i \<and> i < pk + length rs"
proof (induction rs arbitrary: pk)
  case (Cons d rs)
  show ?case
  proof (cases "r = d\<lparr>ar_id := pk, ar_workspace := ws\<rparr>")
    case False
    then obtain d' i where "d' \<in> set rs" "r = d'\<lparr>ar_id := i, ar_workspace := ws\<rparr>" "pk + 1 \<le> i" "i < pk + 1 + length rs"
      using Cons.IH [of "pk + 1"] Cons.prems by auto
    then show ?thesis by (intro bexI [of _ d'] exI [of _ i]) simp_all
  qed auto
qed simp

lemma number_rules_length [simp]: "length (number_rules pk ws rs) = length rs"
  by (induction rs arbitrary: pk) simp_all

lemma number_rules_seeds: "map ar_seed_key (number_rules pk ws rs) = map ar_seed_key rs"
  by (induction rs arbitrary: pk) simp_all

lemma defaults_distinct: "distinct (map ar_seed_key DEFAULTS)"
  by (simp add: DEFAULTS_def blank_rule_def)

lemma clean_anywhere: "ar_agent d = None \<Longrightarrow> clean db (d\<lparr>ar_id := i, ar_workspace := ws\<rparr>) = clean sample_turns d"
proof -
  assume "ar_agent d = None"
  moreover have "specificity (d\<lparr>ar_id := i, ar_workspace := ws\<rparr>) = specificity d"
    by (simp add: specificity_def CONDITIONS_def)
  ultimately show ?thesis by (simp add: clean_def is_refusal_def agent_elsewhere_def)
qed

lemma defaults_all: "list_all (\<lambda>d. choices_ok d \<and> ar_agent d = None \<and> clean sample_turns d = None \<and> ar_seed_key d \<noteq> '''') DEFAULTS"
  by code_simp

lemma defaults_ok: "d \<in> set DEFAULTS \<Longrightarrow> choices_ok (d\<lparr>ar_id := i, ar_workspace := ws\<rparr>)
    \<and> clean db (d\<lparr>ar_id := i, ar_workspace := ws\<rparr>) = None \<and> ar_seed_key d \<noteq> ''''"
  using defaults_all by (auto simp: list_all_iff clean_anywhere choices_ok_def)

definition seeded_rows :: "string \<Rightarrow> string list option \<Rightarrow> admission \<Rightarrow> adm_rule list" where
  "seeded_rows ws keys ad = number_rules (next_rule ad) ws (filter (\<lambda>d. ar_seed_key d \<notin>
      set (map ar_seed_key (filter (\<lambda>r. ar_workspace r = ws \<and> ar_seed_key r \<noteq> '''') (adm_rules ad)))
      \<and> (case keys of None \<Rightarrow> True | Some ks \<Rightarrow> ar_seed_key d \<in> set ks)) DEFAULTS)"

lemma seed_eq: "seed ws keys ad = (length (seeded_rows ws keys ad),
    ad\<lparr>adm_rules := adm_rules ad @ seeded_rows ws keys ad, next_rule := next_rule ad + length (seeded_rows ws keys ad)\<rparr>)"
  by (simp add: seed_def seeded_rows_def Let_def)

lemma seeded_row:
  assumes "r \<in> set (seeded_rows ws keys ad)"
  shows "choices_ok r \<and> clean db r = None \<and> ar_seed_key r \<noteq> '''' \<and> ar_workspace r = ws \<and> next_rule ad \<le> ar_id r
    \<and> ar_id r < next_rule ad + length (seeded_rows ws keys ad)
    \<and> (\<forall>s\<in>set (adm_rules ad). ar_workspace s = ws \<longrightarrow> ar_seed_key s \<noteq> ar_seed_key r)"
proof -
  obtain d i where d: "d \<in> set DEFAULTS" "r = d\<lparr>ar_id := i, ar_workspace := ws\<rparr>"
    "ar_seed_key d \<notin> set (map ar_seed_key (filter (\<lambda>r. ar_workspace r = ws \<and> ar_seed_key r \<noteq> '''') (adm_rules ad)))"
    "next_rule ad \<le> i" "i < next_rule ad + length (seeded_rows ws keys ad)"
    using number_rules_row [OF assms [unfolded seeded_rows_def]] by (auto simp: seeded_rows_def)
  note ok = defaults_ok [OF d(1), where i = i and ws = ws and db = db]
  have "ar_seed_key s \<noteq> ar_seed_key d" if "s \<in> set (adm_rules ad)" "ar_workspace s = ws" for s
  proof
    assume "ar_seed_key s = ar_seed_key d"
    then have "ar_seed_key d \<in> set (map ar_seed_key (filter (\<lambda>r. ar_workspace r = ws \<and> ar_seed_key r \<noteq> '''') (adm_rules ad)))"
      using that ok by (auto intro!: image_eqI [of _ _ s])
    then show False using d(3) by blast
  qed
  then show ?thesis using ok d(2,4,5) by simp
qed

lemma rules_ok_append:
  assumes ok: "rules_ok ad"
    and new: "\<And>r. r \<in> set rows \<Longrightarrow> choices_ok r \<and> clean (world ad) r = None"
    and ids: "map ar_id rows = [next_rule ad..<next_rule ad + length rows]"
    and seeds: "one_per_seed (adm_rules ad @ rows)"
  shows "rules_ok (ad\<lparr>adm_rules := adm_rules ad @ rows, next_rule := next_rule ad + length rows\<rparr>)"
proof -
  have "distinct (map ar_id rows)" using ids by (metis distinct_upt)
  moreover have fresh: "next_rule ad \<le> ar_id r \<and> ar_id r < next_rule ad + length rows" if "r \<in> set rows" for r
  proof -
    have "ar_id r \<in> set (map ar_id rows)" using that by simp
    then show ?thesis unfolding ids by simp
  qed
  moreover have "set (map ar_id (adm_rules ad)) \<inter> set (map ar_id rows) = {}"
    unfolding ids using ok by (fastforce simp: rules_ok_def)
  ultimately show ?thesis using ok new seeds by (auto simp: rules_ok_def)
qed

lemma rules_ok_create: "rules_ok ad \<Longrightarrow> rules_ok (snd (create_rule ws data ad))"
proof (cases "apply_changes (world ad) data (blank_rule (next_rule ad) ws)")
  case (Inr r)
  assume ok: "rules_ok ad"
  have r: "ar_id r = next_rule ad" "ar_seed_key r = ''''"
    using apply_changes_keeps [OF Inr] by (simp_all add: blank_rule_def)
  show ?thesis
  proof (cases "full_clean (world ad) (adm_rules ad) r")
    case None
    have "one_per_seed (adm_rules ad)" "one_per_seed [r]"
      using ok by (simp_all add: rules_ok_def) (simp add: one_per_seed_def)
    then have "one_per_seed (adm_rules ad @ [r])"
      by (rule one_per_seed_append) (use r in simp)
    then have "rules_ok (ad\<lparr>adm_rules := adm_rules ad @ [r], next_rule := next_rule ad + length [r]\<rparr>)"
      by (intro rules_ok_append [OF ok]) (use full_clean_None [OF None] r in auto)
    then show ?thesis using Inr None by (simp add: create_rule_def)
  qed (use ok Inr in \<open>simp add: create_rule_def\<close>)
qed (simp add: create_rule_def)

lemma rules_ok_update:
  assumes ok: "rules_ok ad"
  shows "rules_ok (snd (update_rule ws pk data ad))"
proof (cases "\<exists>r r'. find_rule ws pk ad = Some r \<and> apply_changes (world ad) data r = Inr r'
    \<and> full_clean (world ad) (adm_rules ad) r' = None")
  case False
  then show ?thesis using ok by (auto simp: update_rule_def split: option.split sum.split)
next
  case True
  then obtain r r' where r: "find_rule ws pk ad = Some r" and ch: "apply_changes (world ad) data r = Inr r'"
    and fc: "full_clean (world ad) (adm_rules ad) r' = None" by blast
  let ?rs = "tbl_update (\<lambda>s. ar_id s = pk) (\<lambda>_. r') (adm_rules ad)"
  have id: "ar_id r' = pk"
    using r apply_changes_keeps [OF ch] by (auto simp: find_rule_def find_Some_iff)
  have ids: "map ar_id ?rs = map ar_id (adm_rules ad)" by (simp add: tbl_update_def id)
  have rows: "set ?rs \<subseteq> insert r' {s \<in> set (adm_rules ad). ar_id s \<noteq> pk}" by (auto simp: tbl_update_def)
  note new = full_clean_None [OF fc]
  have seeds: "one_per_seed ?rs"
    unfolding one_per_seed_def
  proof (intro ballI impI)
    fix a b assume ab: "a \<in> set ?rs" "b \<in> set ?rs" "ar_seed_key a \<noteq> ''''" "ar_workspace a = ar_workspace b"
      "ar_seed_key a = ar_seed_key b"
    have "a = r' \<or> (a \<in> set (adm_rules ad) \<and> ar_id a \<noteq> pk)" "b = r' \<or> (b \<in> set (adm_rules ad) \<and> ar_id b \<noteq> pk)"
      using rows ab(1,2) by blast+
    then consider "a = r'" "b = r'" | "a = r'" "b \<in> set (adm_rules ad)" "ar_id b \<noteq> pk"
      | "b = r'" "a \<in> set (adm_rules ad)" "ar_id a \<noteq> pk" | "a \<in> set (adm_rules ad)" "b \<in> set (adm_rules ad)" by blast
    then show "ar_id a = ar_id b"
    proof cases
      case 2
      then show ?thesis using new id ab(3-5) by metis
    next
      case 3
      then show ?thesis using new id ab(3-5) by metis
    next
      case 4
      then show ?thesis using ok ab(3-5) unfolding rules_ok_def one_per_seed_def by blast
    qed simp
  qed
  have "\<forall>s\<in>set ?rs. ar_id s < next_rule ad"
  proof
    fix s assume "s \<in> set ?rs"
    then have "ar_id s \<in> set (map ar_id (adm_rules ad))" unfolding ids [symmetric] by simp
    then show "ar_id s < next_rule ad" using ok by (auto simp: rules_ok_def)
  qed
  then have "rules_ok (ad\<lparr>adm_rules := ?rs\<rparr>)"
    using ok new rows seeds ids unfolding rules_ok_def by auto
  then show ?thesis using r ch fc by (simp add: update_rule_def)
qed

lemma one_per_seed_subset: "one_per_seed rs \<Longrightarrow> set rs' \<subseteq> set rs \<Longrightarrow> one_per_seed rs'"
  unfolding one_per_seed_def by blast

lemma rules_ok_delete:
  assumes ok: "rules_ok ad"
  shows "rules_ok (snd (delete_rule ws pk ad))"
proof -
  have "one_per_seed (filter (\<lambda>s. ar_id s \<noteq> pk) (adm_rules ad))"
    by (rule one_per_seed_subset [of "adm_rules ad"]) (use ok in \<open>simp_all add: rules_ok_def\<close>)
  then have "rules_ok (ad\<lparr>adm_rules := filter (\<lambda>s. ar_id s \<noteq> pk) (adm_rules ad)\<rparr>)"
    using ok by (simp add: rules_ok_def distinct_map_filter)
  then show ?thesis using ok by (simp add: delete_rule_def split: option.split)
qed

lemma rules_ok_seed:
  assumes ok: "rules_ok ad"
  shows "rules_ok (snd (seed ws keys ad))"
proof -
  have "distinct (map ar_seed_key (seeded_rows ws keys ad))"
    unfolding seeded_rows_def number_rules_seeds by (rule distinct_map_filter [OF defaults_distinct])
  then have "one_per_seed (seeded_rows ws keys ad)"
    unfolding one_per_seed_def by (metis distinct_map inj_onD)
  moreover have "one_per_seed (adm_rules ad)" using ok by (simp add: rules_ok_def)
  ultimately have "one_per_seed (adm_rules ad @ seeded_rows ws keys ad)"
    by (intro one_per_seed_append) (use seeded_row [of _ ws keys ad] in metis)+
  moreover have "map ar_id (seeded_rows ws keys ad) = [next_rule ad..<next_rule ad + length (seeded_rows ws keys ad)]"
    unfolding seeded_rows_def number_rules_ids number_rules_length by (rule refl)
  ultimately show ?thesis
    unfolding seed_eq snd_conv by (intro rules_ok_append [OF ok]) (use seeded_row [of _ ws keys ad] in metis)+
qed

lemma clean_cong:
  assumes "agent_rows db' = agent_rows db"
  shows "clean db' r = clean db r"
  unfolding clean_def agent_elsewhere_def assms by (rule refl)

lemma append_agent_rows [simp]: "agent_rows (snd (append_events rd n es db)) = agent_rows db"
  by (simp add: append_events_def Let_def emit_def split: option.split)

lemma fired_same:
  "choices_ok (s\<lparr>ar_fired_count := k, ar_last_fired_at := w\<rparr>) = choices_ok s"
  "clean db (s\<lparr>ar_fired_count := k, ar_last_fired_at := w\<rparr>) = clean db s"
proof -
  let ?s = "s\<lparr>ar_fired_count := k, ar_last_fired_at := w\<rparr>"
  show "choices_ok ?s = choices_ok s" by (simp add: choices_ok_def)
  have "specificity ?s = specificity s" "is_refusal ?s = is_refusal s"
    by (simp_all add: specificity_def CONDITIONS_def is_refusal_def)
  moreover have "agent_elsewhere db ?s = agent_elsewhere db s" by (simp add: agent_elsewhere_def split: option.split)
  ultimately show "clean db ?s = clean db s" unfolding clean_def by (simp cong: if_cong split del: if_split)
qed

lemma rules_ok_fire: "rules_ok ad \<Longrightarrow> rules_ok (fire rd n r msg stage detail now ad)"
proof -
  assume ok: "rules_ok ad"
  let ?f = "\<lambda>s. if ar_id s = ar_id r then s\<lparr> ar_fired_count := ar_fired_count s + 1, ar_last_fired_at := Some now \<rparr> else s"
  have same: "ar_id (?f s) = ar_id s" "choices_ok (?f s) = choices_ok s" "clean db (?f s) = clean db s"
    "ar_seed_key (?f s) = ar_seed_key s" "ar_workspace (?f s) = ar_workspace s" for s db
    by (cases "ar_id s = ar_id r"; simp add: fired_same)+
  let ?rs = "map ?f (adm_rules ad)"
  have "map ar_id ?rs = map ar_id (adm_rules ad)" using same(1) by simp
  moreover have "one_per_seed ?rs"
    using ok unfolding rules_ok_def one_per_seed_def set_map by (simp only: ball_simps same) blast
  moreover have "adm_rules (fire rd n r msg stage detail now ad) = ?rs" "next_rule (fire rd n r msg stage detail now ad) = next_rule ad"
    by (simp_all add: fire_def tbl_update_def)
  moreover have "clean (world (fire rd n r msg stage detail now ad)) x = clean (world ad) x" for x
    by (rule clean_cong) (simp add: fire_def)
  moreover have "\<forall>x\<in>set ?rs. ar_id x < next_rule ad \<and> choices_ok x \<and> clean (world ad) x = None"
    using ok unfolding rules_ok_def set_map by (simp only: ball_simps same) blast
  ultimately show ?thesis
    using ok unfolding rules_ok_def by metis
qed

text \<open>C26. A workspace's rule table is well-typed at all times: whatever is created, edited, deleted, seeded or
  fired, in any order, every stored rule has ids of its own, only values its fields allow, an agent of its
  own workspace, at least one condition and none of the combinations that could never act; one default
  per key; and seeding a workspace twice adds nothing.\<close>

theorem rule_table_stays_well_typed:
  assumes "rules_op\<^sup>*\<^sup>* ad ad'" and "rules_ok ad"
  shows "rules_ok ad' \<and> fst (seed ws keys (snd (seed ws keys ad'))) = 0"
proof
  from assms show "rules_ok ad'"
  proof (induction rule: rtranclp_induct)
    case (step a b)
    from step(2) step(3) [OF step(4)] show ?case
      by (cases rule: rules_opE) (auto intro: rules_ok_create rules_ok_update rules_ok_delete rules_ok_seed rules_ok_fire)
  qed
  let ?new = "seeded_rows ws keys ad'" and ?ad = "snd (seed ws keys ad')"
  have "ar_seed_key d \<in> set (map ar_seed_key (filter (\<lambda>r. ar_workspace r = ws \<and> ar_seed_key r \<noteq> '''') (adm_rules ?ad)))"
    if d: "d \<in> set DEFAULTS" and k: "case keys of None \<Rightarrow> True | Some ks \<Rightarrow> ar_seed_key d \<in> set ks" for d
  proof (cases "ar_seed_key d \<in> set (map ar_seed_key (filter (\<lambda>r. ar_workspace r = ws \<and> ar_seed_key r \<noteq> '''') (adm_rules ad')))")
    case True
    then show ?thesis by (auto simp: seed_eq)
  next
    case False
    then have "ar_seed_key d \<in> set (map ar_seed_key ?new)"
      unfolding seeded_rows_def number_rules_seeds using d k by (simp only: set_map set_filter) blast
    then obtain r where r: "r \<in> set ?new" "ar_seed_key r = ar_seed_key d" by auto
    moreover have "ar_seed_key r \<noteq> ''''" "ar_workspace r = ws" using seeded_row [OF r(1)] by blast+
    ultimately show ?thesis by (auto simp: seed_eq intro!: image_eqI [of _ _ r])
  qed
  then have "filter (\<lambda>d. ar_seed_key d \<notin> set (map ar_seed_key (filter (\<lambda>r. ar_workspace r = ws \<and> ar_seed_key r \<noteq> '''') (adm_rules ?ad)))
      \<and> (case keys of None \<Rightarrow> True | Some ks \<Rightarrow> ar_seed_key d \<in> set ks)) DEFAULTS = []"
    unfolding filter_empty_conv by blast
  then have "seeded_rows ws keys ?ad = []" unfolding seeded_rows_def by simp
  then show "fst (seed ws keys ?ad) = 0" by (simp add: seed_eq [of ws keys ?ad])
qed

lemma rule_table_stays_well_typed_witness:
  "fst (seed ''acme'' None (snd (seed ''acme'' None
     \<lparr> world = sample_turns, adm_rules = [], next_rule = 1, notices_owed = [], last_sweep = None \<rparr>))) = 0"
proof -
  let ?ad = "\<lparr> world = sample_turns, adm_rules = [], next_rule = 1, notices_owed = [], last_sweep = None \<rparr>"
  have "rules_ok ?ad" by (simp add: rules_ok_def one_per_seed_def)
  with rule_table_stays_well_typed [OF rtranclp.rtrancl_refl, of ?ad "''acme''" None] show ?thesis by blast
qed

section \<open>What an early rejection means\<close>

lemma match_forgets:
  assumes "ar_reach r = ''''"
  shows "rule_match r (k\<lparr>known := (known k)(FReach := v), waited := w\<rparr>) = rule_match r k"
proof -
  let ?k = "k\<lparr>known := (known k)(FReach := v), waited := w\<rparr>"
  have quiet: "want r FReach = ''''" using assms by simp
  have other: "f \<noteq> FReach \<Longrightarrow> known ?k f = known k f" for f by simp
  have "misfit r ?k f = misfit r k f \<and> open_question r ?k f = open_question r k f" for f
  proof (cases "f = FReach")
    case True
    then show ?thesis unfolding misfit_def open_question_def True quiet by blast
  next
    case False
    then have no: "(f = FReach) = False" by simp
    show ?thesis unfolding misfit_def open_question_def other [OF False] by (simp only: no simp_thms)
  qed
  then show ?thesis by (simp only: rule_match_eq)
qed

lemma scope_rules:
  assumes ok: "rules_ok ad" and r: "r \<in> set (rules_for ad a)"
  shows "ar_action r = AllowTurn \<Longrightarrow> ar_reach r = ''''"
proof -
  assume "ar_action r = AllowTurn"
  moreover have "clean (world ad) r = None" using ok r by (simp add: rules_ok_def rules_for_def)
  ultimately show "ar_reach r = ''''" by (auto simp: clean_def split: if_splits)
qed

lemma rules_ok_keys: "rules_ok ad \<Longrightarrow> inj_on ar_id (set (rules_for ad a))"
  by (rule rules_for_keys) (simp add: rules_ok_def distinct_map)

text \<open>C25. What an early rejection means.  A turn refused as it is queued is refused by the one rule that
  decides on what is known by then: the turn, and where it stands with the machines when some rule in
  scope asks.  It is cancelled with the note that names the rule and its reason (withheld on a sensitive
  turn), with one line on its ledger, one notice owed and the rule's count raised by one.  When that rule
  is about the turn alone the early answer stands: every claim, whichever runner and mode it came with,
  would refuse the turn and leave the same, by the same rule or by one that outranks it.  The only other
  rules are about the machines: then the turn was at that moment in the state the rule names, and had
  waited the rule's hours where it says so.\<close>

theorem an_early_rejection_stands:
  assumes ids: "turn_ids_ok (world ad)" and t: "get_turn (world ad) (turn_id t) = Some t"
    and ok: "rules_ok ad" and a: "acting_agent (world ad) t = Some a"
    and asked: "(k, detail) = (if \<exists>r\<in>set (rules_for ad a). ar_reach r \<noteq> ''''
        then with_reach reach (world ad) t now (facts_of t None None) else (facts_of t None None, ''''))"
    and early: "at_enqueue rd reach t now ad = (True, ad')"
  shows "\<exists>r. decide k (rules_for ad a) = Some r \<and> rejected ad ad' t r detail
    \<and> (if ar_reach r = ''''
       then \<forall>b m. \<exists>r'. decide (facts_of t (Some b) (Some m)) (rules_for ad a) = Some r' \<and> (r' = r \<or> outranks r' r)
          \<and> fst (at_claim rd t b m now ad) \<and> rejected ad (snd (at_claim rd t b m now ad)) t r' ''''
       else reach_state (reach (world ad) t) = ar_reach r
          \<and> (ar_reach r = ''offline'' \<longrightarrow> int (ar_wait_hours r) * HOUR \<le> now - created_at t))"
proof -
  have q: "status t = Queued" using early by (auto simp: at_enqueue_def split: if_splits)
  have keys: "inj_on ar_id (set (rules_for ad a))" by (rule rules_ok_keys [OF ok])
  obtain r where r: "decide k (rules_for ad a) = Some r"
    and res: "reject rd t r detail [(''at'', JStr ''enqueue'')] now ad = (True, ad')"
    using early q a asked [symmetric] by (auto simp: at_enqueue_def Let_def split: option.splits)
  have left: "rejected ad ad' t r detail" using reject_eq [OF ids t, of rd r detail "[(''at'', JStr ''enqueue'')]" now] res q by simp
  have known: "rule_match x k = rule_match x (facts_of t None None)" if "ar_reach x = ''''" for x
    using asked match_forgets [OF that] by (auto simp: with_reach_def Let_def split: if_splits)
  have here: "\<not> exempted k (rules_for ad a)" "r \<in> set (rules_for ad a)" "rule_match r k = Some True" "ar_action r = RejectTurn"
    using r unfolding decide_is_the_best' [OF keys] rejecting_def by auto
  show ?thesis
  proof (intro exI [of _ r] conjI r left)
    have later: "\<exists>r'. decide (facts_of t (Some b) (Some m)) (rules_for ad a) = Some r' \<and> (r' = r \<or> outranks r' r)
        \<and> fst (at_claim rd t b m now ad) \<and> rejected ad (snd (at_claim rd t b m now ad)) t r' ''''"
      if "ar_reach r = ''''" for b m
    proof -
      let ?K = "facts_of t (Some b) (Some m)"
      have "rule_match x ?K = Some False" if x: "x \<in> set (rules_for ad a)" "ar_action x = AllowTurn" for x
      proof -
        have "rule_match x k = Some False" using here(1) x by (auto simp: exempted_def)
        then show ?thesis unfolding known [OF scope_rules [OF ok x]] by (rule match_learns [OF learns_claim])
      qed
      then have no: "\<not> exempted ?K (rules_for ad a)" by (auto simp: exempted_def)
      have "rule_match r ?K = Some True" using here(3) known [OF that] match_learns [OF learns_claim] by metis
      then have "r \<in> set (rejecting ?K (rules_for ad a))" using here by (simp add: rejecting_def)
      moreover from this obtain r' where "first_rule (rejecting ?K (rules_for ad a)) = Some r'" using deciding.pick_some by blast
      ultimately have r': "decide ?K (rules_for ad a) = Some r'" "r' = r \<or> outranks r' r"
        using no decide_is_the_best' [OF keys, of ?K r'] by (auto simp: decide_eq)
      have "at_claim rd t b m now ad = reject rd t r' ''''
          [(''runner'', JStr (rb_name b)), (''runner_kind'', JStr (rb_kind b))] now ad"
        using a r'(1) by (simp add: at_claim_def)
      then show ?thesis using r' reject_eq [OF ids t] q by simp
    qed
    have "reach_state (reach (world ad) t) = ar_reach r
        \<and> (ar_reach r = ''offline'' \<longrightarrow> int (ar_wait_hours r) * HOUR \<le> now - created_at t)" if "ar_reach r \<noteq> ''''"
    proof -
      have "\<exists>x\<in>set (rules_for ad a). ar_reach x \<noteq> ''''" using here(2) that by blast
      then have k: "k = (facts_of t None None)\<lparr>known := (known (facts_of t None None))(FReach := Some (reach_state (reach (world ad) t))),
          waited := now - created_at t\<rparr>"
        using asked by (simp add: with_reach_def Let_def)
      have "\<not> misfit r k FReach" using here(3) by (auto simp: rule_match_eq split: if_splits)
      then show ?thesis using that by (auto simp: misfit_def k)
    qed
    with later show "if ar_reach r = ''''
       then \<forall>b m. \<exists>r'. decide (facts_of t (Some b) (Some m)) (rules_for ad a) = Some r' \<and> (r' = r \<or> outranks r' r)
          \<and> fst (at_claim rd t b m now ad) \<and> rejected ad (snd (at_claim rd t b m now ad)) t r' ''''
       else reach_state (reach (world ad) t) = ar_reach r
          \<and> (ar_reach r = ''offline'' \<longrightarrow> int (ar_wait_hours r) * HOUR \<le> now - created_at t)" by simp
  qed
qed

text \<open>A seeded workspace: the rules about reach are in scope, and a member's API turn is refused by hand.\<close>

definition seeded_admission :: admission where
  "seeded_admission = snd (seed ''acme'' None sample_admission)"

lemma an_early_rejection_stands_witness:
  "fst (at_claim blind_redactor (plain_turn ''cccccccc-3''\<lparr>status := Queued, lease_expires_at := None, claimed_by := None\<rparr>)
     (plain_box 7 ''cloud'')
     ''manual'' 5 seeded_admission)"
proof -
  let ?t = "plain_turn ''cccccccc-3''\<lparr>status := Queued, lease_expires_at := None, claimed_by := None\<rparr>"
  let ?a = "\<lparr> ag_slug = ''eva'', ag_workspace = ''acme'', ag_held = False, ag_clis = [] \<rparr>"
  let ?e = "at_enqueue blind_redactor no_reach ?t 5 seeded_admission"
  let ?k = "with_reach no_reach (world seeded_admission) ?t 5 (facts_of ?t None None)"
  have rows: "turn_ids_ok (world seeded_admission)" "get_turn (world seeded_admission) (turn_id ?t) = Some ?t" by code_simp+
  have ok: "rules_ok seeded_admission" by code_simp
  have a: "acting_agent (world seeded_admission) ?t = Some ?a" by code_simp
  have asks: "\<exists>r\<in>set (rules_for seeded_admission ?a). ar_reach r \<noteq> ''''" by code_simp
  then have k: "(fst ?k, snd ?k) = (if \<exists>r\<in>set (rules_for seeded_admission ?a). ar_reach r \<noteq> ''''
      then ?k else (facts_of ?t None None, ''''))" by simp
  have "fst ?e" by code_simp
  then have "?e = (True, snd ?e)" by (simp add: prod_eq_iff)
  from an_early_rejection_stands [OF rows ok a k this]
  obtain r where r: "decide (fst ?k) (rules_for seeded_admission ?a) = Some r"
    and claim: "ar_reach r = '''' \<Longrightarrow> fst (at_claim blind_redactor ?t (plain_box 7 ''cloud'') ''manual'' 5 seeded_admission)" by (auto split: if_splits)
  have "map_option ar_reach (decide (fst ?k) (rules_for seeded_admission ?a)) = Some ''''" by code_simp
  then show ?thesis using r claim by simp
qed

end
