(* ===== verification/Turn_Frames.thy ===== *)
theory Turn_Frames
  imports Admission Turn_Finish
begin

text \<open>
  What the operations on turns leave in place, proved once for any relation between a row and what
  it becomes.  A client names the relation on turns and on conversations, and which endings of which
  turns it admits; the facts of the locale then hold for every operation built from those.
\<close>

definition row_step :: "(turn \<Rightarrow> turn \<Rightarrow> bool) \<Rightarrow> (chat \<Rightarrow> chat \<Rightarrow> bool) \<Rightarrow> turndb \<Rightarrow> turndb \<Rightarrow> bool" where
  "row_step R C db db' \<longleftrightarrow> list_all2 R (turns db) (turns db') \<and> list_all2 C (chats db) (chats db')
     \<and> boxes db' = boxes db \<and> agent_rows db' = agent_rows db"

lemma list_all2_tbl_update:
  "(\<And>r. R r r) \<Longrightarrow> (\<And>r. r \<in> set rs \<Longrightarrow> P r \<Longrightarrow> R r (f r)) \<Longrightarrow> list_all2 R rs (tbl_update P f rs)"
  by (auto simp: tbl_update_def list_all2_map2 list.rel_refl_strong intro!: list.rel_refl_strong)

lemma list_all2_get:
  assumes "list_all2 R rs rs'" and "\<And>r r'. R r r' \<Longrightarrow> key r' = key r" and "tbl_get key k rs = Some r"
  shows "\<exists>r'. tbl_get key k rs' = Some r' \<and> R r r'"
  using assms(1,3) by (induction rs rs' rule: list_all2_induct) (auto dest: assms(2) split: if_splits)

lemma list_all2_get_back:
  assumes "list_all2 R rs rs'" and "\<And>r r'. R r r' \<Longrightarrow> key r' = key r" and "tbl_get key k rs' = Some r'"
  shows "\<exists>r. tbl_get key k rs = Some r \<and> R r r'"
  using assms(1,3) by (induction rs rs' rule: list_all2_induct) (auto dest: assms(2) split: if_splits)

lemma other_tables [simp]:
  "agent_rows (emit e db) = agent_rows db"
  "boxes (forget_the_page c db) = boxes db" "agent_rows (forget_the_page c db) = agent_rows db"
  "boxes (revoke_for_turn n now db) = boxes db" "agent_rows (revoke_for_turn n now db) = agent_rows db"
  "boxes (close_hooks t st opts now db) = boxes db" "agent_rows (close_hooks t st opts now db) = agent_rows db"
  by (simp_all add: emit_def forget_the_page_def revoke_for_turn_def close_hooks_def hook_defs split: option.split)

lemma hooks_chats [simp]: "chats (close_hooks t st opts now db) = chats db"
  by (simp add: close_hooks_def hook_defs emit_def split: option.split)

locale turn_frame =
  fixes R :: "turn \<Rightarrow> turn \<Rightarrow> bool" and C :: "chat \<Rightarrow> chat \<Rightarrow> bool"
    and may_end :: "turn_status set" and ends_as :: "turn_status set"
  assumes R_refl: "R t t" and R_trans: "R t u \<Longrightarrow> R u v \<Longrightarrow> R t v"
    and C_refl: "C c c" and C_trans: "C c d \<Longrightarrow> C d e \<Longrightarrow> C c e"
    and C_page: "C c (c\<lparr>ch_page_state := []\<rparr>)"
    and executing_ends: "set EXECUTING \<subseteq> may_end"
    and R_close: "st \<in> ends_as \<Longrightarrow> status t \<in> may_end \<Longrightarrow> R t (close_fields s st msg opts now t)"
begin

abbreviation kept :: "turndb \<Rightarrow> turndb \<Rightarrow> bool" where
  "kept \<equiv> row_step R C"

lemma kept_refl [simp]: "kept db db"
  by (simp add: row_step_def R_refl C_refl list.rel_refl)

lemma kept_trans: "kept a b \<Longrightarrow> kept b c \<Longrightarrow> kept a c"
proof -
  have "transp (list_all2 R)" by (rule list.rel_transp) (rule transpI, erule (1) R_trans)
  moreover have "transp (list_all2 C)" by (rule list.rel_transp) (rule transpI, erule (1) C_trans)
  ultimately show "kept a b \<Longrightarrow> kept b c \<Longrightarrow> kept a c"
    unfolding row_step_def by (metis transpD)
qed

lemma kept_frame: "turns db' = turns db \<Longrightarrow> chats db' = chats db \<Longrightarrow> boxes db' = boxes db \<Longrightarrow> agent_rows db' = agent_rows db
    \<Longrightarrow> kept db db'"
  by (simp add: row_step_def R_refl C_refl list.rel_refl)

lemma kept_update:
  "(\<And>r. r \<in> set (turns db) \<Longrightarrow> P r \<Longrightarrow> R r (f r)) \<Longrightarrow> kept db (db\<lparr>turns := tbl_update P f (turns db)\<rparr>)"
  by (simp add: row_step_def C_refl list.rel_refl list_all2_tbl_update R_refl)

lemma kept_chats:
  "(\<And>c. c \<in> set (chats db) \<Longrightarrow> P c \<Longrightarrow> C c (f c)) \<Longrightarrow> kept db (db\<lparr>chats := tbl_update P f (chats db)\<rparr>)"
  by (simp add: row_step_def R_refl list.rel_refl list_all2_tbl_update C_refl)

lemma kept_forget: "kept db (forget_the_page c db)"
  unfolding forget_the_page_def by (auto intro: kept_chats C_page)

lemma kept_events: "kept db (snd (append_events rd n es db))"
  by (rule kept_frame) simp_all

lemma kept_record: "kept db (close_record rd t s st msg opts now db)"
proof -
  define a where "a = (case conversation_of t of None \<Rightarrow> db | Some c \<Rightarrow> if s then forget_the_page c db else db)"
  define b where "b = revoke_for_turn (turn_id t) now (if s \<and> chat_session t \<noteq> None then emit (ForgetAttachments (turn_id t)) a else a)"
  have "kept db a" using kept_forget by (auto simp: a_def split: option.split)
  moreover have "kept a b" by (rule kept_frame) (simp_all add: b_def)
  moreover have "close_record rd t s st msg opts now db = emit (TurnFinishedFact (turn_id t) now)
      (if ledger_line opts then snd (append_events rd (turn_id t) [(''status'', status_payload st msg (event_extra opts))] b) else b)"
    unfolding close_record_def Let_def a_def b_def by (rule refl)
  then have "kept b (close_record rd t s st msg opts now db)" by (intro kept_frame) simp_all
  ultimately show ?thesis using kept_trans by blast
qed

lemma kept_close_with:
  assumes st: "st \<in> ends_as" and from_st: "set (from_states opts) \<subseteq> may_end" and riders: "\<And>d. kept d (end_riders n st now d)"
  shows "kept db (snd (close_with end_riders rd n st msg opts now db))"
proof -
  have turns: "kept d (d\<lparr>turns := tbl_update (\<lambda>r. turn_id r = n \<and> may_close opts r) (close_fields s st msg opts now) (turns d)\<rparr>)" for d s
    by (rule kept_update) (use R_close [OF st] from_st in \<open>auto simp: may_close_def\<close>)
  have hooks: "kept d (close_hooks t st opts now d)" for d t by (rule kept_frame) simp_all
  show ?thesis
    unfolding close_with_def Let_def
    by (auto split: option.split intro: kept_trans [OF kept_trans [OF turns kept_record] hooks]
        kept_trans [OF kept_trans [OF kept_trans [OF turns kept_record] riders] hooks])
qed

lemma kept_rider: "st \<in> ends_as \<Longrightarrow> kept db (close_rider rd n st now x db)"
  unfolding close_rider_def
  by (rule kept_close_with) (use executing_ends in \<open>auto simp: rider_opts_def close_defaults_def\<close>)

lemma kept_fold: "(\<And>x d. kept d (f x d)) \<Longrightarrow> kept db (fold f xs db)"
  by (induction xs arbitrary: db) (auto intro: kept_trans)

lemma kept_riders: "st \<in> ends_as \<Longrightarrow> kept db (close_riders rd n st now db)"
  unfolding close_riders_def by (rule kept_fold) (rule kept_rider)

lemma kept_close:
  "st \<in> ends_as \<Longrightarrow> set (from_states opts) \<subseteq> may_end \<Longrightarrow> kept db (snd (close_turn rd n st msg opts now db))"
  unfolding close_turn_def by (intro kept_close_with kept_riders)

lemma kept_fire: "kept (world ad) (world (fire rd n r msg stage detail now ad))"
  by (rule kept_frame) (simp_all add: fire_def)

lemma kept_reject:
  assumes "Cancelled \<in> ends_as" and "Queued \<in> may_end"
  shows "kept (world ad) (world (snd (reject rd t r detail stage now ad)))"
proof -
  let ?c = "close_turn rd (turn_id t) Cancelled (Some (rejection_note r detail)) (reject_opts (rejection_note r detail)) now (world ad)"
  obtain res db where c: "?c = (res, db)" by (cases ?c)
  have "kept (world ad) (snd ?c)" by (rule kept_close) (use assms in \<open>simp_all add: reject_opts_def close_defaults_def\<close>)
  then have db: "kept (world ad) db" by (simp add: c)
  consider "res = Inr True" | "res \<noteq> Inr True" by blast
  then show ?thesis
  proof cases
    case 1
    then show ?thesis
      using c kept_trans [OF db] kept_fire [of "ad\<lparr>world := db\<rparr>"] by (simp add: reject_def Let_def)
  next
    case 2
    then show ?thesis using c db by (cases res) (auto simp: reject_def Let_def split: bool.split)
  qed
qed

lemma kept_at_claim:
  "Cancelled \<in> ends_as \<Longrightarrow> Queued \<in> may_end \<Longrightarrow> kept (world ad) (world (snd (at_claim rd t b mode now ad)))"
  by (simp add: at_claim_def kept_reject split: option.split)

lemma kept_at_enqueue:
  "Cancelled \<in> ends_as \<Longrightarrow> Queued \<in> may_end \<Longrightarrow> kept (world ad) (world (snd (at_enqueue rd reach t now ad)))"
  by (simp add: at_enqueue_def Let_def kept_reject split: option.split prod.split)

lemma kept_recheck:
  "Cancelled \<in> ends_as \<Longrightarrow> Queued \<in> may_end \<Longrightarrow> kept (world ad) (world (snd (recheck rd reach t now ad)))"
  by (simp add: recheck_def Let_def kept_reject split: option.split prod.split)

lemma kept_at_refusal: "kept (world ad) (world (snd (at_refusal rd t s x now ad)))"
  by (simp add: at_refusal_def Let_def kept_fire split: option.split)

lemma kept_recheck_all:
  assumes "Cancelled \<in> ends_as" and "Queued \<in> may_end"
  shows "kept (world (snd s)) (world (snd (recheck_all rd reach ts now s)))"
proof (induction ts arbitrary: s)
  case (Cons t ts)
  obtain b ad where r: "recheck rd reach t now (snd s) = (b, ad)" by (cases "recheck rd reach t now (snd s)")
  have "kept (world (snd s)) (world ad)" using kept_recheck [OF assms, of "snd s"] r by (metis snd_conv)
  moreover have "kept (world ad) (world (snd (recheck_all rd reach (t # ts) now s)))"
    using Cons.IH [of "(fst s + (if b then 1 else 0), ad)"] by (simp add: r)
  ultimately show ?case by (rule kept_trans)
qed simp

lemma kept_stranded:
  "Cancelled \<in> ends_as \<Longrightarrow> Queued \<in> may_end \<Longrightarrow> kept (world ad) (world (snd (recheck_stranded rd reach covered b now ad)))"
  unfolding recheck_stranded_def using kept_recheck_all [of "(0, ad)"] by simp

end

text \<open>With a relation that also admits running, finishing and going back to the queue, every operation
  on turns keeps it.\<close>

locale turn_ops_frame = turn_frame +
  assumes ends_all: "ends_as = set TERMINAL" and may_end_all: "set NON_TERMINAL \<union> {Done} \<subseteq> may_end"
    and C_cli: "C c (c\<lparr>ch_cli := x\<rparr>)"
    and R_running: "status t \<in> {Claimed, Running} \<Longrightarrow> R t (t\<lparr>status := Running, started_at := w, session_id := y\<rparr>)"
    and R_waits: "status t \<in> {Claimed, Running} \<Longrightarrow> R t (rider_waits msg u t)"
    and R_later: "status t \<in> {Claimed, Running} \<Longrightarrow> R t (retry_later msg t)"
begin

lemma kept_close_any:
  assumes from_st: "set (from_states opts) \<subseteq> set NON_TERMINAL \<union> {Done}"
  shows "kept db (snd (close_turn rd n st msg opts now db))"
proof (cases "st \<in> set TERMINAL")
  case True
  then show ?thesis using from_st may_end_all ends_all by (intro kept_close) auto
qed (simp add: close_turn_def close_with_def)

lemma kept_running: "kept db (mark_running rd n sid now db)"
proof (cases "get_turn db n")
  case (Some t)
  let ?go = "\<lambda>r. turn_id r = n \<and> status r \<in> {Claimed, Running}"
  let ?f = "\<lambda>r. r\<lparr> status := Running, started_at := (if started_at t = None then Some now else started_at r),
              session_id := (if sid \<noteq> '''' then sid else session_id r) \<rparr>"
  have "kept db (db\<lparr>turns := tbl_update ?go ?f (turns db)\<rparr>)" by (rule kept_update) (blast intro: R_running)
  then show ?thesis
    using Some kept_trans [OF _ kept_events] by (simp add: mark_running_def tbl_cas_def Let_def)
qed (simp add: mark_running_def)

lemma kept_revoke: "kept db (revoke_for_turn n now db)"
  by (rule kept_frame) simp_all

lemma kept_pin: "kept db (pin_conversation cs c db)"
  by (simp add: pin_conversation_def Let_def C_cli kept_chats)

lemma kept_back:
  assumes "\<And>t. status t \<in> {Claimed, Running} \<Longrightarrow> R t (f t)"
  shows "kept db (db\<lparr>turns := tbl_update (sessionless n) f (turns db)\<rparr>)"
  by (rule kept_update) (use assms in \<open>simp add: sessionless_def\<close>)

lemma finish_states: "set (from_states (finish_opts q s)) \<subseteq> set NON_TERMINAL \<union> {Done}"
  by (auto simp: finish_opts_def close_defaults_def EXECUTING_def NON_TERMINAL_def)

lemma kept_for_good: "kept db (finish_for_good rd t st msg q now db)"
proof -
  define s where "s = stop_ignored db st (turn_id t)"
  define msg' where "msg' = (if s then stop_note msg else msg)"
  define a where "a = (if st = Done \<and> t_cli t \<noteq> '''' then pin_conversation [chat_session t, canopy_session t] (t_cli t) db else db)"
  obtain res b where c: "close_turn rd (turn_id t) st (Some msg') (finish_opts q (drill_summary s st msg')) now a = (res, b)"
    by fastforce
  have "kept db a" using kept_pin by (simp add: a_def)
  moreover have "kept a b" using kept_close_any [OF finish_states] c by (metis snd_conv)
  ultimately have ab: "kept db b" by (rule kept_trans)
  have "finish_for_good rd t st msg q now db = (case (res, b) of (Inr True, db') \<Rightarrow>
      (if s then snd (append_events rd (turn_id t) [(''error'', [(''detail'',
          JStr (''your stop never reached the runner'' @ dash @ ''this turn ran to completion''))])] db') else db') | (_, db') \<Rightarrow> db')"
    unfolding finish_for_good_def Let_def s_def [symmetric] msg'_def [symmetric] a_def [symmetric] c [symmetric] by (rule refl)
  then show ?thesis using ab kept_trans [OF ab kept_events] by (auto split: sum.split bool.split)
qed

lemma kept_finish: "turn_ids_ok db \<Longrightarrow> kept db (snd (finish_turn rd n st result q now db))"
proof (cases "st \<in> set FINISH_STATUSES \<and> get_turn db n \<noteq> None")
  case True
  assume ids: "turn_ids_ok db"
  from True obtain t where st: "st \<in> set FINISH_STATUSES" and t: "get_turn db n = Some t" by blast
  let ?a = "revoke_for_turn n now db"
  have waits: "kept ?a (back_to_queue rd l (rider_waits m t) n ?a)" for l m
    unfolding back_to_queue_def by (rule kept_trans [OF kept_back kept_events]) (rule R_waits)
  have later: "kept ?a (snd (append_events rd n [l] (close_riders rd n Failed now
      (?a\<lparr>turns := tbl_update (sessionless n) (retry_later m) (turns ?a)\<rparr>))))" for l m
    by (rule kept_trans [OF kept_trans [OF kept_back [OF R_later] kept_riders] kept_events])
      (simp_all add: ends_all TERMINAL_def)
  show ?thesis
    unfolding finish_turn_eq [OF ids t st] snd_conv Let_def
    by (rule kept_trans [OF kept_revoke [of db n now]]) (simp only: if_split [where P = "kept ?a"] waits later kept_for_good simp_thms)
next
  case False
  then show ?thesis by (auto simp: finish_turn_def)
qed

lemma kept_request: "kept db (request_cancel rd by' t db)"
  by (rule kept_frame) (simp_all add: request_cancel_def Let_def split: option.split)

lemma kept_cancel_walk: "cancel_walk k rd n by' now db = Some (b, db') \<Longrightarrow> kept db db'"
proof (induction k arbitrary: n db b db')
  case (Suc k)
  show ?case
  proof (cases "get_turn db n")
    case (Some t0)
    obtain res a where c: "(if status t0 = Queued
        then close_turn rd n Cancelled (Some ''cancelled'') (cancel_opts by') now db else (Inr False, db)) = (res, a)"
      by fastforce
    have "set (from_states (cancel_opts by')) \<subseteq> set NON_TERMINAL \<union> {Done}"
      by (simp add: cancel_opts_def close_defaults_def NON_TERMINAL_def)
    then have a: "kept db a" using kept_close_any c by (metis kept_refl snd_conv)
    have "kept a db'"
      using Suc.prems Some c by (auto simp: kept_request split: option.splits if_splits dest: Suc.IH)
    with a show ?thesis by (rule kept_trans)
  qed (use Suc.prems in simp)
qed simp

lemma kept_sweep_one: "kept (snd s) (snd (sweep_one rd stamp now t s))"
proof (cases s)
  case (Pair c d)
  have states: "set (from_states (sweep_opts now x)) \<subseteq> set NON_TERMINAL \<union> {Done}" for x
    by (auto simp: sweep_opts_def close_defaults_def)
  have "snd (sweep_one rd stamp now t s) = snd (close_turn rd (turn_id t) (sweep_status d (turn_id t))
        (if py_strip (result_note t) \<noteq> '''' then None else Some (lease_lapse_note stamp d t now))
        (sweep_opts now (sweep_status d (turn_id t))) now d)"
    by (simp add: Pair sweep_one_def Let_def split: prod.split sum.split bool.split)
  then show ?thesis using kept_close_any [OF states] Pair by simp
qed

lemma kept_sweep: "kept db (snd (sweep_expired_leases rd stamp now db))"
proof -
  have all: "kept (snd s) (snd (fold (sweep_one rd stamp now) xs s))" for xs s
  proof (induction xs arbitrary: s)
    case (Cons x xs)
    show ?case using kept_trans [OF kept_sweep_one Cons.IH, of s rd stamp now x] by simp
  qed simp
  have stale: "kept d (revoke_stale now d)" for d by (rule kept_frame) (simp_all add: revoke_stale_def)
  obtain c d where f: "fold (sweep_one rd stamp now) (filter (\<lambda>t. status t \<in> set EXECUTING \<and> lease_expired now t) (turns db)) (0, db) = (c, d)"
    by fastforce
  have "kept db d" using all [of "(0, db)"] f by (metis snd_conv)
  then show ?thesis using kept_trans [OF _ stale] by (simp add: sweep_expired_leases_def f)
qed

lemma kept_abort: "kept db (snd (abort rd n reason tool by' now db))"
proof (cases "get_turn db n")
  case (Some t)
  define opts where "opts = (close_defaults ABORTABLE)\<lparr>event_extra := abort_event tool by'\<rparr>"
  define msg where "msg = abort_note reason tool"
  obtain res a where c: "close_turn rd n Failed (Some msg) opts now db = (res, a)" by fastforce
  have "set (from_states opts) \<subseteq> set NON_TERMINAL \<union> {Done}"
    by (auto simp: opts_def close_defaults_def ABORTABLE_def EXECUTING_def NON_TERMINAL_def)
  then have a: "kept db a" using kept_close_any c by (metis snd_conv)
  have "kept db (emit e (snd (append_events rd n es a)))" for e es
    by (rule kept_trans [OF a]) (rule kept_frame, simp_all)
  then show ?thesis
    using Some a kept_trans [OF a kept_events] unfolding abort_def msg_def [symmetric] opts_def [symmetric] Let_def c
    by (auto split: sum.split bool.split option.split)
qed (simp add: abort_def)

lemma kept_transcript: "kept db (snd (append_transcript n ls b db))"
  by (rule kept_frame) (simp_all add: append_transcript_def put_transcript_def Let_def split: option.split)

lemma kept_op: "turn_op db db' \<Longrightarrow> kept db db'"
proof (induction rule: turn_op.induct)
  case (op_step db db')
  then show ?case
  proof (induction rule: turn_step.induct)
    case (step_close db opts rd n st msg now)
    then show ?case by (intro kept_close_any) blast
  qed (rule kept_events kept_transcript kept_sweep kept_abort)+
next
  case (op_cancel db rd n by' now b db')
  then show ?case using kept_cancel_walk unfolding cancel_turn_def by blast
qed (simp_all add: kept_running kept_finish)

end

end
