(* ===== verification/Turn_Queue.thy ===== *)
theory Turn_Queue
  imports Turn_Frames
begin

text \<open>
  How a turn comes to be (\<open>apps/harness/services.py\<close>: \<open>enqueue_turn\<close> with \<open>_replay\<close> and
  \<open>_apply_capability\<close>; \<open>Turn.scope_for\<close>, \<open>Turn.keyed\<close>; \<open>sensitivity.take_on\<close> with
  \<open>add_runner_requirements\<close>), on top of the admission rules.

  Parameters, in \<open>gates\<close>: \<open>profile_of\<close> is the profile the access rules give the turn
  (\<open>turn_context.for_turn\<close>: a stamp, or the note of a refusal), \<open>stamp_of\<close> the server-written keys of
  a dispatch (\<open>turn_asker\<close>).  \<open>new_id\<close> is the new row's UUID.  A mail's sender and thread are resolved
  before (\<open>channels.email\<close>), agent-thread messages are checked by the thread guard; neither is
  modelled here, nor is a lost race on the unique key.
\<close>

section \<open>What is asked for\<close>

record ask =
  q_agent :: "agent_row option"
  q_project :: string
  q_session :: "nat option"
  q_workspace :: "string option"
  q_origin :: string
  q_key :: string
  q_prompt :: string
  q_origin_ref :: payload
  q_routing :: string
  q_job :: string
  q_job_repo :: string
  q_initiator_kind :: string
  q_requested :: "string option"
  q_parent_turn :: "string option"
  q_parent_session :: "nat option"
  q_provenance :: "(string \<times> string) list"
  q_pinned_runner :: "nat option"
  q_requested_cli :: string
  q_initiator_user :: "user_id option"
  q_enqueued_by :: "user_id option"

datatype enqueue_error = UnknownOrigin | NotOneTarget | ProjectNeedsWorkspace | BadJob | ContentDeleted
  | IdempotencyConflict

record gates =
  profile_of :: "turndb \<Rightarrow> turn \<Rightarrow> string option \<Rightarrow> string + string"
  stamp_of :: "ask \<Rightarrow> payload"

definition ORIGINS :: "string list" where
  "ORIGINS = map fst ORIGIN_CHOICES"

definition LEGACY_ORIGIN_ALIASES :: "(string \<times> string) list" where
  "LEGACY_ORIGIN_ALIASES = [(''board'', ''api''), (''manual'', ''api''), (''drill'', ''api''), (''cron'', ''canopy_scheduler'')]"

definition origin_alias :: "string \<Rightarrow> string" where
  "origin_alias s = (case map_of LEGACY_ORIGIN_ALIASES s of None \<Rightarrow> s | Some o' \<Rightarrow> o')"

definition scope_for :: "turndb \<Rightarrow> ask \<Rightarrow> string" where
  "scope_for db q = (case q_agent q of Some a \<Rightarrow> ag_workspace a
     | None \<Rightarrow> (case q_session q of
         Some c \<Rightarrow> (case tbl_get ch_id c (chats db) of None \<Rightarrow> '''' | Some s \<Rightarrow> ch_workspace s)
       | None \<Rightarrow> (case q_workspace q of None \<Rightarrow> '''' | Some w \<Rightarrow> w)))"

definition keyed :: "string \<Rightarrow> string \<Rightarrow> turndb \<Rightarrow> turn option" where
  "keyed k scope db = find (\<lambda>t. idempotency_key t = k \<and> idempotency_scope t = scope) (turns db)"

definition same_target :: "ask \<Rightarrow> turn \<Rightarrow> bool" where
  "same_target q t = (case q_agent q of Some a \<Rightarrow> t_agent t = Some (ag_slug a)
     | None \<Rightarrow> (case q_session q of Some c \<Rightarrow> chat_session t = Some c
         | None \<Rightarrow> t_project t \<noteq> '''' \<and> t_project t = q_project q \<and> q_workspace q \<noteq> None \<and> t_workspace t = q_workspace q))"

definition target_count :: "ask \<Rightarrow> nat" where
  "target_count q = (if q_agent q \<noteq> None then 1 else 0) + (if q_project q \<noteq> '''' then 1 else 0)
     + (if q_session q \<noteq> None then 1 else 0)"

definition is_job :: "ask \<Rightarrow> bool" where
  "is_job q \<longleftrightarrow> q_job q \<noteq> '''' \<or> q_job_repo q \<noteq> ''''"

definition content_deleted :: "turndb \<Rightarrow> ask \<Rightarrow> bool" where
  "content_deleted db q = (case q_session q of None \<Rightarrow> False
     | Some c \<Rightarrow> (case tbl_get ch_id c (chats db) of None \<Rightarrow> False | Some s \<Rightarrow> ch_content_deleted s))"

definition ask_error :: "turndb \<Rightarrow> ask \<Rightarrow> enqueue_error option" where
  "ask_error db q =
     (if origin_alias (q_origin q) \<notin> set ORIGINS then Some UnknownOrigin
      else if target_count q \<noteq> 1 then Some NotOneTarget
      else if q_project q \<noteq> '''' \<and> q_workspace q = None then Some ProjectNeedsWorkspace
      else if is_job q \<and> (q_job q = '''' \<or> q_job_repo q = '''' \<or> q_agent q = None \<or> q_session q \<noteq> None \<or> q_project q \<noteq> '''')
      then Some BadJob
      else if content_deleted db q then Some ContentDeleted
      else None)"

text \<open>Keys only the server writes.\<close>

definition server_keys :: "string list" where
  "server_keys = [''unattended_dispatch'', ''reads_for'', ''queued_for'']"

definition asked_ref :: "gates \<Rightarrow> ask \<Rightarrow> payload" where
  "asked_ref g q = dict_merge (filter (\<lambda>(k, v). k \<notin> set server_keys) (q_origin_ref q)) (stamp_of g q)"

definition new_turn :: "gates \<Rightarrow> string \<Rightarrow> string \<Rightarrow> instant \<Rightarrow> ask \<Rightarrow> turn" where
  "new_turn g new_id scope now q = \<lparr> turn_id = new_id, status = Queued,
     prompt = (if is_job q then '''' else q_prompt q), result_note = '''', job = q_job q, job_repo = q_job_repo q,
     origin_ref = asked_ref g q, session_key = '''', session_id = '''', attempts = 0, t_cli = '''',
     t_agent = map_option ag_slug (q_agent q), t_project = q_project q,
     t_workspace = (if q_project q \<noteq> '''' then q_workspace q else None), t_origin = origin_alias (q_origin q),
     t_routing = (if is_job q then ''cloud_only'' else q_routing q), idempotency_key = q_key q,
     idempotency_scope = scope, capability = '''', initiator_kind = q_initiator_kind q, created_at = now,
     claimed_at = None, started_at = None, claimed_by = None, lease_expires_at = None, finished_at = None,
     content_purged_at = None, rides_turn = None, chat_session = q_session q, canopy_session = None,
     parent_turn = q_parent_turn q, parent_session = q_parent_session q, parent_provenance = q_provenance q,
     pinned_runner = q_pinned_runner q, turn_mode = '''', turn_mode_basis = '''', requested_cli = q_requested_cli q,
     initiator_user = q_initiator_user q, enqueued_by = q_enqueued_by q \<rparr>"


section \<open>Taking on what the turn requires\<close>

definition add_runner_requirements :: "nat \<Rightarrow> string set \<Rightarrow> turndb \<Rightarrow> turndb" where
  "add_runner_requirements c reqs db =
     (let current = requirements_of_session db c; merged = sorted_list_of_set (current \<union> reqs) in
      if reqs = {} \<or> merged = sorted_list_of_set current then db
      else db\<lparr>chats := tbl_update (\<lambda>s. ch_id s = c) (\<lambda>s. s\<lparr>ch_requirements := JList (map JStr merged)\<rparr>) (chats db)\<rparr>)"

definition take_on :: "nat option \<Rightarrow> turn \<Rightarrow> turndb \<Rightarrow> turndb" where
  "take_on session t db =
     (case session of None \<Rightarrow> db
      | Some c \<Rightarrow> let reqs = requirements_of db t in
          if reqs = {} \<or> reqs \<subseteq> requirements_of_session db c then db else add_runner_requirements c reqs db)"


section \<open>Enqueueing\<close>

definition change_turn :: "string \<Rightarrow> (turn \<Rightarrow> turn) \<Rightarrow> admission \<Rightarrow> admission" where
  "change_turn n f ad = ad\<lparr>world := (world ad)\<lparr>turns := tbl_update (\<lambda>t. turn_id t = n) f (turns (world ad))\<rparr>\<rparr>"

definition refuse_profile :: "bool \<Rightarrow> string \<Rightarrow> instant \<Rightarrow> turn \<Rightarrow> turn" where
  "refuse_profile sensitive msg now t = t\<lparr> status := Cancelled, finished_at := Some now, result_note := msg,
     prompt := (if sensitive then '''' else prompt t) \<rparr>"

definition stamp_profile :: "agent_row \<Rightarrow> string option \<Rightarrow> string \<Rightarrow> turn \<Rightarrow> turn" where
  "stamp_profile a requested cap t = t\<lparr> capability := cap,
     origin_ref := dict_merge (origin_ref t) [(''queued_for'', JObj [(''agent'', JStr (ag_slug a)),
        (''profile'', (case requested of None \<Rightarrow> JNull | Some p \<Rightarrow> JStr p))])] \<rparr>"

definition apply_capability :: "redactor \<Rightarrow> gates \<Rightarrow> turn \<Rightarrow> string option \<Rightarrow> instant \<Rightarrow> admission \<Rightarrow> admission" where
  "apply_capability rd g t requested now ad =
     (case acting_agent (world ad) t of None \<Rightarrow> ad
      | Some a \<Rightarrow>
          (case profile_of g (world ad) t requested of
             Inl msg \<Rightarrow>
               let f = refuse_profile (is_sensitive (world ad) (t\<lparr>status := Cancelled\<rparr>)) msg now in
               snd (at_refusal rd (f t) '''' ''none'' now (change_turn (turn_id t) f ad))
           | Inr cap \<Rightarrow> change_turn (turn_id t) (stamp_profile a requested cap) ad))"

definition announce :: "nat option \<Rightarrow> string \<Rightarrow> turndb \<Rightarrow> turndb" where
  "announce session n db = emit (TurnStatusChanged n)
     (case session of None \<Rightarrow> db | Some c \<Rightarrow> emit (SessionTurnEnqueued n c) db)"

definition insert_turn :: "redactor \<Rightarrow> gates \<Rightarrow> reach_api \<Rightarrow> turn \<Rightarrow> string option \<Rightarrow> instant \<Rightarrow> admission \<Rightarrow> admission" where
  "insert_turn rd g reach t requested now ad =
     (let n = turn_id t;
          ad1 = ad\<lparr>world := take_on (chat_session t) t ((world ad)\<lparr>turns := turns (world ad) @ [t]\<rparr>)\<rparr>;
          ad2 = apply_capability rd g t requested now ad1;
          row = (case get_turn (world ad2) n of None \<Rightarrow> t | Some r \<Rightarrow> r);
          ad3 = snd (at_enqueue rd reach row now ad2)
      in ad3\<lparr>world := announce (chat_session t) n (world ad3)\<rparr>)"

definition enqueue_turn :: "redactor \<Rightarrow> gates \<Rightarrow> reach_api \<Rightarrow> string \<Rightarrow> instant \<Rightarrow> ask \<Rightarrow> admission
    \<Rightarrow> (enqueue_error + string \<times> bool) \<times> admission" where
  "enqueue_turn rd g reach new_id now q ad =
     (case ask_error (world ad) q of
        Some e \<Rightarrow> (Inl e, ad)
      | None \<Rightarrow>
          let scope = scope_for (world ad) q in
          (case keyed (q_key q) scope (world ad) of
             Some t \<Rightarrow> (if same_target q t then Inr (turn_id t, False) else Inl IdempotencyConflict, ad)
           | None \<Rightarrow> (Inr (new_id, True),
               insert_turn rd g reach (new_turn g new_id scope now q) (q_requested q) now ad)))"

text \<open>What an enqueue leaves of the rows there are, and of the one it adds, for any relation a client is
  interested in.\<close>

lemma announce_frame [simp]:
  "turns (announce c n db) = turns db" "chats (announce c n db) = chats db"
  "boxes (announce c n db) = boxes db" "agent_rows (announce c n db) = agent_rows db"
  by (simp_all add: announce_def split: option.split)

locale turn_insert_frame = turn_frame +
  assumes ends_cancelled: "Cancelled \<in> ends_as" and ends_queued: "Queued \<in> may_end"
    and C_requires: "C c (c\<lparr>ch_requirements := j\<rparr>)"
    and R_refuse: "R t (refuse_profile s msg now t)" and R_stamp: "R t (stamp_profile a requested cap t)"
begin

lemma kept_take_on: "kept db (take_on c t db)"
  by (simp add: take_on_def add_runner_requirements_def Let_def kept_chats C_requires split: option.split)

lemma kept_change: "(\<And>x. R x (f x)) \<Longrightarrow> kept (world ad) (world (change_turn n f ad))"
  by (simp add: change_turn_def kept_update)

lemma kept_capability: "kept (world ad) (world (apply_capability rd g t requested now ad))"
proof (cases "acting_agent (world ad) t")
  case (Some a)
  then show ?thesis
    using kept_change [OF R_refuse] kept_change [OF R_stamp] kept_trans [OF kept_change [OF R_refuse] kept_at_refusal]
    by (simp add: apply_capability_def Let_def split: sum.split)
qed (simp add: apply_capability_def)

lemma kept_insert: "kept ((world ad)\<lparr>turns := turns (world ad) @ [t]\<rparr>) (world (insert_turn rd g reach t requested now ad))"
proof -
  define ad1 where "ad1 = ad\<lparr>world := take_on (chat_session t) t ((world ad)\<lparr>turns := turns (world ad) @ [t]\<rparr>)\<rparr>"
  define ad2 where "ad2 = apply_capability rd g t requested now ad1"
  define row where "row = (case get_turn (world ad2) (turn_id t) of None \<Rightarrow> t | Some r \<Rightarrow> r)"
  define ad3 where "ad3 = snd (at_enqueue rd reach row now ad2)"
  have "insert_turn rd g reach t requested now ad = ad3\<lparr>world := announce (chat_session t) (turn_id t) (world ad3)\<rparr>"
    by (simp add: insert_turn_def Let_def ad1_def ad2_def ad3_def row_def)
  then have "kept (world ad3) (world (insert_turn rd g reach t requested now ad))" by (simp add: kept_frame)
  moreover have "kept (world ad2) (world ad3)" unfolding ad3_def by (rule kept_at_enqueue [OF ends_cancelled ends_queued])
  moreover have "kept (world ad1) (world ad2)" unfolding ad2_def by (rule kept_capability)
  moreover have "kept ((world ad)\<lparr>turns := turns (world ad) @ [t]\<rparr>) (world ad1)"
    unfolding ad1_def using kept_take_on by simp
  ultimately show ?thesis using kept_trans by blast
qed

end

section \<open>Keys\<close>

text \<open>What neither a refusal nor a rejection changes: a turn's identity, and who a conversation belongs to.\<close>

definition identity :: "turn \<Rightarrow> string \<times> (string \<times> string) \<times> string option \<times> nat option \<times> string \<times> string option" where
  "identity t = (turn_id t, (idempotency_key t, idempotency_scope t), t_agent t, chat_session t, t_project t, t_workspace t)"

definition belongs :: "chat \<Rightarrow> nat \<times> string \<times> bool" where
  "belongs c = (ch_id c, ch_workspace c, ch_content_deleted c)"

definition same_rows :: "turndb \<Rightarrow> turndb \<Rightarrow> bool" where
  "same_rows db db' \<longleftrightarrow> map identity (turns db') = map identity (turns db) \<and> map belongs (chats db') = map belongs (chats db)"

lemma map_eq_rel: "list_all2 (\<lambda>x y. f y = f x) xs ys \<Longrightarrow> map f ys = map f xs"
  by (induction rule: list_all2_induct) simp_all

interpretation rows: turn_insert_frame "\<lambda>t u. identity u = identity t" "\<lambda>c d. belongs d = belongs c" UNIV UNIV
  by unfold_locales (simp_all add: identity_def belongs_def close_fields_def refuse_profile_def stamp_profile_def)

lemma insert_turn_rows: "same_rows ((world ad)\<lparr>turns := turns (world ad) @ [t]\<rparr>) (world (insert_turn rd g reach t requested now ad))"
  using rows.kept_insert [of ad t rd g reach requested now] unfolding row_step_def same_rows_def by (blast intro: map_eq_rel)

lemma keyed_identity:
  "map_option identity (keyed k s db) = find (\<lambda>i. fst (snd i) = (k, s)) (map identity (turns db))"
proof -
  have "map_option identity (find (\<lambda>t. idempotency_key t = k \<and> idempotency_scope t = s) ts)
      = find (\<lambda>i. fst (snd i) = (k, s)) (map identity ts)" for ts
    by (induction ts) (simp_all add: identity_def)
  then show ?thesis by (simp add: keyed_def)
qed

lemma same_target_identity: "identity t = identity t' \<Longrightarrow> same_target q t = same_target q t'"
  by (simp add: identity_def same_target_def split: option.split)

lemma chat_belongs: "map_option belongs (tbl_get ch_id c (chats db)) = find (\<lambda>b. fst b = c) (map belongs (chats db))"
proof -
  have "map_option belongs (find (\<lambda>x. ch_id x = c) cs) = find (\<lambda>b. fst b = c) (map belongs cs)" for cs
    by (induction cs) (simp_all add: belongs_def)
  then show ?thesis by (simp add: tbl_get_def)
qed

lemma same_chat: "same_rows db db' \<Longrightarrow> map_option belongs (tbl_get ch_id c (chats db')) = map_option belongs (tbl_get ch_id c (chats db))"
  by (simp add: chat_belongs same_rows_def)

lemma same_scope: "same_rows db db' \<Longrightarrow> scope_for db' q = scope_for db q"
proof -
  assume s: "same_rows db db'"
  have "(case tbl_get ch_id c (chats db') of None \<Rightarrow> '''' | Some x \<Rightarrow> ch_workspace x)
      = (case tbl_get ch_id c (chats db) of None \<Rightarrow> '''' | Some x \<Rightarrow> ch_workspace x)" for c
    using same_chat [OF s, of c]
    by (cases "tbl_get ch_id c (chats db')"; cases "tbl_get ch_id c (chats db)") (simp_all add: belongs_def)
  then show ?thesis by (simp add: scope_for_def split: option.split)
qed

lemma same_ask_error: "same_rows db db' \<Longrightarrow> ask_error db' q = ask_error db q"
proof -
  assume s: "same_rows db db'"
  have "content_deleted db' q = content_deleted db q"
  proof (cases "q_session q")
    case (Some c)
    then show ?thesis using same_chat [OF s, of c]
      by (cases "tbl_get ch_id c (chats db')"; cases "tbl_get ch_id c (chats db)") (simp_all add: belongs_def content_deleted_def)
  qed (simp add: content_deleted_def)
  then show ?thesis by (simp only: ask_error_def)
qed

definition keys_ok :: "turndb \<Rightarrow> bool" where
  "keys_ok db \<longleftrightarrow> turn_ids_ok db \<and> distinct (map (\<lambda>t. (idempotency_key t, idempotency_scope t)) (turns db))"

lemma keys_ok_identity: "keys_ok db \<longleftrightarrow> distinct (map fst (map identity (turns db))) \<and> distinct (map (fst \<circ> snd) (map identity (turns db)))"
  by (simp add: keys_ok_def identity_def comp_def)

lemma same_keys_ok: "same_rows db db' \<Longrightarrow> keys_ok db' = keys_ok db"
  by (simp only: keys_ok_identity same_rows_def)

lemma keyed_Some: "keyed k s db = Some t \<Longrightarrow> t \<in> set (turns db) \<and> idempotency_key t = k \<and> idempotency_scope t = s"
  by (auto simp: keyed_def find_Some_iff)

lemma keyed_None: "keyed k s db = None \<Longrightarrow> t \<in> set (turns db) \<Longrightarrow> (idempotency_key t, idempotency_scope t) \<noteq> (k, s)"
  by (auto simp: keyed_def find_None_iff)

lemma find_append_new: "find P ts = None \<Longrightarrow> P t \<Longrightarrow> find P (ts @ [t]) = Some t"
  by (induction ts) (auto split: if_splits)

text \<open>The new row is exactly what was asked for, as far as its identity goes.\<close>

lemma target_of_new:
  assumes "ask_error db q = None"
  shows "same_target q (new_turn g new_id scope now q)"
  using assms by (auto simp: ask_error_def target_count_def same_target_def new_turn_def split: option.splits if_splits)

lemma enqueue_made:
  assumes ok: "keys_ok (world ad)" and fresh: "new_id \<notin> turn_id ` set (turns (world ad))"
    and err: "ask_error (world ad) q = None" and none: "keyed (q_key q) (scope_for (world ad) q) (world ad) = None"
    and ad': "ad' = insert_turn rd g reach (new_turn g new_id (scope_for (world ad) q) now q) r now ad"
  shows "keys_ok (world ad')" and "map turn_id (turns (world ad')) = map turn_id (turns (world ad)) @ [new_id]"
    and "\<exists>t. keyed (q_key q) (scope_for (world ad) q) (world ad') = Some t \<and> turn_id t = new_id
      \<and> identity t = identity (new_turn g new_id (scope_for (world ad) q) now q)"
    and "scope_for (world ad') x = scope_for (world ad) x" and "ask_error (world ad') x = ask_error (world ad) x"
proof -
  let ?t = "new_turn g new_id (scope_for (world ad) q) now q"
  let ?db = "(world ad)\<lparr>turns := turns (world ad) @ [?t]\<rparr>"
  have same: "same_rows ?db (world ad')" unfolding ad' by (rule insert_turn_rows)
  have new: "turn_id ?t = new_id" "idempotency_key ?t = q_key q" "idempotency_scope ?t = scope_for (world ad) q"
    by (simp_all add: new_turn_def)
  have unused: "(q_key q, scope_for (world ad) q) \<notin> (\<lambda>t. (idempotency_key t, idempotency_scope t)) ` set (turns (world ad))"
    using keyed_None [OF none] by force
  have "keys_ok ?db"
    using ok fresh unused new by (simp add: keys_ok_def)
  then show "keys_ok (world ad')" using same_keys_ok [OF same] by simp
  have "map fst (map identity (turns (world ad'))) = map fst (map identity (turns ?db))"
    using same by (simp only: same_rows_def)
  then show "map turn_id (turns (world ad')) = map turn_id (turns (world ad)) @ [new_id]"
    by (simp add: identity_def comp_def new)
  have "keyed (q_key q) (scope_for (world ad) q) ?db = Some ?t"
    using find_append_new [of "\<lambda>t. idempotency_key t = q_key q \<and> idempotency_scope t = scope_for (world ad) q" "turns (world ad)" ?t]
      none new by (simp add: keyed_def)
  then have "map_option identity (keyed (q_key q) (scope_for (world ad) q) (world ad')) = Some (identity ?t)"
    using keyed_identity [of "q_key q" "scope_for (world ad) q" ?db] keyed_identity [of "q_key q" "scope_for (world ad) q" "world ad'"] same
    by (simp only: same_rows_def option.map)
  then show "\<exists>t. keyed (q_key q) (scope_for (world ad) q) (world ad') = Some t \<and> turn_id t = new_id \<and> identity t = identity ?t"
    using new(1) by (auto simp: identity_def)
  have "scope_for ?db x = scope_for (world ad) x" "content_deleted ?db x = content_deleted (world ad) x"
    by (simp_all add: scope_for_def content_deleted_def split: option.split)
  then have "scope_for ?db x = scope_for (world ad) x" "ask_error ?db x = ask_error (world ad) x"
    by (simp, simp only: ask_error_def)
  then show "scope_for (world ad') x = scope_for (world ad) x" "ask_error (world ad') x = ask_error (world ad) x"
    using same_scope [OF same] same_ask_error [OF same] by simp_all
qed

lemma enqueue_answer:
  assumes ok: "keys_ok (world ad)" and fresh: "new_id \<notin> turn_id ` set (turns (world ad))"
    and call: "enqueue_turn rd g reach new_id now q ad = (res, ad')"
  shows "keys_ok (world ad')" and "res = Inl e \<Longrightarrow> ad' = ad" and "res = Inr (n, made) \<Longrightarrow>
      (map turn_id (turns (world ad')) = map turn_id (turns (world ad)) @ (if made then [new_id] else [])
      \<and> (made \<longleftrightarrow> n = new_id) \<and> (made \<longleftrightarrow> keyed (q_key q) (scope_for (world ad) q) (world ad) = None))
      \<and> (\<exists>t. keyed (q_key q) (scope_for (world ad) q) (world ad') = Some t \<and> turn_id t = n \<and> same_target q t)
      \<and> (\<forall>x. scope_for (world ad') x = scope_for (world ad) x \<and> ask_error (world ad') x = ask_error (world ad) x)"
proof -
  let ?s = "scope_for (world ad) q"
  have "keys_ok (world ad') \<and> (\<forall>e. res = Inl e \<longrightarrow> ad' = ad) \<and> (\<forall>n made. res = Inr (n, made) \<longrightarrow>
      (map turn_id (turns (world ad')) = map turn_id (turns (world ad)) @ (if made then [new_id] else [])
      \<and> (made \<longleftrightarrow> n = new_id) \<and> (made \<longleftrightarrow> keyed (q_key q) ?s (world ad) = None))
      \<and> (\<exists>t. keyed (q_key q) ?s (world ad') = Some t \<and> turn_id t = n \<and> same_target q t)
      \<and> (\<forall>x. scope_for (world ad') x = scope_for (world ad) x \<and> ask_error (world ad') x = ask_error (world ad) x))"
  proof (cases "ask_error (world ad) q")
    case (Some e)
    then show ?thesis using call ok by (auto simp: enqueue_turn_def)
  next
    case err: None
    show ?thesis
    proof (cases "keyed (q_key q) ?s (world ad)")
      case (Some t)
      then have "turn_id t \<noteq> new_id" using keyed_Some [OF Some] fresh by auto
      then show ?thesis using call ok err Some by (auto simp: enqueue_turn_def split: if_splits)
    next
      case none: None
      let ?t = "new_turn g new_id ?s now q"
      have res: "res = Inr (new_id, True)" and ad': "ad' = insert_turn rd g reach ?t (q_requested q) now ad"
        using call err none by (simp_all add: enqueue_turn_def)
      note made = enqueue_made [OF ok fresh err none ad']
      obtain t where t: "keyed (q_key q) ?s (world ad') = Some t" "turn_id t = new_id" "identity t = identity ?t"
        using made(3) by blast
      then have "same_target q t" using same_target_identity [OF t(3)] target_of_new [OF err] by blast
      then show ?thesis using res none t made by auto
    qed
  qed
  then show "keys_ok (world ad')" and "res = Inl e \<Longrightarrow> ad' = ad" and "res = Inr (n, made) \<Longrightarrow>
      (map turn_id (turns (world ad')) = map turn_id (turns (world ad)) @ (if made then [new_id] else [])
      \<and> (made \<longleftrightarrow> n = new_id) \<and> (made \<longleftrightarrow> keyed (q_key q) ?s (world ad) = None))
      \<and> (\<exists>t. keyed (q_key q) ?s (world ad') = Some t \<and> turn_id t = n \<and> same_target q t)
      \<and> (\<forall>x. scope_for (world ad') x = scope_for (world ad) x \<and> ask_error (world ad') x = ask_error (world ad) x)"
    by blast+
qed

text \<open>C10. Enqueueing is idempotent per key and scope.  A refused request changes nothing.  An accepted
one names a turn with the request's key and target: the new row, appended as the only new row, when the key
was unused in the scope, and otherwise the row that holds it.  From then on any request with the key in the
scope changes nothing at all: it is answered with that same turn when it has the same target, and with a
conflict when it has another.  No two turns share an id, nor a key within a scope.\<close>

theorem enqueue_is_idempotent:
  assumes ok: "keys_ok (world ad)" and fresh: "new_id \<notin> turn_id ` set (turns (world ad))"
    and call: "enqueue_turn rd g reach new_id now q ad = (res, ad')"
  shows "keys_ok (world ad') \<and> (\<forall>e. res = Inl e \<longrightarrow> ad' = ad) \<and> (\<forall>n made. res = Inr (n, made) \<longrightarrow>
      map turn_id (turns (world ad')) = map turn_id (turns (world ad)) @ (if made then [new_id] else [])
      \<and> (made \<longleftrightarrow> n = new_id)
      \<and> (made \<longleftrightarrow> (\<forall>t \<in> set (turns (world ad)). (idempotency_key t, idempotency_scope t) \<noteq> (q_key q, scope_for (world ad) q)))
      \<and> (\<exists>t \<in> set (turns (world ad')). turn_id t = n \<and> same_target q t \<and> idempotency_key t = q_key q
          \<and> idempotency_scope t = scope_for (world ad) q
          \<and> (\<forall>id2 now2 q2. q_key q2 = q_key q \<longrightarrow> scope_for (world ad) q2 = scope_for (world ad) q
              \<longrightarrow> ask_error (world ad) q2 = None
              \<longrightarrow> enqueue_turn rd g reach id2 now2 q2 ad'
                  = (if same_target q2 t then Inr (n, False) else Inl IdempotencyConflict, ad'))))"
proof (intro conjI allI impI)
  let ?s = "scope_for (world ad) q"
  note answer = enqueue_answer [OF ok fresh call]
  show "keys_ok (world ad')" by (rule answer(1))
  show "ad' = ad" if "res = Inl e" for e by (rule answer(2) [OF that])
  fix n made assume res: "res = Inr (n, made)"
  obtain t where t: "keyed (q_key q) ?s (world ad') = Some t" "turn_id t = n" "same_target q t" using answer(3) [OF res] by blast
  have replay: "enqueue_turn rd g reach id2 now2 q2 ad' = (if same_target q2 t then Inr (n, False) else Inl IdempotencyConflict, ad')"
    if "q_key q2 = q_key q" "scope_for (world ad) q2 = ?s" "ask_error (world ad) q2 = None" for id2 now2 q2
    using answer(3) [OF res] that t by (simp add: enqueue_turn_def)
  have unused: "keyed (q_key q) ?s (world ad) = None
      \<longleftrightarrow> (\<forall>t \<in> set (turns (world ad)). (idempotency_key t, idempotency_scope t) \<noteq> (q_key q, ?s))"
    by (auto simp: keyed_def find_None_iff)
  have rows: "map turn_id (turns (world ad')) = map turn_id (turns (world ad)) @ (if made then [new_id] else [])"
    "made \<longleftrightarrow> n = new_id" "made \<longleftrightarrow> keyed (q_key q) ?s (world ad) = None"
    using answer(3) [OF res] by blast+
  show "map turn_id (turns (world ad')) = map turn_id (turns (world ad)) @ (if made then [new_id] else [])"
    and "made \<longleftrightarrow> n = new_id" using rows by blast+
  show "made \<longleftrightarrow> (\<forall>t \<in> set (turns (world ad)). (idempotency_key t, idempotency_scope t) \<noteq> (q_key q, ?s))"
    by (rule trans [OF rows(3) unused])
  show "(\<exists>t \<in> set (turns (world ad')). turn_id t = n \<and> same_target q t \<and> idempotency_key t = q_key q
          \<and> idempotency_scope t = ?s
          \<and> (\<forall>id2 now2 q2. q_key q2 = q_key q \<longrightarrow> scope_for (world ad) q2 = ?s \<longrightarrow> ask_error (world ad) q2 = None
              \<longrightarrow> enqueue_turn rd g reach id2 now2 q2 ad'
                  = (if same_target q2 t then Inr (n, False) else Inl IdempotencyConflict, ad')))"
    using keyed_Some [OF t(1)] t(2,3) by (intro bexI [of _ t] conjI allI impI replay) simp_all
qed

definition plain_gates :: gates where
  "plain_gates = \<lparr> profile_of = (\<lambda>db t r. Inr ''''), stamp_of = (\<lambda>q. []) \<rparr>"

definition sample_ask :: ask where
  "sample_ask = \<lparr> q_agent = Some \<lparr> ag_slug = ''echo'', ag_workspace = ''acme'', ag_held = False, ag_clis = [] \<rparr>, q_project = '''', q_session = None,
     q_workspace = None, q_origin = ''cron'', q_key = ''daily:1'', q_prompt = ''report'', q_origin_ref = [],
     q_routing = ''prefer_local'', q_job = '''', q_job_repo = '''', q_initiator_kind = ''schedule'', q_requested = None,
     q_parent_turn = None, q_parent_session = None, q_provenance = [],
     q_pinned_runner = None, q_requested_cli = '''', q_initiator_user = None, q_enqueued_by = None \<rparr>"

definition sample_queue :: admission where
  "sample_queue = sample_admission\<lparr>world := sample_turns\<lparr>turns := [plain_turn ''aaaaaaaa-1'']\<rparr>\<rparr>"

lemma enqueue_is_idempotent_witness:
  "map turn_id (turns (world (snd (enqueue_turn blind_redactor plain_gates no_reach ''dddddddd-9'' 50 sample_ask sample_queue))))
     = [''aaaaaaaa-1'', ''dddddddd-9'']"
proof -
  let ?r = "enqueue_turn blind_redactor plain_gates no_reach ''dddddddd-9'' 50 sample_ask sample_queue"
  have "fst ?r = Inr (''dddddddd-9'', True)"
    by (simp add: enqueue_turn_def ask_error_def sample_ask_def target_count_def is_job_def content_deleted_def
        origin_alias_def LEGACY_ORIGIN_ALIASES_def ORIGINS_def ORIGIN_CHOICES_def keyed_def scope_for_def sample_queue_def plain_turn_def)
  then have r: "?r = (Inr (''dddddddd-9'', True), snd ?r)" by (metis prod.collapse)
  have "keys_ok (world sample_queue)" "''dddddddd-9'' \<notin> turn_id ` set (turns (world sample_queue))"
    by (simp_all add: keys_ok_def sample_queue_def plain_turn_def)
  from enqueue_is_idempotent [OF this r, THEN conjunct2, THEN conjunct2, THEN spec, THEN spec, THEN mp, OF refl]
  have "map turn_id (turns (world (snd ?r))) = map turn_id (turns (world sample_queue)) @ [''dddddddd-9'']" by simp
  then show ?thesis by (simp add: sample_queue_def plain_turn_def)
qed

end
