(* ===== verification/Agent_Tasks.thy ===== *)
theory Agent_Tasks
  imports Turn_Queue Turn_Finish
begin

text \<open>
  Agent tasks (\<open>apps/agent_tasks\<close>: \<open>models.py\<close>, \<open>services.py\<close>, \<open>api.py\<close>, \<open>signals.py\<close>): a caller asks
  an agent for one answer that must fit a schema; the task is done only when such an answer is submitted,
  a turn that ends without one is followed up at most twice, and a task past its deadline fails.  It sits
  on the turn queue: creating a task and nudging it enqueue turns, ending it drops a turn nobody started.

  Parameters, in \<open>task_env\<close>: \<open>te_errors\<close> and \<open>te_schema_problem\<close> are \<open>jsonschema\<close>'s answers, \<open>te_size\<close>
  the bytes of a value's JSON, \<open>te_skills\<close> an agent's skill names, \<open>te_live\<close> whether an emdash turn's
  session is still live (\<open>turn_agent_tokens.live_session\<close>), \<open>te_lineage\<close> the parent session and the
  record a nudge inherits (\<open>provenance.turn_fields\<close>).  Who the caller is to the agent, and what the turn
  gates say, come with the call.  Each operation works on the row its caller read, which may be old by then.
\<close>

section \<open>Tasks\<close>

datatype task_status = TaskQueued | TaskRunning | TaskDone | TaskFailed | TaskCancelled

definition OPEN :: "task_status list" where
  "OPEN = [TaskQueued, TaskRunning]"

record agent_task =
  tk_id :: string
  tk_agent :: agent_row
  tk_name :: string
  tk_instructions :: string
  tk_input :: json
  tk_schema :: json
  tk_status :: task_status
  tk_result :: json
  tk_error :: string
  tk_nudges :: nat
  tk_turn :: "string option"
  tk_routing :: string
  tk_created_by :: "nat option"
  tk_timeout_s :: nat
  tk_deadline_at :: instant
  tk_created_at :: instant
  tk_finished_at :: "instant option"

record task_world =
  tasks :: "agent_task list"
  queue :: admission

record task_env =
  te_rd :: redactor
  te_gates :: gates
  te_reach :: reach_api
  te_errors :: "json \<Rightarrow> json \<Rightarrow> (string \<times> string) list"
  te_schema_problem :: "json \<Rightarrow> string"
  te_size :: "json \<Rightarrow> nat"
  te_skills :: "string \<Rightarrow> string list"
  te_live :: "turndb \<Rightarrow> turn \<Rightarrow> bool"
  te_lineage :: "turn \<Rightarrow> nat option \<times> (string \<times> string) list"

definition MAX_INPUT_BYTES :: nat where "MAX_INPUT_BYTES = 1024 * 1024"
definition MAX_RESULT_BYTES :: nat where "MAX_RESULT_BYTES = 1024 * 1024"
definition MAX_SCHEMA_BYTES :: nat where "MAX_SCHEMA_BYTES = 64 * 1024"
definition MAX_NUDGES :: nat where "MAX_NUDGES = 2"
definition MAX_ERRORS :: nat where "MAX_ERRORS = 50"
definition MAX_WAIT_S :: int where "MAX_WAIT_S = 20"
definition SECOND :: int where "SECOND = 1000000"

definition schema_problem :: "task_env \<Rightarrow> json \<Rightarrow> string" where
  "schema_problem e s = (case s of JObj _ \<Rightarrow> te_schema_problem e s | _ \<Rightarrow> ''output_schema must be a JSON Schema object'')"

definition result_errors :: "task_env \<Rightarrow> agent_task \<Rightarrow> json \<Rightarrow> (string \<times> string) list" where
  "result_errors e tk r = take MAX_ERRORS (te_errors e (tk_schema tk) r)"


section \<open>The prompts\<close>

definition skill_for :: "task_env \<Rightarrow> string \<Rightarrow> string \<Rightarrow> string" where
  "skill_for e agent n =
     (case first_min (\<lambda>s. s) (filter (\<lambda>s. s \<in> {n, takeWhile (\<lambda>c. c \<noteq> CHR ''.'') n}) (te_skills e agent)) of
        None \<Rightarrow> '''' | Some s \<Rightarrow> s)"

definition task_prompt :: "agent_task \<Rightarrow> string \<Rightarrow> string" where
  "task_prompt tk skill =
     (let nl = newline; n = tk_id tk; how = (if skill \<noteq> '''' then '', using your `'' @ skill @ ''` skill'' else '''') in
      ''Agent task '' @ n @ '' ('' @ tk_name tk @ '') is waiting for your answer: a caller asked for it ''
      @ ''inline and is waiting for a structured result.'' @ nl @ nl
      @ ''1. Read it: call `get_agent_task` with task_id '' @ n @ '' (its instructions, input and ''
      @ ''output_schema).'' @ nl @ ''2. Do it'' @ how @ ''.'' @ nl
      @ ''3. Finish ONLY by calling `submit_agent_task_result` with task_id '' @ n @ '' and a `result` ''
      @ ''that validates against output_schema. A refusal (422) lists each path that is wrong: fix ''
      @ ''them and submit again. Ending your turn without a submitted result does not complete the ''
      @ ''task.'' @ nl @ nl
      @ ''This task is read-and-answer only: take no outbound action (send no mail or message, ''
      @ ''publish nothing, change nothing in another system).'')"

definition nudge_prompt :: "task_env \<Rightarrow> agent_task \<Rightarrow> string" where
  "nudge_prompt e tk =
     ''You ended without submitting the result for agent task '' @ tk_id tk @ ''. ''
     @ ''Call submit_agent_task_result now.'' @ newline @ newline
     @ task_prompt tk (skill_for e (ag_slug (tk_agent tk)) (tk_name tk))"

definition KEY_PREFIX :: string where "KEY_PREFIX = ''agent-task:''"

definition ENDED_WITHOUT_RESULT :: string where
  "ENDED_WITHOUT_RESULT = ''the agent ended without a result''"

definition not_run :: "string \<Rightarrow> turn \<Rightarrow> string" where
  "not_run what t = what @ '' was not run: '' @ (if result_note t \<noteq> '''' then result_note t else status_name (status t))"

section \<open>How a task ends\<close>

definition reread :: "agent_task \<Rightarrow> task_world \<Rightarrow> agent_task" where
  "reread tk w = (case tbl_get tk_id (tk_id tk) (tasks w) of None \<Rightarrow> tk | Some r \<Rightarrow> r)"

definition end_fields :: "task_status \<Rightarrow> string \<Rightarrow> json \<Rightarrow> instant \<Rightarrow> agent_task \<Rightarrow> agent_task" where
  "end_fields st err res now r = r\<lparr> tk_status := st, tk_finished_at := Some now, tk_error := take 2000 err,
     tk_result := (if st = TaskDone then res else tk_result r) \<rparr>"

definition end_task :: "task_status \<Rightarrow> string \<Rightarrow> json \<Rightarrow> instant \<Rightarrow> agent_task \<Rightarrow> task_world \<Rightarrow> bool \<times> agent_task \<times> task_world" where
  "end_task st err res now tk w =
     (let (moved, rows) = tbl_cas (\<lambda>r. tk_id r = tk_id tk \<and> tk_status r \<in> set OPEN) (end_fields st err res now) (tasks w);
          w' = w\<lparr>tasks := rows\<rparr>
      in (moved \<noteq> 0, reread tk w', w'))"

definition drop_queued_turn :: "task_env \<Rightarrow> instant \<Rightarrow> agent_task \<Rightarrow> task_world \<Rightarrow> task_world" where
  "drop_queued_turn e now tk w =
     (case tk_turn tk of None \<Rightarrow> w
      | Some n \<Rightarrow> (case get_turn (world (queue w)) n of None \<Rightarrow> w
          | Some t \<Rightarrow> if status t = Queued
              then w\<lparr>queue := (queue w)\<lparr>world := snd (cancel_queued_turn (te_rd e) n now (world (queue w)))\<rparr>\<rparr> else w))"

definition submit :: "task_env \<Rightarrow> json \<Rightarrow> instant \<Rightarrow> agent_task \<Rightarrow> task_world \<Rightarrow> (string \<times> string) list \<times> agent_task \<times> task_world" where
  "submit e result now tk w =
     (let errors = result_errors e tk result in
      if errors \<noteq> [] then (errors, tk, w) else ([], snd (end_task TaskDone '''' result now tk w)))"

definition cancel_task :: "task_env \<Rightarrow> instant \<Rightarrow> agent_task \<Rightarrow> task_world \<Rightarrow> agent_task \<times> task_world" where
  "cancel_task e now tk w =
     (let (moved, tk', w') = end_task TaskCancelled ''cancelled'' JNull now tk w
      in (tk', if moved then drop_queued_turn e now tk' w' else w'))"

definition timed_out :: "agent_task \<Rightarrow> string" where
  "timed_out tk = ''timed out after '' @ nat_digits (tk_timeout_s tk) @ ''s without a result''"

definition expire :: "task_env \<Rightarrow> instant \<Rightarrow> agent_task \<Rightarrow> task_world \<Rightarrow> bool \<times> agent_task \<times> task_world" where
  "expire e now tk w =
     (if tk_status tk \<notin> set OPEN \<or> now < tk_deadline_at tk then (False, tk, w)
      else let (moved, tk', w') = end_task TaskFailed (timed_out tk) JNull now tk w
           in (moved, tk', if moved then drop_queued_turn e now tk' w' else w'))"

definition overdue :: "instant \<Rightarrow> task_world \<Rightarrow> agent_task list" where
  "overdue now w = filter (\<lambda>r. tk_status r \<in> set OPEN \<and> tk_deadline_at r \<le> now) (tasks w)"

fun expire_all :: "task_env \<Rightarrow> instant \<Rightarrow> agent_task list \<Rightarrow> nat \<times> task_world \<Rightarrow> nat \<times> task_world" where
  "expire_all e now [] s = s"
| "expire_all e now (tk # tks) (n, w) =
     (case expire e now tk w of (moved, _, w') \<Rightarrow> expire_all e now tks (n + (if moved then 1 else 0), w'))"

text \<open>One tick fails at most 500 tasks; \<open>order\<close> is the order the database returns them in.\<close>

definition expire_overdue :: "task_env \<Rightarrow> (agent_task list \<Rightarrow> agent_task list) \<Rightarrow> instant \<Rightarrow> task_world \<Rightarrow> nat \<times> task_world" where
  "expire_overdue e order now w = expire_all e now (take 500 (order (overdue now w))) (0, w)"

definition mark_task_running :: "agent_task \<Rightarrow> task_world \<Rightarrow> agent_task \<times> task_world" where
  "mark_task_running tk w =
     (if tk_status tk = TaskQueued then
        let w' = w\<lparr>tasks := snd (tbl_cas (\<lambda>r. tk_id r = tk_id tk \<and> tk_status r = TaskQueued)
                     (\<lambda>r. r\<lparr>tk_status := TaskRunning\<rparr>) (tasks w))\<rparr>
        in (reread tk w', w')
      else (tk, w))"

text \<open>The long poll.  At the \<open>i\<close>-th poll the monotonic clock reads \<open>monotonic i\<close>; while it sleeps \<open>others i\<close>
  is what everyone else did, and \<open>wall i\<close> is the time it wakes.\<close>

record polls =
  monotonic :: "nat \<Rightarrow> int"
  wall :: "nat \<Rightarrow> instant"
  others :: "nat \<Rightarrow> task_world \<Rightarrow> task_world"

fun wait_loop :: "task_env \<Rightarrow> polls \<Rightarrow> task_status \<Rightarrow> int \<Rightarrow> nat \<Rightarrow> nat \<Rightarrow> agent_task \<Rightarrow> task_world
    \<Rightarrow> (agent_task \<times> task_world) option" where
  "wait_loop e p entered deadline i 0 tk w = None"
| "wait_loop e p entered deadline i (Suc fuel) tk w =
     (if tk_status tk = entered \<and> monotonic p i < deadline then
        let w1 = others p i w; (_, tk2, w2) = expire e (wall p i) (reread tk w1) w1
        in wait_loop e p entered deadline (Suc i) fuel tk2 w2
      else Some (tk, w))"

definition wait_clamp :: "int \<Rightarrow> int" where
  "wait_clamp wait_s = max 0 (min wait_s MAX_WAIT_S)"

definition wait :: "task_env \<Rightarrow> polls \<Rightarrow> int \<Rightarrow> nat \<Rightarrow> instant \<Rightarrow> agent_task \<Rightarrow> task_world \<Rightarrow> (agent_task \<times> task_world) option" where
  "wait e p wait_s fuel now tk w =
     (let (_, tk1, w1) = expire e now tk w; s = wait_clamp wait_s in
      if s = 0 \<or> tk_status tk1 \<notin> set OPEN then Some (tk1, w1)
      else wait_loop e p (tk_status tk1) (monotonic p 0 + s * SECOND) 0 fuel tk1 w1)"


section \<open>Creating, and following up a turn that ended\<close>

record task_call =
  c_agent :: agent_row
  c_workspace :: "string option"
  c_name :: string
  c_instructions :: string
  c_input :: json
  c_schema :: json
  c_routing :: string
  c_timeout_s :: nat
  c_user :: "nat option"
  c_initiator_kind :: string
  c_initiator_user :: "user_id option"
  c_parent_turn :: "string option"
  c_parent_session :: "nat option"
  c_provenance :: "(string \<times> string) list"

definition task_ask :: "agent_row \<Rightarrow> string option \<Rightarrow> string \<Rightarrow> string \<Rightarrow> payload \<Rightarrow> string \<Rightarrow> ask" where
  "task_ask a ws k text ref routing = \<lparr> q_agent = Some a, q_project = '''', q_session = None, q_workspace = ws,
     q_origin = ''api'', q_key = k, q_prompt = text, q_origin_ref = ref, q_routing = routing, q_job = '''',
     q_job_repo = '''', q_initiator_kind = '''', q_requested = None, q_parent_turn = None, q_parent_session = None,
     q_provenance = [], q_pinned_runner = None, q_requested_cli = '''', q_initiator_user = None, q_enqueued_by = None \<rparr>"

definition new_task :: "string \<Rightarrow> instant \<Rightarrow> task_call \<Rightarrow> agent_task" where
  "new_task pk now c = \<lparr> tk_id = pk, tk_agent = c_agent c, tk_name = c_name c, tk_instructions = c_instructions c,
     tk_input = c_input c, tk_schema = c_schema c, tk_status = TaskQueued, tk_result = JNull, tk_error = '''',
     tk_nudges = 0, tk_turn = None, tk_routing = c_routing c, tk_created_by = c_user c, tk_timeout_s = c_timeout_s c,
     tk_deadline_at = now + int (c_timeout_s c) * SECOND, tk_created_at = now, tk_finished_at = None \<rparr>"

definition first_ask :: "task_env \<Rightarrow> task_call \<Rightarrow> agent_task \<Rightarrow> ask" where
  "first_ask e c tk = (task_ask (c_agent c) (c_workspace c) (KEY_PREFIX @ tk_id tk)
      (task_prompt tk (skill_for e (ag_slug (c_agent c)) (c_name c))) [(''agent_task'', JStr (tk_id tk))] (c_routing c))
     \<lparr> q_initiator_kind := c_initiator_kind c, q_initiator_user := c_initiator_user c, q_enqueued_by := c_user c,
       q_parent_turn := c_parent_turn c, q_parent_session := c_parent_session c,
       q_provenance := c_provenance c \<rparr>"

definition with_turn :: "instant \<Rightarrow> string \<Rightarrow> admission \<Rightarrow> agent_task \<Rightarrow> agent_task" where
  "with_turn now n ad tk =
     (case get_turn (world ad) n of None \<Rightarrow> tk\<lparr>tk_turn := Some n\<rparr>
      | Some t \<Rightarrow> if status t \<in> set TERMINAL
          then tk\<lparr>tk_turn := Some n, tk_status := TaskFailed, tk_finished_at := Some now, tk_error := take 2000 (not_run ''its turn'' t)\<rparr>
          else tk\<lparr>tk_turn := Some n\<rparr>)"

definition create :: "task_env \<Rightarrow> string \<Rightarrow> string \<Rightarrow> instant \<Rightarrow> task_call \<Rightarrow> task_world \<Rightarrow> (enqueue_error + agent_task) \<times> task_world" where
  "create e pk new_turn_id now c w =
     (let tk = new_task pk now c in
      case enqueue_turn (te_rd e) (te_gates e) (te_reach e) new_turn_id now (first_ask e c tk) (queue w) of
        (Inl err, _) \<Rightarrow> (Inl err, w)
      | (Inr (n, _), ad) \<Rightarrow>
          let tk' = with_turn now n ad tk in (Inr tk', w\<lparr>tasks := tasks w @ [tk'], queue := ad\<rparr>))"

definition rstrip_colon :: "string \<Rightarrow> string" where
  "rstrip_colon s = rev (dropWhile (\<lambda>c. c = CHR '':'' \<or> c = CHR '' '') (rev s))"

definition nudge_ask :: "task_env \<Rightarrow> agent_task \<Rightarrow> turn \<Rightarrow> ask" where
  "nudge_ask e tk old =
     (let n = tk_nudges tk + 1; (session, prov) = te_lineage e old in
      (task_ask (tk_agent tk) None (KEY_PREFIX @ tk_id tk @ '':nudge:'' @ nat_digits n) (nudge_prompt e tk)
        [(''agent_task'', JStr (tk_id tk)), (''agent_task_nudge'', JNum (int n))] (tk_routing tk))
      \<lparr> q_initiator_kind := ''system'', q_initiator_user := tk_created_by tk, q_enqueued_by := tk_created_by tk,
        q_parent_turn := Some (turn_id old), q_parent_session := session, q_provenance := prov \<rparr>)"

definition nudge :: "task_env \<Rightarrow> string \<Rightarrow> instant \<Rightarrow> agent_task \<Rightarrow> turn \<Rightarrow> task_world \<Rightarrow> task_world" where
  "nudge e new_turn_id now tk old w =
     (case enqueue_turn (te_rd e) (te_gates e) (te_reach e) new_turn_id now (nudge_ask e tk old) (queue w) of
        (Inl _, _) \<Rightarrow> snd (snd (end_task TaskFailed (ENDED_WITHOUT_RESULT @ '', and a follow-up turn could not be sent'') JNull now tk w))
      | (Inr (n, _), ad) \<Rightarrow>
          let (moved, rows) = tbl_cas (\<lambda>r. tk_id r = tk_id tk \<and> tk_status r \<in> set OPEN \<and> tk_turn r = Some (turn_id old))
                (\<lambda>r. r\<lparr>tk_nudges := tk_nudges tk + 1, tk_turn := Some n\<rparr>) (tasks w);
              w1 = w\<lparr>tasks := rows, queue := ad\<rparr>
          in (case get_turn (world ad) n of None \<Rightarrow> w1
              | Some t \<Rightarrow> if moved \<noteq> 0 \<and> status t \<in> set TERMINAL
                  then snd (snd (end_task TaskFailed (not_run ''its follow-up turn'' t) JNull now (reread tk w1) w1)) else w1))"

text \<open>\<open>uuid.UUID(str(v))\<close>: the 32 hexadecimal digits, once \<open>urn:\<close>, \<open>uuid:\<close>, braces and dashes are gone.\<close>

fun remove_all :: "string \<Rightarrow> string \<Rightarrow> string" where
  "remove_all p [] = []"
| "remove_all p (c # cs) = (if p \<noteq> [] \<and> take (length p) (c # cs) = p then remove_all p (drop (length p) (c # cs)) else c # remove_all p cs)"

definition strip_braces :: "string \<Rightarrow> string" where
  "strip_braces s = (let brace = (\<lambda>c. c = CHR ''{'' \<or> c = CHR ''}'') in rev (dropWhile brace (rev (dropWhile brace s))))"

definition hex_digits :: string where "hex_digits = ''0123456789abcdefABCDEF''"

definition uuid_hex :: "string \<Rightarrow> string option" where
  "uuid_hex s = (let h = filter (\<lambda>c. c \<noteq> CHR ''-'') (strip_braces (remove_all ''uuid:'' (remove_all ''urn:'' s))) in
     if length h = 32 \<and> list_all (\<lambda>c. c \<in> set hex_digits) h then Some (map lower_char h) else None)"

text \<open>No list, object or constant reads as a UUID.\<close>

definition task_id_of :: "turn \<Rightarrow> string option" where
  "task_id_of t = (case map_of (origin_ref t) ''agent_task'' of
     Some (JStr s) \<Rightarrow> uuid_hex s | Some (JNum i) \<Rightarrow> if i = 0 then None else uuid_hex (int_str i) | _ \<Rightarrow> None)"

definition EMDASH :: string where "EMDASH = ''emdash''"

definition session_lives_on :: "task_env \<Rightarrow> turn \<Rightarrow> turndb \<Rightarrow> bool" where
  "session_lives_on e t db = (case claimed_by t of None \<Rightarrow> False
     | Some r \<Rightarrow> (case tbl_get rb_id r (boxes db) of None \<Rightarrow> False | Some b \<Rightarrow> rb_kind b = EMDASH \<and> te_live e db t))"

definition task_of_turn :: "turn \<Rightarrow> task_world \<Rightarrow> agent_task option" where
  "task_of_turn t w = (case task_id_of t of None \<Rightarrow> None
     | Some h \<Rightarrow> find (\<lambda>r. uuid_hex (tk_id r) = Some h \<and> tk_turn r = Some (turn_id t) \<and> tk_status r \<in> set OPEN) (tasks w))"

definition on_turn_ended :: "task_env \<Rightarrow> string \<Rightarrow> turn \<Rightarrow> instant \<Rightarrow> task_world \<Rightarrow> task_world" where
  "on_turn_ended e new_turn_id t now w =
     (case task_of_turn t w of None \<Rightarrow> w
      | Some tk \<Rightarrow>
          let (gone, tk1, w1) = expire e now tk w in
          if gone then w1
          else if status t = Cancelled then
            snd (snd (end_task TaskFailed (rstrip_colon (''its turn was cancelled: '' @ result_note t)) JNull now tk1 w1))
          else if session_lives_on e t (world (queue w1)) then w1
          else if MAX_NUDGES \<le> tk_nudges tk1 then snd (snd (end_task TaskFailed ENDED_WITHOUT_RESULT JNull now tk1 w1))
          else nudge e new_turn_id now tk1 t w1)"

text \<open>The signal: rows of turn \<open>n\<close> were appended.\<close>

definition ends_turn :: "turn_event \<Rightarrow> bool" where
  "ends_turn r \<longleftrightarrow> ev_kind r = ''status'' \<and>
     (case map_of (ev_payload r) ''status'' of Some (JStr s) \<Rightarrow> s \<in> status_name ` set TERMINAL | _ \<Rightarrow> False)"

definition on_events :: "task_env \<Rightarrow> string \<Rightarrow> string \<Rightarrow> turn_event list \<Rightarrow> instant \<Rightarrow> task_world \<Rightarrow> task_world" where
  "on_events e new_turn_id n rows now w =
     (case get_turn (world (queue w)) n of None \<Rightarrow> w
      | Some t \<Rightarrow>
          if (case map_of (origin_ref t) ''agent_task'' of None \<Rightarrow> True | Some j \<Rightarrow> \<not> truthy j) \<or> \<not> list_ex ends_turn rows then w
          else on_turn_ended e new_turn_id t now w)"


section \<open>The routes\<close>

datatype task_role = AgentRole | AdminRole | CreatorRole

record caller =
  is_own_login :: bool
  is_agent_admin :: bool
  user_pk :: "nat option"
  may_read :: bool

definition task_role :: "caller \<Rightarrow> agent_task \<Rightarrow> task_role option" where
  "task_role u tk = (if is_own_login u then Some AgentRole else if is_agent_admin u then Some AdminRole
     else if tk_created_by tk \<noteq> None \<and> tk_created_by tk = user_pk u \<and> may_read u then Some CreatorRole else None)"

datatype task_error = TaskNotFound | OnlyTheAgent | AgentCannotCancel | TaskEnded task_status string
  | ResultTooLarge | SchemaTooLarge | InputTooLarge | BadSchema string | BadResult "(string \<times> string) list"
  | GateRefused nat | NoCli string | NotEnqueued enqueue_error

definition task_or_404 :: "(agent_task \<Rightarrow> caller) \<Rightarrow> string \<Rightarrow> task_world \<Rightarrow> task_error + agent_task \<times> task_role" where
  "task_or_404 who n w = (case tbl_get tk_id n (tasks w) of None \<Rightarrow> Inl TaskNotFound
     | Some tk \<Rightarrow> (case task_role (who tk) tk of None \<Rightarrow> Inl TaskNotFound | Some r \<Rightarrow> Inr (tk, r)))"

text \<open>\<open>gate\<close> is what the shape, target and asker checks of the turn gates refuse, \<open>no_cli\<close> the refusal for an
  agent no command line tool runs.\<close>

record gate_answers =
  target_refused :: "nat option"
  asker_refused :: "nat option"
  no_cli :: "string option"

definition create_agent_task :: "task_env \<Rightarrow> gate_answers \<Rightarrow> string \<Rightarrow> string \<Rightarrow> instant \<Rightarrow> task_call \<Rightarrow> task_world
    \<Rightarrow> (task_error + agent_task) \<times> task_world" where
  "create_agent_task e ga pk new_turn_id now c w =
     (if target_refused ga \<noteq> None then (Inl (GateRefused (the (target_refused ga))), w)
      else if schema_problem e (c_schema c) \<noteq> '''' then (Inl (BadSchema (schema_problem e (c_schema c))), w)
      else if MAX_SCHEMA_BYTES < te_size e (c_schema c) then (Inl SchemaTooLarge, w)
      else if MAX_INPUT_BYTES < te_size e (c_input c) then (Inl InputTooLarge, w)
      else if asker_refused ga \<noteq> None then (Inl (GateRefused (the (asker_refused ga))), w)
      else if no_cli ga \<noteq> None then (Inl (NoCli (the (no_cli ga))), w)
      else (case create e pk new_turn_id now c w of
              (Inl err, w') \<Rightarrow> (Inl (NotEnqueued err), w') | (Inr tk, w') \<Rightarrow> (Inr tk, w')))"

definition get_agent_task :: "task_env \<Rightarrow> polls \<Rightarrow> (agent_task \<Rightarrow> caller) \<Rightarrow> string \<Rightarrow> int \<Rightarrow> nat \<Rightarrow> instant \<Rightarrow> task_world
    \<Rightarrow> (task_error + agent_task) option \<times> task_world" where
  "get_agent_task e p who n wait_s fuel now w =
     (case task_or_404 who n w of Inl err \<Rightarrow> (Some (Inl err), w)
      | Inr (tk, role) \<Rightarrow>
          let (tk1, w1) = (if role = AgentRole then (case expire e now tk w of (_, tk', w') \<Rightarrow> mark_task_running tk' w') else (tk, w))
          in (case wait e p wait_s fuel now tk1 w1 of None \<Rightarrow> (None, w1) | Some (tk2, w2) \<Rightarrow> (Some (Inr tk2), w2)))"

definition submit_agent_task_result :: "task_env \<Rightarrow> (agent_task \<Rightarrow> caller) \<Rightarrow> string \<Rightarrow> json \<Rightarrow> instant \<Rightarrow> task_world
    \<Rightarrow> (task_error + agent_task) \<times> task_world" where
  "submit_agent_task_result e who n result now w =
     (case task_or_404 who n w of Inl err \<Rightarrow> (Inl err, w)
      | Inr (tk, role) \<Rightarrow>
          if role \<noteq> AgentRole then (Inl OnlyTheAgent, w)
          else let (_, tk1, w1) = expire e now tk w in
            if tk_status tk1 \<notin> set OPEN then (Inl (TaskEnded (tk_status tk1) (tk_error tk1)), w1)
            else if MAX_RESULT_BYTES < te_size e result then (Inl ResultTooLarge, w1)
            else let (errors, tk2, w2) = submit e result now tk1 w1 in
              if errors \<noteq> [] then (Inl (BadResult errors), w2)
              else if tk_status tk2 \<noteq> TaskDone then (Inl (TaskEnded (tk_status tk2) (tk_error tk2)), w2)
              else (Inr tk2, w2))"

definition cancel_agent_task :: "task_env \<Rightarrow> (agent_task \<Rightarrow> caller) \<Rightarrow> string \<Rightarrow> instant \<Rightarrow> task_world
    \<Rightarrow> (task_error + agent_task) \<times> task_world" where
  "cancel_agent_task e who n now w =
     (case task_or_404 who n w of Inl err \<Rightarrow> (Inl err, w)
      | Inr (tk, role) \<Rightarrow>
          if role = AgentRole then (Inl AgentCannotCancel, w)
          else if tk_status tk \<in> set OPEN then (case cancel_task e now tk w of (tk', w') \<Rightarrow> (Inr tk', w'))
          else (Inr tk, w))"

section \<open>Rows only move forward\<close>

abbreviation ids_ok :: "task_world \<Rightarrow> bool" where
  "ids_ok w \<equiv> distinct (map tk_id (tasks w))"

definition asked :: "agent_task \<Rightarrow> (string \<times> agent_row \<times> string \<times> string) \<times> json \<times> json \<times> string \<times> nat option \<times> nat \<times> instant \<times> instant" where
  "asked tk = ((tk_id tk, tk_agent tk, tk_name tk, tk_instructions tk), tk_input tk, tk_schema tk, tk_routing tk,
     tk_created_by tk, tk_timeout_s tk, tk_deadline_at tk, tk_created_at tk)"

definition task_ok :: "task_env \<Rightarrow> agent_task \<Rightarrow> bool" where
  "task_ok e tk \<longleftrightarrow> (tk_finished_at tk = None \<longleftrightarrow> tk_status tk \<in> set OPEN)
     \<and> (tk_status tk = TaskDone \<longrightarrow> te_errors e (tk_schema tk) (tk_result tk) = [] \<and> tk_error tk = '''')
     \<and> (tk_status tk \<noteq> TaskDone \<longrightarrow> tk_result tk = JNull)
     \<and> (tk_status tk \<in> {TaskFailed, TaskCancelled} \<longrightarrow> tk_error tk \<noteq> '''')
     \<and> length (tk_error tk) \<le> 2000 \<and> tk_nudges tk \<le> MAX_NUDGES"

definition tasks_ok :: "task_env \<Rightarrow> task_world \<Rightarrow> bool" where
  "tasks_ok e w \<longleftrightarrow> ids_ok w \<and> (\<forall>r\<in>set (tasks w). task_ok e r)"

definition grows :: "task_env \<Rightarrow> agent_task \<Rightarrow> agent_task \<Rightarrow> bool" where
  "grows e r r' \<longleftrightarrow> asked r' = asked r \<and> tk_nudges r \<le> tk_nudges r' \<and> (tk_status r \<notin> set OPEN \<longrightarrow> r' = r)
     \<and> (task_ok e r \<longrightarrow> task_ok e r')"

definition advances :: "task_env \<Rightarrow> task_world \<Rightarrow> task_world \<Rightarrow> bool" where
  "advances e w w' \<longleftrightarrow> (\<exists>ts new. tasks w' = ts @ new \<and> list_all2 (grows e) (tasks w) ts \<and> (\<forall>r\<in>set new. task_ok e r)
     \<and> distinct (map tk_id new) \<and> set (map tk_id new) \<inter> set (map tk_id (tasks w)) = {})"

lemma grows_refl [simp]: "grows e r r"
  by (simp add: grows_def)

lemma grows_trans: "grows e a b \<Longrightarrow> grows e b c \<Longrightarrow> grows e a c"
  by (auto simp: grows_def)

lemma grows_id: "list_all2 (grows e) xs ys \<Longrightarrow> map tk_id ys = map tk_id xs"
  by (induction rule: list_all2_induct) (simp_all add: grows_def asked_def)

lemma advances_same: "tasks w' = tasks w \<Longrightarrow> advances e w w'"
  unfolding advances_def by (intro exI [of _ "tasks w"] exI [of _ "[]"]) (simp add: list_all2_refl)

lemma advances_trans:
  assumes "advances e a b" "advances e b c"
  shows "advances e a c"
proof -
  obtain ts new where b: "tasks b = ts @ new" "list_all2 (grows e) (tasks a) ts" "\<forall>r\<in>set new. task_ok e r"
    "distinct (map tk_id new)" "set (map tk_id new) \<inter> set (map tk_id (tasks a)) = {}"
    using assms(1) by (auto simp: advances_def)
  obtain us more where c: "tasks c = us @ more" "list_all2 (grows e) (tasks b) us" "\<forall>r\<in>set more. task_ok e r"
    "distinct (map tk_id more)" "set (map tk_id more) \<inter> set (map tk_id (tasks b)) = {}"
    using assms(2) by (auto simp: advances_def)
  obtain us1 us2 where u: "us = us1 @ us2" "list_all2 (grows e) ts us1" "list_all2 (grows e) new us2"
    using c(2) unfolding b(1) by (auto simp: list_all2_append1)
  have "list_all2 (grows e) (tasks a) us1"
    by (rule list_all2_trans [OF _ b(2) u(2)]) (rule grows_trans)
  moreover have "\<forall>r\<in>set us2. task_ok e r"
    using u(3) b(3) by (induction rule: list_all2_induct) (auto simp: grows_def)
  moreover have "map tk_id us2 = map tk_id new" using grows_id [OF u(3)] .
  moreover have "map tk_id ts = map tk_id (tasks a)" using grows_id [OF b(2)] .
  ultimately show ?thesis
    unfolding advances_def using b c(1,3,4,5) u(1)
    by (intro exI [of _ us1] exI [of _ "us2 @ more"]) (auto simp: image_Un simp flip: set_map)
qed

lemma advances_ids: "advances e w w' \<Longrightarrow> ids_ok w \<Longrightarrow> ids_ok w'"
proof -
  assume a: "advances e w w'" and ok: "ids_ok w"
  obtain ts new where t: "tasks w' = ts @ new" "list_all2 (grows e) (tasks w) ts" "distinct (map tk_id new)"
    "set (map tk_id new) \<inter> set (map tk_id (tasks w)) = {}"
    using a by (auto simp: advances_def)
  then show ?thesis using ok grows_id [OF t(2)] by (auto simp flip: set_map)
qed

lemma advances_ok: "advances e w w' \<Longrightarrow> tasks_ok e w \<Longrightarrow> tasks_ok e w'"
proof -
  assume a: "advances e w w'" and ok: "tasks_ok e w"
  obtain ts new where t: "tasks w' = ts @ new" "list_all2 (grows e) (tasks w) ts" "\<forall>r\<in>set new. task_ok e r"
    using a by (auto simp: advances_def)
  have "\<forall>r\<in>set (tasks w). task_ok e r" using ok by (simp add: tasks_ok_def)
  with t(2) have "\<forall>r\<in>set ts. task_ok e r" by (induction rule: list_all2_induct) (auto simp: grows_def)
  moreover have "ids_ok w'" using advances_ids [OF a] ok by (simp add: tasks_ok_def)
  ultimately show ?thesis using t by (auto simp: tasks_ok_def)
qed

lemma advances_row: "advances e w w' \<Longrightarrow> r \<in> set (tasks w) \<Longrightarrow> \<exists>r'\<in>set (tasks w'). grows e r r'"
  unfolding advances_def by (metis UnI1 in_set_conv_nth list_all2_conv_all_nth set_append)

lemma advances_update:
  assumes "tasks w' = tbl_update P f (tasks w)" and "\<And>r. r \<in> set (tasks w) \<Longrightarrow> P r \<Longrightarrow> grows e r (f r)"
  shows "advances e w w'"
proof -
  have "list_all2 (grows e) xs (tbl_update P f xs)" if "\<And>r. r \<in> set xs \<Longrightarrow> P r \<Longrightarrow> grows e r (f r)" for xs
    using that by (induction xs) auto
  then show ?thesis unfolding advances_def using assms by (intro exI [of _ "tasks w'"] exI [of _ "[]"]) simp
qed

text \<open>The row a caller works on was read at some time: what was asked has not changed since.\<close>

definition was_read :: "agent_task \<Rightarrow> task_world \<Rightarrow> bool" where
  "was_read tk w \<longleftrightarrow> (\<forall>r\<in>set (tasks w). tk_id r = tk_id tk \<longrightarrow> asked r = asked tk)"

lemma was_read_row: "ids_ok w \<Longrightarrow> r \<in> set (tasks w) \<Longrightarrow> was_read r w"
  by (auto simp: was_read_def distinct_map inj_on_def)

lemma was_read_reread: "ids_ok w \<Longrightarrow> was_read (reread tk w) w"
proof (cases "tbl_get tk_id (tk_id tk) (tasks w)")
  case None
  then have "reread tk w = tk" by (simp add: reread_def)
  moreover have "tk_id tk \<notin> tk_id ` set (tasks w)" using None by (metis tbl_get_None_iff)
  ultimately show ?thesis by (simp add: was_read_def) (metis imageI)
next
  case (Some r)
  assume "ids_ok w"
  then show ?thesis using was_read_row tbl_get_Some [OF Some] Some by (simp add: reread_def)
qed

lemma same_tasks_read: "tasks w' = tasks w \<Longrightarrow> was_read tk w' = was_read tk w"
  by (simp add: was_read_def)

lemma drop_queued_tasks [simp]: "tasks (drop_queued_turn e now tk w) = tasks w"
  by (simp add: drop_queued_turn_def split: option.split)

lemma end_task_advances:
  assumes "end_task st err res now tk w = (moved, tk', w')" and "was_read tk w" and st: "st \<notin> set OPEN"
    and done': "st = TaskDone \<Longrightarrow> err = '''' \<and> te_errors e (tk_schema tk) res = []"
    and why: "st \<noteq> TaskDone \<Longrightarrow> err \<noteq> ''''"
  shows "advances e w w'" and "ids_ok w \<Longrightarrow> was_read tk' w'"
proof -
  have w': "tasks w' = tbl_update (\<lambda>r. tk_id r = tk_id tk \<and> tk_status r \<in> set OPEN) (end_fields st err res now) (tasks w)"
    and tk': "tk' = reread tk w'"
    using assms(1) by (auto simp: end_task_def tbl_cas_def Let_def)
  show adv: "advances e w w'"
  proof (rule advances_update [OF w'])
    fix r assume r: "r \<in> set (tasks w)" "tk_id r = tk_id tk \<and> tk_status r \<in> set OPEN"
    then have "tk_schema r = tk_schema tk" using assms(2) by (auto simp: was_read_def asked_def)
    moreover have "tk_status r \<noteq> TaskDone" using r(2) by (auto simp: OPEN_def)
    moreover have "st \<notin> {TaskFailed, TaskCancelled} \<Longrightarrow> st = TaskDone" using st by (cases st) (simp_all add: OPEN_def)
    ultimately show "grows e r (end_fields st err res now r)"
      using r st done' why by (auto simp: grows_def asked_def task_ok_def end_fields_def)
  qed
  show "was_read tk' w'" if "ids_ok w" unfolding tk' by (rule was_read_reread) (rule advances_ids [OF adv that])
qed

lemma timed_out_why [simp]: "timed_out tk \<noteq> ''''"
  by (simp add: timed_out_def)

lemma open_or: "st \<in> {TaskDone, TaskFailed, TaskCancelled} \<longleftrightarrow> st \<notin> set OPEN"
  by (cases st) (simp_all add: OPEN_def)

lemma expire_advances:
  assumes "expire e now tk w = (moved, tk', w')" and "was_read tk w"
  shows "advances e w w'" and "ids_ok w \<Longrightarrow> was_read tk' w'"
proof -
  obtain m t' v where ending: "end_task TaskFailed (timed_out tk) JNull now tk w = (m, t', v)" by (metis prod.exhaust)
  have "advances e w v" "ids_ok w \<Longrightarrow> was_read t' v"
    using end_task_advances [OF ending assms(2)] by (simp_all add: OPEN_def)
  moreover have "tk' = tk \<and> w' = w \<or> tk' = t' \<and> tasks w' = tasks v"
    using assms(1) ending by (cases m) (auto simp: expire_def split: if_splits)
  ultimately show "advances e w w'" "ids_ok w \<Longrightarrow> was_read tk' w'"
    using assms(2) advances_trans [OF _ advances_same [of w' v]] advances_same [of w w]
    by (blast, metis same_tasks_read)
qed

lemma submit_advances:
  assumes "submit e res now tk w = (errs, tk', w')" and "was_read tk w"
  shows "advances e w w'"
proof (cases "result_errors e tk res = []")
  case True
  then have "te_errors e (tk_schema tk) res = []" by (simp add: result_errors_def MAX_ERRORS_def)
  moreover obtain m where ending: "end_task TaskDone '''' res now tk w = (m, tk', w')"
    using assms(1) True by (auto simp: submit_def) (metis prod.collapse)
  ultimately show ?thesis by (intro end_task_advances(1) [OF ending assms(2)]) (simp_all add: OPEN_def)
next
  case False
  then show ?thesis using assms(1) by (simp add: submit_def advances_same)
qed

lemma cancel_advances:
  assumes "cancel_task e now tk w = (tk', w')" and "was_read tk w"
  shows "advances e w w'"
proof -
  obtain m t' v where ending: "end_task TaskCancelled ''cancelled'' JNull now tk w = (m, t', v)" by (metis prod.exhaust)
  have "advances e w v" using end_task_advances(1) [OF ending assms(2)] by (simp add: OPEN_def)
  then show ?thesis
    using assms(1) ending advances_trans [OF _ advances_same [of "drop_queued_turn e now t' v" v]]
    by (auto simp: cancel_task_def split: if_splits)
qed

lemma running_advances:
  assumes "mark_task_running tk w = (tk', w')"
  shows "advances e w w'" and "ids_ok w \<Longrightarrow> was_read tk w \<Longrightarrow> was_read tk' w'"
proof -
  have adv: "advances e w (w\<lparr>tasks := snd (tbl_cas (\<lambda>r. tk_id r = tk_id tk \<and> tk_status r = TaskQueued)
      (\<lambda>r. r\<lparr>tk_status := TaskRunning\<rparr>) (tasks w))\<rparr>)" (is "advances e w ?w")
    by (rule advances_update [of _ "\<lambda>r. tk_id r = tk_id tk \<and> tk_status r = TaskQueued" "\<lambda>r. r\<lparr>tk_status := TaskRunning\<rparr>"])
      (auto simp: tbl_cas_def grows_def asked_def task_ok_def OPEN_def)
  then show "advances e w w'" using assms by (auto simp: mark_task_running_def Let_def advances_same split: if_splits)
  have "ids_ok w \<Longrightarrow> was_read (reread tk ?w) ?w" by (rule was_read_reread) (rule advances_ids [OF adv])
  then show "ids_ok w \<Longrightarrow> was_read tk w \<Longrightarrow> was_read tk' w'"
    using assms by (auto simp: mark_task_running_def Let_def split: if_splits)
qed

lemma expire_all_advances: "\<forall>tk\<in>set tks. \<forall>v. advances e w v \<longrightarrow> was_read tk v \<Longrightarrow> advances e w (snd (expire_all e now tks (n, w)))"
proof (induction tks arbitrary: n w)
  case Nil
  show ?case by (simp add: advances_same)
next
  case (Cons tk tks)
  obtain m tk' w' where exp: "expire e now tk w = (m, tk', w')" by (metis prod.exhaust)
  have adv: "advances e w w'" by (rule expire_advances(1) [OF exp]) (use Cons.prems advances_same in auto)
  have "\<forall>tk\<in>set tks. \<forall>v. advances e w' v \<longrightarrow> was_read tk v" using Cons.prems advances_trans [OF adv] by simp
  from Cons.IH [OF this] show ?case using exp advances_trans [OF adv] by simp
qed

lemma advances_read:
  assumes "advances e w v" "ids_ok w" "r \<in> set (tasks w)"
  shows "was_read r v"
proof -
  obtain r' where r': "r' \<in> set (tasks v)" "grows e r r'" using advances_row [OF assms(1,3)] by blast
  then have "asked r' = asked r" "tk_id r' = tk_id r" by (auto simp: grows_def asked_def)
  then show ?thesis using was_read_row [OF advances_ids [OF assms(1,2)] r'(1)] by (simp add: was_read_def)
qed

lemma expire_overdue_advances:
  "expire_overdue e order now w = (n, w') \<Longrightarrow> ids_ok w \<Longrightarrow> (\<And>xs. set (order xs) \<subseteq> set xs) \<Longrightarrow> advances e w w'"
  using expire_all_advances [of "take 500 (order (overdue now w))" e w now 0] advances_read
  unfolding expire_overdue_def overdue_def
  by (metis (no_types, lifting) filter_is_subset in_set_takeD snd_conv subset_iff)

lemma create_advances:
  assumes "create e pk tid now c w = (res, w')" and fresh: "pk \<notin> tk_id ` set (tasks w)"
  shows "advances e w w'"
proof -
  let ?tk = "new_task pk now c"
  obtain r ad where enq: "enqueue_turn (te_rd e) (te_gates e) (te_reach e) tid now (first_ask e c ?tk) (queue w) = (r, ad)"
    by (metis prod.exhaust)
  show ?thesis
  proof (cases r)
    case (Inl err)
    then show ?thesis using assms(1) enq by (simp add: create_def Let_def advances_same)
  next
    case (Inr p)
    obtain n b where p: "p = (n, b)" by (cases p)
    let ?new = "with_turn now n ad ?tk"
    have w': "tasks w' = tasks w @ [?new]" using assms(1) enq Inr p by (auto simp: create_def Let_def)
    have "tk_id ?new = pk" "task_ok e ?new"
      by (simp_all add: with_turn_def task_ok_def new_task_def OPEN_def not_run_def split: option.split)
    then show ?thesis unfolding advances_def using w' fresh
      by (intro exI [of _ "tasks w"] exI [of _ "[?new]"]) (simp add: list_all2_refl)
  qed
qed

text \<open>A row just read and still open can only be ended now, not missed.\<close>

lemma expire_now:
  assumes "r \<in> set (tasks w)" and "expire e now r w = (False, tk1, w1)"
  shows "tk1 = r \<and> w1 = w \<and> (tk_status r \<in> set OPEN \<longrightarrow> now < tk_deadline_at r)"
proof (cases "tk_status r \<notin> set OPEN \<or> now < tk_deadline_at r")
  case True
  then show ?thesis using assms(2) by (auto simp: expire_def)
next
  case False
  then have "filter (\<lambda>x. tk_id x = tk_id r \<and> tk_status x \<in> set OPEN) (tasks w) \<noteq> []"
    using assms(1) by (auto simp: filter_empty_conv)
  then have "fst (end_task TaskFailed (timed_out r) JNull now r w)"
    by (simp add: end_task_def tbl_cas_def Let_def)
  then show ?thesis using assms(2) False by (auto simp: expire_def split: prod.splits)
qed

lemma fail_advances: "was_read x v \<Longrightarrow> err \<noteq> '''' \<Longrightarrow> advances e v (snd (snd (end_task TaskFailed err JNull now x v)))"
  by (cases "end_task TaskFailed err JNull now x v")
    (auto intro!: end_task_advances(1) [of TaskFailed err JNull now x v] simp: OPEN_def)

lemma nudge_advances:
  assumes tk: "tk \<in> set (tasks w)" "ids_ok w" "tk_nudges tk < MAX_NUDGES"
  shows "advances e w (nudge e tid now tk old w)"
proof -
  obtain r ad where enq: "enqueue_turn (te_rd e) (te_gates e) (te_reach e) tid now (nudge_ask e tk old) (queue w) = (r, ad)"
    by (metis prod.exhaust)
  show ?thesis
  proof (cases r)
    case (Inl err)
    then show ?thesis
      using enq fail_advances [OF was_read_row [OF tk(2,1)], of "ENDED_WITHOUT_RESULT @ '', and a follow-up turn could not be sent''"]
      by (simp add: nudge_def)
  next
    case (Inr p)
    obtain n b where p: "p = (n, b)" by (cases p)
    let ?P = "\<lambda>r. tk_id r = tk_id tk \<and> tk_status r \<in> set OPEN \<and> tk_turn r = Some (turn_id old)"
    let ?f = "\<lambda>r. r\<lparr>tk_nudges := tk_nudges tk + 1, tk_turn := Some n\<rparr>"
    define w1 where "w1 = w\<lparr>tasks := tbl_update ?P ?f (tasks w), queue := ad\<rparr>"
    have same: "r = tk" if "r \<in> set (tasks w)" "tk_id r = tk_id tk" for r
      using that tk by (auto simp: distinct_map inj_on_def)
    have w1: "advances e w w1"
      by (rule advances_update [of _ ?P ?f])
        (use tk(3) in \<open>auto simp: w1_def grows_def asked_def task_ok_def MAX_NUDGES_def dest!: same\<close>)
    have "advances e w1 (snd (snd (end_task TaskFailed (not_run ''its follow-up turn'' t) JNull now (reread tk w1) w1)))" for t
      by (rule fail_advances) (simp_all add: was_read_reread [OF advances_ids [OF w1 tk(2)]] not_run_def)
    then have both: "advances e w (snd (snd (end_task TaskFailed (not_run ''its follow-up turn'' t) JNull now (reread tk w1) w1)))" for t
      using advances_trans [OF w1] by blast
    show ?thesis
      using enq Inr p both w1 by (simp add: nudge_def tbl_cas_def Let_def w1_def split: option.split)
  qed
qed

lemma task_of_turn_row: "task_of_turn t w = Some tk \<Longrightarrow> tk \<in> set (tasks w) \<and> tk_turn tk = Some (turn_id t) \<and> tk_status tk \<in> set OPEN"
  by (auto simp: task_of_turn_def find_Some_iff split: option.splits)

lemma on_turn_ended_advances: "ids_ok w \<Longrightarrow> advances e w (on_turn_ended e tid t now w)"
proof (cases "task_of_turn t w")
  case None
  then show ?thesis by (simp add: on_turn_ended_def advances_same)
next
  case (Some tk)
  assume ids: "ids_ok w"
  note tk = task_of_turn_row [OF Some]
  obtain m tk1 w1 where exp: "expire e now tk w = (m, tk1, w1)" by (metis prod.exhaust)
  show ?thesis
  proof (cases m)
    case True
    then show ?thesis using Some exp expire_advances(1) [OF exp] was_read_row [OF ids] tk by (simp add: on_turn_ended_def)
  next
    case False
    then have now': "tk1 = tk" "w1 = w" using expire_now [of tk w e now tk1 w1] exp tk by auto
    note fails = fail_advances [OF was_read_row [OF ids conjunct1 [OF tk]]]
    have "rstrip_colon (''its turn was cancelled: '' @ result_note t) \<noteq> ''''"
    proof -
      have "CHR ''d'' \<in> set (rstrip_colon (''its turn was cancelled: '' @ result_note t))"
      proof -
        let ?p = "\<lambda>c. c = CHR '':'' \<or> c = CHR '' ''"
        have "x \<in> set xs \<Longrightarrow> \<not> ?p x \<Longrightarrow> x \<in> set (dropWhile ?p xs)" for x xs by (induction xs) auto
        then show ?thesis by (simp add: rstrip_colon_def)
      qed
      then show ?thesis by auto
    qed
    then show ?thesis
      using Some exp False now' fails nudge_advances [of tk w e tid now t] tk ids
      by (auto simp: on_turn_ended_def advances_same ENDED_WITHOUT_RESULT_def not_le)
  qed
qed

section \<open>Everything that happens to the tasks\<close>

lemma wait_loop_advances:
  assumes others: "\<And>i v. ids_ok v \<Longrightarrow> advances e v (others p i v)"
  shows "wait_loop e p entered deadline i fuel tk w = Some (tk', w') \<Longrightarrow> ids_ok w \<Longrightarrow> advances e w w'"
proof (induction fuel arbitrary: i tk w)
  case (Suc fuel)
  show ?case
  proof (cases "tk_status tk = entered \<and> monotonic p i < deadline")
    case True
    let ?w1 = "others p i w"
    obtain m tk2 w2 where exp: "expire e (wall p i) (reread tk ?w1) ?w1 = (m, tk2, w2)" by (metis prod.exhaust)
    have w1: "advances e w ?w1" by (rule others [OF Suc.prems(2)])
    have "advances e ?w1 w2"
      by (rule expire_advances(1) [OF exp was_read_reread]) (rule advances_ids [OF w1 Suc.prems(2)])
    then have w2: "advances e w w2" by (rule advances_trans [OF w1])
    have "wait_loop e p entered deadline (Suc i) fuel tk2 w2 = Some (tk', w')"
      using Suc.prems(1) True exp by (simp add: Let_def)
    from advances_trans [OF w2 Suc.IH [OF this advances_ids [OF w2 Suc.prems(2)]]] show ?thesis .
  next
    case False
    then show ?thesis using Suc.prems(1) by (auto simp: advances_same)
  qed
qed simp

lemma wait_advances:
  assumes "\<And>i v. ids_ok v \<Longrightarrow> advances e v (others p i v)" and "was_read tk w" and ids: "ids_ok w"
    and w': "wait e p s fuel now tk w = Some (tk', w')"
  shows "advances e w w'"
proof -
  obtain m tk1 w1 where exp: "expire e now tk w = (m, tk1, w1)" by (metis prod.exhaust)
  note w1 = expire_advances(1) [OF exp assms(2)]
  show ?thesis
  proof (cases "wait_clamp s = 0 \<or> tk_status tk1 \<notin> set OPEN")
    case True
    then show ?thesis using w' exp w1 by (simp add: wait_def Let_def)
  next
    case False
    then have "wait_loop e p (tk_status tk1) (monotonic p 0 + wait_clamp s * SECOND) 0 fuel tk1 w1 = Some (tk', w')"
      using w' exp unfolding wait_def Let_def by (simp split: if_splits)
    from advances_trans [OF w1 wait_loop_advances [OF assms(1) this advances_ids [OF w1 ids]]] show ?thesis .
  qed
qed

lemma task_or_404_row: "task_or_404 who n w = Inr (tk, role) \<Longrightarrow> tk \<in> set (tasks w) \<and> tk_id tk = n \<and> task_role (who tk) tk = Some role"
  by (auto simp: task_or_404_def split: option.splits dest: tbl_get_Some)

lemma get_task_advances:
  assumes others: "\<And>i v. ids_ok v \<Longrightarrow> advances e v (others p i v)" and ids: "ids_ok w"
    and w': "get_agent_task e p who n s fuel now w = (res, w')"
  shows "advances e w w'"
proof (cases "task_or_404 who n w")
  case (Inl err)
  then show ?thesis using w' by (simp add: get_agent_task_def advances_same)
next
  case (Inr x)
  obtain tk role where x: "x = (tk, role)" by (cases x)
  have tk: "was_read tk w" using task_or_404_row Inr x was_read_row [OF ids] by blast
  obtain m tk0 w0 where exp: "expire e now tk w = (m, tk0, w0)" by (metis prod.exhaust)
  obtain tk1 w1 where first: "(if role = AgentRole then (case expire e now tk w of (_, tk', v) \<Rightarrow> mark_task_running tk' v) else (tk, w)) = (tk1, w1)"
    by (metis prod.exhaust)
  have w1: "advances e w w1 \<and> was_read tk1 w1"
  proof (cases "role = AgentRole")
    case True
    have w0: "advances e w w0" "was_read tk0 w0" using expire_advances [OF exp tk] ids by blast+
    have "mark_task_running tk0 w0 = (tk1, w1)" using first True exp by simp
    from running_advances(1) [OF this, of e] running_advances(2) [OF this] w0 advances_ids [OF w0(1) ids] advances_trans show ?thesis by blast
  next
    case False
    then show ?thesis using first tk by (auto simp: advances_same)
  qed
  then have ids1: "ids_ok w1" using advances_ids ids by blast
  have eq: "(res, w') = (case wait e p s fuel now tk1 w1 of None \<Rightarrow> (None, w1) | Some (tk2, w2) \<Rightarrow> (Some (Inr tk2), w2))"
    using w' Inr x first unfolding get_agent_task_def by (simp add: Let_def)
  show ?thesis
  proof (cases "wait e p s fuel now tk1 w1")
    case None
    then show ?thesis using eq w1 by simp
  next
    case (Some y)
    obtain tk2 w2 where "y = (tk2, w2)" by (cases y)
    then have "wait e p s fuel now tk1 w1 = Some (tk2, w')" using Some eq by simp
    from wait_advances [OF others conjunct2 [OF w1] ids1 this] show ?thesis using w1 advances_trans by blast
  qed
qed

lemma submit_result_advances:
  assumes "ids_ok w" and "submit_agent_task_result e who n result now w = (res, w')"
  shows "advances e w w'"
proof (cases "task_or_404 who n w")
  case (Inl err)
  then show ?thesis using assms(2) by (simp add: submit_agent_task_result_def advances_same)
next
  case (Inr x)
  obtain tk role where x: "x = (tk, role)" by (cases x)
  have tk: "was_read tk w" using task_or_404_row Inr x was_read_row [OF assms(1)] by blast
  obtain m tk1 w1 where exp: "expire e now tk w = (m, tk1, w1)" by (metis prod.exhaust)
  obtain errs tk2 w2 where sub: "submit e result now tk1 w1 = (errs, tk2, w2)" by (metis prod.exhaust)
  have w1: "advances e w w1" and "was_read tk1 w1" using expire_advances [OF exp tk] assms(1) by blast+
  then have "advances e w w2" using submit_advances [OF sub] advances_trans by blast
  moreover have "w' = w \<or> w' = w1 \<or> w' = w2"
    using assms(2) Inr x exp sub unfolding submit_agent_task_result_def by (auto simp: Let_def split: if_splits)
  ultimately show ?thesis using w1 advances_same by blast
qed

lemma cancel_route_advances:
  assumes "ids_ok w" and "cancel_agent_task e who n now w = (res, w')"
  shows "advances e w w'"
proof (cases "task_or_404 who n w")
  case (Inl err)
  then show ?thesis using assms(2) by (simp add: cancel_agent_task_def advances_same)
next
  case (Inr x)
  obtain tk role where x: "x = (tk, role)" by (cases x)
  have tk: "was_read tk w" using task_or_404_row Inr x was_read_row [OF assms(1)] by blast
  obtain tk1 w1 where "cancel_task e now tk w = (tk1, w1)" by (metis prod.exhaust)
  then have "advances e w w1" "w' = w \<or> w' = w1"
    using cancel_advances [OF _ tk] assms(2) Inr x unfolding cancel_agent_task_def by (auto split: if_splits)
  then show ?thesis using advances_same by blast
qed

lemma create_route_advances:
  assumes "create_agent_task e ga pk tid now c w = (res, w')" and "pk \<notin> tk_id ` set (tasks w)"
  shows "advances e w w'"
proof -
  obtain r v where cr: "create e pk tid now c w = (r, v)" by (metis prod.exhaust)
  have "w' = w \<or> w' = v"
    using assms(1) cr unfolding create_agent_task_def by (auto split: if_splits sum.splits)
  then show ?thesis using create_advances [OF cr assms(2)] advances_same by blast
qed

lemma on_events_advances: "ids_ok w \<Longrightarrow> advances e w (on_events e tid n rows now w)"
  using on_turn_ended_advances by (auto simp: on_events_def advances_same split: option.split)

text \<open>
  One step: a route, the clock's tick, the signal that a turn's ledger grew, one of the service operations on
  a row read earlier (two requests racing), or anything another component does to the turns.  During a long
  poll the others take steps of their own.
\<close>

inductive task_op :: "task_env \<Rightarrow> task_world \<Rightarrow> task_world \<Rightarrow> bool" for e where
  route_create: "pk \<notin> tk_id ` set (tasks w) \<Longrightarrow> create_agent_task e ga pk tid now c w = (res, w') \<Longrightarrow> task_op e w w'"
| route_get: "(\<And>i v. (task_op e)\<^sup>*\<^sup>* v (others p i v)) \<Longrightarrow> get_agent_task e p who n s fuel now w = (out, w') \<Longrightarrow> task_op e w w'"
| route_submit: "submit_agent_task_result e who n result now w = (res, w') \<Longrightarrow> task_op e w w'"
| route_cancel: "cancel_agent_task e who n now w = (res, w') \<Longrightarrow> task_op e w w'"
| tick: "(\<And>xs. set (order xs) \<subseteq> set xs) \<Longrightarrow> expire_overdue e order now w = (k, w') \<Longrightarrow> task_op e w w'"
| ledger_grew: "on_events e tid n rows now w = w' \<Longrightarrow> task_op e w w'"
| late_submit: "was_read tk w \<Longrightarrow> submit e result now tk w = (errs, tk', w') \<Longrightarrow> task_op e w w'"
| late_cancel: "was_read tk w \<Longrightarrow> cancel_task e now tk w = (tk', w') \<Longrightarrow> task_op e w w'"
| late_expire: "was_read tk w \<Longrightarrow> expire e now tk w = (m, tk', w') \<Longrightarrow> task_op e w w'"
| late_read: "mark_task_running tk w = (tk', w') \<Longrightarrow> task_op e w w'"
| elsewhere: "task_op e w (w\<lparr>queue := q\<rparr>)"

lemma run_advances:
  "(\<lambda>v v'. task_op e v v' \<and> (ids_ok v \<longrightarrow> advances e v v'))\<^sup>*\<^sup>* w w' \<Longrightarrow> ids_ok w \<Longrightarrow> advances e w w'"
proof (induction rule: rtranclp_induct)
  case base
  show ?case by (simp add: advances_same)
next
  case (step a b)
  then show ?case using advances_trans advances_ids by blast
qed

lemma task_op_advances: "task_op e w w' \<Longrightarrow> ids_ok w \<Longrightarrow> advances e w w'"
proof (induction rule: task_op.induct)
  case route_create then show ?case by (intro create_route_advances)
next
  case (route_get p who n s fuel now w out w')
  have "advances e v (others p i v)" if "ids_ok v" for i v
    by (rule run_advances [OF _ that]) (rule route_get(1))
  from get_task_advances [OF this route_get(3,2)] show ?case .
next
  case route_submit then show ?case by (intro submit_result_advances)
next
  case route_cancel then show ?case by (intro cancel_route_advances)
next
  case (tick order now w k w') then show ?case by (intro expire_overdue_advances)
next
  case ledger_grew then show ?case using on_events_advances by blast
next
  case late_submit then show ?case by (intro submit_advances)
next
  case late_cancel then show ?case by (intro cancel_advances)
next
  case late_expire then show ?case by (intro expire_advances(1))
next
  case late_read then show ?case by (intro running_advances(1))
next
  case elsewhere show ?case by (simp add: advances_same)
qed

lemma tasks_run: "(task_op e)\<^sup>*\<^sup>* w w' \<Longrightarrow> ids_ok w \<Longrightarrow> advances e w w'"
  by (induction rule: rtranclp_induct) (blast intro: advances_same advances_trans task_op_advances advances_ids)+

text \<open>An ended task is final: the life cycle of the prelude, read at one task.\<close>

definition task_row :: "string \<Rightarrow> task_world \<Rightarrow> agent_task option" where
  "task_row n w = tbl_get tk_id n (tasks w)"

lemma task_row_iff: "ids_ok w \<Longrightarrow> task_row n w = Some r \<longleftrightarrow> r \<in> set (tasks w) \<and> tk_id r = n"
  unfolding task_row_def by (metis tbl_get_Some tbl_get_distinct)

lemma task_row_grows: "advances e w w' \<Longrightarrow> ids_ok w \<Longrightarrow> task_row n w = Some r \<Longrightarrow> \<exists>r'. task_row n w' = Some r' \<and> grows e r r'"
proof -
  assume adv: "advances e w w'" and ids: "ids_ok w" and r: "task_row n w = Some r"
  then obtain r' where "r' \<in> set (tasks w')" "grows e r r'" using advances_row task_row_iff by metis
  moreover have "tk_id r' = n" using \<open>grows e r r'\<close> task_row_iff [OF ids] r by (auto simp: grows_def asked_def)
  ultimately show ?thesis using task_row_iff [OF advances_ids [OF adv ids]] by blast
qed

interpretation task_end: lifecycle "\<lambda>w w'. task_op e w w' \<and> ids_ok w" "task_row n"
  "\<lambda>v. \<exists>r. v = Some r \<and> tk_status r \<notin> set OPEN" for e n
proof
  fix w w' assume step: "task_op e w w' \<and> ids_ok w" and "\<exists>r. task_row n w = Some r \<and> tk_status r \<notin> set OPEN"
  then obtain r where r: "task_row n w = Some r" "tk_status r \<notin> set OPEN" by blast
  have "advances e w w'" using step task_op_advances by blast
  from task_row_grows [OF this _ r(1)] step obtain r' where "task_row n w' = Some r'" "grows e r r'" by blast
  then show "task_row n w' = task_row n w" using r by (simp add: grows_def)
qed

lemma decided_task:
  assumes "(task_op e)\<^sup>*\<^sup>* w w'" and "ids_ok w" and "task_row n w = Some r" and "tk_status r \<notin> set OPEN"
  shows "task_row n w' = Some r"
proof -
  have "(\<lambda>w w'. task_op e w w' \<and> ids_ok w)\<^sup>*\<^sup>* w w'" using assms(1)
  proof (induction rule: rtranclp_induct)
    case (step a b)
    have "ids_ok a" using advances_ids [OF tasks_run [OF step(1) assms(2)] assms(2)] .
    with step(2,3) show ?case by (auto intro: rtranclp.rtrancl_into_rtrancl)
  qed simp
  from task_end.run_final [OF this] assms(3,4) show ?thesis by auto
qed

text \<open>C4. Whatever callers, agents, the clock and ending turns do to the tasks, in any order and on rows
  read earlier: a task is done only with a result that fits its schema, and has no result otherwise; it has a
  finishing time exactly when it ended; a failed or cancelled one says why; it is nudged at most
  \<open>MAX_NUDGES\<close> times; what was asked never changes; and the first end stands, an ended task keeping its
  row as it is for ever.\<close>

theorem task_answers_stand:
  assumes "(task_op e)\<^sup>*\<^sup>* w w'" and "tasks_ok e w" and "task_row n w = Some r"
  shows "tasks_ok e w' \<and> (\<exists>r'. task_row n w' = Some r' \<and> asked r' = asked r \<and> tk_nudges r \<le> tk_nudges r'
    \<and> (tk_status r \<notin> set OPEN \<longrightarrow> r' = r)
    \<and> (tk_status r' = TaskDone \<longrightarrow> result_errors e r' (tk_result r') = []))"
proof -
  have ids: "ids_ok w" using assms(2) by (simp add: tasks_ok_def)
  have adv: "advances e w w'" by (rule tasks_run [OF assms(1) ids])
  obtain r' where r': "task_row n w' = Some r'" "grows e r r'" using task_row_grows [OF adv ids assms(3)] by blast
  have ok: "tasks_ok e w'" by (rule advances_ok [OF adv assms(2)])
  then have "task_ok e r'" using r'(1) task_row_iff by (auto simp: tasks_ok_def)
  moreover have "tk_status r \<notin> set OPEN \<Longrightarrow> r' = r" using decided_task [OF assms(1) ids assms(3)] r'(1) by simp
  ultimately show ?thesis using ok r' by (auto simp: grows_def task_ok_def result_errors_def)
qed

definition sample_env :: task_env where
  "sample_env = \<lparr> te_rd = blind_redactor, te_gates = plain_gates, te_reach = no_reach,
     te_errors = (\<lambda>s r. case r of JNum i \<Rightarrow> [] | _ \<Rightarrow> [('''', ''not a number'')]), te_schema_problem = (\<lambda>s. ''''),
     te_size = (\<lambda>j. 10), te_skills = (\<lambda>a. [''triage'']), te_live = (\<lambda>db t. False), te_lineage = (\<lambda>t. (None, [])) \<rparr>"

definition sample_task :: agent_task where
  "sample_task = \<lparr> tk_id = ''aaaaaaaa-aaaa-4aaa-8aaa-aaaaaaaaaaaa'', tk_agent = \<lparr> ag_slug = ''eva'', ag_workspace = ''acme'', ag_held = False, ag_clis = [] \<rparr>,
     tk_name = ''triage.review'', tk_instructions = '''', tk_input = JNull, tk_schema = JObj [(''type'', JStr ''integer'')],
     tk_status = TaskQueued, tk_result = JNull, tk_error = '''', tk_nudges = 0, tk_turn = Some ''aaaaaaaa-1'',
     tk_routing = ''prefer_local'', tk_created_by = Some 7, tk_timeout_s = 900, tk_deadline_at = 900000000,
     tk_created_at = 0, tk_finished_at = None \<rparr>"

definition ended_turn :: turn where
  "ended_turn = plain_turn ''aaaaaaaa-1''\<lparr>status := Done, origin_ref := [(''agent_task'', JStr (tk_id sample_task))]\<rparr>"

definition sample_tasks :: task_world where
  "sample_tasks = \<lparr> tasks = [sample_task], queue = sample_queue\<lparr>world := sample_turns\<lparr>turns := [ended_turn]\<rparr>\<rparr> \<rparr>"

lemma sample_tasks_ok: "tasks_ok sample_env sample_tasks"
  by (simp add: tasks_ok_def sample_tasks_def task_ok_def sample_task_def OPEN_def MAX_NUDGES_def)

lemma task_answers_stand_witness:
  "\<exists>r'. task_row (tk_id sample_task) (snd (submit_agent_task_result sample_env (\<lambda>tk. \<lparr> is_own_login = True, is_agent_admin = False,
      user_pk = None, may_read = False \<rparr>) (tk_id sample_task) (JNum 4) 50 sample_tasks)) = Some r' \<and> asked r' = asked sample_task"
proof -
  let ?r = "submit_agent_task_result sample_env (\<lambda>tk. \<lparr> is_own_login = True, is_agent_admin = False,
      user_pk = None, may_read = False \<rparr>) (tk_id sample_task) (JNum 4) 50 sample_tasks"
  have "(task_op sample_env)\<^sup>*\<^sup>* sample_tasks (snd ?r)"
    by (rule r_into_rtranclp, rule route_submit [of _ _ _ _ _ _ "fst ?r"]) (rule prod.collapse [symmetric])
  moreover have "task_row (tk_id sample_task) sample_tasks = Some sample_task"
    by (simp add: task_row_def sample_tasks_def)
  ultimately show ?thesis using task_answers_stand [OF _ sample_tasks_ok] by blast
qed

section \<open>A turn that ended without a result\<close>

lemma tbl_update_row:
  assumes "distinct (map k t)" and "r \<in> set t" and "P r" and "\<And>x. P x \<Longrightarrow> k x = k r" and "\<And>x. k (f x) = k x"
  shows "tbl_get k (k r) (tbl_update P f t) = Some (f r)" and "m \<noteq> k r \<Longrightarrow> tbl_get k m (tbl_update P f t) = tbl_get k m t"
proof -
  have "tbl_get k m (tbl_update P f t) = map_option (\<lambda>x. if P x then f x else x) (tbl_get k m t)" for m
    using assms(5) by (induction t) auto
  note upd = this
  show "tbl_get k (k r) (tbl_update P f t) = Some (f r)"
    using upd [of "k r"] tbl_get_distinct [OF assms(1,2)] assms(3) by simp
  assume m: "m \<noteq> k r"
  show "tbl_get k m (tbl_update P f t) = tbl_get k m t"
  proof (cases "tbl_get k m t")
    case (Some x)
    then have "\<not> P x" using m assms(4) tbl_get_Some [OF Some] by metis
    then show ?thesis using upd [of m] Some by simp
  qed (use upd [of m] in simp)
qed

lemma end_task_row:
  assumes "ids_ok w" and "tk \<in> set (tasks w)" and "tk_status tk \<in> set OPEN" and "w' = snd (snd (end_task st err res now x w))"
    and "tk_id x = tk_id tk"
  shows "task_row (tk_id tk) w' = Some (end_fields st err res now tk)"
    and "m \<noteq> tk_id tk \<Longrightarrow> task_row m w' = task_row m w"
    and "queue w' = queue w"
proof -
  let ?P = "\<lambda>r. tk_id r = tk_id tk \<and> tk_status r \<in> set OPEN"
  have w': "tasks w' = tbl_update ?P (end_fields st err res now) (tasks w)" and "queue w' = queue w"
    using assms(4,5) by (simp_all add: end_task_def tbl_cas_def Let_def)
  then show "queue w' = queue w" by blast
  have id: "tk_id (end_fields st err res now r) = tk_id r" for r by (simp add: end_fields_def)
  show "task_row (tk_id tk) w' = Some (end_fields st err res now tk)"
    unfolding task_row_def w' by (rule tbl_update_row(1) [OF assms(1,2)]) (simp_all add: assms(3) id)
  show "task_row m w' = task_row m w" if "m \<noteq> tk_id tk"
    unfolding task_row_def w' by (rule tbl_update_row(2) [OF assms(1,2) _ _ _ that]) (simp_all add: assms(3) id)
qed

lemma fail_row:
  assumes "ids_ok w" and "tk \<in> set (tasks w)" and "tk_status tk \<in> set OPEN"
  shows "task_row (tk_id tk) (snd (snd (end_task TaskFailed err JNull now tk w))) = Some (end_fields TaskFailed err JNull now tk)"
    and "m \<noteq> tk_id tk \<Longrightarrow> task_row m (snd (snd (end_task TaskFailed err JNull now tk w))) = task_row m w"
  by (rule end_task_row [OF assms refl refl])+

text \<open>What the caller learns about a task that failed.\<close>

definition failed_with :: "string \<Rightarrow> instant \<Rightarrow> agent_task \<Rightarrow> bool" where
  "failed_with err now r \<longleftrightarrow> tk_status r = TaskFailed \<and> tk_error r = take 2000 err \<and> tk_finished_at r = Some now"

lemma end_fields_failed [simp]: "failed_with err now (end_fields TaskFailed err res now tk)"
  by (simp add: failed_with_def end_fields_def)

lemma nudge_rows:
  assumes ids: "ids_ok w" and tk: "tk \<in> set (tasks w)" "tk_status tk \<in> set OPEN" "tk_turn tk = Some (turn_id t)"
    and keys: "keys_ok (world (queue w))" and fresh: "tid \<notin> turn_id ` set (turns (world (queue w)))"
  shows "\<exists>r'. task_row (tk_id tk) (nudge e tid now tk t w) = Some r'
      \<and> (tk_status r' = TaskFailed \<and> tk_error r' \<noteq> '''' \<or> r' = tk\<lparr>tk_nudges := tk_nudges tk + 1, tk_turn := tk_turn r'\<rparr>
          \<and> (\<exists>u. tk_turn r' = Some (turn_id u) \<and> get_turn (world (queue (nudge e tid now tk t w))) (turn_id u) = Some u
               \<and> t_agent u = Some (ag_slug (tk_agent tk)) \<and> status u \<notin> set TERMINAL
               \<and> idempotency_key u = KEY_PREFIX @ tk_id tk @ '':nudge:'' @ nat_digits (tk_nudges tk + 1)))"
    and "m \<noteq> tk_id tk \<Longrightarrow> task_row m (nudge e tid now tk t w) = task_row m w"
proof -
  let ?q = "nudge_ask e tk t"
  obtain r ad where enq: "enqueue_turn (te_rd e) (te_gates e) (te_reach e) tid now ?q (queue w) = (r, ad)" by (metis prod.exhaust)
  have "(\<exists>r'. task_row (tk_id tk) (nudge e tid now tk t w) = Some r'
      \<and> (tk_status r' = TaskFailed \<and> tk_error r' \<noteq> '''' \<or> r' = tk\<lparr>tk_nudges := tk_nudges tk + 1, tk_turn := tk_turn r'\<rparr>
          \<and> (\<exists>u. tk_turn r' = Some (turn_id u) \<and> get_turn (world (queue (nudge e tid now tk t w))) (turn_id u) = Some u
               \<and> t_agent u = Some (ag_slug (tk_agent tk)) \<and> status u \<notin> set TERMINAL
               \<and> idempotency_key u = KEY_PREFIX @ tk_id tk @ '':nudge:'' @ nat_digits (tk_nudges tk + 1))))
    \<and> (\<forall>m. m \<noteq> tk_id tk \<longrightarrow> task_row m (nudge e tid now tk t w) = task_row m w)"
  proof (cases r)
    case (Inl err)
    then have "nudge e tid now tk t w = snd (snd (end_task TaskFailed (ENDED_WITHOUT_RESULT @ '', and a follow-up turn could not be sent'') JNull now tk w))"
      using enq by (simp add: nudge_def)
    from end_task_row [OF ids tk(1,2) this refl] show ?thesis
      by (intro conjI exI allI impI) (auto simp: end_fields_def ENDED_WITHOUT_RESULT_def)
  next
    case (Inr p)
    obtain n b where p: "p = (n, b)" by (cases p)
    note ans = enqueue_answer [OF keys fresh enq]
    obtain u where u: "keyed (q_key ?q) (scope_for (world (queue w)) ?q) (world ad) = Some u" "turn_id u = n" "same_target ?q u"
      using ans(3) Inr p by blast
    have "u \<in> set (turns (world ad))" and ku: "idempotency_key u = q_key ?q" using keyed_Some [OF u(1)] by blast+
    then have row: "get_turn (world ad) n = Some u" using ans(1) u(2) get_turn_row by (auto simp: keys_ok_def)
    have agent: "t_agent u = Some (ag_slug (tk_agent tk))" and key: "q_key ?q = KEY_PREFIX @ tk_id tk @ '':nudge:'' @ nat_digits (tk_nudges tk + 1)"
      using u(3) by (simp_all add: nudge_ask_def Let_def task_ask_def same_target_def split: prod.splits)
    let ?P = "\<lambda>r. tk_id r = tk_id tk \<and> tk_status r \<in> set OPEN \<and> tk_turn r = Some (turn_id t)"
    let ?f = "\<lambda>r. r\<lparr>tk_nudges := tk_nudges tk + 1, tk_turn := Some n\<rparr>"
    define w1 where "w1 = w\<lparr>tasks := tbl_update ?P ?f (tasks w), queue := ad\<rparr>"
    have w1: "task_row (tk_id tk) w1 = Some (?f tk)" "\<And>m. m \<noteq> tk_id tk \<Longrightarrow> task_row m w1 = task_row m w"
      using tbl_update_row(1) [OF ids tk(1), of ?P ?f] tbl_update_row(2) [OF ids tk(1), of ?P ?f] tk(2,3)
      by (simp_all add: task_row_def w1_def)
    have ids1: "ids_ok w1" using ids by (simp add: w1_def map_tbl_update)
    have moved: "filter ?P (tasks w) \<noteq> []" using tk by (auto simp: filter_empty_conv)
    show ?thesis
    proof (cases "status u \<in> set TERMINAL")
      case False
      then have "nudge e tid now tk t w = w1" using enq Inr p row by (simp add: nudge_def tbl_cas_def w1_def)
      then show ?thesis using w1 False u(2) row agent ku key by (auto simp: w1_def)
    next
      case True
      then have w': "nudge e tid now tk t w = snd (snd (end_task TaskFailed (not_run ''its follow-up turn'' u) JNull now (reread tk w1) w1))"
        using enq Inr p row moved by (simp add: nudge_def tbl_cas_def w1_def Let_def)
      have "reread tk w1 = ?f tk" using w1(1) by (simp add: reread_def task_row_def)
      moreover have "?f tk \<in> set (tasks w1)" using w1(1) task_row_iff [OF ids1] by blast
      ultimately show ?thesis
        using end_task_row [OF ids1 _ _ w', of "?f tk"] tk(2) w1(2)
        by (intro conjI exI allI impI) (auto simp: end_fields_def not_run_def)
    qed
  qed
  then show "\<exists>r'. task_row (tk_id tk) (nudge e tid now tk t w) = Some r'
      \<and> (tk_status r' = TaskFailed \<and> tk_error r' \<noteq> '''' \<or> r' = tk\<lparr>tk_nudges := tk_nudges tk + 1, tk_turn := tk_turn r'\<rparr>
          \<and> (\<exists>u. tk_turn r' = Some (turn_id u) \<and> get_turn (world (queue (nudge e tid now tk t w))) (turn_id u) = Some u
               \<and> t_agent u = Some (ag_slug (tk_agent tk)) \<and> status u \<notin> set TERMINAL
               \<and> idempotency_key u = KEY_PREFIX @ tk_id tk @ '':nudge:'' @ nat_digits (tk_nudges tk + 1)))"
    and "m \<noteq> tk_id tk \<Longrightarrow> task_row m (nudge e tid now tk t w) = task_row m w" by blast+
qed

lemma expire_row:
  assumes ids: "ids_ok w" and tk: "tk \<in> set (tasks w)" "tk_status tk \<in> set OPEN" "tk_deadline_at tk \<le> now"
    and exp: "expire e now tk w = (m, tk1, w1)"
  shows "m" and "task_row (tk_id tk) w1 = Some (end_fields TaskFailed (timed_out tk) JNull now tk)"
    and "n \<noteq> tk_id tk \<Longrightarrow> task_row n w1 = task_row n w"
proof -
  let ?fin = "end_task TaskFailed (timed_out tk) JNull now tk w"
  have "filter (\<lambda>x. tk_id x = tk_id tk \<and> tk_status x \<in> set OPEN) (tasks w) \<noteq> []" using tk by (auto simp: filter_empty_conv)
  then have "fst ?fin" by (simp add: end_task_def tbl_cas_def Let_def)
  then have "m" and "tasks w1 = tasks (snd (snd ?fin))"
    using exp tk by (auto simp: expire_def split: prod.splits)
  then show "m" and "task_row (tk_id tk) w1 = Some (end_fields TaskFailed (timed_out tk) JNull now tk)"
    and "n \<noteq> tk_id tk \<Longrightarrow> task_row n w1 = task_row n w"
    using fail_row [OF ids tk(1,2)] by (simp_all add: task_row_def)
qed

text \<open>C27. A turn that ends is never taken for an answer.  If it is not the latest turn of an open task,
  nothing changes.  Otherwise no other task changes, and the task: fails when its deadline has passed; fails
  with the turn's reason when the turn was cancelled; is left alone while the turn's emdash session lives on;
  fails after \<open>MAX_NUDGES\<close> follow-ups; and otherwise is given a follow-up turn of the same agent, made for
  exactly this nudge, with one nudge more, or fails saying why that turn did not start.\<close>

theorem ended_turn_is_followed_up:
  assumes ids: "ids_ok w" and keys: "keys_ok (world (queue w))" and fresh: "tid \<notin> turn_id ` set (turns (world (queue w)))"
    and w': "w' = on_turn_ended e tid t now w"
  shows "(case task_of_turn t w of None \<Rightarrow> w' = w
    | Some tk \<Rightarrow> (\<forall>m. m \<noteq> tk_id tk \<longrightarrow> task_row m w' = task_row m w) \<and> (\<exists>r'. task_row (tk_id tk) w' = Some r' \<and>
        (if tk_deadline_at tk \<le> now then failed_with (timed_out tk) now r'
         else if status t = Cancelled then failed_with (rstrip_colon (''its turn was cancelled: '' @ result_note t)) now r'
         else if session_lives_on e t (world (queue w)) then w' = w
         else if MAX_NUDGES \<le> tk_nudges tk then failed_with ENDED_WITHOUT_RESULT now r'
         else tk_status r' = TaskFailed \<and> tk_error r' \<noteq> ''''
           \<or> r' = tk\<lparr>tk_nudges := tk_nudges tk + 1, tk_turn := tk_turn r'\<rparr>
             \<and> (\<exists>u. tk_turn r' = Some (turn_id u) \<and> get_turn (world (queue w')) (turn_id u) = Some u
                  \<and> t_agent u = Some (ag_slug (tk_agent tk)) \<and> status u \<notin> set TERMINAL
                  \<and> idempotency_key u = KEY_PREFIX @ tk_id tk @ '':nudge:'' @ nat_digits (tk_nudges tk + 1)))))"
proof (cases "task_of_turn t w")
  case None
  then show ?thesis using w' by (simp add: on_turn_ended_def)
next
  case (Some tk)
  note row = task_of_turn_row [OF Some]
  obtain m tk1 w1 where exp: "expire e now tk w = (m, tk1, w1)" by (metis prod.exhaust)
  have here: "task_row (tk_id tk) w = Some tk" using row task_row_iff [OF ids] by blast
  note fails = fail_row [OF ids]
  show ?thesis
  proof (cases "tk_deadline_at tk \<le> now")
    case True
    note past = expire_row [OF ids _ _ True exp]
    have "w' = w1" using w' Some exp past(1) row by (simp add: on_turn_ended_def)
    then show ?thesis using Some True past row by simp
  next
    case False
    then have "expire e now tk w = (False, tk, w)" by (simp add: expire_def)
    then have w': "w' = (if status t = Cancelled then
            snd (snd (end_task TaskFailed (rstrip_colon (''its turn was cancelled: '' @ result_note t)) JNull now tk w))
          else if session_lives_on e t (world (queue w)) then w
          else if MAX_NUDGES \<le> tk_nudges tk then snd (snd (end_task TaskFailed ENDED_WITHOUT_RESULT JNull now tk w))
          else nudge e tid now tk t w)"
      using w' Some by (simp add: on_turn_ended_def)
    consider "status t = Cancelled" | "status t \<noteq> Cancelled" "session_lives_on e t (world (queue w))"
      | "status t \<noteq> Cancelled" "\<not> session_lives_on e t (world (queue w))" "MAX_NUDGES \<le> tk_nudges tk"
      | "status t \<noteq> Cancelled" "\<not> session_lives_on e t (world (queue w))" "\<not> MAX_NUDGES \<le> tk_nudges tk"
      by blast
    then show ?thesis
    proof cases
      case 4
      then have "w' = nudge e tid now tk t w" using w' by simp
      with nudge_rows(1) [OF ids _ _ _ keys fresh, of tk t e now] nudge_rows(2) [OF ids _ _ _ keys fresh, of tk t _ e now] row 4 Some False show ?thesis by simp
    qed (use w' Some False fails row here in simp_all)
  qed
qed

lemma ended_turn_is_followed_up_witness:
  "task_row (tk_id sample_task) (on_turn_ended sample_env ''bbbbbbbb-2'' (ended_turn\<lparr>status := Cancelled\<rparr>) 100 sample_tasks) \<noteq> None"
proof -
  let ?t = "ended_turn\<lparr>status := Cancelled\<rparr>"
  have "ids_ok sample_tasks" by (simp add: sample_tasks_def)
  moreover have "keys_ok (world (queue sample_tasks))" "''bbbbbbbb-2'' \<notin> turn_id ` set (turns (world (queue sample_tasks)))"
    by (simp_all add: keys_ok_def sample_tasks_def ended_turn_def plain_turn_def)
  moreover have "task_of_turn ?t sample_tasks = Some sample_task"
    by (simp add: task_of_turn_def task_id_of_def ended_turn_def plain_turn_def sample_task_def sample_tasks_def uuid_hex_def
        strip_braces_def hex_digits_def Let_def OPEN_def lower_char_def)
  ultimately show ?thesis using ended_turn_is_followed_up [OF _ _ _ refl, of sample_tasks "''bbbbbbbb-2''" sample_env ?t 100] by auto
qed

section \<open>Deadlines and the long poll\<close>

abbreviation timed_out_row :: "instant \<Rightarrow> agent_task \<Rightarrow> agent_task" where
  "timed_out_row now r \<equiv> end_fields TaskFailed (timed_out r) JNull now r"

lemma expire_all_rows:
  assumes "ids_ok w" and "distinct (map tk_id tks)"
    and "\<forall>tk\<in>set tks. tk \<in> set (tasks w) \<and> tk_status tk \<in> set OPEN \<and> tk_deadline_at tk \<le> now"
  shows "fst (expire_all e now tks (k, w)) = k + length tks
    \<and> (\<forall>n. task_row n (snd (expire_all e now tks (k, w)))
        = (if n \<in> tk_id ` set tks then map_option (timed_out_row now) (task_row n w) else task_row n w))
    \<and> ids_ok (snd (expire_all e now tks (k, w)))"
  using assms
proof (induction tks arbitrary: k w)
  case (Cons tk tks)
  obtain m tk1 w1 where exp: "expire e now tk w = (m, tk1, w1)" by (metis prod.exhaust)
  have tk: "tk \<in> set (tasks w)" "tk_status tk \<in> set OPEN" "tk_deadline_at tk \<le> now" using Cons.prems by simp_all
  note row = expire_row [OF Cons.prems(1) tk exp]
  have ids1: "ids_ok w1"
    by (rule advances_ids [OF expire_advances(1) [OF exp was_read_row [OF Cons.prems(1) tk(1)]] Cons.prems(1)])
  have "\<forall>x\<in>set tks. x \<in> set (tasks w1) \<and> tk_status x \<in> set OPEN \<and> tk_deadline_at x \<le> now"
  proof
    fix x assume x: "x \<in> set tks"
    then have "task_row (tk_id x) w = Some x" "tk_id x \<noteq> tk_id tk"
      using Cons.prems task_row_iff [OF Cons.prems(1)] by (auto simp: image_iff)
    then have "task_row (tk_id x) w1 = Some x" using row(3) by simp
    then show "x \<in> set (tasks w1) \<and> tk_status x \<in> set OPEN \<and> tk_deadline_at x \<le> now"
      using task_row_iff [OF ids1] Cons.prems x by auto
  qed
  moreover have "distinct (map tk_id tks)" using Cons.prems(2) by simp
  ultimately have ih: "fst (expire_all e now tks (k + 1, w1)) = k + 1 + length tks"
    "\<And>n. task_row n (snd (expire_all e now tks (k + 1, w1)))
      = (if n \<in> tk_id ` set tks then map_option (timed_out_row now) (task_row n w1) else task_row n w1)"
    "ids_ok (snd (expire_all e now tks (k + 1, w1)))"
    using Cons.IH [OF ids1, of "k + 1"] by blast+
  have run: "expire_all e now (tk # tks) (k, w) = expire_all e now tks (k + 1, w1)" using exp row(1) by simp
  have here: "task_row (tk_id tk) w = Some tk" using task_row_iff [OF Cons.prems(1)] tk(1) by blast
  have fresh: "tk_id tk \<notin> tk_id ` set tks" using Cons.prems(2) by simp
  have rows: "task_row n w1 = (if n = tk_id tk then Some (timed_out_row now tk) else task_row n w)" for n
    using row(2,3) by simp
  have "task_row n (snd (expire_all e now tks (k + 1, w1)))
      = (if n \<in> tk_id ` set (tk # tks) then map_option (timed_out_row now) (task_row n w) else task_row n w)" for n
    using ih(2) [of n] rows [of n] here fresh by (cases "n = tk_id tk") simp_all
  then show ?case unfolding run using ih by simp
qed simp

text \<open>C28. A tick leaves no task behind: when at most 500 are overdue, every one of them fails with the
  time-out error and is counted, no open task is past its deadline afterwards, and no other task changes.
  With more, exactly 500 fail, so repeated ticks reach them all.\<close>

theorem no_task_outlives_its_deadline:
  assumes ids: "ids_ok w" and order: "\<And>xs. set (order xs) = set xs \<and> length (order xs) = length xs"
    and call: "expire_overdue e order now w = (k, w')"
  shows "k = min 500 (length (overdue now w))
    \<and> (length (overdue now w) \<le> 500 \<longrightarrow> overdue now w' = []
        \<and> (\<forall>n. task_row n w' = map_option (\<lambda>r. if r \<in> set (overdue now w) then timed_out_row now r else r) (task_row n w)))"
proof -
  define tks where "tks = take 500 (order (overdue now w))"
  have sub: "set tks \<subseteq> set (overdue now w)" using order set_take_subset unfolding tks_def by fastforce
  have "distinct (map tk_id (overdue now w))" unfolding overdue_def using ids by (rule distinct_map_filter)
  then have "distinct (overdue now w)" "inj_on tk_id (set (overdue now w))" by (simp_all add: distinct_map)
  then have "distinct (order (overdue now w))" using order by (metis card_distinct distinct_card)
  then have dist: "distinct (map tk_id tks)"
    using sub \<open>inj_on tk_id (set (overdue now w))\<close> unfolding distinct_map by (simp add: tks_def inj_on_subset)
  have "\<forall>tk\<in>set tks. tk \<in> set (tasks w) \<and> tk_status tk \<in> set OPEN \<and> tk_deadline_at tk \<le> now"
    using sub by (auto simp: overdue_def)
  note rows = expire_all_rows [OF ids dist this, of e 0]
  have call': "expire_all e now tks (0, w) = (k, w')" using call by (simp add: expire_overdue_def tks_def)
  have k: "k = min 500 (length (overdue now w))" using rows call' order by (simp add: tks_def min.commute)
  have "overdue now w' = [] \<and> (\<forall>n. task_row n w' = map_option (\<lambda>r. if r \<in> set (overdue now w) then timed_out_row now r else r) (task_row n w))"
    if few: "length (overdue now w) \<le> 500"
  proof -
    have all: "set tks = set (overdue now w)" using few order by (simp add: tks_def)
    have row: "task_row n w' = map_option (\<lambda>r. if r \<in> set (overdue now w) then timed_out_row now r else r) (task_row n w)" for n
    proof (cases "task_row n w")
      case (Some r)
      then have r: "r \<in> set (tasks w)" "tk_id r = n" using task_row_iff [OF ids] by blast+
      then have "n \<in> tk_id ` set (overdue now w) \<longleftrightarrow> r \<in> set (overdue now w)"
        using ids by (auto simp: overdue_def distinct_map inj_on_def)
      then show ?thesis using rows call' all Some by auto
    qed (use rows call' in auto)
    have "r \<notin> set (overdue now w')" for r
    proof
      assume late: "r \<in> set (overdue now w')"
      have ids': "ids_ok w'" using rows call' by simp
      then have "task_row (tk_id r) w' = Some r" using late task_row_iff by (auto simp: overdue_def)
      then obtain r0 where r0: "task_row (tk_id r) w = Some r0" "r = (if r0 \<in> set (overdue now w) then timed_out_row now r0 else r0)"
        using row by auto
      then have "r0 \<in> set (tasks w)" using task_row_iff [OF ids] by blast
      then show False using late r0(2) by (auto simp: overdue_def end_fields_def OPEN_def split: if_splits)
    qed
    then have "overdue now w' = []" by (cases "overdue now w'") (simp, metis list.set_intros(1))
    then show ?thesis using row by simp
  qed
  with k show ?thesis by blast
qed

lemma no_task_outlives_its_deadline_witness:
  "overdue 900000000 (snd (expire_overdue sample_env (\<lambda>xs. xs) 900000000 sample_tasks)) = []"
proof -
  have "ids_ok sample_tasks" "length (overdue 900000000 sample_tasks) \<le> 500"
    by (simp_all add: sample_tasks_def overdue_def)
  with no_task_outlives_its_deadline [OF _ _ prod.collapse [symmetric], of sample_tasks "\<lambda>xs. xs" sample_env 900000000]
  show ?thesis by simp
qed

lemma wait_loop_returns:
  assumes clock: "\<And>i. monotonic p i + SECOND \<le> monotonic p (Suc i)" and "deadline \<le> monotonic p i + int fuel * SECOND"
  shows "\<exists>tk' w' j. wait_loop e p entered deadline i (Suc fuel) tk w = Some (tk', w') \<and> i \<le> j \<and> j \<le> i + fuel
    \<and> (tk_status tk' \<noteq> entered \<or> deadline \<le> monotonic p j)"
  using assms(2)
proof (induction fuel arbitrary: i tk w)
  case 0
  then show ?case by auto
next
  case (Suc fuel)
  show ?case
  proof (cases "tk_status tk = entered \<and> monotonic p i < deadline")
    case True
    obtain m tk2 w2 where exp: "expire e (wall p i) (reread tk (others p i w)) (others p i w) = (m, tk2, w2)" by (metis prod.exhaust)
    have "deadline \<le> monotonic p (Suc i) + int fuel * SECOND"
      using Suc.prems clock [of i] by (simp add: distrib_right)
    from Suc.IH [OF this, of tk2 w2] obtain tk' w' j where
      "wait_loop e p entered deadline (Suc i) (Suc fuel) tk2 w2 = Some (tk', w')" "Suc i \<le> j" "j \<le> Suc i + fuel"
      "tk_status tk' \<noteq> entered \<or> deadline \<le> monotonic p j" by blast
    then show ?thesis using True exp by (intro exI [of _ tk'] exI [of _ w'] exI [of _ j]) (simp add: Let_def)
  next
    case False
    then have "wait_loop e p entered deadline i (Suc (Suc fuel)) tk w = Some (tk, w)" by (subst wait_loop.simps(2)) (rule if_not_P)
    moreover have "tk_status tk \<noteq> entered \<or> deadline \<le> monotonic p i" using False by auto
    ultimately show ?thesis using le_add1 by blast
  qed
qed

text \<open>The long poll always returns, after at most \<open>MAX_WAIT_S\<close> polls when each sleeps a second,
  whatever was asked for and whatever others do meanwhile; and when it returns, the task has ended, has
  left the status it had on arrival, or the time is up.\<close>

theorem the_poll_returns:
  assumes clock: "\<And>i. monotonic p i + SECOND \<le> monotonic p (Suc i)"
  shows "\<exists>tk' w' j. wait e p s 21 now tk w = Some (tk', w') \<and> j \<le> 20
    \<and> (tk_status tk' \<notin> set OPEN \<or> tk_status tk' \<noteq> tk_status (fst (snd (expire e now tk w)))
       \<or> monotonic p 0 + wait_clamp s * SECOND \<le> monotonic p j)"
proof -
  obtain m tk1 w1 where exp: "expire e now tk w = (m, tk1, w1)" by (metis prod.exhaust)
  show ?thesis
  proof (cases "wait_clamp s = 0 \<or> tk_status tk1 \<notin> set OPEN")
    case True
    then have "wait e p s 21 now tk w = Some (tk1, w1)" using exp by (simp add: wait_def)
    then show ?thesis using True by (intro exI [of _ tk1] exI [of _ w1] exI [of _ 0]) auto
  next
    case False
    have "monotonic p 0 + wait_clamp s * SECOND \<le> monotonic p 0 + int 20 * SECOND"
      by (simp add: wait_clamp_def MAX_WAIT_S_def SECOND_def)
    from wait_loop_returns [OF clock this, of e "tk_status tk1" tk1 w1] obtain tk' w' j where
      "wait_loop e p (tk_status tk1) (monotonic p 0 + wait_clamp s * SECOND) 0 21 tk1 w1 = Some (tk', w')" "j \<le> 20"
      "tk_status tk' \<noteq> tk_status tk1 \<or> monotonic p 0 + wait_clamp s * SECOND \<le> monotonic p j" by auto
    then show ?thesis using False exp
      by (intro exI [of _ tk'] exI [of _ w'] exI [of _ j]) (auto simp: wait_def Let_def simp del: wait_loop.simps)
  qed
qed

lemma the_poll_returns_witness:
  "\<exists>r. wait sample_env \<lparr> monotonic = (\<lambda>i. int i * SECOND), wall = (\<lambda>i. 100), others = (\<lambda>i w. w) \<rparr> 60 21 50 sample_task sample_tasks = Some r"
  using the_poll_returns [of "\<lparr> monotonic = (\<lambda>i. int i * SECOND), wall = (\<lambda>i. 100), others = (\<lambda>i w. w) \<rparr>" sample_env 60 50 sample_task sample_tasks]
  by (fastforce simp: SECOND_def)

end
