(* ===== verification/Runner_Fleet.thy ===== *)
theory Runner_Fleet
  imports Turn_Queue Turn_Finish Workspace_Members
begin

text \<open>
  The machines that run turns (\<open>apps/harness/models/runner.py\<close>, \<open>services.pause\<close>, \<open>unpause\<close>,
  \<open>wake_due_runners\<close>, \<open>heartbeat\<close>), what a machine serves (\<open>routing_machine.py\<close>) and the
  agent CLIs it runs turns on (\<open>clis.py\<close>).

  A machine's capabilities are the JSON object it reports.  A number there is a number: text that
  Python would parse as one reads as 0.  The time an event was written (\<open>TurnEvent.ts\<close>) is the
  parameter \<open>event_ts\<close>.  Not modelled: the code version, health and mailbox fields of a heartbeat,
  which only screens read, and the update doorbell.
\<close>

section \<open>Tables around the queue\<close>

record opt_in =
  oi_user :: user_id
  oi_everything :: bool
  oi_projects :: "string list"
  oi_workspaces :: "(string \<times> slug list) list"

record assignment =
  as_agent :: string
  as_runner :: nat
  as_rank :: nat
  as_enabled :: bool
  as_source :: string
  as_actor :: string
  as_strict :: bool
  as_turn_mode :: string

record ws_order =
  wo_workspace :: slug
  wo_runner :: nat
  wo_rank :: nat
  wo_enabled :: bool

text \<open>A transfer of a conversation (\<open>SessionHandoff\<close>): the turn that carries it, once there is one.\<close>

record handoff =
  ho_session :: nat
  ho_turn :: "string option"
  ho_settled_at :: "instant option"
  ho_created_at :: instant

record fleet =
  fl_queue :: admission
  fl_people :: wsdb
  fl_held :: bool
  fl_opt_ins :: "opt_in list"
  fl_enrollments :: "(nat \<times> slug) list"
  fl_assignments :: "assignment list"
  fl_orders :: "ws_order list"
  fl_handoffs :: "handoff list"

abbreviation fl_db :: "fleet \<Rightarrow> turndb" where
  "fl_db fl \<equiv> world (fl_queue fl)"

abbreviation fl_turns :: "fleet \<Rightarrow> turn list" where
  "fl_turns fl \<equiv> turns (fl_db fl)"

abbreviation fl_boxes :: "fleet \<Rightarrow> runner_box list" where
  "fl_boxes fl \<equiv> boxes (fl_db fl)"

abbreviation fl_chat :: "fleet \<Rightarrow> nat \<Rightarrow> chat option" where
  "fl_chat fl c \<equiv> tbl_get ch_id c (chats (fl_db fl))"

definition set_boxes :: "(runner_box list \<Rightarrow> runner_box list) \<Rightarrow> fleet \<Rightarrow> fleet" where
  "set_boxes f fl = fl\<lparr>fl_queue := (fl_queue fl)\<lparr>world := (fl_db fl)\<lparr>boxes := f (fl_boxes fl)\<rparr>\<rparr>\<rparr>"

definition set_turns :: "(turn list \<Rightarrow> turn list) \<Rightarrow> fleet \<Rightarrow> fleet" where
  "set_turns f fl = fl\<lparr>fl_queue := (fl_queue fl)\<lparr>world := (fl_db fl)\<lparr>turns := f (fl_turns fl)\<rparr>\<rparr>\<rparr>"


section \<open>What a machine reports\<close>

definition SECOND :: int where "SECOND = 1000000"

definition cap_of :: "runner_box \<Rightarrow> string \<Rightarrow> json" where
  "cap_of r k = (case map_of (rb_caps r) k of None \<Rightarrow> JNull | Some j \<Rightarrow> j)"

definition json_int :: "json \<Rightarrow> int" where
  "json_int j = (case j of JNum n \<Rightarrow> n | JBool b \<Rightarrow> if b then 1 else 0 | _ \<Rightarrow> 0)"

definition json_strs :: "json \<Rightarrow> string list" where
  "json_strs j = (case j of JList vs \<Rightarrow> List.map_filter json_str vs | _ \<Rightarrow> [])"

definition json_obj :: "json \<Rightarrow> payload" where
  "json_obj j = (case j of JObj kvs \<Rightarrow> kvs | _ \<Rightarrow> [])"

definition serves :: "runner_box \<Rightarrow> payload" where
  "serves r = json_obj (cap_of r ''serves'')"

definition observed_projects :: "runner_box \<Rightarrow> string list" where
  "observed_projects r = filter (\<lambda>p. p \<noteq> '''') (json_strs (cap_of r ''projects''))"

definition covers :: "opt_in \<Rightarrow> string \<Rightarrow> bool" where
  "covers oi p \<longleftrightarrow> oi_everything oi \<or> (p \<noteq> '''' \<and> p \<in> set (oi_projects oi))"

definition for_user_id :: "fleet \<Rightarrow> user_id option \<Rightarrow> opt_in" where
  "for_user_id fl u =
     (case (case u of None \<Rightarrow> None | Some v \<Rightarrow> tbl_get oi_user v (fl_opt_ins fl)) of Some row \<Rightarrow> row
      | None \<Rightarrow> \<lparr> oi_user = (case u of None \<Rightarrow> 0 | Some v \<Rightarrow> v), oi_everything = False, oi_projects = [], oi_workspaces = [] \<rparr>)"

definition opts_in :: "fleet \<Rightarrow> runner_box \<Rightarrow> string \<Rightarrow> bool" where
  "opts_in fl r p = covers (for_user_id fl (rb_owner r)) p"

definition project_names :: "fleet \<Rightarrow> runner_box \<Rightarrow> string list" where
  "project_names fl r = filter (opts_in fl r) (observed_projects r)"

definition enrolled_slugs :: "fleet \<Rightarrow> runner_box \<Rightarrow> slug list" where
  "enrolled_slugs fl r = remdups (map snd (filter (\<lambda>(b, s). b = rb_id r) (fl_enrollments fl)))"

definition project_workspaces :: "fleet \<Rightarrow> runner_box \<Rightarrow> string \<Rightarrow> slug list" where
  "project_workspaces fl r p =
     (case map_of (oi_workspaces (for_user_id fl (rb_owner r))) p of Some ws \<Rightarrow> ws
      | None \<Rightarrow> (case rb_workspace r of Some w \<Rightarrow> [w] | None \<Rightarrow> enrolled_slugs fl r))"

definition ancestors_of :: "fleet \<Rightarrow> slug \<Rightarrow> slug list" where
  "ancestors_of fl w = (if w \<in> ws_slug ` set (workspaces (fl_people fl))
     then ancestor_slugs (workspaces (fl_people fl)) w else [])"

definition project_assigned_to :: "fleet \<Rightarrow> runner_box \<Rightarrow> string \<Rightarrow> slug option \<Rightarrow> bool" where
  "project_assigned_to fl r p ws =
     (case ws of None \<Rightarrow> False | Some w \<Rightarrow> let assigned = set (project_workspaces fl r p) in
        w \<noteq> '''' \<and> (w \<in> assigned \<or> assigned \<inter> set (ancestors_of fl w) \<noteq> {}))"

definition offers_project_in :: "fleet \<Rightarrow> runner_box \<Rightarrow> string \<Rightarrow> slug option \<Rightarrow> bool" where
  "offers_project_in fl r p ws \<longleftrightarrow> p \<in> set (project_names fl r) \<and> project_assigned_to fl r p ws"

definition session_capable :: "runner_box \<Rightarrow> bool" where
  "session_capable r \<longleftrightarrow> rb_kind r \<noteq> ''computer'' \<and> truthy (cap_of r ''sessions'')"

definition directed_only :: "runner_box \<Rightarrow> bool" where
  "directed_only r \<longleftrightarrow> rb_private r \<or> rb_directed r"


section \<open>Whether a machine can take work\<close>

definition HEARTBEAT_ONLINE_WINDOW :: int where "HEARTBEAT_ONLINE_WINDOW = 90 * SECOND"

definition live_status :: "instant \<Rightarrow> runner_box \<Rightarrow> string" where
  "live_status now r =
     (if rb_status r = ''retired'' then ''retired''
      else case rb_last_heartbeat_at r of None \<Rightarrow> ''disconnected''
        | Some beat \<Rightarrow> if now - beat > HEARTBEAT_ONLINE_WINDOW then ''stale''
            else if rb_paused r then ''paused'' else rb_status r)"

definition is_available :: "instant \<Rightarrow> runner_box \<Rightarrow> bool" where
  "is_available now r \<longleftrightarrow> live_status now r = ''online'' \<and> rb_ready r"

definition SIGNED_OUT_NOTE :: string where
  "SIGNED_OUT_NOTE = ''Claude is not signed in on this machine''"

definition signed_out :: "runner_box \<Rightarrow> bool" where
  "signed_out r \<longleftrightarrow> \<not> rb_ready r \<and> prefix SIGNED_OUT_NOTE (rb_ready_note r)"


section \<open>Pausing a machine\<close>

text \<open>\<open>pause\<close>: the row it writes (none when it parks nothing) and whether the turns only this
  machine could take are put to the admission rules.\<close>

definition pause_row :: "string \<Rightarrow> instant option \<Rightarrow> user_id option \<Rightarrow> instant \<Rightarrow> runner_box \<Rightarrow> runner_box option" where
  "pause_row msg until who now r =
     (let write = (\<lambda>r. r\<lparr>rb_paused_note := take 200 msg, rb_paused_by := who, rb_paused := True\<rparr>) in
      if (case until of None \<Rightarrow> False | Some u \<Rightarrow> u \<le> now) then None
      else if \<not> rb_paused r then Some (write (r\<lparr>rb_paused_at := Some now, rb_unpause_at := until\<rparr>))
      else case rb_unpause_at r of
        None \<Rightarrow> if until \<noteq> None then None else Some (write r)
      | Some v \<Rightarrow> Some (write (r\<lparr>rb_unpause_at := (case until of None \<Rightarrow> None | Some u \<Rightarrow> Some (max u v))\<rparr>)))"

definition pause :: "redactor \<Rightarrow> reach_api \<Rightarrow> (turndb \<Rightarrow> nat \<Rightarrow> turn list) \<Rightarrow> nat \<Rightarrow> string \<Rightarrow> instant option
    \<Rightarrow> user_id option \<Rightarrow> instant \<Rightarrow> fleet \<Rightarrow> fleet" where
  "pause rd reach covered b msg until who now fl =
     (case tbl_get rb_id b (fl_boxes fl) of None \<Rightarrow> fl
      | Some r \<Rightarrow> (case pause_row msg until who now r of None \<Rightarrow> fl
          | Some r' \<Rightarrow>
              let fl1 = set_boxes (tbl_update (\<lambda>x. rb_id x = b) (\<lambda>_. r')) fl in
              if rb_unpause_at r' = None
              then fl1\<lparr>fl_queue := snd (recheck_stranded rd reach covered b now (fl_queue fl1))\<rparr> else fl1))"

definition unpause_row :: "runner_box \<Rightarrow> runner_box" where
  "unpause_row r = (if \<not> rb_paused r \<and> rb_unpause_at r = None then r
     else r\<lparr>rb_paused := False, rb_paused_note := '''', rb_paused_at := None, rb_paused_by := None, rb_unpause_at := None\<rparr>)"

definition unpause :: "nat \<Rightarrow> fleet \<Rightarrow> fleet" where
  "unpause b fl = set_boxes (tbl_update (\<lambda>x. rb_id x = b) unpause_row) fl"

definition due_to_wake :: "instant \<Rightarrow> runner_box \<Rightarrow> bool" where
  "due_to_wake now r \<longleftrightarrow> rb_paused r \<and> (case rb_unpause_at r of None \<Rightarrow> False | Some u \<Rightarrow> u \<le> now)"

definition wake_due_runners :: "instant \<Rightarrow> fleet \<Rightarrow> nat list \<times> fleet" where
  "wake_due_runners now fl =
     (let due = map rb_id (filter (due_to_wake now) (fl_boxes fl)) in
      fold (\<lambda>b (woken, fl). case tbl_get rb_id b (fl_boxes fl) of None \<Rightarrow> (woken, fl)
          | Some r \<Rightarrow> if due_to_wake now r then (woken @ [b], unpause b fl) else (woken, fl)) due ([], fl))"

section \<open>Several machines' worth of runners on one machine\<close>

text \<open>\<open>str\<close> of a JSON value; the text of a container, which no slug equals, is abbreviated.\<close>

definition json_text :: "json \<Rightarrow> string" where
  "json_text j = (case j of JNull \<Rightarrow> ''None'' | JBool b \<Rightarrow> (if b then ''True'' else ''False'') | JNum i \<Rightarrow> int_str i
     | JStr s \<Rightarrow> s | JList _ \<Rightarrow> ''[...]'' | JObj _ \<Rightarrow> ''{...}'')"

text \<open>\<open>None\<close>: not one agent's runner; \<open>Some []\<close>: one agent's, and it names none.\<close>

definition served_agent_slug :: "payload \<Rightarrow> string option" where
  "served_agent_slug s =
     (if map_of s ''kind'' \<noteq> Some (JStr ''agent'') then None
      else Some (case map_of s ''slug'' of None \<Rightarrow> '''' | Some v \<Rightarrow> if truthy v then json_text v else ''''))"

definition dedicated_agent_slugs :: "runner_box \<Rightarrow> string list option" where
  "dedicated_agent_slugs r = (if rb_only_agents r = [] then None else Some (rb_only_agents r))"

text \<open>Another live runner of the same machine that runs agent \<open>s\<close> alone.\<close>

definition machine_agent_runner :: "fleet \<Rightarrow> runner_box \<Rightarrow> string \<Rightarrow> runner_box option" where
  "machine_agent_runner fl r s =
     (if rb_machine r = '''' then None
      else find (\<lambda>b. rb_status b \<noteq> ''retired'' \<and> rb_machine b = rb_machine r \<and> rb_id b \<noteq> rb_id r
          \<and> s \<noteq> '''' \<and> served_agent_slug (serves b) = Some s) (fl_boxes fl))"

definition serves_refusal :: "fleet \<Rightarrow> runner_box \<Rightarrow> string \<Rightarrow> string option" where
  "serves_refusal fl r s =
     (let own = served_agent_slug (serves r) in
      if s = '''' then None
      else if own \<noteq> None \<and> own \<noteq> Some s
      then Some (rb_name r @ '' is the runner for agent '' @ (if own = Some '''' then ''(no agent named)'' else the own))
      else case (case dedicated_agent_slugs r of None \<Rightarrow> None | Some only \<Rightarrow> if s \<in> set only then None else Some only) of
        Some only \<Rightarrow> Some (rb_name r @ '' runs only '' @ join_with '', '' (sort only))
      | None \<Rightarrow> (case machine_agent_runner fl r s of
          Some b \<Rightarrow> if own \<noteq> Some s \<and> rb_name b \<noteq> ''''
            then Some (s @ '' has its own runner on this machine ('' @ rb_name b @ '')'') else None
        | None \<Rightarrow> None))"

definition turn_serves_refusal :: "fleet \<Rightarrow> runner_box \<Rightarrow> turn \<Rightarrow> string option" where
  "turn_serves_refusal fl r t =
     (let own = served_agent_slug (serves r); a = acting_agent (fl_db fl) t in
      if own \<noteq> None \<and> (a = None \<or> Some (ag_slug (the a)) \<noteq> own)
      then Some (rb_name r @ '' is the runner for agent '' @ (if own = Some '''' then ''(no agent named)'' else the own))
      else case a of
        None \<Rightarrow> (case dedicated_agent_slugs r of None \<Rightarrow> None
                 | Some only \<Rightarrow> Some (rb_name r @ '' runs only '' @ join_with '', '' (sort only)))
      | Some ag \<Rightarrow> serves_refusal fl r (ag_slug ag))"


section \<open>Agent CLIs\<close>

definition CLAUDE_CODE :: string where "CLAUDE_CODE = ''claude-code''"
definition DEFAULT_CLIS :: "string list" where "DEFAULT_CLIS = [CLAUDE_CODE]"
definition SENSITIVE_CLIS :: "string list" where "SENSITIVE_CLIS = [CLAUDE_CODE]"
definition PROFILES_VERSION :: int where "PROFILES_VERSION = 3"
definition ENVELOPE_VERSION :: int where "ENVELOPE_VERSION = 2"

record cli_report =
  cr_signed_in :: bool
  cr_profiles :: int
  cr_envelope :: int
  cr_version :: string

definition clip_int :: "json \<Rightarrow> int" where
  "clip_int j = max 0 (json_int j)"

definition lookup :: "payload \<Rightarrow> string \<Rightarrow> json" where
  "lookup p k = (case map_of p k of None \<Rightarrow> JNull | Some j \<Rightarrow> j)"

definition report_of :: "payload \<Rightarrow> cli_report" where
  "report_of v = \<lparr> cr_signed_in = (lookup v ''signed_in'' = JBool True), cr_profiles = clip_int (lookup v ''profiles''),
     cr_envelope = clip_int (lookup v ''envelope''),
     cr_version = take 32 (case lookup v ''version'' of JStr s \<Rightarrow> s | _ \<Rightarrow> '''') \<rparr>"

definition sanitize :: "json \<Rightarrow> (string \<times> cli_report) list option" where
  "sanitize raw = (case raw of
     JObj kvs \<Rightarrow> Some (List.map_filter (\<lambda>(c, v). case v of
         JObj p \<Rightarrow> if c \<in> set CLIS then Some (c, report_of p) else None | _ \<Rightarrow> None) kvs)
   | _ \<Rightarrow> None)"

definition unknown_names :: "json \<Rightarrow> string list" where
  "unknown_names raw = (case raw of JObj kvs \<Rightarrow> take 8 (sort (map (take 32) (filter (\<lambda>c. c \<notin> set CLIS) (map fst kvs))))
     | _ \<Rightarrow> [])"

definition reported :: "runner_box \<Rightarrow> (string \<times> cli_report) list" where
  "reported r = (case sanitize (cap_of r ''clis'') of Some reps \<Rightarrow> reps
     | None \<Rightarrow> [(CLAUDE_CODE, \<lparr> cr_signed_in = (\<not> signed_out r), cr_profiles = clip_int (cap_of r ''profiles''),
                  cr_envelope = clip_int (cap_of r ''envelope''), cr_version = '''' \<rparr>)])"

text \<open>\<open>dict.fromkeys\<close>: each value once, where it first stood.\<close>

definition fromkeys :: "'a list \<Rightarrow> 'a list" where
  "fromkeys xs = rev (remdups (rev xs))"

definition offered :: "agent_row option \<Rightarrow> string list" where
  "offered a = (case a of None \<Rightarrow> DEFAULT_CLIS
     | Some ag \<Rightarrow> let listed = filter (\<lambda>c. c \<in> set CLIS) (fromkeys (ag_clis ag)) in
         if listed = [] then DEFAULT_CLIS else listed)"

definition chat_cli :: "turndb \<Rightarrow> turn \<Rightarrow> string" where
  "chat_cli db t = (case chat_session t of None \<Rightarrow> ''''
     | Some c \<Rightarrow> (case tbl_get ch_id c (chats db) of None \<Rightarrow> '''' | Some s \<Rightarrow> ch_cli s))"

definition allowed_clis :: "turndb \<Rightarrow> turn \<Rightarrow> string list" where
  "allowed_clis db t =
     (let mine = offered (acting_agent db t);
          only = (if chat_cli db t \<noteq> '''' then Some (chat_cli db t)
                  else if requested_cli t \<in> set CLIS then Some (requested_cli t) else None)
      in case only of None \<Rightarrow> mine | Some c \<Rightarrow> filter (\<lambda>x. x \<in> set mine) [c])"

definition confines :: "cli_report \<Rightarrow> bool" where
  "confines rep \<longleftrightarrow> PROFILES_VERSION \<le> cr_profiles rep \<and> ENVELOPE_VERSION \<le> cr_envelope rep"

definition cli_fits :: "turndb \<Rightarrow> turn \<Rightarrow> (string \<times> cli_report) list \<Rightarrow> string \<Rightarrow> bool" where
  "cli_fits db t reps c = (case map_of reps c of None \<Rightarrow> False
     | Some rep \<Rightarrow> cr_signed_in rep \<and> \<not> (capability t \<noteq> '''' \<and> \<not> confines rep)
         \<and> \<not> (SENSITIVE_DATA \<in> requirements_of db t \<and> c \<notin> set SENSITIVE_CLIS))"

definition choose_cli :: "turndb \<Rightarrow> turn \<Rightarrow> (string \<times> cli_report) list \<Rightarrow> string option" where
  "choose_cli db t reps = find (cli_fits db t reps) (allowed_clis db t)"

section \<open>Heartbeats\<close>

record beat =
  b_active :: "string list"
  b_degraded :: bool
  b_ready :: bool
  b_ready_note :: string
  b_projects :: "string list option"
  b_unprepared :: "string list option"
  b_profiles :: int
  b_envelope :: int
  b_midturn :: int
  b_clis :: json
  b_claude_model :: string
  b_data_mode :: string
  b_data_mode_hash :: string

definition set_cap :: "string \<Rightarrow> json \<Rightarrow> payload \<Rightarrow> payload" where
  "set_cap k v caps = dict_merge caps [(k, v)]"

definition put_projects :: "string list option \<Rightarrow> payload \<Rightarrow> payload" where
  "put_projects ps caps = (case ps of None \<Rightarrow> caps
     | Some names \<Rightarrow> let cleaned = JList (map JStr (filter (\<lambda>p. p \<noteq> '''') (map py_strip names)))
         in if lookup caps ''projects'' = cleaned then caps else set_cap ''projects'' cleaned caps)"

definition put_unprepared :: "string list option \<Rightarrow> payload \<Rightarrow> payload" where
  "put_unprepared ps caps = (case ps of None \<Rightarrow> caps
     | Some names \<Rightarrow> let v = JList (map JStr (sort (remdups (filter (\<lambda>p. p \<noteq> '''') (map py_strip names)))))
         in if map_of caps ''unprepared'' = Some v then caps else set_cap ''unprepared'' v caps)"

definition put_int :: "string \<Rightarrow> int \<Rightarrow> payload \<Rightarrow> payload" where
  "put_int k n caps = (if json_int (lookup caps k) = n then caps else set_cap k (JNum n) caps)"

definition put_str :: "string \<Rightarrow> string \<Rightarrow> payload \<Rightarrow> payload" where
  "put_str k s caps =
     (if lookup caps k = JStr s \<or> s = '''' \<and> \<not> truthy (lookup caps k) then caps else set_cap k (JStr s) caps)"

definition report_json :: "cli_report \<Rightarrow> json" where
  "report_json rep = JObj [(''signed_in'', JBool (cr_signed_in rep)), (''profiles'', JNum (cr_profiles rep)),
     (''envelope'', JNum (cr_envelope rep)), (''version'', JStr (cr_version rep))]"

text \<open>The reported CLIs replace whatever was stored; a beat without them removes it.\<close>

definition put_clis :: "json \<Rightarrow> payload \<Rightarrow> payload" where
  "put_clis raw caps =
     (let rest = filter (\<lambda>(k, v). k \<noteq> ''clis'' \<and> k \<noteq> ''clis_unknown'') caps; unknown = unknown_names raw in
      rest @ (case sanitize raw of None \<Rightarrow> [] | Some reps \<Rightarrow> [(''clis'', JObj (map (\<lambda>(c, rep). (c, report_json rep)) reps))])
        @ (if unknown = [] then [] else [(''clis_unknown'', JList (map JStr unknown))]))"

definition beat_caps :: "beat \<Rightarrow> payload \<Rightarrow> payload" where
  "beat_caps b caps =
     put_str ''data_mode_hash'' (take 64 (b_data_mode_hash b)) (put_str ''data_mode'' (take 32 (b_data_mode b))
      (put_str ''claude_model'' (take 64 (b_claude_model b)) (put_clis (b_clis b)
       (put_int ''midturn'' (b_midturn b) (put_int ''envelope'' (b_envelope b) (put_int ''profiles'' (b_profiles b)
        (put_unprepared (b_unprepared b) (put_projects (b_projects b) caps))))))))"

definition beat_row :: "beat \<Rightarrow> instant \<Rightarrow> runner_box \<Rightarrow> runner_box" where
  "beat_row b now r = r\<lparr> rb_last_heartbeat_at := Some now,
     rb_status := (if b_degraded b then ''degraded'' else ''online''),
     rb_ready := b_ready b, rb_ready_note := b_ready_note b, rb_caps := beat_caps b (rb_caps r) \<rparr>"

definition CANCEL_GRACE :: int where "CANCEL_GRACE = 300 * SECOND"
definition DEFAULT_LEASE :: int where "DEFAULT_LEASE = 900 * SECOND"

definition asked_to_stop :: "turndb \<Rightarrow> string \<Rightarrow> bool" where
  "asked_to_stop db n \<longleftrightarrow> (\<exists>e\<in>set (events db). ev_turn e = n \<and> ev_kind e = ''cancel_requested'')"

definition executing_on :: "nat \<Rightarrow> turn \<Rightarrow> bool" where
  "executing_on b t \<longleftrightarrow> claimed_by t = Some b \<and> status t \<in> set EXECUTING"

definition cancel_requested_turn_ids :: "nat \<Rightarrow> string list \<Rightarrow> turndb \<Rightarrow> string list" where
  "cancel_requested_turn_ids b active db =
     sort (remdups (filter (asked_to_stop db)
       (map turn_id (filter (\<lambda>t. turn_id t \<in> set active \<and> executing_on b t) (turns db)))))"

definition cancel_overdue :: "(turn_event \<Rightarrow> instant) \<Rightarrow> string list \<Rightarrow> instant \<Rightarrow> turndb \<Rightarrow> string \<Rightarrow> bool" where
  "cancel_overdue event_ts active now db n \<longleftrightarrow> n \<in> set active
     \<and> (\<exists>e\<in>set (events db). ev_turn e = n \<and> ev_kind e = ''cancel_requested'' \<and> event_ts e < now - CANCEL_GRACE)"

definition renews :: "(turn_event \<Rightarrow> instant) \<Rightarrow> nat \<Rightarrow> string list \<Rightarrow> instant \<Rightarrow> turndb \<Rightarrow> turn \<Rightarrow> bool" where
  "renews event_ts b active now db t \<longleftrightarrow> executing_on b t
     \<and> (turn_id t \<in> set active \<and> \<not> cancel_overdue event_ts active now db (turn_id t)
        \<or> (case rides_turn t of None \<Rightarrow> False
           | Some h \<Rightarrow> h \<in> set active \<and> \<not> cancel_overdue event_ts active now db h))"

definition heartbeat :: "(turn_event \<Rightarrow> instant) \<Rightarrow> nat \<Rightarrow> beat \<Rightarrow> instant \<Rightarrow> fleet \<Rightarrow> string list \<times> fleet" where
  "heartbeat event_ts b bt now fl =
     (let db = fl_db fl; fl1 = set_boxes (tbl_update (\<lambda>r. rb_id r = b) (beat_row bt now)) fl in
      (cancel_requested_turn_ids b (b_active bt) db,
       set_turns (tbl_update (renews event_ts b (b_active bt) now db) (\<lambda>t. t\<lparr>lease_expires_at := Some (now + DEFAULT_LEASE)\<rparr>)) fl1))"

end
