(* ===== verification/Runner_Routing.thy ===== *)
theory Runner_Routing
  imports Runner_Fleet
begin

text \<open>
  Which machine a turn goes to (\<open>apps/harness/routing_orders.py\<close>, \<open>routing_projects.py\<close>,
  \<open>actors.py\<close>, \<open>apps/agents/holding.py\<close>): the ladder of an agent's rules, the order an agent
  inherits from its workspace, the order of a workspace's repo work, the availability cascade with
  its grace, and the workspaces a machine works for.

  Rows of equal rank keep their table order.  Parameters, in \<open>route_env\<close>: who is an admin of an
  agent (\<open>Agent.is_admin\<close>), whether an agent handles sensitive data, who administers a machine
  (\<open>can_administer_runner\<close>), the addresses of users and of a turn's contact, and the standard
  library's \<open>email.utils.parseaddr\<close>.
\<close>

record route_env =
  agent_admin :: "user_id \<Rightarrow> string \<Rightarrow> bool"
  sensitive_agent :: "string \<Rightarrow> bool"
  administers :: "user_id \<Rightarrow> nat \<Rightarrow> bool"
  email_of :: "user_id \<Rightarrow> string"
  contact_email :: "turn \<Rightarrow> string"
  parse_addr :: "string \<Rightarrow> string"


section \<open>Who a turn is from\<close>

fun split_at_sign :: "string \<Rightarrow> (string \<times> string) option" where
  "split_at_sign [] = None"
| "split_at_sign (c # cs) = (if c = CHR ''@'' then Some ([], cs)
     else (case split_at_sign cs of None \<Rightarrow> None | Some (a, b) \<Rightarrow> Some (c # a, b)))"

definition normalize_actor :: "route_env \<Rightarrow> string \<Rightarrow> string" where
  "normalize_actor env value =
     (let addr = py_lower (py_strip (parse_addr env (py_strip value))) in
      case split_at_sign addr of None \<Rightarrow> '''' | Some (local, domain) \<Rightarrow> if local \<noteq> [] \<and> domain \<noteq> [] then addr else '''')"

definition resolve_actor :: "route_env \<Rightarrow> string \<Rightarrow> payload \<Rightarrow> string \<Rightarrow> string" where
  "resolve_actor env origin ref email =
     (if origin = ''canopy_scheduler'' then ''''
      else if origin = ''email''
      then normalize_actor env (case map_of ref ''from'' of Some (JStr s) \<Rightarrow> s | _ \<Rightarrow> '''')
      else normalize_actor env email)"

definition actor_of :: "route_env \<Rightarrow> turn \<Rightarrow> string" where
  "actor_of env t =
     (let email = (case enqueued_by t of None \<Rightarrow> '''' | Some u \<Rightarrow> email_of env u);
          email = (if email = '''' then contact_email env t else email)
      in resolve_actor env (t_origin t) (origin_ref t) email)"


section \<open>What a machine may hold\<close>

definition runner_may_hold_agent :: "route_env \<Rightarrow> runner_box \<Rightarrow> string \<Rightarrow> bool" where
  "runner_may_hold_agent env r a =
     (case rb_owner r of None \<Rightarrow> False
      | Some u \<Rightarrow> \<not> (is_sensitive_data_box r \<and> \<not> sensitive_agent env a) \<and> agent_admin env u a)"

definition cannot_serve :: "fleet \<Rightarrow> runner_box \<Rightarrow> string \<Rightarrow> string option" where
  "cannot_serve fl r s =
     (if s = '''' then None
      else case serves_refusal fl r s of Some why \<Rightarrow> Some why
      | None \<Rightarrow>
          if rb_kind r = ''emdash'' \<and> rb_engine r = ''emdash'' \<and> ''projects'' \<in> fst ` set (rb_caps r)
             \<and> s \<notin> set (observed_projects r)
          then Some (rb_name r @ '' has no emdash project '' @ s)
          else if s \<in> set (json_strs (cap_of r ''unprepared''))
          then Some (rb_name r @ '' could not set '' @ s @ '' up (no clone of it on the box)'') else None)"

definition tenant_of_owner :: "fleet \<Rightarrow> user_id \<Rightarrow> slug set \<Rightarrow> slug set" where
  "tenant_of_owner fl u covered =
     (let a = \<lparr> actor_id = u, authenticated = True, acts_as = Uncapped \<rparr>;
          roles = member_roles_of (fl_people fl) [a] a
      in {s \<in> covered. role_allows (map_of roles s) AGENT_WORK = Inr True})"

definition covered_slugs :: "fleet \<Rightarrow> runner_box \<Rightarrow> slug set" where
  "covered_slugs fl r = (let enrolled = set (enrolled_slugs fl r) in
     enrolled \<union> \<Union> (descendant_map (workspaces (fl_people fl)) enrolled ` enrolled))"

definition runner_tenant_slugs :: "fleet \<Rightarrow> runner_box \<Rightarrow> slug set" where
  "runner_tenant_slugs fl r =
     (case rb_owner r of None \<Rightarrow> {} | Some u \<Rightarrow> tenant_of_owner fl u (covered_slugs fl r))"

text \<open>The workspace a turn is in, each target by its own source.\<close>

definition turn_workspace :: "turndb \<Rightarrow> turn \<Rightarrow> slug option" where
  "turn_workspace db t = (case chat_session t of
       Some c \<Rightarrow> map_option ch_workspace (tbl_get ch_id c (chats db))
     | None \<Rightarrow> (case t_agent t of Some a \<Rightarrow> map_option ag_workspace (tbl_get ag_slug a (agent_rows db))
         | None \<Rightarrow> t_workspace t))"

definition turn_workspace_q :: "turndb \<Rightarrow> slug set \<Rightarrow> turn \<Rightarrow> bool" where
  "turn_workspace_q db S t \<longleftrightarrow>
     (case t_agent t of None \<Rightarrow> False
      | Some a \<Rightarrow> (case tbl_get ag_slug a (agent_rows db) of None \<Rightarrow> False | Some ag \<Rightarrow> ag_workspace ag \<in> S))
   \<or> (t_agent t = None \<and> chat_session t = None \<and> (case t_workspace t of None \<Rightarrow> False | Some w \<Rightarrow> w \<in> S))
   \<or> (case chat_session t of None \<Rightarrow> False
      | Some c \<Rightarrow> (case tbl_get ch_id c (chats db) of None \<Rightarrow> False | Some s \<Rightarrow> ch_workspace s \<in> S))"


section \<open>Orders\<close>

text \<open>\<open>_ancestor_chains\<close>: a workspace and those above it; the loop runs while the chain has at
  most \<open>MAX_DEPTH\<close> entries.\<close>

primrec chain_up :: "nat \<Rightarrow> workspace list \<Rightarrow> slug option \<Rightarrow> slug list \<Rightarrow> slug list" where
  "chain_up 0 tbl cur chain = chain"
| "chain_up (Suc n) tbl cur chain = (case cur of None \<Rightarrow> chain
     | Some c \<Rightarrow> if c \<in> set chain then chain else chain_up n tbl (parent_of tbl c) (chain @ [c]))"

definition route_chain :: "workspace list \<Rightarrow> slug \<Rightarrow> slug list" where
  "route_chain tbl s = chain_up MAX_DEPTH tbl (parent_of tbl s) [s]"

definition box_row :: "fleet \<Rightarrow> nat \<Rightarrow> runner_box option" where
  "box_row fl b = tbl_get rb_id b (fl_boxes fl)"

definition workspace_order :: "fleet \<Rightarrow> slug \<Rightarrow> runner_box list" where
  "workspace_order fl w =
     filter (\<lambda>r. rb_status r \<noteq> ''retired'') (List.map_filter (\<lambda>o'. box_row fl (wo_runner o'))
       (sort_key wo_rank (filter (\<lambda>o'. wo_workspace o' = w \<and> wo_enabled o') (fl_orders fl))))"

definition has_own_order :: "fleet \<Rightarrow> string \<Rightarrow> bool" where
  "has_own_order fl a \<longleftrightarrow> (\<exists>x\<in>set (fl_assignments fl). as_agent x = a \<and> as_source x = '''')"

definition inherits_runner :: "route_env \<Rightarrow> fleet \<Rightarrow> string \<Rightarrow> runner_box \<Rightarrow> bool" where
  "inherits_runner env fl a r \<longleftrightarrow> \<not> directed_only r
     \<and> \<not> (rb_kind r = ''emdash'' \<and> a \<notin> set (observed_projects r))
     \<and> runner_may_hold_agent env r a \<and> serves_refusal fl r a = None"

text \<open>The order an agent without rows of its own follows: that of its workspace, or of the nearest
  above it that has one.\<close>

definition inherited_order :: "route_env \<Rightarrow> fleet \<Rightarrow> string \<Rightarrow> runner_box list option" where
  "inherited_order env fl a =
     (if has_own_order fl a then None
      else case tbl_get ag_slug a (agent_rows (fl_db fl)) of None \<Rightarrow> None
      | Some ag \<Rightarrow> (case find (\<lambda>s. workspace_order fl s \<noteq> []) (route_chain (workspaces (fl_people fl)) (ag_workspace ag)) of
          None \<Rightarrow> None | Some src \<Rightarrow> Some (filter (inherits_runner env fl a) (workspace_order fl src))))"

definition assigned_rows :: "fleet \<Rightarrow> string \<Rightarrow> string \<Rightarrow> string \<Rightarrow> assignment list" where
  "assigned_rows fl a src act = sort_key as_rank (filter (\<lambda>x. as_agent x = a \<and> as_enabled x \<and> as_source x = src
     \<and> (src = '''' \<or> as_actor x = act)) (fl_assignments fl))"

definition runners_of :: "fleet \<Rightarrow> assignment list \<Rightarrow> runner_box list" where
  "runners_of fl rows = List.map_filter (\<lambda>x. box_row fl (as_runner x)) rows"

definition default_order :: "route_env \<Rightarrow> fleet \<Rightarrow> string \<Rightarrow> runner_box list" where
  "default_order env fl a = (case inherited_order env fl a of Some rs \<Rightarrow> rs
     | None \<Rightarrow> runners_of fl (assigned_rows fl a '''' ''''))"


section \<open>The ladder\<close>

datatype rung = RungPerson | RungSource | RungDefault

text \<open>One rule after the other, each runner once; a strict rule ends the ladder.\<close>

fun climb_rules :: "(rung \<times> bool \<times> runner_box list) list \<Rightarrow> (runner_box \<times> rung) list \<Rightarrow> (runner_box \<times> rung) list \<times> bool" where
  "climb_rules [] out = (out, False)"
| "climb_rules ((g, strict, rs) # rules) out =
     (let out' = fold (\<lambda>r acc. if rb_id r \<in> rb_id ` fst ` set acc then acc else acc @ [(r, g)]) rs out
      in if strict then (out', True) else climb_rules rules out')"

definition rule_at :: "fleet \<Rightarrow> rung \<Rightarrow> assignment list \<Rightarrow> (rung \<times> bool \<times> runner_box list) list" where
  "rule_at fl g rows = (if rows = [] then [] else [(g, as_strict (hd rows), runners_of fl rows)])"

definition the_rules :: "fleet \<Rightarrow> string \<Rightarrow> string \<Rightarrow> string \<Rightarrow> (rung \<times> bool \<times> runner_box list) list" where
  "the_rules fl a origin act =
     (if act = '''' then [] else rule_at fl RungPerson (assigned_rows fl a origin act))
     @ rule_at fl RungSource (assigned_rows fl a origin '''')"

definition composed_ladder :: "route_env \<Rightarrow> fleet \<Rightarrow> string \<Rightarrow> string \<Rightarrow> string \<Rightarrow> (runner_box \<times> rung) list" where
  "composed_ladder env fl a origin act =
     (let base = default_order env fl a; ladder = the_rules fl a origin act in
      if ladder = [] then map (\<lambda>r. (r, RungDefault)) base
      else case climb_rules ladder [] of (out, truncated) \<Rightarrow>
        if truncated then out
        else out @ map (\<lambda>r. (r, RungDefault)) (filter (\<lambda>r. rb_id r \<notin> rb_id ` fst ` set out) base))"

definition keeps :: "fleet \<Rightarrow> string set \<Rightarrow> string \<Rightarrow> runner_box \<Rightarrow> bool" where
  "keeps fl requires slug r \<longleftrightarrow> (requires = {} \<or> runner_satisfies r requires) \<and> \<not> directed_only r
     \<and> (slug = '''' \<or> cannot_serve fl r slug = None)"

definition labelled_assignment_rows :: "route_env \<Rightarrow> fleet \<Rightarrow> string \<Rightarrow> string \<Rightarrow> string \<Rightarrow> string set \<Rightarrow> string
    \<Rightarrow> (runner_box \<times> rung) list" where
  "labelled_assignment_rows env fl a origin act requires slug =
     filter (\<lambda>(r, g). keeps fl requires slug r) (composed_ladder env fl a origin act)"

definition assignment_rows_for :: "route_env \<Rightarrow> fleet \<Rightarrow> string \<Rightarrow> string \<Rightarrow> string \<Rightarrow> string set \<Rightarrow> string
    \<Rightarrow> (nat \<times> runner_box) list" where
  "assignment_rows_for env fl a origin act requires slug =
     List.enumerate 0 (map fst (labelled_assignment_rows env fl a origin act requires slug))"

section \<open>The availability cascade\<close>

definition CASCADE_GRACE :: int where "CASCADE_GRACE = 60 * SECOND"

definition past_grace :: "instant \<Rightarrow> turn \<Rightarrow> bool" where
  "past_grace now t \<longleftrightarrow> CASCADE_GRACE \<le> now - created_at t"

definition routed_slug :: "turndb \<Rightarrow> turn \<Rightarrow> string \<Rightarrow> string" where
  "routed_slug db t a =
     (if t_agent t = Some a then a
      else case chat_session t of None \<Rightarrow> '''' | Some c \<Rightarrow> (case tbl_get ch_id c (chats db) of None \<Rightarrow> ''''
        | Some s \<Rightarrow> if ch_agent s = Some a then a else ''''))"

definition assignment_allows_for_agent :: "route_env \<Rightarrow> fleet \<Rightarrow> runner_box \<Rightarrow> string \<Rightarrow> turn \<Rightarrow> instant \<Rightarrow> bool" where
  "assignment_allows_for_agent env fl r a t now =
     (let rows = assignment_rows_for env fl a (t_origin t) (actor_of env t) (requirements_of (fl_db fl) t)
                   (routed_slug (fl_db fl) t a)
      in case find (\<lambda>(rank, x). rb_id x = rb_id r) rows of None \<Rightarrow> False
         | Some (mine, _) \<Rightarrow> past_grace now t \<or> \<not> (\<exists>(rank, x)\<in>set rows. rank < mine \<and> is_available now x))"

definition cascade_allows :: "instant \<Rightarrow> turn \<Rightarrow> runner_box \<Rightarrow> runner_box list \<Rightarrow> bool" where
  "cascade_allows now t r rows =
     (case find (\<lambda>(i, x). rb_id x = rb_id r) (List.enumerate 0 rows) of None \<Rightarrow> False
      | Some (mine, _) \<Rightarrow> past_grace now t \<or> \<not> (\<exists>x\<in>set (take mine rows). is_available now x))"

definition kind_allows :: "runner_box \<Rightarrow> string \<Rightarrow> bool" where
  "kind_allows r routing =
     (if routing = ''local_only'' then rb_kind r \<in> {''emdash'', ''remote''}
      else if routing = ''cloud_only'' then rb_kind r = ''cloud'' else True)"

section \<open>Jobs\<close>

definition runs_jobs :: "runner_box \<Rightarrow> bool" where
  "runs_jobs r \<longleftrightarrow> rb_kind r = ''cloud'' \<and> cap_of r ''jobs'' = JBool True \<and> SENSITIVE_DATA \<notin> in_force r"

definition is_job_gated :: "turn \<Rightarrow> bool" where
  "is_job_gated t \<longleftrightarrow> job t \<noteq> '''' \<or> t_routing t = ''cloud_only''"

definition job_refusal :: "runner_box \<Rightarrow> turn \<Rightarrow> string option" where
  "job_refusal r t =
     (if \<not> is_job_gated t then None
      else if chat_session t \<noteq> None \<or> t_project t \<noteq> ''''
      then Some ''a job belongs to an agent's schedule, not to a conversation or a repo''
      else if \<not> runs_jobs r then Some ''only a cloud machine set up to run jobs takes a job'' else None)"

definition holds_a_job :: "fleet \<Rightarrow> runner_box \<Rightarrow> bool" where
  "holds_a_job fl r \<longleftrightarrow> (\<exists>t\<in>set (fl_turns fl). status t \<in> set EXECUTING \<and> job t \<noteq> ''''
     \<and> (case claimed_by t of None \<Rightarrow> False
        | Some b \<Rightarrow> if rb_machine r = '''' then b = rb_id r
            else (case box_row fl b of None \<Rightarrow> False | Some x \<Rightarrow> rb_machine x = rb_machine r)))"

section \<open>Repo work\<close>

definition is_repo_turn :: "turn \<Rightarrow> bool" where
  "is_repo_turn t \<longleftrightarrow> t_agent t = None \<and> chat_session t = None \<and> t_project t \<noteq> ''''"

definition order_for :: "fleet \<Rightarrow> slug option \<Rightarrow> string \<Rightarrow> string set \<Rightarrow> bool \<Rightarrow> runner_box list option" where
  "order_for fl ws project requires sessions =
     (let listed = (case ws of None \<Rightarrow> [] | Some w \<Rightarrow> workspace_order fl w) in
      if listed = [] then None
      else Some (filter (\<lambda>r. \<not> directed_only r \<and> (\<not> sessions \<or> session_capable r)
             \<and> (project = '''' \<or> offers_project_in fl r project ws) \<and> runner_satisfies r requires) listed))"

definition repo_order_for :: "fleet \<Rightarrow> turn \<Rightarrow> runner_box list option" where
  "repo_order_for fl t = order_for fl (t_workspace t) (t_project t) (requirements_of (fl_db fl) t) False"

definition repo_order_allows :: "fleet \<Rightarrow> runner_box \<Rightarrow> turn \<Rightarrow> instant \<Rightarrow> bool" where
  "repo_order_allows fl r t now = (case repo_order_for fl t of
     None \<Rightarrow> offers_project_in fl r (t_project t) (t_workspace t)
   | Some rows \<Rightarrow> cascade_allows now t r rows)"

text \<open>A chat with no agent, bound to no machine.\<close>

definition is_project_session_turn :: "turndb \<Rightarrow> turn \<Rightarrow> bool" where
  "is_project_session_turn db t = (case chat_session t of None \<Rightarrow> False
     | Some c \<Rightarrow> (case tbl_get ch_id c (chats db) of None \<Rightarrow> False
         | Some s \<Rightarrow> ch_agent s = None \<and> ch_runner s = None))"

definition project_session_rows :: "fleet \<Rightarrow> chat \<Rightarrow> turn \<Rightarrow> runner_box list option" where
  "project_session_rows fl s t =
     order_for fl (Some (ch_workspace s)) (ch_project s) (requirements_of (fl_db fl) t) True"

definition chatter_administers :: "route_env \<Rightarrow> runner_box \<Rightarrow> turn \<Rightarrow> bool" where
  "chatter_administers env r t = (case enqueued_by t of None \<Rightarrow> False | Some u \<Rightarrow> administers env u (rb_id r))"

definition project_session_covers :: "route_env \<Rightarrow> fleet \<Rightarrow> runner_box \<Rightarrow> chat \<Rightarrow> turn \<Rightarrow> bool" where
  "project_session_covers env fl r s t =
     (if directed_only r then False
      else if ch_project s \<noteq> '''' \<and> \<not> offers_project_in fl r (ch_project s) (Some (ch_workspace s)) then False
      else case project_session_rows fl s t of
          Some rows \<Rightarrow> rb_id r \<in> rb_id ` set rows
        | None \<Rightarrow> chatter_administers env r t)"

definition project_session_allows :: "route_env \<Rightarrow> fleet \<Rightarrow> runner_box \<Rightarrow> chat \<Rightarrow> turn \<Rightarrow> instant \<Rightarrow> bool" where
  "project_session_allows env fl r s t now \<longleftrightarrow> project_session_covers env fl r s t
     \<and> (case project_session_rows fl s t of None \<Rightarrow> True | Some rows \<Rightarrow> cascade_allows now t r rows)"

section \<open>What a machine can be aimed at\<close>

definition agents_following_runner :: "route_env \<Rightarrow> fleet \<Rightarrow> runner_box \<Rightarrow> string list \<Rightarrow> string list" where
  "agents_following_runner env fl r among =
     (let listed = set (map wo_workspace (filter (\<lambda>o'. wo_runner o' = rb_id r \<and> wo_enabled o') (fl_orders fl)));
          scope = listed \<union> descendant_slugs (workspaces (fl_people fl)) listed
      in if among = [] \<or> directed_only r \<or> listed = {} then []
         else filter (\<lambda>a. case inherited_order env fl a of None \<Rightarrow> False
                        | Some rs \<Rightarrow> rb_id r \<in> rb_id ` set rs)
           (filter (\<lambda>a. a \<in> set among) (map ag_slug (filter (\<lambda>g. ag_workspace g \<in> scope) (agent_rows (fl_db fl))))))"

definition queued_agents :: "fleet \<Rightarrow> string list" where
  "queued_agents fl = remdups (List.map_filter t_agent (filter (\<lambda>t. status t = Queued) (fl_turns fl)))"

definition chat_of :: "turndb \<Rightarrow> turn \<Rightarrow> chat option" where
  "chat_of db t = (case chat_session t of None \<Rightarrow> None | Some c \<Rightarrow> tbl_get ch_id c (chats db))"

definition targets_agent :: "route_env \<Rightarrow> fleet \<Rightarrow> runner_box \<Rightarrow> string list \<Rightarrow> turn \<Rightarrow> bool" where
  "targets_agent env fl r exclude t = (case t_agent t of None \<Rightarrow> False
     | Some a \<Rightarrow> ((\<exists>x\<in>set (fl_assignments fl). as_agent x = a \<and> as_runner x = rb_id r \<and> as_enabled x)
                  \<or> a \<in> set (agents_following_runner env fl r (queued_agents fl)))
               \<and> a \<notin> set exclude)"

definition targets_session :: "turndb \<Rightarrow> runner_box \<Rightarrow> turn \<Rightarrow> bool" where
  "targets_session db r t = (case chat_of db t of None \<Rightarrow> False
     | Some s \<Rightarrow> session_capable r \<and> ch_runner s \<in> {None, Some (rb_id r)})"

definition agent_is :: "turndb \<Rightarrow> (string \<Rightarrow> bool) \<Rightarrow> turn \<Rightarrow> bool" where
  "agent_is db P t \<longleftrightarrow> (case t_agent t of None \<Rightarrow> False | Some a \<Rightarrow> P a)
     \<or> (case chat_of db t of None \<Rightarrow> False | Some s \<Rightarrow> (case ch_agent s of None \<Rightarrow> False | Some a \<Rightarrow> P a))"

definition runner_target_q :: "route_env \<Rightarrow> fleet \<Rightarrow> runner_box \<Rightarrow> string list \<Rightarrow> turn \<Rightarrow> bool" where
  "runner_target_q env fl r exclude t =
     (if directed_only r
      then (case chat_of (fl_db fl) t of None \<Rightarrow> False | Some s \<Rightarrow> ch_runner s = Some (rb_id r))
      else (targets_agent env fl r exclude t \<or> t_project t \<in> set (project_names fl r)
            \<or> targets_session (fl_db fl) r t)
         \<and> (case served_agent_slug (serves r) of None \<Rightarrow> True | Some own \<Rightarrow> agent_is (fl_db fl) (\<lambda>a. a = own) t)
         \<and> (case dedicated_agent_slugs r of None \<Rightarrow> True | Some only \<Rightarrow> agent_is (fl_db fl) (\<lambda>a. a \<in> set only) t))"

definition profile_q :: "runner_box \<Rightarrow> turn \<Rightarrow> bool" where
  "profile_q r t \<longleftrightarrow> (\<exists>(c, rep)\<in>set (reported r). confines rep) \<or> capability t = ''''"

definition out_of_order :: "string \<Rightarrow> string \<Rightarrow> string" where
  "out_of_order slug origin = ''this box is not in '' @ slug @ '''s runner order for '' @ origin
     @ '' turns, or a better-ranked runner is still available''"

text \<open>What the claim asks of a turn that is not pinned to the machine: its routing, then the order
  of whatever it is for.\<close>

definition routing_refusal :: "route_env \<Rightarrow> fleet \<Rightarrow> runner_box \<Rightarrow> turn \<Rightarrow> instant \<Rightarrow> string option" where
  "routing_refusal env fl r t now =
     (let db = fl_db fl; in_order = (\<lambda>a. assignment_allows_for_agent env fl r a t now) in
      if \<not> kind_allows r (t_routing t)
      then Some (''its routing ('' @ t_routing t @ '') does not allow a '' @ rb_kind r @ '' runner'')
      else if (case t_agent t of None \<Rightarrow> False | Some a \<Rightarrow> \<not> in_order a)
      then Some (out_of_order (the (t_agent t)) (t_origin t))
      else if is_repo_turn t \<and> \<not> repo_order_allows fl r t now
      then Some ''the workspace's runner order does not offer this repo turn to this box''
      else if is_project_session_turn db t \<and> \<not> (case chat_of db t of None \<Rightarrow> False
              | Some s \<Rightarrow> project_session_allows env fl r s t now)
      then Some ''the workspace's runner order does not offer this project chat to this box''
      else case chat_of db t of None \<Rightarrow> None
        | Some s \<Rightarrow> (case ch_agent s of None \<Rightarrow> None
            | Some a \<Rightarrow> if ch_runner s \<noteq> Some (rb_id r) \<and> \<not> in_order a
                then Some (out_of_order a (t_origin t)) else None))"

section \<open>The ladder, read as a list\<close>

text \<open>The reference: the rules in order down to the first strict one, then the default order, and of
  what is said twice the first.\<close>

fun reached :: "(rung \<times> bool \<times> runner_box list) list \<Rightarrow> runner_box list \<Rightarrow> (runner_box \<times> rung) list" where
  "reached [] base = map (\<lambda>r. (r, RungDefault)) base"
| "reached ((g, strict, rs) # rules) base = map (\<lambda>r. (r, g)) rs @ (if strict then [] else reached rules base)"

fun first_mentions :: "nat set \<Rightarrow> (runner_box \<times> rung) list \<Rightarrow> (runner_box \<times> rung) list" where
  "first_mentions seen [] = []"
| "first_mentions seen ((r, g) # xs) = (if rb_id r \<in> seen then first_mentions seen xs
     else (r, g) # first_mentions (insert (rb_id r) seen) xs)"

abbreviation ids_of :: "(runner_box \<times> rung) list \<Rightarrow> nat set" where
  "ids_of xs \<equiv> rb_id ` fst ` set xs"

lemma first_mentions_append: "first_mentions seen (xs @ ys) = first_mentions seen xs @ first_mentions (seen \<union> ids_of xs) ys"
  by (induction seen xs rule: first_mentions.induct) (auto simp: insert_absorb)

lemma ids_first_mentions: "ids_of (first_mentions seen xs) = ids_of xs - seen"
  by (induction seen xs rule: first_mentions.induct) auto

lemma distinct_first_mentions: "distinct (map (rb_id \<circ> fst) (first_mentions seen xs))"
proof (induction seen xs rule: first_mentions.induct)
  case (2 seen r g xs)
  have "rb_id r \<notin> ids_of (first_mentions (insert (rb_id r) seen) xs)" by (simp only: ids_first_mentions) simp
  then show ?case using 2 by (simp add: image_image comp_def)
qed simp

lemma first_mentions_distinct:
  "distinct (map rb_id base) \<Longrightarrow>
    first_mentions seen (map (\<lambda>r. (r, g)) base) = map (\<lambda>r. (r, g)) (filter (\<lambda>r. rb_id r \<notin> seen) base)"
proof (induction base arbitrary: seen)
  case (Cons r base)
  then have "filter (\<lambda>x. rb_id x \<notin> insert (rb_id r) seen) base = filter (\<lambda>x. rb_id x \<notin> seen) base"
    by (intro filter_cong) (auto, metis imageI)
  then show ?case using Cons by simp
qed simp

lemma fold_new:
  "fold (\<lambda>r acc. if rb_id r \<in> ids_of acc then acc else acc @ [(r, g)]) rs out
     = out @ first_mentions (ids_of out) (map (\<lambda>r. (r, g)) rs)"
proof (induction rs arbitrary: out)
  case (Cons r rs)
  show ?case
  proof (cases "rb_id r \<in> ids_of out")
    case True
    then show ?thesis using Cons.IH [of out] by simp
  next
    case False
    then show ?thesis using Cons.IH [of "out @ [(r, g)]"] by (simp add: insert_commute)
  qed
qed simp

lemma climb_rules_reached:
  assumes "distinct (map rb_id base)"
  shows "(case climb_rules rules out of (out', truncated) \<Rightarrow>
      if truncated then out' else out' @ map (\<lambda>r. (r, RungDefault)) (filter (\<lambda>r. rb_id r \<notin> ids_of out') base))
    = out @ first_mentions (ids_of out) (reached rules base)"
proof (induction rules out rule: climb_rules.induct)
  case (1 out)
  then show ?case using first_mentions_distinct [OF assms, of "ids_of out" RungDefault] by simp
next
  case (2 g strict rs rules out)
  let ?out = "out @ first_mentions (ids_of out) (map (\<lambda>r. (r, g)) rs)"
  have "ids_of ?out = ids_of out \<union> ids_of (map (\<lambda>r. (r, g)) rs)"
    by (simp add: image_Un ids_first_mentions)
  then have "out @ first_mentions (ids_of out) (reached ((g, strict, rs) # rules) base)
      = ?out @ first_mentions (ids_of ?out) (if strict then [] else reached rules base)"
    by (simp add: first_mentions_append)
  then show ?case
    using 2 [of ?out] by (cases strict) (simp_all add: fold_new)
qed

text \<open>The tables' unique constraints: one row per machine in each order and each rule.\<close>

definition orders_ok :: "fleet \<Rightarrow> bool" where
  "orders_ok fl \<longleftrightarrow> distinct (map rb_id (fl_boxes fl))
     \<and> distinct (map (\<lambda>x. (as_agent x, as_source x, as_actor x, as_runner x)) (filter (\<lambda>x. as_source x \<noteq> '''') (fl_assignments fl)))
     \<and> distinct (map (\<lambda>x. (as_agent x, as_runner x)) (filter (\<lambda>x. as_source x = '''') (fl_assignments fl)))
     \<and> distinct (map (\<lambda>o'. (wo_workspace o', wo_runner o')) (fl_orders fl))"

lemma box_row_id: "box_row fl b = Some r \<Longrightarrow> rb_id r = b \<and> r \<in> set (fl_boxes fl)"
  unfolding box_row_def by (auto dest: tbl_get_Some)

lemma rows_distinct:
  assumes "distinct (map f xs)"
  shows "distinct (map rb_id (List.map_filter (\<lambda>x. box_row fl (f x)) xs))"
  using assms
proof (induction xs)
  case (Cons x xs)
  have "rb_id r \<in> f ` set xs" if "r \<in> set (List.map_filter (\<lambda>x. box_row fl (f x)) xs)" for r
    using that by (auto simp: set_map_filter_Some dest: box_row_id)
  then show ?case using Cons by (auto split: option.split dest: box_row_id)
qed simp

lemma distinct_map_filter_key:
  assumes "distinct (map (\<lambda>x. (g x, f x)) xs)" and "\<And>x. P x \<Longrightarrow> g x = k"
  shows "distinct (map f (filter P xs))"
  using assms by (induction xs) (auto simp: image_iff)

lemma workspace_order_distinct:
  assumes "orders_ok fl"
  shows "distinct (map rb_id (workspace_order fl w))"
proof -
  have "distinct (map wo_runner (filter (\<lambda>o'. wo_workspace o' = w \<and> wo_enabled o') (fl_orders fl)))"
    using assms by (intro distinct_map_filter_key [where g = wo_workspace and k = w]) (simp_all add: orders_ok_def)
  then have "distinct (map wo_runner (sort_key wo_rank (filter (\<lambda>o'. wo_workspace o' = w \<and> wo_enabled o') (fl_orders fl))))"
    by (simp add: distinct_map)
  then show ?thesis unfolding workspace_order_def by (intro distinct_map_filter rows_distinct)
qed

lemma default_order_distinct:
  assumes "orders_ok fl"
  shows "distinct (map rb_id (default_order env fl a))"
proof -
  have "distinct (map as_runner (filter (\<lambda>x. as_agent x = a \<and> as_enabled x \<and> as_source x = '''')
      (filter (\<lambda>x. as_source x = '''') (fl_assignments fl))))"
    using assms distinct_map_filter_key [of as_agent as_runner "filter (\<lambda>x. as_source x = '''') (fl_assignments fl)"
      "\<lambda>x. as_agent x = a \<and> as_enabled x \<and> as_source x = ''''" a]
    by (simp add: orders_ok_def)
  then have "distinct (map as_runner (assigned_rows fl a '''' ''''))"
    by (simp add: assigned_rows_def distinct_map conj_ac)
  then have "distinct (map rb_id (runners_of fl (assigned_rows fl a '''' '''')))"
    unfolding runners_of_def by (rule rows_distinct)
  then show ?thesis
    using workspace_order_distinct [OF assms] by (auto simp: default_order_def inherited_order_def split: option.split intro: distinct_map_filter)
qed

lemma composed_ladder_eq:
  assumes "orders_ok fl"
  shows "composed_ladder env fl a origin act = first_mentions {} (reached (the_rules fl a origin act) (default_order env fl a))"
proof -
  note dist = default_order_distinct [OF assms, of env a]
  show ?thesis
  proof (cases "the_rules fl a origin act = []")
    case True
    then show ?thesis using first_mentions_distinct [OF dist, of "{}" RungDefault] by (simp add: composed_ladder_def)
  next
    case False
    then show ?thesis using climb_rules_reached [OF dist, of "the_rules fl a origin act" "[]"] by (simp add: composed_ladder_def)
  qed
qed

lemma reached_above_default:
  "(r, RungDefault) \<in> set (reached rules base) \<Longrightarrow> (\<forall>(g, strict, rs)\<in>set rules. g \<noteq> RungDefault)
    \<Longrightarrow> (\<forall>(g, strict, rs)\<in>set rules. \<not> strict) \<and> r \<in> set base"
  by (induction rules base rule: reached.induct) (auto split: if_splits)

lemma set_first_mentions: "set (first_mentions seen xs) \<subseteq> set xs"
  by (induction seen xs rule: first_mentions.induct) auto

lemma the_rules_rungs: "\<forall>(g, strict, rs)\<in>set (the_rules fl a origin act). g \<noteq> RungDefault"
  by (auto simp: the_rules_def rule_at_def split: if_splits)

text \<open>C32. The machines offered a turn are those of the person's rule, then of the source's, then of the
  default order, down to the first strict rule and each where it is first named, less those that lack
  a required flag, take directed work only or cannot serve the agent; none is offered twice, and none
  of the default order while a rule of the turn is strict.\<close>

theorem strict_rules_shut_the_ladder:
  assumes "orders_ok fl"
  shows "labelled_assignment_rows env fl a origin act requires slug
      = filter (\<lambda>(r, g). keeps fl requires slug r)
          (first_mentions {} (reached (the_rules fl a origin act) (default_order env fl a)))
    \<and> distinct (map (rb_id \<circ> fst) (labelled_assignment_rows env fl a origin act requires slug))
    \<and> (\<forall>r. (r, RungDefault) \<in> set (labelled_assignment_rows env fl a origin act requires slug) \<longrightarrow>
        r \<in> set (default_order env fl a) \<and> (\<forall>(g, strict, rs)\<in>set (the_rules fl a origin act). \<not> strict))"
proof -
  let ?ladder = "first_mentions {} (reached (the_rules fl a origin act) (default_order env fl a))"
  have eq: "labelled_assignment_rows env fl a origin act requires slug = filter (\<lambda>(r, g). keeps fl requires slug r) ?ladder"
    by (simp add: labelled_assignment_rows_def composed_ladder_eq [OF assms])
  have below: "r \<in> set (default_order env fl a) \<and> (\<forall>(g, strict, rs)\<in>set (the_rules fl a origin act). \<not> strict)"
    if "(r, RungDefault) \<in> set ?ladder" for r
    using reached_above_default [OF _ the_rules_rungs] that set_first_mentions by blast
  show ?thesis
    unfolding eq
    by (intro conjI refl distinct_map_filter distinct_first_mentions) (rule allI, rule impI, rule below, simp)
qed

text \<open>Two machines, an agent that has both in its order, and a rule that keeps its mail on the second.\<close>

definition plain_env :: route_env where
  "plain_env = \<lparr> agent_admin = (\<lambda>u a. u = 1), sensitive_agent = (\<lambda>_. True), administers = (\<lambda>u b. u = 1),
     email_of = (\<lambda>_. ''a@b''), contact_email = (\<lambda>_. ''''), parse_addr = (\<lambda>s. s) \<rparr>"

definition plain_assignment :: "nat \<Rightarrow> nat \<Rightarrow> string \<Rightarrow> bool \<Rightarrow> assignment" where
  "plain_assignment b rank src strict = \<lparr> as_agent = ''eva'', as_runner = b, as_rank = rank, as_enabled = True,
     as_source = src, as_actor = '''', as_strict = strict, as_turn_mode = '''' \<rparr>"

definition sample_people :: wsdb where
  "sample_people = \<lparr> workspaces = [bare_workspace ''acme'' None, bare_workspace ''team'' (Some ''acme'')],
     memberships = [\<lparr> m_workspace = ''acme'', m_user = 1, m_role = Owner, m_invited_by = None, m_joined = 0 \<rparr>], users = [1] \<rparr>"

definition sample_fleet :: fleet where
  "sample_fleet = \<lparr> fl_queue = sample_admission\<lparr>adm_rules := [], world := sample_turns\<lparr>boxes := [plain_box 1 ''emdash'', plain_box 2 ''cloud''],
       chats := [], turns := [plain_turn ''cccccccc-3''\<lparr>status := Queued, lease_expires_at := None, claimed_by := None\<rparr>]\<rparr>\<rparr>,
     fl_people = sample_people, fl_held = False, fl_opt_ins = [], fl_enrollments = [(1, ''acme''), (2, ''acme'')],
     fl_assignments = [plain_assignment 1 0 '''' False, plain_assignment 2 1 '''' False, plain_assignment 2 0 ''email'' True],
     fl_orders = [], fl_handoffs = [] \<rparr>"

lemma sample_fleet_ok: "orders_ok sample_fleet"
  by (simp add: orders_ok_def sample_fleet_def plain_assignment_def plain_box_def)

lemma strict_rules_shut_the_ladder_witness:
  "map (rb_id \<circ> fst) (labelled_assignment_rows plain_env sample_fleet ''eva'' ''email'' '''' {} '''') = [2]
   \<and> map (rb_id \<circ> fst) (labelled_assignment_rows plain_env sample_fleet ''eva'' ''api'' '''' {} '''') = [1, 2]"
  unfolding strict_rules_shut_the_ladder [OF sample_fleet_ok, THEN conjunct1] by code_simp

section \<open>Who may take the turn\<close>

lemma find_enumerate:
  "find (\<lambda>(i, x). P x) (List.enumerate k xs) = (case find P xs of None \<Rightarrow> None
     | Some x \<Rightarrow> Some (k + length (takeWhile (\<lambda>x. \<not> P x) xs), x))"
  by (induction xs arbitrary: k) (auto split: option.split)

lemma take_length_takeWhile: "take (length (takeWhile P xs)) xs = takeWhile P xs"
  by (metis takeWhile_eq_take)

lemma find_id: "r \<in> set rows \<Longrightarrow> distinct (map rb_id rows) \<Longrightarrow> find (\<lambda>x. rb_id x = rb_id r) rows = Some r"
  by (induction rows) (auto simp: image_iff)

definition first_refusal :: "instant \<Rightarrow> turn \<Rightarrow> runner_box \<Rightarrow> runner_box list \<Rightarrow> bool" where
  "first_refusal now t r rows \<longleftrightarrow> rb_id r \<in> rb_id ` set rows
     \<and> (past_grace now t \<or> (\<forall>x\<in>set (takeWhile (\<lambda>x. rb_id x \<noteq> rb_id r) rows). \<not> is_available now x))"

lemma find_listed: "find (\<lambda>x. rb_id x = b) rows = None \<longleftrightarrow> b \<notin> rb_id ` set rows"
  by (auto simp: find_None_iff)

lemma cascade_allows_eq: "cascade_allows now t r rows = first_refusal now t r rows"
proof (cases "find (\<lambda>x. rb_id x = rb_id r) rows")
  case None
  then show ?thesis
    using find_listed [of "rb_id r" rows] by (simp add: cascade_allows_def find_enumerate first_refusal_def)
next
  case (Some x)
  then have "rb_id r \<in> rb_id ` set rows" using find_listed [of "rb_id r" rows] by auto
  then show ?thesis
    using Some by (auto simp: cascade_allows_def find_enumerate first_refusal_def take_length_takeWhile)
qed

lemma enumerate_below:
  "(\<exists>(i, x)\<in>set (List.enumerate k xs). i < k + n \<and> P x) \<longleftrightarrow> (\<exists>x\<in>set (take n xs). P x)"
proof (induction xs arbitrary: k n)
  case (Cons y xs)
  show ?case using Cons.IH [of "Suc k" "n - 1"] by (cases n) auto
qed simp

lemma assignment_allows_eq:
  "assignment_allows_for_agent env fl r a t now = first_refusal now t r
     (map fst (labelled_assignment_rows env fl a (t_origin t) (actor_of env t) (requirements_of (fl_db fl) t) (routed_slug (fl_db fl) t a)))"
proof -
  define rows where "rows = map fst (labelled_assignment_rows env fl a (t_origin t) (actor_of env t)
    (requirements_of (fl_db fl) t) (routed_slug (fl_db fl) t a))"
  have eq: "assignment_rows_for env fl a (t_origin t) (actor_of env t) (requirements_of (fl_db fl) t) (routed_slug (fl_db fl) t a)
      = List.enumerate 0 rows" by (simp add: assignment_rows_for_def rows_def)
  have "assignment_allows_for_agent env fl r a t now = cascade_allows now t r rows"
    unfolding assignment_allows_for_agent_def cascade_allows_def eq Let_def
    using enumerate_below [of 0 rows] by (simp split: option.split prod.split)
  then show ?thesis unfolding cascade_allows_eq rows_def .
qed

lemma first_refusal_best:
  assumes "distinct (map rb_id rows)"
  shows "filter (\<lambda>x. first_refusal now t x rows \<and> is_available now x) rows
    = (if past_grace now t then filter (is_available now) rows else take 1 (filter (is_available now) rows))"
proof (cases "past_grace now t")
  case True
  then show ?thesis by (auto simp: first_refusal_def intro: filter_cong)
next
  case False
  have "filter (\<lambda>x. first_refusal now t x rows \<and> is_available now x) rows = take 1 (filter (is_available now) rows)"
    using assms
  proof (induction rows)
    case (Cons r rows)
    have tail: "first_refusal now t x (r # rows) \<longleftrightarrow> \<not> is_available now r \<and> first_refusal now t x rows" if "x \<in> set rows" for x
      using that Cons.prems False by (auto simp: first_refusal_def image_iff)
    have hd: "first_refusal now t r (r # rows)" by (simp add: first_refusal_def)
    have "filter (\<lambda>x. first_refusal now t x (r # rows) \<and> is_available now x) rows
        = (if is_available now r then [] else filter (\<lambda>x. first_refusal now t x rows \<and> is_available now x) rows)"
      using tail by (auto simp: filter_empty_conv intro: filter_cong)
    then show ?case using hd Cons by simp
  qed simp
  then show ?thesis using False by simp
qed

lemma order_for_distinct:
  assumes "orders_ok fl" and "order_for fl ws p reqs s = Some rows"
  shows "distinct (map rb_id rows)"
  using assms(2) workspace_order_distinct [OF assms(1)]
  by (auto simp: order_for_def Let_def split: option.splits if_splits intro: distinct_map_filter)

text \<open>Of the machines offered a turn of an agent, or a repo turn in a workspace with an order, the
  available ones that may take it are exactly the best-ranked of them until the turn has waited the
  grace, and all of them afterwards: never none while one is available.\<close>

theorem the_best_available_machine_takes_it:
  assumes "orders_ok fl"
    and "rows = map fst (labelled_assignment_rows env fl a (t_origin t) (actor_of env t)
           (requirements_of (fl_db fl) t) (routed_slug (fl_db fl) t a))"
  shows "filter (\<lambda>r. assignment_allows_for_agent env fl r a t now \<and> is_available now r) rows
      = (if past_grace now t then filter (is_available now) rows else take 1 (filter (is_available now) rows))
    \<and> (\<forall>listed. repo_order_for fl t = Some listed \<longrightarrow>
        filter (\<lambda>r. repo_order_allows fl r t now \<and> is_available now r) listed
        = (if past_grace now t then filter (is_available now) listed else take 1 (filter (is_available now) listed)))"
proof (intro conjI allI impI)
  have "distinct (map rb_id rows)"
    using distinct_first_mentions by (simp add: assms(2) labelled_assignment_rows_def composed_ladder_eq [OF assms(1)]
        distinct_map_filter)
  then show "filter (\<lambda>r. assignment_allows_for_agent env fl r a t now \<and> is_available now r) rows
      = (if past_grace now t then filter (is_available now) rows else take 1 (filter (is_available now) rows))"
    unfolding assignment_allows_eq assms(2) [symmetric] by (rule first_refusal_best)
next
  fix listed assume repo: "repo_order_for fl t = Some listed"
  then have "distinct (map rb_id listed)" using order_for_distinct [OF assms(1)] by (simp add: repo_order_for_def)
  then show "filter (\<lambda>r. repo_order_allows fl r t now \<and> is_available now r) listed
      = (if past_grace now t then filter (is_available now) listed else take 1 (filter (is_available now) listed))"
    unfolding repo_order_allows_def repo option.case cascade_allows_eq by (rule first_refusal_best)
qed

lemma the_best_available_machine_takes_it_witness:
  "map rb_id (filter (\<lambda>r. assignment_allows_for_agent plain_env sample_fleet r ''eva'' (hd (fl_turns sample_fleet)) SECOND \<and> is_available SECOND r)
     (map fst (labelled_assignment_rows plain_env sample_fleet ''eva'' (t_origin (hd (fl_turns sample_fleet)))
        (actor_of plain_env (hd (fl_turns sample_fleet))) (requirements_of (fl_db sample_fleet) (hd (fl_turns sample_fleet)))
        (routed_slug (fl_db sample_fleet) (hd (fl_turns sample_fleet)) ''eva'')))) = [1]"
  unfolding the_best_available_machine_takes_it [OF sample_fleet_ok refl, THEN conjunct1] by code_simp

section \<open>Whom a machine works for\<close>

lemma uncapped_owner: "\<lparr> actor_id = u, authenticated = True, acts_as = Uncapped \<rparr> = uncapped u"
  by (simp add: uncapped_def)

lemma tenant_of_owner_can:
  assumes ok: "wsdb_ok (fl_people fl)" and "s \<in> tenant_of_owner fl u covered"
  shows "s \<in> covered \<and> can (fl_people fl) (uncapped u) s AGENT_WORK = Inr True"
proof -
  have "role_allows (map_of (member_roles (fl_people fl) (uncapped u)) s) AGENT_WORK = Inr True" "s \<in> covered"
    using assms(2) by (simp_all add: tenant_of_owner_def Let_def uncapped_owner member_roles_def)
  then show ?thesis using allows_can [OF ok] by simp
qed

lemma covered_slugs_eq:
  assumes "distinct (map ws_slug (workspaces (fl_people fl)))"
  shows "covered_slugs fl r = {s. s \<in> set (enrolled_slugs fl r)
    \<or> set (ancestor_slugs (workspaces (fl_people fl)) s) \<inter> set (enrolled_slugs fl r) \<noteq> {}}"
proof -
  let ?e = "set (enrolled_slugs fl r)"
  have "covered_slugs fl r = ?e \<union> descendant_slugs (workspaces (fl_people fl)) ?e"
    by (auto simp: covered_slugs_def Let_def descendant_slugs_def)
  then show ?thesis unfolding descendant_slugs_eq [OF assms] by auto
qed

text \<open>C33. A machine works exactly where its owner may: a workspace is one it is handed work of when, and only
  when, the owner passes the very gate a person passes to start work there and the workspace is enrolled
  or lies below an enrolled one.  So a machine without an owner works nowhere.\<close>

theorem machines_work_where_their_owner_may:
  assumes "wsdb_ok (fl_people fl)"
  shows "s \<in> runner_tenant_slugs fl r \<longleftrightarrow>
    (\<exists>u. rb_owner r = Some u \<and> can (fl_people fl) (uncapped u) s AGENT_WORK = Inr True)
    \<and> (s \<in> set (enrolled_slugs fl r)
       \<or> set (ancestor_slugs (workspaces (fl_people fl)) s) \<inter> set (enrolled_slugs fl r) \<noteq> {})"
proof -
  have tenant: "s \<in> tenant_of_owner fl u (covered_slugs fl r)
      \<longleftrightarrow> can (fl_people fl) (uncapped u) s AGENT_WORK = Inr True \<and> s \<in> covered_slugs fl r" for u
    using tenant_of_owner_can [OF assms, of s u] can_work_listed [OF assms, of u s]
    by (auto simp: tenant_of_owner_def Let_def uncapped_owner member_roles_def)
  have "s \<in> covered_slugs fl r \<longleftrightarrow> s \<in> set (enrolled_slugs fl r)
      \<or> set (ancestor_slugs (workspaces (fl_people fl)) s) \<inter> set (enrolled_slugs fl r) \<noteq> {}"
    using covered_slugs_eq [of fl r] assms by (simp add: wsdb_ok_def)
  then show ?thesis using tenant by (auto simp: runner_tenant_slugs_def split: option.split)
qed

lemma machines_work_where_their_owner_may_witness:
  "''team'' \<in> runner_tenant_slugs sample_fleet (plain_box 1 ''emdash'')
   \<and> ''team'' \<notin> runner_tenant_slugs sample_fleet (plain_box 1 ''emdash''\<lparr>rb_owner := None\<rparr>)"
proof -
  have ok: "wsdb_ok (fl_people sample_fleet)" by code_simp
  have yes: "can (fl_people sample_fleet) (uncapped 1) ''team'' AGENT_WORK = Inr True" by code_simp
  have below: "''team'' \<in> set (enrolled_slugs sample_fleet (plain_box 1 ''emdash''))
     \<or> set (ancestor_slugs (workspaces (fl_people sample_fleet)) ''team'')
       \<inter> set (enrolled_slugs sample_fleet (plain_box 1 ''emdash'')) \<noteq> {}" by code_simp
  have owner: "rb_owner (plain_box 1 ''emdash'') = Some 1" "rb_owner (plain_box 1 ''emdash''\<lparr>rb_owner := None\<rparr>) = None"
    by (simp_all add: plain_box_def)
  have "\<exists>u. rb_owner (plain_box 1 ''emdash'') = Some u \<and> can (fl_people sample_fleet) (uncapped u) ''team'' AGENT_WORK = Inr True"
    using yes owner(1) by blast
  with below show ?thesis
    using owner(2) by (simp only: machines_work_where_their_owner_may [OF ok, of "''team''"]) simp
qed

section \<open>Two walks up the tree\<close>

lemma chain_up_walk:
  "set chain = seen \<Longrightarrow> chain_up n tbl cur chain = chain @ chain_walk (parent_of tbl) n cur seen"
  by (induction n arbitrary: cur chain seen) (auto split: option.split)

text \<open>The chain routing climbs to find an order is the workspace and then its ancestors, as the
  membership gates read them, whatever the tree holds.\<close>

theorem routing_climbs_the_ancestors:
  assumes "distinct (map ws_slug tbl)"
  shows "route_chain tbl s = s # ancestor_slugs tbl s"
  unfolding route_chain_def ancestor_slugs_eq [OF assms] using chain_up_walk [of "[s]" "{s}"] by simp

lemma routing_climbs_the_ancestors_witness: "route_chain sample_tree ''team'' = ''team'' # ancestor_slugs sample_tree ''team''"
  by (rule routing_climbs_the_ancestors) code_simp

end
