(* ===== verification/Turn_Claim.thy ===== *)
theory Turn_Claim
  imports Runner_Routing Turn_Frames
begin

text \<open>
  How a machine gets a turn (\<open>apps/harness/claim.py\<close>: \<open>claim_next_turn\<close> and its helpers), with the
  lane of a conversation, its follow-ups and its transfers (\<open>routing_orders.py\<close>:
  \<open>busy_session_ids\<close>, \<open>transfer_held_q\<close>, \<open>may_ride\<close>, \<open>ridable_sessions\<close>, \<open>blocking_turn\<close>).

  Parameters, in \<open>claim_env\<close>: what the access rules give a queued turn now
  (\<open>turn_context.at_claim\<close>), its mode (\<open>turn_mode.for_turn\<close>: mode, basis, whether it may be
  raised), and the time an event was written.  The transaction of one attempt is one step; the
  partial unique index on the executing turn of a conversation is checked where the row moves.
  Not modelled: the sweep of cloud leases, the snapshot kept for audits and the log.
\<close>

datatype claim_context =
    Unresolved
  | RefusedNow string string
  | StampedNow string

record claim_env =
  ce_route :: route_env
  ce_rd :: redactor
  ce_context :: "fleet \<Rightarrow> turn \<Rightarrow> claim_context"
  ce_mode :: "fleet \<Rightarrow> turn \<Rightarrow> (string \<times> string \<times> bool) option"
  ce_event_ts :: "turn_event \<Rightarrow> instant"


section \<open>The lane of a conversation\<close>

definition holds_lane :: "turn \<Rightarrow> bool" where
  "holds_lane t \<longleftrightarrow> status t \<in> set EXECUTING \<and> chat_session t \<noteq> None \<and> rides_turn t = None"

definition busy_session_ids :: "turndb \<Rightarrow> nat list" where
  "busy_session_ids db = List.map_filter chat_session (filter holds_lane (turns db))"

definition transfer_in_progress :: "turndb \<Rightarrow> handoff \<Rightarrow> bool" where
  "transfer_in_progress db h \<longleftrightarrow> ho_settled_at h = None
     \<or> (case ho_turn h of None \<Rightarrow> False | Some n \<Rightarrow> (case get_turn db n of None \<Rightarrow> False | Some t \<Rightarrow> status t = Queued))"

definition moving :: "fleet \<Rightarrow> handoff list" where
  "moving fl = filter (transfer_in_progress (fl_db fl)) (fl_handoffs fl)"

definition transfer_held :: "fleet \<Rightarrow> turn \<Rightarrow> bool" where
  "transfer_held fl t \<longleftrightarrow> (case chat_session t of None \<Rightarrow> False | Some c \<Rightarrow> c \<in> ho_session ` set (moving fl))
     \<and> Some (turn_id t) \<notin> ho_turn ` set (moving fl)"

text \<open>The newest transfer of its conversation a queued turn waits for.\<close>

definition transfer_holding :: "fleet \<Rightarrow> turn \<Rightarrow> handoff option" where
  "transfer_holding fl t =
     (case chat_session t of None \<Rightarrow> None
      | Some c \<Rightarrow> if status t \<noteq> Queued then None
          else (case first_max ho_created_at (filter (\<lambda>h. ho_session h = c) (moving fl)) of None \<Rightarrow> None
            | Some h \<Rightarrow> if ho_turn h = Some (turn_id t) then None else Some h))"

definition delivers_midturn :: "runner_box \<Rightarrow> bool" where
  "delivers_midturn r \<longleftrightarrow> json_int (cap_of r ''midturn'') \<noteq> 0"

definition dialog_up :: "turndb \<Rightarrow> nat \<Rightarrow> bool" where
  "dialog_up db c = (case tbl_get ch_id c (chats db) of None \<Rightarrow> False
     | Some s \<Rightarrow> truthy (lookup (json_obj (ch_menu s)) ''options''))"

definition midturn_failed :: "turn \<Rightarrow> bool" where
  "midturn_failed t \<longleftrightarrow> truthy (lookup (origin_ref t) MIDTURN_FAILED)"

definition may_ride :: "fleet \<Rightarrow> turn \<Rightarrow> turn \<Rightarrow> bool" where
  "may_ride fl t holder \<longleftrightarrow> chat_session t \<noteq> None \<and> \<not> midturn_failed t \<and> chat_session holder = chat_session t
     \<and> status holder \<in> {Claimed, Running} \<and> rides_turn holder = None
     \<and> capability t = '''' \<and> capability holder = ''''
     \<and> pinned_runner t \<in> {None, claimed_by holder} \<and> claimed_by holder \<noteq> None
     \<and> (case box_row fl (the (claimed_by holder)) of None \<Rightarrow> False | Some r \<Rightarrow> delivers_midturn r)
     \<and> \<not> dialog_up (fl_db fl) (the (chat_session t))"

text \<open>The running turn of each conversation this machine can deliver a follow-up into.\<close>

definition can_carry :: "fleet \<Rightarrow> runner_box \<Rightarrow> turn \<Rightarrow> bool" where
  "can_carry fl r h \<longleftrightarrow> status h \<in> {Claimed, Running} \<and> claimed_by h = Some (rb_id r) \<and> rides_turn h = None
     \<and> capability h = ''''"

definition ridable :: "fleet \<Rightarrow> runner_box \<Rightarrow> nat option \<Rightarrow> string option" where
  "ridable fl r c = (case c of None \<Rightarrow> None
     | Some s \<Rightarrow> if \<not> delivers_midturn r \<or> dialog_up (fl_db fl) s then None
         else map_option turn_id (find (\<lambda>h. can_carry fl r h \<and> chat_session h = Some s) (rev (fl_turns fl))))"

text \<open>The turn executing in a turn's conversation, and whether it has to wait for it.\<close>

definition lane_holder :: "turndb \<Rightarrow> turn \<Rightarrow> turn option" where
  "lane_holder db t = (case chat_session t of None \<Rightarrow> None
     | Some c \<Rightarrow> find (\<lambda>h. holds_lane h \<and> chat_session h = Some c) (turns db))"

definition blocking_turn :: "fleet \<Rightarrow> turn \<Rightarrow> turn option" where
  "blocking_turn fl t =
     (if status t \<noteq> Queued then None
      else case (case transfer_holding fl t of None \<Rightarrow> None | Some h \<Rightarrow> ho_turn h) of
        Some n \<Rightarrow> get_turn (fl_db fl) n
      | None \<Rightarrow> (case lane_holder (fl_db fl) t of None \<Rightarrow> None
          | Some h \<Rightarrow> if may_ride fl t h then None else Some h))"


section \<open>Whether a machine may ask at all\<close>

definition takes_jobs_only :: "runner_box \<Rightarrow> bool" where
  "takes_jobs_only r \<longleftrightarrow> \<not> (\<exists>(c, rep)\<in>set (reported r). cr_signed_in rep)"

definition has_pins :: "fleet \<Rightarrow> runner_box \<Rightarrow> bool" where
  "has_pins fl r \<longleftrightarrow> (\<exists>t\<in>set (fl_turns fl). status t = Queued \<and> pinned_runner t = Some (rb_id r))"

definition has_assignments :: "fleet \<Rightarrow> runner_box \<Rightarrow> bool" where
  "has_assignments fl r \<longleftrightarrow> (\<exists>x\<in>set (fl_assignments fl). as_runner x = rb_id r)
     \<or> (\<exists>o'\<in>set (fl_orders fl). wo_runner o' = rb_id r \<and> wo_enabled o')"

definition may_ask :: "fleet \<Rightarrow> runner_box \<Rightarrow> instant \<Rightarrow> bool" where
  "may_ask fl r now \<longleftrightarrow> live_status now r = ''online'' \<and> (rb_fleet r = None \<or> rb_power r = ''on'')
     \<and> (takes_jobs_only r \<longrightarrow> rb_kind r = ''cloud'' \<and> cap_of r ''jobs'' = JBool True)
     \<and> rb_kind r \<noteq> ''computer'' \<and> \<not> fl_held fl
     \<and> (if directed_only r
        then has_pins fl r \<or> (\<exists>s\<in>set (chats (fl_db fl)). ch_runner s = Some (rb_id r))
        else has_assignments fl r \<or> project_names fl r \<noteq> [] \<or> session_capable r \<or> has_pins fl r)"

definition agent_held :: "turndb \<Rightarrow> turn \<Rightarrow> bool" where
  "agent_held db t \<longleftrightarrow> agent_is db (\<lambda>a. case tbl_get ag_slug a (agent_rows db) of None \<Rightarrow> False | Some g \<Rightarrow> ag_held g) t"

definition routing_q :: "runner_box \<Rightarrow> turn \<Rightarrow> bool" where
  "routing_q r t \<longleftrightarrow> (if rb_kind r = ''cloud'' then t_routing t \<in> {''any'', ''prefer_local'', ''cloud_only''}
     else t_routing t \<in> {''prefer_local'', ''local_only'', ''any''})"

definition is_candidate :: "claim_env \<Rightarrow> fleet \<Rightarrow> runner_box \<Rightarrow> string list \<Rightarrow> turn \<Rightarrow> bool" where
  "is_candidate e fl r exclude t \<longleftrightarrow>
     (let db = fl_db fl in
      status t = Queued \<and> pinned_runner t \<in> {None, Some (rb_id r)}
      \<and> (pinned_runner t = Some (rb_id r) \<or> (runner_target_q (ce_route e) fl r exclude t \<and> routing_q r t))
      \<and> profile_q r t \<and> (takes_jobs_only r \<longrightarrow> job t \<noteq> '''')
      \<and> \<not> (case chat_session t of None \<Rightarrow> False
           | Some c \<Rightarrow> c \<in> set (busy_session_ids db) \<and> ridable fl r (Some c) = None)
      \<and> \<not> transfer_held fl t \<and> \<not> agent_held db t
      \<and> \<not> turn_workspace_q db (held_slugs (workspaces (fl_people fl))) t
      \<and> turn_workspace_q db (runner_tenant_slugs fl r) t)"

definition candidates :: "claim_env \<Rightarrow> fleet \<Rightarrow> runner_box \<Rightarrow> string list \<Rightarrow> turn list" where
  "candidates e fl r exclude = sort_key created_at (filter (is_candidate e fl r exclude) (fl_turns fl))"

section \<open>One candidate\<close>

definition cap_text :: "cap \<Rightarrow> string" where
  "cap_text c = (case c of Uncapped \<Rightarrow> '''' | ActsEditor \<Rightarrow> ''editor'' | ActsViewer \<Rightarrow> ''viewer'')"

definition ref_str :: "payload \<Rightarrow> string \<Rightarrow> string" where
  "ref_str p k = (case lookup p k of JStr s \<Rightarrow> s | _ \<Rightarrow> '''')"

text \<open>The first reason, of those a pin does not get past, why this machine passes a turn over.\<close>

definition hard_refusal :: "claim_env \<Rightarrow> fleet \<Rightarrow> runner_box \<Rightarrow> turn \<Rightarrow> string option" where
  "hard_refusal e fl r t =
     (let db = fl_db fl in
      if \<not> satisfies (in_force r) (requirements_of db t)
      then Some ''its conversation needs runner flags this box does not have''
      else case job_refusal r t of Some why \<Rightarrow> Some why
      | None \<Rightarrow>
          if job t \<noteq> '''' \<and> holds_a_job fl r then Some ''this box is already running a job, and takes one at a time''
          else (case acting_agent db t of
            Some a \<Rightarrow> if \<not> runner_may_hold_agent (ce_route e) r (ag_slug a)
              then Some (''this box's owner is not an admin of '' @ ag_slug a
                 @ '', and only a box owned by one of an agent's admins may run its turns'')
              else if turn_serves_refusal fl r t \<noteq> None then Some ''this box is dedicated to a different agent or repo'' else None
          | None \<Rightarrow> if turn_serves_refusal fl r t \<noteq> None then Some ''this box is dedicated to a different agent or repo'' else None))"

text \<open>A job runs on no CLI, which is the empty name.\<close>

definition cli_for :: "fleet \<Rightarrow> runner_box \<Rightarrow> turn \<Rightarrow> string option" where
  "cli_for fl r t = (if job t \<noteq> '''' then Some '''' else choose_cli (fl_db fl) t (reported r))"

definition refuse_opts :: "string \<Rightarrow> string \<Rightarrow> string \<Rightarrow> close_opts" where
  "refuse_opts queued_as code msg = (close_defaults [Queued])\<lparr> extra_where := (\<lambda>t. capability t = queued_as),
     event_extra := [(''refused_at_claim'', JStr code)], drill_note := Some (''drill turn refused: '' @ msg),
     canopys_note := True \<rparr>"

definition set_world :: "turndb \<Rightarrow> fleet \<Rightarrow> fleet" where
  "set_world db fl = fl\<lparr>fl_queue := (fl_queue fl)\<lparr>world := db\<rparr>\<rparr>"

definition refuse_at_claim :: "claim_env \<Rightarrow> turn \<Rightarrow> string \<Rightarrow> string \<Rightarrow> string \<Rightarrow> instant \<Rightarrow> fleet \<Rightarrow> fleet" where
  "refuse_at_claim e t code msg queued_as now fl =
     (case close_turn (ce_rd e) (turn_id t) Cancelled (Some msg) (refuse_opts queued_as code msg) now (fl_db fl) of
        (Inr True, db) \<Rightarrow>
          let fl1 = set_world db fl; row = (case get_turn db (turn_id t) of None \<Rightarrow> t | Some x \<Rightarrow> x)
          in fl1\<lparr>fl_queue := snd (at_refusal (ce_rd e) row '''' ''none'' now (fl_queue fl1))\<rparr>
      | (_, db) \<Rightarrow> set_world db fl)"

definition restamp :: "string \<Rightarrow> string \<Rightarrow> string \<Rightarrow> fleet \<Rightarrow> fleet" where
  "restamp n queued_as stamped = set_turns (tbl_update (\<lambda>t. turn_id t = n \<and> status t = Queued \<and> capability t = queued_as)
     (\<lambda>t. t\<lparr>capability := stamped\<rparr>))"

text \<open>The lower mode the machine claims in, laid on a turn its owner started; the mode of the turn
  under it, which an admission rule may raise.\<close>

definition stamp_cap :: "cap \<Rightarrow> runner_box \<Rightarrow> turn \<Rightarrow> cap" where
  "stamp_cap runner_cap r t =
     (let turn_cap = cap_from (ref_str (origin_ref t) ''acts_as'') in
      if runner_cap \<noteq> Uncapped \<and> initiator_user t \<noteq> None \<and> initiator_user t = rb_owner r
         \<and> cap_stronger turn_cap runner_cap \<noteq> turn_cap
      then cap_stronger turn_cap runner_cap else Uncapped)"

definition capped_turn :: "cap \<Rightarrow> turn \<Rightarrow> turn" where
  "capped_turn stamp t = (if stamp = Uncapped then t
     else t\<lparr>origin_ref := dict_merge (origin_ref t) [(''acts_as'', JStr (cap_text stamp))]\<rparr>)"

definition mode_under_cap :: "cap \<Rightarrow> (string \<times> string \<times> bool) option \<Rightarrow> (string \<times> string \<times> bool) option" where
  "mode_under_cap acts m = (case m of None \<Rightarrow> None
     | Some (mode, basis, raisable) \<Rightarrow> if acts \<noteq> Uncapped \<and> mode = ''auto''
         then Some (''manual'', ''started as '' @ cap_text acts @ '': manual'', False) else Some (mode, basis, raisable))"

definition auto_basis :: "adm_rule \<Rightarrow> string" where
  "auto_basis a = take 320 (''admission rule '' @ nat_digits (ar_id a) @ '': '' @ ar_reason a)"

definition claim_mode :: "claim_env \<Rightarrow> fleet \<Rightarrow> runner_box \<Rightarrow> cap \<Rightarrow> turn \<Rightarrow> adm_rule option \<times> string \<times> string" where
  "claim_mode e fl r stamp t =
     (let acts = (if stamp \<noteq> Uncapped then stamp else cap_from (ref_str (origin_ref t) ''acts_as''));
          m = mode_under_cap acts (ce_mode e fl t);
          auto = auto_rule (fl_queue fl) t r (map_option (\<lambda>(mode, basis, raisable). (mode, raisable)) m)
      in case auto of Some a \<Rightarrow> (Some a, ''auto'', auto_basis a)
         | None \<Rightarrow> (None, case m of None \<Rightarrow> ('''', '''') | Some (mode, basis, _) \<Rightarrow> (mode, basis)))"

text \<open>A rider is typed into the running session: never a confined turn, nor one whose delivery
  failed, and only on the CLI that session runs on.\<close>

definition session_cli :: "turndb \<Rightarrow> string \<Rightarrow> string" where
  "session_cli db n = (case get_turn db n of None \<Rightarrow> CLAUDE_CODE
     | Some h \<Rightarrow> if t_cli h = '''' then CLAUDE_CODE else t_cli h)"

definition may_deliver :: "turndb \<Rightarrow> turn \<Rightarrow> string \<Rightarrow> string option \<Rightarrow> bool" where
  "may_deliver db t cli rides = (case rides of None \<Rightarrow> True
     | Some n \<Rightarrow> \<not> (capability t \<noteq> '''' \<or> midturn_failed t) \<and> cli = session_cli db n)"

text \<open>The guarded update, under the index of one executing turn per conversation.\<close>

definition taken :: "runner_box \<Rightarrow> instant \<Rightarrow> int \<Rightarrow> string \<Rightarrow> string \<Rightarrow> string option \<Rightarrow> string \<Rightarrow> cap \<Rightarrow> turn \<Rightarrow> turn" where
  "taken r now lease mode basis rides cli stamp t = capped_turn stamp (t\<lparr> status := Claimed, claimed_by := Some (rb_id r),
     claimed_at := Some now, lease_expires_at := Some (now + lease), turn_mode := mode, turn_mode_basis := take 320 basis,
     rides_turn := rides, t_cli := cli \<rparr>)"

definition lane_is_free :: "turndb \<Rightarrow> turn \<Rightarrow> string option \<Rightarrow> bool" where
  "lane_is_free db t rides \<longleftrightarrow> rides \<noteq> None \<or> lane_holder db t = None"

definition take_turn :: "string \<Rightarrow> string \<Rightarrow> string option \<Rightarrow> (turn \<Rightarrow> turn) \<Rightarrow> fleet \<Rightarrow> fleet option" where
  "take_turn n stamped rides f fl =
     (case get_turn (fl_db fl) n of None \<Rightarrow> None
      | Some row \<Rightarrow> if status row = Queued \<and> capability row = stamped \<and> lane_is_free (fl_db fl) row rides
          then Some (set_turns (tbl_update (\<lambda>t. turn_id t = n) f) fl) else None)"

section \<open>The claim\<close>

definition routing_basis :: "route_env \<Rightarrow> fleet \<Rightarrow> runner_box \<Rightarrow> turn \<Rightarrow> payload" where
  "routing_basis env fl r t =
     (if pinned_runner t = Some (rb_id r) then [(''actor'', JStr ''''), (''rule'', JStr ''pin'')]
      else let act = actor_of env t;
               ruled = (\<lambda>x. case t_agent t of None \<Rightarrow> False | Some a \<Rightarrow> assigned_rows fl a (t_origin t) x \<noteq> []);
               rule = (if act \<noteq> '''' \<and> ruled act then ''actor'' else if ruled '''' then ''source''
                  else if chat_session t \<noteq> None \<and> t_agent t = None then ''session'' else ''default'')
           in [(''actor'', JStr act), (''rule'', JStr rule)])"

definition record_auto :: "adm_rule option \<Rightarrow> instant \<Rightarrow> fleet \<Rightarrow> fleet" where
  "record_auto auto now fl = (case auto of None \<Rightarrow> fl
     | Some a \<Rightarrow> fl\<lparr>fl_queue := (fl_queue fl)\<lparr>adm_rules := tbl_update (\<lambda>s. ar_id s = ar_id a)
         (\<lambda>s. s\<lparr>ar_fired_count := ar_fired_count s + 1, ar_last_fired_at := Some now\<rparr>) (adm_rules (fl_queue fl))\<rparr>\<rparr>)"

definition say :: "claim_env \<Rightarrow> string \<Rightarrow> string \<Rightarrow> payload \<Rightarrow> fleet \<Rightarrow> fleet" where
  "say e n kind p fl = set_world (snd (append_events (ce_rd e) n [(kind, p)] (fl_db fl))) fl"

datatype verdict = Skipped "string option" fleet | Taken fleet

text \<open>From the mode of the turn to the row; \<open>carries\<close> is \<open>ridable_sessions\<close>, read once when the claim starts.\<close>

definition attempt :: "claim_env \<Rightarrow> runner_box \<Rightarrow> (nat option \<Rightarrow> string option) \<Rightarrow> cap \<Rightarrow> int \<Rightarrow> instant \<Rightarrow> turn \<Rightarrow> string \<Rightarrow> fleet \<Rightarrow> verdict" where
  "attempt e r carries runner_cap lease now t0 cli fl =
     (let stamp = stamp_cap runner_cap r t0; t = capped_turn stamp t0; n = turn_id t;
          (auto, mode, basis) = claim_mode e fl r stamp t
      in case at_claim (ce_rd e) t r mode now (fl_queue fl) of
        (True, ad) \<Rightarrow> Skipped None (fl\<lparr>fl_queue := ad\<rparr>)
      | (False, ad) \<Rightarrow>
          let fl1 = fl\<lparr>fl_queue := ad\<rparr>; rides = carries (chat_session t) in
          if \<not> may_deliver (fl_db fl1) t cli rides then Skipped None fl1
          else (case take_turn n (capability t) rides (taken r now lease mode basis rides cli stamp) fl1 of
            None \<Rightarrow> Skipped None fl1
          | Some fl2 \<Rightarrow> Taken (say e n ''status''
              ([(''status'', JStr (status_name Claimed)), (''runner'', JStr (rb_name r)), (''cli'', JStr cli)]
               @ routing_basis (ce_route e) fl2 r t
               @ (case rides of None \<Rightarrow> [] | Some h \<Rightarrow> [(''rides_turn'', JStr h)])) (record_auto auto now fl2))))"

text \<open>What the turn may do is asked again before it is attempted, and written down when it changed.\<close>

definition settle :: "claim_env \<Rightarrow> runner_box \<Rightarrow> (nat option \<Rightarrow> string option) \<Rightarrow> cap \<Rightarrow> int \<Rightarrow> instant \<Rightarrow> turn \<Rightarrow> string \<Rightarrow> fleet \<Rightarrow> verdict" where
  "settle e r carries runner_cap lease now t cli fl =
     (case ce_context e fl t of
        Unresolved \<Rightarrow> Skipped (Some ''canopy could not work out what it may do now'') fl
      | RefusedNow code msg \<Rightarrow> Skipped None (refuse_at_claim e t code msg (capability t) now fl)
      | StampedNow stamped \<Rightarrow>
          if stamped = capability t then attempt e r carries runner_cap lease now t cli fl
          else let fl1 = restamp (turn_id t) (capability t) stamped fl; t1 = t\<lparr>capability := stamped\<rparr> in
            (case cli_for fl1 r t1 of
              None \<Rightarrow> Skipped (Some ''what it may do changed while it waited, and no agent CLI on this box can confine it'') fl1
            | Some cli1 \<Rightarrow> attempt e r carries runner_cap lease now t1 cli1 fl1))"

definition weigh :: "claim_env \<Rightarrow> runner_box \<Rightarrow> (nat option \<Rightarrow> string option) \<Rightarrow> cap \<Rightarrow> int \<Rightarrow> instant \<Rightarrow> turn \<Rightarrow> fleet \<Rightarrow> verdict" where
  "weigh e r carries runner_cap lease now t fl =
     (case hard_refusal e fl r t of Some why \<Rightarrow> Skipped (Some why) fl
      | None \<Rightarrow> (case cli_for fl r t of
          None \<Rightarrow> Skipped (Some ''no agent CLI on this box can run it (not signed in, or it cannot confine a caller's turn)'') fl
        | Some cli \<Rightarrow> (case (if pinned_runner t = Some (rb_id r) then None else routing_refusal (ce_route e) fl r t now) of
              Some why \<Rightarrow> Skipped (Some why) fl
            | None \<Rightarrow> settle e r carries runner_cap lease now t cli fl)))"

fun try_candidates :: "claim_env \<Rightarrow> runner_box \<Rightarrow> (nat option \<Rightarrow> string option) \<Rightarrow> cap \<Rightarrow> int \<Rightarrow> instant \<Rightarrow> turn list \<Rightarrow> (string \<times> string) list \<Rightarrow> fleet
    \<Rightarrow> string option \<times> (string \<times> string) list \<times> fleet" where
  "try_candidates e r carries runner_cap lease now [] skips fl = (None, skips, fl)"
| "try_candidates e r carries runner_cap lease now (t # ts) skips fl =
     (case weigh e r carries runner_cap lease now t fl of
        Taken fl' \<Rightarrow> (Some (turn_id t), skips, fl')
      | Skipped why fl' \<Rightarrow> try_candidates e r carries runner_cap lease now ts
          (case why of None \<Rightarrow> skips | Some w \<Rightarrow> skips @ [(turn_id t, w)]) fl')"

definition SKIP_NOTE_EVERY :: int where "SKIP_NOTE_EVERY = 600 * SECOND"
definition SKIP_NOTES_PER_CLAIM :: nat where "SKIP_NOTES_PER_CLAIM = 5"
definition POLL_RECORD_EVERY :: int where "POLL_RECORD_EVERY = 15 * SECOND"

definition said_recently :: "claim_env \<Rightarrow> runner_box \<Rightarrow> instant \<Rightarrow> fleet \<Rightarrow> string \<Rightarrow> string \<Rightarrow> bool" where
  "said_recently e r now fl n why \<longleftrightarrow>
     (\<exists>ev\<in>set (take 20 (rev (filter (\<lambda>ev. ev_turn ev = n \<and> ev_kind ev = ''waiting'' \<and> now - SKIP_NOTE_EVERY \<le> ce_event_ts e ev)
         (events (fl_db fl))))). lookup (ev_payload ev) ''runner'' = JStr (rb_name r) \<and> lookup (ev_payload ev) ''skipped'' = JStr why)"

definition note_skip :: "claim_env \<Rightarrow> runner_box \<Rightarrow> instant \<Rightarrow> string \<times> string \<Rightarrow> fleet \<Rightarrow> fleet" where
  "note_skip e r now = (\<lambda>(n, why) fl.
     if said_recently e r now fl n why then fl
     else case get_turn (fl_db fl) n of None \<Rightarrow> fl
       | Some t \<Rightarrow> if status t = Queued
           then say e n ''waiting'' [(''runner'', JStr (rb_name r)), (''skipped'', JStr why)] fl else fl)"

definition note_skips :: "claim_env \<Rightarrow> runner_box \<Rightarrow> instant \<Rightarrow> (string \<times> string) list \<Rightarrow> fleet \<Rightarrow> fleet" where
  "note_skips e r now skips fl = fold (note_skip e r now) (take SKIP_NOTES_PER_CLAIM skips) fl"

definition record_poll :: "runner_box \<Rightarrow> instant \<Rightarrow> fleet \<Rightarrow> fleet" where
  "record_poll r now fl =
     (if (case rb_last_claim_poll_at r of None \<Rightarrow> True | Some l \<Rightarrow> POLL_RECORD_EVERY \<le> now - l)
      then set_boxes (tbl_update (\<lambda>x. rb_id x = rb_id r) (\<lambda>x. x\<lparr>rb_last_claim_poll_at := Some now\<rparr>)) fl else fl)"

definition claim_next_turn :: "claim_env \<Rightarrow> nat \<Rightarrow> int \<Rightarrow> string list \<Rightarrow> string \<Rightarrow> instant \<Rightarrow> fleet \<Rightarrow> string option \<times> fleet" where
  "claim_next_turn e b lease exclude acts now fl =
     (case box_row fl b of None \<Rightarrow> (None, fl)
      | Some r \<Rightarrow>
          let fl1 = record_poll r now fl in
          if \<not> may_ask fl1 r now then (None, fl1)
          else case try_candidates e r (ridable fl1 r) (cap_from acts) lease now (candidates e fl1 r exclude) [] fl1 of
            (got, skips, fl2) \<Rightarrow> (got, note_skips e r now skips fl2))"

section \<open>What a claim leaves of the turns it passes over\<close>

text \<open>A turn that is passed over keeps its place; it may have been restamped, or cancelled by a rule.\<close>

definition place :: "turn \<Rightarrow> turn" where
  "place t = t\<lparr>status := Queued, capability := '''', prompt := '''', result_note := '''', finished_at := None\<rparr>"

definition passed :: "turn \<Rightarrow> turn \<Rightarrow> bool" where
  "passed t t' \<longleftrightarrow> place t' = place t
     \<and> (status t' = status t \<or> status t \<in> set NON_TERMINAL \<and> status t' = Cancelled)
     \<and> (status t' \<in> set EXECUTING \<longrightarrow> capability t' = capability t)"

definition same_chat :: "chat \<Rightarrow> chat \<Rightarrow> bool" where
  "same_chat c c' \<longleftrightarrow> c'\<lparr>ch_page_state := []\<rparr> = c\<lparr>ch_page_state := []\<rparr>"

lemma passed_trans:
  assumes "passed t u" and "passed u v"
  shows "passed t v"
proof -
  have no: "Cancelled \<notin> set NON_TERMINAL" "Cancelled \<notin> set EXECUTING" by (simp_all add: NON_TERMINAL_def EXECUTING_def)
  have "place v = place t" using assms unfolding passed_def by metis
  moreover have "status v = status t \<or> status t \<in> set NON_TERMINAL \<and> status v = Cancelled"
    using assms no unfolding passed_def by metis
  moreover have "status v \<in> set EXECUTING \<longrightarrow> capability v = capability t"
    using assms no unfolding passed_def by metis
  ultimately show ?thesis unfolding passed_def by blast
qed

interpretation passing: turn_frame passed same_chat "set NON_TERMINAL" "{Cancelled}"
proof
  show "set EXECUTING \<subseteq> set NON_TERMINAL" using executing_live by blast
  show "passed t u \<Longrightarrow> passed u v \<Longrightarrow> passed t v" for t u v by (rule passed_trans)
  show "st \<in> {Cancelled} \<Longrightarrow> status t \<in> set NON_TERMINAL \<Longrightarrow> passed t (close_fields s st msg opts now t)" for st t s msg opts now
    by (simp add: passed_def place_def close_fields_def EXECUTING_def)
qed (simp_all add: passed_def same_chat_def)

abbreviation passes :: "turndb \<Rightarrow> turndb \<Rightarrow> bool" where
  "passes \<equiv> row_step passed same_chat"

lemma fl_db_simps [simp]:
  "fl_db (set_world db fl) = db" "fl_db (record_auto auto now fl) = fl_db fl"
  by (simp_all add: set_world_def record_auto_def split: option.split)

lemma turns_set_turns [simp]: "fl_turns (set_turns f fl) = f (fl_turns fl)"
  by (simp add: set_turns_def)

lemma passes_restamp: "passes (fl_db fl) (fl_db (restamp n q s fl))"
  unfolding restamp_def set_turns_def fleet.simps admission.simps
  by (simp, rule passing.kept_update) (auto simp: passed_def place_def EXECUTING_def)

lemma passes_refuse: "passes (fl_db fl) (fl_db (refuse_at_claim e t code msg q now fl))"
proof -
  obtain res db where c: "close_turn (ce_rd e) (turn_id t) Cancelled (Some msg) (refuse_opts q code msg) now (fl_db fl) = (res, db)"
    by fastforce
  have "passes (fl_db fl) (snd (close_turn (ce_rd e) (turn_id t) Cancelled (Some msg) (refuse_opts q code msg) now (fl_db fl)))"
    by (rule passing.kept_close) (simp_all add: refuse_opts_def close_defaults_def NON_TERMINAL_def)
  then have db: "passes (fl_db fl) db" by (simp add: c)
  have "passes db (world (snd (at_refusal (ce_rd e) u '''' ''none'' now (fl_queue (set_world db fl)))))" for u
    using passing.kept_at_refusal [of "fl_queue (set_world db fl)"] by simp
  then show ?thesis
    using db passing.kept_trans [OF db] c unfolding refuse_at_claim_def c
    by (auto simp: Let_def split: sum.split bool.split)
qed

lemma passes_say: "passes (fl_db fl) (fl_db (say e n kind p fl))"
  unfolding say_def by (simp add: passing.kept_events)

lemma say_frame [simp]: "fl_turns (say e n kind p fl) = fl_turns fl" "fl_boxes (say e n kind p fl) = fl_boxes fl" "chats (fl_db (say e n kind p fl)) = chats (fl_db fl)"
  by (simp_all add: say_def)

lemma passes_notes: "passes (fl_db fl) (fl_db (note_skips e r now skips fl))"
proof -
  have one: "passes (fl_db fl) (fl_db (note_skip e r now s fl))" for s fl
    using passes_say by (cases s) (auto simp: note_skip_def split: option.split)
  have "passes (fl_db fl) (fl_db (fold (note_skip e r now) xs fl))" for xs fl
  proof (induction xs arbitrary: fl)
    case (Cons x xs)
    show ?case using passing.kept_trans [OF one [of fl x] Cons.IH] by simp
  qed simp
  then show ?thesis by (simp add: note_skips_def)
qed

lemma notes_turns [simp]: "fl_turns (note_skips e r now skips fl) = fl_turns fl"
proof -
  have "fl_turns (note_skip e r now s fl) = fl_turns fl" for s fl
    by (cases s) (auto simp: note_skip_def split: option.split)
  then have "fl_turns (fold (note_skip e r now) xs fl) = fl_turns fl" for xs fl
    by (induction xs arbitrary: fl) simp_all
  then show ?thesis by (simp add: note_skips_def)
qed

lemma passes_at_claim:
  "at_claim rd t r mode now (fl_queue fl) = (b, ad) \<Longrightarrow> passes (fl_db fl) (world ad)"
  using passing.kept_at_claim [of "fl_queue fl" rd t r mode now] by (simp add: NON_TERMINAL_def)


section \<open>How a verdict comes about\<close>

text \<open>What a machine that takes \<open>t\<close> has established, on the tables \<open>fl1\<close> the row then moves in.\<close>

record grant =
  g_stamped :: string
  g_cli :: string
  g_rides :: "string option"
  g_mode :: string
  g_basis :: string
  g_cap :: cap

definition grants :: "claim_env \<Rightarrow> runner_box \<Rightarrow> (nat option \<Rightarrow> string option) \<Rightarrow> instant \<Rightarrow> int \<Rightarrow> turn \<Rightarrow> fleet \<Rightarrow> grant \<Rightarrow> fleet \<Rightarrow> fleet \<Rightarrow> bool" where
  "grants e r k now lease t fl g fl1 fl' \<longleftrightarrow> passes (fl_db fl) (fl_db fl1)
     \<and> (\<exists>fl2. take_turn (turn_id t) (g_stamped g) (g_rides g)
          (taken r now lease (g_mode g) (g_basis g) (g_rides g) (g_cli g) (g_cap g)) fl1 = Some fl2
        \<and> fl_turns fl' = fl_turns fl2 \<and> fl_boxes fl' = fl_boxes fl2)
     \<and> (\<exists>fl0. passes (fl_db fl) (fl_db fl0) \<and> cli_for fl0 r (t\<lparr>capability := g_stamped g\<rparr>) = Some (g_cli g))
     \<and> g_rides g = k (chat_session t)
     \<and> may_deliver (fl_db fl1) (t\<lparr>capability := g_stamped g\<rparr>) (g_cli g) (g_rides g)"

lemma capped_turn_simps [simp]:
  "turn_id (capped_turn c t) = turn_id t" "capability (capped_turn c t) = capability t"
  "chat_session (capped_turn c t) = chat_session t" "status (capped_turn c t) = status t"
  "rides_turn (capped_turn c t) = rides_turn t" "claimed_by (capped_turn c t) = claimed_by t"
  "lease_expires_at (capped_turn c t) = lease_expires_at t" "t_cli (capped_turn c t) = t_cli t" "job (capped_turn c t) = job t"
  by (simp_all add: capped_turn_def)

lemma midturn_capped [simp]: "midturn_failed (capped_turn c t) = midturn_failed t"
proof -
  have "map_of (dict_merge p [(''acts_as'', v)]) MIDTURN_FAILED = map_of p MIDTURN_FAILED" for p :: payload and v
    by (simp add: map_of_dict_merge MIDTURN_FAILED_def)
  then show ?thesis by (simp add: midturn_failed_def capped_turn_def lookup_def)
qed

lemma attempt_verdict:
  "(\<forall>w fl'. attempt e r k c lease now t cli fl = Skipped w fl' \<longrightarrow> passes (fl_db fl) (fl_db fl'))
   \<and> (\<forall>fl'. attempt e r k c lease now t cli fl = Taken fl' \<longrightarrow> cli_for fl r t = Some cli
        \<longrightarrow> (\<exists>g fl1. g_stamped g = capability t \<and> grants e r k now lease t fl g fl1 fl'))"
proof -
  define stamp where "stamp = stamp_cap c r t"
  define u where "u = capped_turn stamp t"
  obtain auto mode basis where m: "claim_mode e fl r stamp u = (auto, mode, basis)" by (cases "claim_mode e fl r stamp u")
  obtain b ad where a: "at_claim (ce_rd e) u r mode now (fl_queue fl) = (b, ad)" by fastforce
  have ad: "passes (fl_db fl) (world ad)" by (rule passes_at_claim [OF a])
  define fl1 where "fl1 = fl\<lparr>fl_queue := ad\<rparr>"
  define rides where "rides = k (chat_session u)"
  define f where "f = taken r now lease mode basis rides cli stamp"
  note eq = attempt_def [of e r k c lease now t cli fl, unfolded Let_def, folded stamp_def, folded u_def, unfolded m, simplified a prod.case,
      folded fl1_def, folded rides_def, folded f_def]
  have fl1: "passes (fl_db fl) (fl_db fl1)" using ad by (simp add: fl1_def)
  show ?thesis
  proof (intro conjI allI impI)
    fix w fl' assume "attempt e r k c lease now t cli fl = Skipped w fl'"
    then show "passes (fl_db fl) (fl_db fl')"
      using fl1 unfolding eq by (auto simp: fl1_def split: bool.splits if_splits option.splits)
  next
    fix fl' assume taken: "attempt e r k c lease now t cli fl = Taken fl'" and cli: "cli_for fl r t = Some cli"
    obtain fl2 where del: "may_deliver (fl_db fl1) u cli rides" and take: "take_turn (turn_id u) (capability u) rides f fl1 = Some fl2"
      and fl': "fl_turns fl' = fl_turns fl2" "fl_boxes fl' = fl_boxes fl2"
      using taken unfolding eq by (auto split: bool.splits if_splits option.splits)
    let ?g = "\<lparr> g_stamped = capability t, g_cli = cli, g_rides = rides, g_mode = mode, g_basis = basis, g_cap = stamp \<rparr>"
    have "t\<lparr>capability := capability t\<rparr> = t" by simp
    moreover have "may_deliver (fl_db fl1) t cli rides" using del by (auto simp: may_deliver_def u_def split: option.splits)
    ultimately have "grants e r k now lease t fl ?g fl1 fl'"
      unfolding grants_def using fl1 take fl' cli passing.kept_refl [of "fl_db fl"]
      by (auto simp: f_def u_def rides_def intro!: exI [of _ fl2] exI [of _ fl])
    then show "\<exists>g fl1. g_stamped g = capability t \<and> grants e r k now lease t fl g fl1 fl'" by (intro exI conjI) auto
  qed
qed

lemma grants_from:
  assumes db: "passes (fl_db fl) (fl_db fl0)" and g: "grants e r k now lease (t\<lparr>capability := s\<rparr>) fl0 g fl1 fl'"
  shows "grants e r k now lease t fl g fl1 fl'"
proof -
  have further: "passes (fl_db fl0) x \<Longrightarrow> passes (fl_db fl) x" for x by (rule passing.kept_trans [OF db])
  let ?u = "t\<lparr>capability := s\<rparr>"
  have same: "?u\<lparr>capability := x\<rparr> = t\<lparr>capability := x\<rparr>" "turn_id ?u = turn_id t" "chat_session ?u = chat_session t" for x by simp_all
  from g [unfolded grants_def same]
  obtain fl2 fl3 where "passes (fl_db fl0) (fl_db fl1)"
    "take_turn (turn_id t) (g_stamped g) (g_rides g) (taken r now lease (g_mode g) (g_basis g) (g_rides g) (g_cli g) (g_cap g)) fl1 = Some fl2"
    "fl_turns fl' = fl_turns fl2" "fl_boxes fl' = fl_boxes fl2" "passes (fl_db fl0) (fl_db fl3)" "cli_for fl3 r (t\<lparr>capability := g_stamped g\<rparr>) = Some (g_cli g)"
    "g_rides g = k (chat_session t)"
    "may_deliver (fl_db fl1) (t\<lparr>capability := g_stamped g\<rparr>) (g_cli g) (g_rides g)"
    by blast
  then show ?thesis unfolding grants_def by (intro conjI exI [of _ fl2] exI [of _ fl3]) (rule further | assumption)+
qed

lemma settle_verdict:
  "(\<forall>w fl'. settle e r k c lease now t cli fl = Skipped w fl' \<longrightarrow> passes (fl_db fl) (fl_db fl'))
   \<and> (\<forall>fl'. settle e r k c lease now t cli fl = Taken fl' \<longrightarrow> cli_for fl r t = Some cli
        \<longrightarrow> (\<exists>g fl1. grants e r k now lease t fl g fl1 fl'))"
proof (cases "ce_context e fl t")
  case Unresolved
  then show ?thesis by (simp add: settle_def)
next
  case (RefusedNow code msg)
  then show ?thesis using passes_refuse by (simp add: settle_def)
next
  case (StampedNow s)
  show ?thesis
  proof (cases "s = capability t")
    case True
    then have "settle e r k c lease now t cli fl = attempt e r k c lease now t cli fl" by (simp add: settle_def StampedNow)
    then show ?thesis using attempt_verdict [of e r k c lease now t cli fl] by metis
  next
    case False
    define fl1 where "fl1 = restamp (turn_id t) (capability t) s fl"
    have db: "passes (fl_db fl) (fl_db fl1)" unfolding fl1_def by (rule passes_restamp)
    have eq: "settle e r k c lease now t cli fl = (case cli_for fl1 r (t\<lparr>capability := s\<rparr>) of
        None \<Rightarrow> Skipped (Some ''what it may do changed while it waited, and no agent CLI on this box can confine it'') fl1
      | Some cli1 \<Rightarrow> attempt e r k c lease now (t\<lparr>capability := s\<rparr>) cli1 fl1)"
      unfolding settle_def StampedNow claim_context.case Let_def fl1_def using False by simp
    show ?thesis
    proof (cases "cli_for fl1 r (t\<lparr>capability := s\<rparr>)")
      case None
      then show ?thesis using db by (simp add: eq)
    next
      case (Some cli1)
      note v = attempt_verdict [of e r k c lease now "t\<lparr>capability := s\<rparr>" cli1 fl1]
      have "passes (fl_db fl) (fl_db fl')" if "attempt e r k c lease now (t\<lparr>capability := s\<rparr>) cli1 fl1 = Skipped w fl'" for w fl'
        using v that passing.kept_trans [OF db] by blast
      moreover have "\<exists>g fl2. grants e r k now lease t fl g fl2 fl'"
        if "attempt e r k c lease now (t\<lparr>capability := s\<rparr>) cli1 fl1 = Taken fl'" for fl'
        using v that Some grants_from [OF db] by blast
      ultimately show ?thesis unfolding eq Some by simp
    qed
  qed
qed

text \<open>What the machine established about a candidate before it settled it.\<close>

definition fits :: "claim_env \<Rightarrow> runner_box \<Rightarrow> instant \<Rightarrow> turn \<Rightarrow> fleet \<Rightarrow> bool" where
  "fits e r now t fl \<longleftrightarrow> hard_refusal e fl r t = None
     \<and> (pinned_runner t = Some (rb_id r) \<or> routing_refusal (ce_route e) fl r t now = None)"

lemma weigh_verdict:
  "(\<forall>w fl'. weigh e r k c lease now t fl = Skipped w fl' \<longrightarrow> passes (fl_db fl) (fl_db fl'))
   \<and> (\<forall>fl'. weigh e r k c lease now t fl = Taken fl' \<longrightarrow> fits e r now t fl \<and> (\<exists>g fl1. grants e r k now lease t fl g fl1 fl'))"
  using settle_verdict [of e r k c lease now t _ fl]
  by (auto simp: weigh_def fits_def split: option.splits if_splits)

lemma try_verdict:
  "try_candidates e r k c lease now ts skips fl = (got, skips', fl') \<Longrightarrow>
     (case got of None \<Rightarrow> passes (fl_db fl) (fl_db fl')
      | Some n \<Rightarrow> \<exists>t fl0 g fl1. t \<in> set ts \<and> turn_id t = n \<and> passes (fl_db fl) (fl_db fl0) \<and> fits e r now t fl0
          \<and> grants e r k now lease t fl g fl1 fl')"
proof (induction ts arbitrary: skips fl)
  case (Cons t ts)
  note v = weigh_verdict [of e r k c lease now t fl]
  show ?case
  proof (cases "weigh e r k c lease now t fl")
    case (Skipped w fl2)
    then have db: "passes (fl_db fl) (fl_db fl2)" using v by blast
    have up: "grants e r k now lease u fl2 g fl1 fl' \<Longrightarrow> grants e r k now lease u fl g fl1 fl'" for u g fl1
      using grants_from [OF db, where t = u and s = "capability u"] by simp
    have "try_candidates e r k c lease now ts (case w of None \<Rightarrow> skips | Some x \<Rightarrow> skips @ [(turn_id t, x)]) fl2 = (got, skips', fl')"
      using Cons.prems Skipped by simp
    from Cons.IH [OF this] show ?thesis
      using passing.kept_trans [OF db] up by (fastforce split: option.splits)
  next
    case (Taken fl2)
    then have "fits e r now t fl \<and> (\<exists>g fl1. grants e r k now lease t fl g fl1 fl2)" using v by blast
    moreover have "got = Some (turn_id t)" "fl' = fl2" using Cons.prems Taken by simp_all
    ultimately show ?thesis using passing.kept_refl [of "fl_db fl"] by force
  qed
qed simp

section \<open>What a claim found is still so where it started\<close>

lemma passed_id: "passed t t' \<Longrightarrow> turn_id t' = turn_id t \<and> same_lineage t' t"
  by (auto simp: passed_def place_def same_lineage_def dest: arg_cong [of _ _ turn_id] arg_cong [of _ _ chat_session]
      arg_cong [of _ _ canopy_session] arg_cong [of _ _ parent_turn] arg_cong [of _ _ parent_session] arg_cong [of _ _ parent_provenance])

lemma passed_lane:
  "passed t t' \<Longrightarrow> chat_session t' = chat_session t \<and> rides_turn t' = rides_turn t \<and> claimed_by t' = claimed_by t \<and> job t' = job t"
  unfolding passed_def place_def
  by (drule conjunct1) (auto dest: arg_cong [of _ _ chat_session] arg_cong [of _ _ rides_turn] arg_cong [of _ _ claimed_by] arg_cong [of _ _ job])

lemma passed_status:
  "passed t t' \<Longrightarrow> status t' \<noteq> Cancelled \<Longrightarrow> status t' = status t"
  by (auto simp: passed_def)

lemma passes_get: "passes db db' \<Longrightarrow> get_turn db n = Some t \<Longrightarrow> \<exists>t'. get_turn db' n = Some t' \<and> passed t t'"
  unfolding row_step_def by (drule conjunct1, erule list_all2_get) (auto dest: passed_id)

lemma passes_get_back: "passes db db' \<Longrightarrow> get_turn db' n = Some t' \<Longrightarrow> \<exists>t. get_turn db n = Some t \<and> passed t t'"
  unfolding row_step_def by (drule conjunct1, erule list_all2_get_back) (auto dest: passed_id)

lemma same_chat_fields: "same_chat c c' \<Longrightarrow> ch_id c' = ch_id c \<and> ch_agent c' = ch_agent c \<and> ch_requirements c' = ch_requirements c"
  unfolding same_chat_def by (auto dest: arg_cong [of _ _ ch_id] arg_cong [of _ _ ch_agent] arg_cong [of _ _ ch_requirements])

lemma keyed_rel:
  assumes "list_all2 R rs rs'" and "\<And>r r'. R r r' \<Longrightarrow> key r' = key r"
  shows "rel_option R (tbl_get key k rs) (tbl_get key k rs')"
  using assms(1) by (induction rs rs' rule: list_all2_induct) (auto dest: assms(2))

lemma passes_chat: "passes db db' \<Longrightarrow> rel_option same_chat (tbl_get ch_id c (chats db)) (tbl_get ch_id c (chats db'))"
  using same_chat_fields by (intro keyed_rel) (auto simp: row_step_def)

lemma passes_row: "passes db db' \<Longrightarrow> rel_option passed (get_turn db n) (get_turn db' n)"
  using passed_id by (intro keyed_rel) (auto simp: row_step_def)

lemma passes_reqs:
  assumes db: "passes db db'"
  shows "requirements_of db' t = requirements_of db t"
proof -
  have sess: "session_reqs db' = session_reqs db"
  proof -
    have "requirements_of_session db' c = requirements_of_session db c" for c
      using passes_chat [OF db, of c] same_chat_fields by (auto simp: requirements_of_session_def split: option.splits)
    then show ?thesis by (simp add: fun_eq_iff session_reqs_def split: option.split)
  qed
  have sym: "same_lineage u v \<Longrightarrow> same_lineage v u" for u v by (simp add: same_lineage_def)
  have rows: "rel_option same_lineage (get_turn db' m) (get_turn db m)" for m
    using passes_row [OF db, of m] passed_id by (auto elim!: option.rel_cases)
  have back_rows: "rel_option same_lineage (get_turn db m) (get_turn db' m)" for m
    using passes_row [OF db, of m] passed_id sym by (auto elim!: option.rel_cases)
  have refl: "rel_option same_lineage (Some t) (Some t)" by (simp add: same_lineage_def)
  show ?thesis
    unfolding requirements_of_def
  proof (rule subset_antisym)
    show "reqs_walk (MAX_ANCESTORS + 1) db' (status t \<notin> set TERMINAL) (Some t) {} {}
        \<subseteq> reqs_walk (MAX_ANCESTORS + 1) db (status t \<notin> set TERMINAL) (Some t) {} {}"
      by (rule reqs_walk_same [OF sess rows _ refl subset_refl]) simp
    show "reqs_walk (MAX_ANCESTORS + 1) db (status t \<notin> set TERMINAL) (Some t) {} {}
        \<subseteq> reqs_walk (MAX_ANCESTORS + 1) db' (status t \<notin> set TERMINAL) (Some t) {} {}"
      by (rule reqs_walk_same [OF sess [symmetric] back_rows _ refl subset_refl]) simp
  qed
qed

lemma passes_agent:
  assumes db: "passes db db'"
  shows "acting_agent db' t = acting_agent db t"
proof -
  have agents: "agent_rows db' = agent_rows db" using db by (simp add: row_step_def)
  show ?thesis
  proof (cases "chat_session t")
    case None
    then show ?thesis by (simp add: acting_agent_def agents split: option.split)
  next
    case (Some c)
    show ?thesis
      by (rule option.rel_cases [OF passes_chat [OF db, of c]])
        (use Some same_chat_fields in \<open>auto simp: acting_agent_def agents split: option.splits\<close>)
  qed
qed

lemma serves_refusal_by_name:
  assumes "map_option rb_name (machine_agent_runner fl' r s) = map_option rb_name (machine_agent_runner fl r s)"
  shows "serves_refusal fl' r s = serves_refusal fl r s"
proof (cases "machine_agent_runner fl r s")
  case None
  with assms have "machine_agent_runner fl' r s = None" by simp
  then show ?thesis unfolding serves_refusal_def None by (simp only:)
next
  case (Some b)
  with assms obtain b' where b': "machine_agent_runner fl' r s = Some b'" "rb_name b' = rb_name b" by auto
  show ?thesis unfolding serves_refusal_def Some b'(1) option.case b'(2) by (rule refl)
qed

lemma turn_serves_by_name:
  assumes "\<And>s. map_option rb_name (machine_agent_runner fl' r s) = map_option rb_name (machine_agent_runner fl r s)"
    and agent: "acting_agent (fl_db fl') t = acting_agent (fl_db fl) t"
  shows "turn_serves_refusal fl' r t = turn_serves_refusal fl r t"
  unfolding turn_serves_refusal_def agent serves_refusal_by_name [OF assms(1)] by (rule refl)

lemma passes_serves:
  assumes db: "passes (fl_db fl) (fl_db fl')"
  shows "turn_serves_refusal fl' r t = turn_serves_refusal fl r t"
proof (rule turn_serves_by_name)
  have "fl_boxes fl' = fl_boxes fl" using db by (simp add: row_step_def)
  then show "map_option rb_name (machine_agent_runner fl' r s) = map_option rb_name (machine_agent_runner fl r s)" for s
    by (simp add: machine_agent_runner_def)
qed (rule passes_agent [OF db])

lemma find_map: "(\<And>x. P (f x) = P x) \<Longrightarrow> find P (map f xs) = map_option f (find P xs)"
  by (induction xs) auto

lemma poll_frame [simp]:
  "fl_turns (record_poll r now fl) = fl_turns fl" "chats (fl_db (record_poll r now fl)) = chats (fl_db fl)"
  "agent_rows (fl_db (record_poll r now fl)) = agent_rows (fl_db fl)"
  "fl_people (record_poll r now fl) = fl_people fl" "fl_held (record_poll r now fl) = fl_held fl"
  "fl_enrollments (record_poll r now fl) = fl_enrollments fl" "fl_handoffs (record_poll r now fl) = fl_handoffs fl"
  by (simp_all add: record_poll_def set_boxes_def)

lemma poll_serves: "turn_serves_refusal (record_poll r now fl) x t = turn_serves_refusal fl x t"
proof (rule turn_serves_by_name)
  define f where "f b = (if rb_id b = rb_id r then b\<lparr>rb_last_claim_poll_at := Some now\<rparr> else b)" for b :: runner_box
  have f: "rb_status (f b) = rb_status b" "rb_machine (f b) = rb_machine b" "rb_id (f b) = rb_id b"
    "rb_name (f b) = rb_name b" "serves (f b) = serves b" for b
    by (simp_all add: f_def serves_def cap_of_def)
  have name: "rb_name \<circ> f = rb_name" using f(4) by (simp add: fun_eq_iff)
  have "fl_boxes (record_poll r now fl) = fl_boxes fl \<or> fl_boxes (record_poll r now fl) = map f (fl_boxes fl)"
    by (simp add: record_poll_def set_boxes_def tbl_update_def f_def [abs_def])
  then show "map_option rb_name (machine_agent_runner (record_poll r now fl) x s) = map_option rb_name (machine_agent_runner fl x s)" for s
    by (elim disjE) (simp_all add: machine_agent_runner_def find_map f option.map_comp name)
qed (simp add: acting_agent_def split: option.split)

lemma granted_row:
  assumes row: "get_turn (fl_db fl) (turn_id t) = Some t" and g: "grants e r k now lease t fl g fl1 fl2"
  shows "\<exists>u. get_turn (fl_db fl1) (turn_id t) = Some u \<and> passed t u \<and> status u = Queued \<and> capability u = g_stamped g
    \<and> lane_is_free (fl_db fl1) u (g_rides g)
    \<and> fl_turns fl2 = tbl_update (\<lambda>x. turn_id x = turn_id t)
        (taken r now lease (g_mode g) (g_basis g) (g_rides g) (g_cli g) (g_cap g)) (fl_turns fl1)"
proof -
  have db: "passes (fl_db fl) (fl_db fl1)" using g by (simp add: grants_def)
  obtain u where u: "get_turn (fl_db fl1) (turn_id t) = Some u" "passed t u" using passes_get [OF db row] by blast
  obtain fl3 where "take_turn (turn_id t) (g_stamped g) (g_rides g)
      (taken r now lease (g_mode g) (g_basis g) (g_rides g) (g_cli g) (g_cap g)) fl1 = Some fl3" "fl_turns fl2 = fl_turns fl3"
    using g by (auto simp: grants_def)
  then show ?thesis using u by (auto simp: take_turn_def split: if_splits)
qed

lemma granted_boxes: "grants e r k now lease t fl g fl1 fl2 \<Longrightarrow> fl_boxes fl2 = fl_boxes fl"
  by (auto simp: grants_def take_turn_def row_step_def set_turns_def split: option.splits if_splits)

lemma taken_simps [simp]:
  "turn_id (taken r now lease m b rides cli c t) = turn_id t" "capability (taken r now lease m b rides cli c t) = capability t"
  "chat_session (taken r now lease m b rides cli c t) = chat_session t" "status (taken r now lease m b rides cli c t) = Claimed"
  "rides_turn (taken r now lease m b rides cli c t) = rides" "claimed_by (taken r now lease m b rides cli c t) = Some (rb_id r)"
  "lease_expires_at (taken r now lease m b rides cli c t) = Some (now + lease)" "t_cli (taken r now lease m b rides cli c t) = cli"
  "job (taken r now lease m b rides cli c t) = job t"
  by (simp_all add: taken_def)

lemma poll_tenant [simp]: "runner_tenant_slugs (record_poll r now fl) x = runner_tenant_slugs fl x"
  by (simp add: runner_tenant_slugs_def covered_slugs_def enrolled_slugs_def tenant_of_owner_def split: option.split)

lemma workspace_q_cong:
  "chats db' = chats db \<Longrightarrow> agent_rows db' = agent_rows db \<Longrightarrow> turn_workspace_q db' S t = turn_workspace_q db S t"
  "chats db' = chats db \<Longrightarrow> agent_rows db' = agent_rows db \<Longrightarrow> agent_held db' t = agent_held db t"
  by (simp_all add: turn_workspace_q_def agent_held_def agent_is_def chat_of_def cong: option.case_cong)

lemma poll_transfers [simp]: "transfer_held (record_poll r now fl) t = transfer_held fl t"
proof -
  have "transfer_in_progress (fl_db (record_poll r now fl)) h = transfer_in_progress (fl_db fl) h" for h
    by (simp add: transfer_in_progress_def split: option.split)
  then have "moving (record_poll r now fl) = moving fl" by (simp add: moving_def cong: filter_cong)
  then show ?thesis unfolding transfer_held_def by (simp only:)
qed

lemma poll_reqs: "requirements_of (fl_db (record_poll r now fl)) t = requirements_of (fl_db fl) t"
  unfolding requirements_of_def by (rule reqs_walk_cong) simp_all

lemma poll_agent: "acting_agent (fl_db (record_poll r now fl)) t = acting_agent (fl_db fl) t"
  by (simp add: acting_agent_def split: option.split)

lemma requirements_of_stamp: "requirements_of db (t\<lparr>capability := s\<rparr>) = requirements_of db t"
  by (simp add: requirements_of_def own_reqs_def lost_lineage_def parent_row_def)

lemma claim_facts:
  assumes ids: "turn_ids_ok (fl_db fl)" and claim: "claim_next_turn e b lease exclude acts now fl = (Some n, fl')"
  shows "\<exists>r t fl0 g fl1 fl2. box_row fl b = Some r \<and> may_ask (record_poll r now fl) r now \<and> turn_id t = n
    \<and> is_candidate e (record_poll r now fl) r exclude t \<and> get_turn (fl_db fl) n = Some t
    \<and> passes (fl_db (record_poll r now fl)) (fl_db fl0) \<and> fits e r now t fl0
    \<and> grants e r (ridable (record_poll r now fl) r) now lease t (record_poll r now fl) g fl1 fl2 \<and> fl_turns fl' = fl_turns fl2"
proof -
  obtain r where r: "box_row fl b = Some r" using claim by (cases "box_row fl b") (auto simp: claim_next_turn_def)
  let ?p = "record_poll r now fl"
  have ask: "may_ask ?p r now" using claim r by (auto simp: claim_next_turn_def Let_def split: if_splits)
  obtain got skips fl2 where t: "try_candidates e r (ridable ?p r) (cap_from acts) lease now (candidates e ?p r exclude) [] ?p = (got, skips, fl2)"
    by (cases "try_candidates e r (ridable ?p r) (cap_from acts) lease now (candidates e ?p r exclude) [] ?p")
  have got: "got = Some n" and fl': "fl' = note_skips e r now skips fl2"
    using claim r ask t by (simp_all add: claim_next_turn_def)
  from try_verdict [OF t] obtain t fl0 g fl1 where t: "t \<in> set (candidates e ?p r exclude)" "turn_id t = n"
    and rest: "passes (fl_db ?p) (fl_db fl0)" "fits e r now t fl0" "grants e r (ridable (record_poll r now fl) r) now lease t ?p g fl1 fl2"
    unfolding got by auto
  have "is_candidate e ?p r exclude t" "t \<in> set (fl_turns fl)" using t(1) by (simp_all add: candidates_def)
  moreover from this have "get_turn (fl_db fl) n = Some t" using get_turn_row [OF ids] t(2) by blast
  moreover have "fl_turns fl' = fl_turns fl2" by (simp add: fl')
  ultimately show ?thesis using r ask t(2) rest by blast
qed

text \<open>C3. A turn handed to a machine fits it: at the poll the machine was online, the fleet was not
  held, the turn was queued and either unpinned or pinned to this machine; the machine has the flags
  its conversation needs, may take it if it is a job, works where the turn's workspace is (and that
  workspace is not held, nor its agent, nor does a transfer keep it back), may hold its agent, and is
  not dedicated to another.  The row is then claimed by this machine for the length of the lease; a
  confined turn is given a CLI this machine is signed in to and that confines it, and a sensitive one
  a CLI cleared for it.  Every other turn was at most passed over.
\<close>

theorem a_claimed_turn_fits_its_machine:
  assumes ids: "turn_ids_ok (fl_db fl)" and claim: "claim_next_turn e b lease exclude acts now fl = (Some n, fl')"
  shows "\<exists>r t t'. box_row fl b = Some r \<and> get_turn (fl_db fl) n = Some t \<and> get_turn (fl_db fl') n = Some t'
    \<and> live_status now r = ''online'' \<and> \<not> fl_held fl
    \<and> status t = Queued \<and> pinned_runner t \<in> {None, Some b}
    \<and> satisfies (in_force r) (requirements_of (fl_db fl) t) \<and> job_refusal r t = None
    \<and> turn_workspace_q (fl_db fl) (runner_tenant_slugs fl r) t
    \<and> \<not> turn_workspace_q (fl_db fl) (held_slugs (workspaces (fl_people fl))) t
    \<and> \<not> agent_held (fl_db fl) t \<and> \<not> transfer_held fl t
    \<and> (\<forall>a. acting_agent (fl_db fl) t = Some a \<longrightarrow> runner_may_hold_agent (ce_route e) r (ag_slug a))
    \<and> turn_serves_refusal fl r t = None
    \<and> status t' = Claimed \<and> claimed_by t' = Some b \<and> lease_expires_at t' = Some (now + lease)
    \<and> (job t' = '''' \<longrightarrow> (\<exists>rep. map_of (reported r) (t_cli t') = Some rep \<and> cr_signed_in rep
          \<and> (capability t' \<noteq> '''' \<longrightarrow> confines rep)
          \<and> (SENSITIVE_DATA \<in> requirements_of (fl_db fl) t \<longrightarrow> t_cli t' \<in> set SENSITIVE_CLIS)))
    \<and> (\<forall>m u. m \<noteq> n \<and> get_turn (fl_db fl) m = Some u \<longrightarrow> (\<exists>u'. get_turn (fl_db fl') m = Some u' \<and> passed u u'))"
proof -
  let ?p = "\<lambda>r. record_poll r now fl"
  obtain r t fl0 g fl1 fl2 where r: "box_row fl b = Some r" and ask: "may_ask (?p r) r now" and n: "turn_id t = n"
    and cand: "is_candidate e (?p r) r exclude t" and t: "get_turn (fl_db fl) n = Some t"
    and db: "passes (fl_db (?p r)) (fl_db fl0)" and fits: "fits e r now t fl0"
    and g: "grants e r (ridable (record_poll r now fl) r) now lease t (?p r) g fl1 fl2" and turns: "fl_turns fl' = fl_turns fl2"
    using claim_facts [OF ids claim] by blast
  have b: "rb_id r = b" using box_row_id [OF r] by blast
  have tp: "get_turn (fl_db (?p r)) (turn_id t) = Some t" using t n by simp
  from granted_row [OF tp g] obtain u where u: "get_turn (fl_db fl1) n = Some u" "passed t u" "capability u = g_stamped g"
    and moved: "fl_turns fl' = tbl_update (\<lambda>x. turn_id x = n)
        (taken r now lease (g_mode g) (g_basis g) (g_rides g) (g_cli g) (g_cap g)) (fl_turns fl1)"
    using n turns by auto
  let ?t' = "taken r now lease (g_mode g) (g_basis g) (g_rides g) (g_cli g) (g_cap g) u"
  have got: "get_turn (fl_db fl') m = (if m = n then Some ?t' else get_turn (fl_db fl1) m)" for m
    unfolding moved tbl_get_tbl_update [of "\<lambda>x. turn_id x = n" turn_id, OF taken_simps(1)]
    using u(1) tbl_get_Some [OF u(1)] by (cases "get_turn (fl_db fl1) m") (auto dest: tbl_get_Some)
  have p1: "passes (fl_db (?p r)) (fl_db fl1)" using g by (simp add: grants_def)
  have others: "\<exists>v'. get_turn (fl_db fl') m = Some v' \<and> passed v v'" if "m \<noteq> n" "get_turn (fl_db fl) m = Some v" for m v
    using passes_get [OF p1, of m v] that got by simp
  have hard: "hard_refusal e fl0 r t = None" using fits by (simp add: fits_def)
  have reqs: "requirements_of (fl_db fl0) x = requirements_of (fl_db fl) x" for x
    by (simp only: passes_reqs [OF db] poll_reqs)
  have agent: "acting_agent (fl_db fl0) x = acting_agent (fl_db fl) x" for x
    by (simp only: passes_agent [OF db] poll_agent)
  have serves: "turn_serves_refusal fl r t = None"
    using hard passes_serves [OF db] poll_serves by (auto simp: hard_refusal_def Let_def split: if_splits option.splits)
  have held: "satisfies (in_force r) (requirements_of (fl_db fl) t)" "job_refusal r t = None"
    "acting_agent (fl_db fl) t = Some a \<longrightarrow> runner_may_hold_agent (ce_route e) r (ag_slug a)" for a
    using hard by (auto simp: hard_refusal_def Let_def reqs agent split: if_splits option.splits)
  have cli: "\<exists>rep. map_of (reported r) (g_cli g) = Some rep \<and> cr_signed_in rep \<and> (g_stamped g \<noteq> '''' \<longrightarrow> confines rep)
      \<and> (SENSITIVE_DATA \<in> requirements_of (fl_db fl) t \<longrightarrow> g_cli g \<in> set SENSITIVE_CLIS)" if "job t = ''''"
  proof -
    let ?s = "t\<lparr>capability := g_stamped g\<rparr>"
    obtain fl3 where fl3: "passes (fl_db (?p r)) (fl_db fl3)" "cli_for fl3 r ?s = Some (g_cli g)"
      using g by (auto simp: grants_def)
    have "requirements_of (fl_db fl3) ?s = requirements_of (fl_db fl) ?s" by (simp only: passes_reqs [OF fl3(1)] poll_reqs)
    moreover have "requirements_of (fl_db fl) ?s = requirements_of (fl_db fl) t" by (rule requirements_of_stamp)
    moreover have "cli_fits (fl_db fl3) ?s (reported r) (g_cli g)"
      using fl3(2) that by (auto simp: cli_for_def choose_cli_def find_Some_iff)
    ultimately show ?thesis by (auto simp: cli_fits_def split: option.splits)
  qed
  have job: "job u = job t" using passed_lane [OF u(2)] by simp
  note c = cand [unfolded is_candidate_def Let_def poll_tenant poll_transfers poll_frame
      workspace_q_cong [OF poll_frame(2,3)]]
  have asked: "live_status now r = ''online''" "\<not> fl_held fl" using ask by (simp_all add: may_ask_def)
  have q: "status t = Queued" "pinned_runner t \<in> {None, Some b}" "turn_workspace_q (fl_db fl) (runner_tenant_slugs fl r) t"
    "\<not> turn_workspace_q (fl_db fl) (held_slugs (workspaces (fl_people fl))) t" "\<not> agent_held (fl_db fl) t" "\<not> transfer_held fl t"
    using c [unfolded b] by blast+
  have row: "get_turn (fl_db fl') n = Some ?t'" using got [of n] by simp
  have now: "status ?t' = Claimed" "claimed_by ?t' = Some b" "lease_expires_at ?t' = Some (now + lease)" by (simp_all add: b)
  have runs: "job ?t' = '''' \<longrightarrow> (\<exists>rep. map_of (reported r) (t_cli ?t') = Some rep \<and> cr_signed_in rep
      \<and> (capability ?t' \<noteq> '''' \<longrightarrow> confines rep)
      \<and> (SENSITIVE_DATA \<in> requirements_of (fl_db fl) t \<longrightarrow> t_cli ?t' \<in> set SENSITIVE_CLIS))"
    using cli job unfolding taken_simps u(3) by simp
  have agents: "\<forall>a. acting_agent (fl_db fl) t = Some a \<longrightarrow> runner_may_hold_agent (ce_route e) r (ag_slug a)" using held(3) by blast
  have rest: "\<forall>m v. m \<noteq> n \<and> get_turn (fl_db fl) m = Some v \<longrightarrow> (\<exists>v'. get_turn (fl_db fl') m = Some v' \<and> passed v v')"
    using others by blast
  show ?thesis
    by (intro exI [of _ r] exI [of _ t] exI [of _ ?t'] conjI r t row asked q held(1,2) agents serves now runs rest)
qed

definition open_claims :: claim_env where
  "open_claims = \<lparr> ce_route = plain_env, ce_rd = blind_redactor, ce_context = (\<lambda>fl t. StampedNow (capability t)),
     ce_mode = (\<lambda>fl t. Some (''manual'', '''', False)), ce_event_ts = (\<lambda>_. 0) \<rparr>"

lemma sample_claim: "fst (claim_next_turn open_claims 1 DEFAULT_LEASE [] '''' 10 sample_fleet) = Some ''cccccccc-3''"
  by code_simp

lemma sample_fleet_ids: "turn_ids_ok (fl_db sample_fleet)"
  by (simp add: sample_fleet_def)

lemma a_claimed_turn_fits_its_machine_witness:
  "\<exists>t'. get_turn (fl_db (snd (claim_next_turn open_claims 1 DEFAULT_LEASE [] '''' 10 sample_fleet))) ''cccccccc-3'' = Some t'
     \<and> status t' = Claimed \<and> claimed_by t' = Some 1 \<and> lease_expires_at t' = Some (10 + DEFAULT_LEASE)"
proof -
  have "claim_next_turn open_claims 1 DEFAULT_LEASE [] '''' 10 sample_fleet
      = (Some ''cccccccc-3'', snd (claim_next_turn open_claims 1 DEFAULT_LEASE [] '''' 10 sample_fleet))"
    using sample_claim by (metis prod.collapse)
  from a_claimed_turn_fits_its_machine [OF sample_fleet_ids this] show ?thesis by blast
qed

lemma find_listed_row: "find P xs = Some x \<Longrightarrow> x \<in> set xs \<and> P x"
  by (induction xs) (auto split: if_splits)

lemma ridable_Some:
  assumes "ridable fl r c = Some n"
  shows "\<exists>s x. c = Some s \<and> delivers_midturn r \<and> \<not> dialog_up (fl_db fl) s \<and> x \<in> set (fl_turns fl) \<and> turn_id x = n
    \<and> can_carry fl r x \<and> chat_session x = Some s"
proof -
  obtain s where s: "c = Some s" "delivers_midturn r" "\<not> dialog_up (fl_db fl) s"
    "map_option turn_id (find (\<lambda>h. can_carry fl r h \<and> chat_session h = Some s) (rev (fl_turns fl))) = Some n"
    using assms by (auto simp: ridable_def split: option.splits if_splits)
  then obtain x where x: "find (\<lambda>h. can_carry fl r h \<and> chat_session h = Some s) (rev (fl_turns fl)) = Some x" "turn_id x = n" by auto
  then show ?thesis using find_listed_row [OF x(1)] s by auto
qed

text \<open>C29. A follow-up handed to a machine rides the turn of its own conversation that this very machine is
  running: that turn is full-profile and no rider itself, the machine can deliver into it, no dialog
  is up in the conversation, and the follow-up is full-profile, has not already failed to be delivered,
  and was given the CLI of the turn it rides.
\<close>

theorem a_follow_up_rides_its_own_conversation:
  assumes ids: "turn_ids_ok (fl_db fl)" and claim: "claim_next_turn e b lease exclude acts now fl = (Some n, fl')"
    and t': "get_turn (fl_db fl') n = Some t'" and rides: "rides_turn t' = Some h"
  shows "\<exists>r x s db. box_row fl b = Some r \<and> delivers_midturn r \<and> get_turn (fl_db fl) h = Some x
    \<and> executing_on b x \<and> chat_session x = Some s \<and> chat_session t' = Some s \<and> \<not> dialog_up (fl_db fl) s
    \<and> rides_turn x = None \<and> capability x = '''' \<and> capability t' = ''''
    \<and> passes (fl_db (record_poll r now fl)) db \<and> t_cli t' = session_cli db h"
proof -
  let ?p = "\<lambda>r. record_poll r now fl"
  obtain r t g fl1 fl2 where r: "box_row fl b = Some r" and n: "turn_id t = n" and t: "get_turn (fl_db fl) n = Some t"
    and g: "grants e r (ridable (?p r) r) now lease t (?p r) g fl1 fl2" and turns: "fl_turns fl' = fl_turns fl2"
    using claim_facts [OF ids claim] by blast
  have tp: "get_turn (fl_db (?p r)) (turn_id t) = Some t" using t n by simp
  from granted_row [OF tp g] obtain u where u: "get_turn (fl_db fl1) n = Some u" "passed t u" "capability u = g_stamped g"
    and moved: "fl_turns fl' = tbl_update (\<lambda>x. turn_id x = n)
        (taken r now lease (g_mode g) (g_basis g) (g_rides g) (g_cli g) (g_cap g)) (fl_turns fl1)"
    using n turns by auto
  have eq: "t' = taken r now lease (g_mode g) (g_basis g) (g_rides g) (g_cli g) (g_cap g) u"
    using t' u(1) tbl_get_Some [OF u(1)]
    unfolding moved tbl_get_tbl_update [of "\<lambda>x. turn_id x = n" turn_id, OF taken_simps(1)] by simp
  have k: "ridable (?p r) r (chat_session t) = Some h" "chat_session t' = chat_session t" "capability t' = g_stamped g" "t_cli t' = g_cli g"
    using rides g passed_lane [OF u(2)] u(3) by (simp_all add: eq grants_def)
  obtain s x where s: "chat_session t = Some s" "delivers_midturn r" "\<not> dialog_up (fl_db (?p r)) s"
    and x: "turn_id x = h" "x \<in> set (fl_turns fl)" "can_carry (?p r) r x" "chat_session x = Some s"
    using ridable_Some [OF k(1)] by auto
  have "get_turn (fl_db fl) h = Some x" using get_turn_row [OF ids x(2)] x(1) by simp
  moreover have "may_deliver (fl_db fl1) (t\<lparr>capability := g_stamped g\<rparr>) (g_cli g) (Some h)" "passes (fl_db (?p r)) (fl_db fl1)"
    using g rides by (auto simp: grants_def eq)
  moreover have "\<not> dialog_up (fl_db fl) s" using s(3) by (simp add: dialog_up_def)
  ultimately show ?thesis
    using r s x k box_row_id [OF r] by (intro exI [of _ r] exI [of _ x] exI [of _ s] exI [of _ "fl_db fl1"])
      (auto simp: can_carry_def executing_on_def may_deliver_def EXECUTING_def)
qed

text \<open>A conversation whose turn runs on a machine that types follow-ups in, and a second message.\<close>

definition riding_fleet :: fleet where
  "riding_fleet = set_boxes (\<lambda>_. [plain_box 1 ''emdash''\<lparr>rb_caps := [(''midturn'', JNum 1)]\<rparr>])
     (set_world ((fl_db sample_fleet)\<lparr>
        chats := [\<lparr> ch_id = 1, ch_requirements = JNull, ch_page_state = [], ch_active = True, ch_runner = Some 1, ch_cli = '''',
          ch_agent = Some ''eva'', ch_workspace = ''acme'', ch_content_deleted = False, ch_project = '''', ch_menu = JNull \<rparr>],
        turns := [plain_turn ''aaaaaaaa-1''\<lparr>chat_session := Some 1\<rparr>,
          plain_turn ''bbbbbbbb-2''\<lparr>chat_session := Some 1, status := Queued, claimed_by := None, lease_expires_at := None\<rparr>]\<rparr>)
      sample_fleet)"

lemma riding_claim:
  "fst (claim_next_turn open_claims 1 DEFAULT_LEASE [] '''' 10 riding_fleet) = Some ''bbbbbbbb-2''"
  "map_option rides_turn (get_turn (fl_db (snd (claim_next_turn open_claims 1 DEFAULT_LEASE [] '''' 10 riding_fleet))) ''bbbbbbbb-2'')
   = Some (Some ''aaaaaaaa-1'')"
  by code_simp+

lemma a_follow_up_rides_its_own_conversation_witness:
  "\<exists>x. get_turn (fl_db riding_fleet) ''aaaaaaaa-1'' = Some x \<and> executing_on 1 x \<and> rides_turn x = None"
proof -
  let ?c = "claim_next_turn open_claims 1 DEFAULT_LEASE [] '''' 10 riding_fleet"
  have ids: "turn_ids_ok (fl_db riding_fleet)" by (simp add: riding_fleet_def set_boxes_def set_world_def plain_turn_def)
  have claim: "?c = (Some ''bbbbbbbb-2'', snd ?c)" using riding_claim(1) by (metis prod.collapse)
  obtain t' where t': "get_turn (fl_db (snd ?c)) ''bbbbbbbb-2'' = Some t'" "rides_turn t' = Some ''aaaaaaaa-1''"
    using riding_claim(2) by auto
  show ?thesis using a_follow_up_rides_its_own_conversation [OF ids claim t'] by blast
qed


text \<open>Of the machines, a claim changes one poll time at most.\<close>

lemma claim_boxes:
  "fl_boxes (snd (claim_next_turn e b lease exclude acts now fl)) = fl_boxes fl
   \<or> (\<exists>r. fl_boxes (snd (claim_next_turn e b lease exclude acts now fl)) = fl_boxes (record_poll r now fl))"
proof (cases "box_row fl b")
  case (Some r)
  let ?p = "record_poll r now fl"
  obtain got skips fl2 where t: "try_candidates e r (ridable ?p r) (cap_from acts) lease now (candidates e ?p r exclude) [] ?p = (got, skips, fl2)"
    by (cases "try_candidates e r (ridable ?p r) (cap_from acts) lease now (candidates e ?p r exclude) [] ?p")
  have "fl_boxes fl2 = fl_boxes ?p"
    using try_verdict [OF t] granted_boxes by (auto simp: row_step_def split: option.splits)
  moreover have "fl_boxes (note_skips e r now skips fl2) = fl_boxes fl2" using passes_notes [of fl2] by (simp add: row_step_def)
  ultimately show ?thesis using Some t by (auto simp: claim_next_turn_def Let_def)
qed (simp add: claim_next_turn_def)

end
