(* ===== verification/Fleet_Steps.thy ===== *)
theory Fleet_Steps
  imports Turn_Claim
begin

text \<open>
  The queue and the machines as one state machine: messages are queued, machines beat, are paused,
  woken and released, claim, and every operation on turns runs.  Over it: one turn at a time holds
  the lane of a conversation, a machine paused with no end takes nothing until somebody releases it,
  and no claim hands out a turn the status line says is waiting.
\<close>

section \<open>Steps\<close>

text \<open>\<open>U\<close>: the machines somebody releases by hand.\<close>

inductive fleet_step :: "nat set \<Rightarrow> fleet \<Rightarrow> fleet \<Rightarrow> bool" for U :: "nat set" where
  step_enqueue: "new_id \<notin> turn_id ` set (fl_turns fl) \<Longrightarrow> fleet_step U fl (fl\<lparr>fl_queue := snd (enqueue_turn rd g reach new_id now q (fl_queue fl))\<rparr>)"
| step_claim: "fleet_step U fl (snd (claim_next_turn e b lease exclude acts now fl))"
| step_turn: "turn_op (fl_db fl) db \<Longrightarrow> fleet_step U fl (set_world db fl)"
| step_beat: "fleet_step U fl (snd (heartbeat event_ts b bt now fl))"
| step_pause: "fleet_step U fl (pause rd reach covered b msg until who now fl)"
| step_release: "b \<in> U \<Longrightarrow> fleet_step U fl (unpause b fl)"
| step_wake: "fleet_step U fl (snd (wake_due_runners now fl))"

abbreviation fleet_run :: "nat set \<Rightarrow> fleet \<Rightarrow> fleet \<Rightarrow> bool" where
  "fleet_run U \<equiv> (fleet_step U)\<^sup>*\<^sup>*"


section \<open>One turn in the lane\<close>

definition lane_kept :: "turn \<Rightarrow> turn \<Rightarrow> bool" where
  "lane_kept t t' \<longleftrightarrow> turn_id t' = turn_id t \<and> chat_session t' = chat_session t \<and> (holds_lane t' \<longrightarrow> holds_lane t)"

definition lanes_ok :: "turndb \<Rightarrow> bool" where
  "lanes_ok db \<longleftrightarrow> (\<forall>t\<in>set (turns db). \<forall>u\<in>set (turns db). holds_lane t \<longrightarrow> holds_lane u
     \<longrightarrow> chat_session t = chat_session u \<longrightarrow> turn_id t = turn_id u)"

interpretation lanes: turn_ops_frame lane_kept "\<lambda>_ _. True" UNIV "set TERMINAL"
proof
  show "lane_kept t u \<Longrightarrow> lane_kept u v \<Longrightarrow> lane_kept t v" for t u v by (simp add: lane_kept_def)
  show "st \<in> set TERMINAL \<Longrightarrow> status t \<in> UNIV \<Longrightarrow> lane_kept t (close_fields s st msg opts now t)" for st t s msg opts now
    by (auto simp: lane_kept_def holds_lane_def close_fields_def TERMINAL_def EXECUTING_def)
  show "status t \<in> {Claimed, Running} \<Longrightarrow> lane_kept t (t\<lparr>status := Running, started_at := w, session_id := y\<rparr>)" for t w y
    by (auto simp: lane_kept_def holds_lane_def EXECUTING_def)
qed (auto simp: lane_kept_def holds_lane_def EXECUTING_def rider_waits_def retry_later_def unclaim_def)

lemma lanes_ok_kept: "lanes_ok db \<Longrightarrow> lanes.kept db db' \<Longrightarrow> lanes_ok db'"
proof -
  assume ok: "lanes_ok db" and k: "lanes.kept db db'"
  have old: "\<exists>t\<in>set (turns db). lane_kept t t'" if "t' \<in> set (turns db')" for t'
    using k that unfolding row_step_def by (metis list_all2_conv_all_nth in_set_conv_nth)
  show ?thesis
    unfolding lanes_ok_def
  proof (intro ballI impI)
    fix t' u' assume "t' \<in> set (turns db')" "u' \<in> set (turns db')" and h: "holds_lane t'" "holds_lane u'" "chat_session t' = chat_session u'"
    then obtain t u where "t \<in> set (turns db)" "lane_kept t t'" "u \<in> set (turns db)" "lane_kept u u'" using old by meson
    then show "turn_id t' = turn_id u'" using h ok unfolding lanes_ok_def lane_kept_def by metis
  qed
qed

lemma ids_kept: "lanes.kept db db' \<Longrightarrow> map turn_id (turns db') = map turn_id (turns db)"
  unfolding row_step_def by (drule conjunct1, induction rule: list_all2_induct) (auto simp: lane_kept_def)

lemma passed_lane_kept: "passed t t' \<Longrightarrow> lane_kept t t'"
proof -
  assume p: "passed t t'"
  have "status t' = status t" if "status t' \<in> set EXECUTING"
    using that by (intro passed_status [OF p]) (auto simp: EXECUTING_def)
  then show ?thesis using passed_id [OF p] passed_lane [OF p] unfolding lane_kept_def holds_lane_def by metis
qed

lemma passes_lanes: "passes db db' \<Longrightarrow> lanes.kept db db'"
  unfolding row_step_def by (auto intro: list.rel_mono_strong passed_lane_kept)

definition lanes_inv :: "turndb \<Rightarrow> bool" where
  "lanes_inv db \<longleftrightarrow> turn_ids_ok db \<and> lanes_ok db"

lemma lanes_inv_kept: "lanes_inv db \<Longrightarrow> lanes.kept db db' \<Longrightarrow> lanes_inv db'"
  using ids_kept lanes_ok_kept unfolding lanes_inv_def by metis

lemma lanes_inv_turns: "turns db' = turns db \<Longrightarrow> lanes_inv db' = lanes_inv db"
  by (simp add: lanes_inv_def lanes_ok_def)

lemma claim_refused: "claim_next_turn e b lease exclude acts now fl = (None, fl')
    \<Longrightarrow> fl' = fl \<or> (\<exists>r. passes (fl_db (record_poll r now fl)) (fl_db fl'))"
proof -
  assume claim: "claim_next_turn e b lease exclude acts now fl = (None, fl')"
  show ?thesis
  proof (cases "box_row fl b")
    case None
    then show ?thesis using claim by (simp add: claim_next_turn_def)
  next
    case (Some r)
    let ?p = "record_poll r now fl"
    obtain got skips fl2 where t: "try_candidates e r (ridable ?p r) (cap_from acts) lease now (candidates e ?p r exclude) [] ?p = (got, skips, fl2)"
      by (cases "try_candidates e r (ridable ?p r) (cap_from acts) lease now (candidates e ?p r exclude) [] ?p")
    show ?thesis
    proof (cases "may_ask ?p r now")
      case True
      then have "got = None" and fl': "fl' = note_skips e r now skips fl2"
        using claim Some t by (simp_all add: claim_next_turn_def)
      then have "passes (fl_db ?p) (fl_db fl2)" using try_verdict [OF t] by simp
      then show ?thesis using passing.kept_trans [OF _ passes_notes] unfolding fl' by blast
    next
      case False
      then have "fl' = ?p" using claim Some by (simp add: claim_next_turn_def)
      then show ?thesis using passing.kept_refl by blast
    qed
  qed
qed

lemma lanes_claim:
  assumes inv: "lanes_inv (fl_db fl)"
  shows "lanes_inv (fl_db (snd (claim_next_turn e b lease exclude acts now fl)))"
proof -
  obtain got fl' where c: "claim_next_turn e b lease exclude acts now fl = (got, fl')" by fastforce
  have poll: "lanes_inv (fl_db (record_poll r now fl))" for r
    using inv by (rule lanes_inv_turns [THEN iffD2, rotated]) simp
  show ?thesis
  proof (cases got)
    case None
    from claim_refused [OF c [unfolded None]] have "lanes_inv (fl_db fl')"
    proof
      assume "\<exists>r. passes (fl_db (record_poll r now fl)) (fl_db fl')"
      then obtain r where "passes (fl_db (record_poll r now fl)) (fl_db fl')" by blast
      then show ?thesis by (rule lanes_inv_kept [OF poll passes_lanes])
    qed (simp add: inv)
    then show ?thesis by (simp add: c)
  next
    case (Some n)
    have ids: "turn_ids_ok (fl_db fl)" using inv by (simp add: lanes_inv_def)
    obtain r t g fl1 fl2 where t: "turn_id t = n" "get_turn (fl_db (record_poll r now fl)) (turn_id t) = Some t"
      and g: "grants e r (ridable (record_poll r now fl) r) now lease t (record_poll r now fl) g fl1 fl2" and turns: "fl_turns fl' = fl_turns fl2"
      using claim_facts [OF ids c [unfolded Some]] by auto
    have inv1: "lanes_inv (fl_db fl1)" using g lanes_inv_kept [OF poll passes_lanes] by (auto simp: grants_def)
    then have ids1: "turn_ids_ok (fl_db fl1)" by (simp add: lanes_inv_def)
    let ?f = "taken r now lease (g_mode g) (g_basis g) (g_rides g) (g_cli g) (g_cap g)"
    obtain u where u: "get_turn (fl_db fl1) n = Some u" and free: "lane_is_free (fl_db fl1) u (g_rides g)"
      and moved: "fl_turns fl' = tbl_update (\<lambda>x. turn_id x = n) ?f (fl_turns fl1)"
      using granted_row [OF t(2) g] t(1) turns by auto
    have only: "turn_id v = n" if v: "v \<in> set (fl_turns fl1)" "holds_lane v" "holds_lane (?f u)" "chat_session v = chat_session u" for v
    proof -
      have none: "lane_holder (fl_db fl1) u = None" using free v(3) by (simp add: lane_is_free_def holds_lane_def)
      obtain s where "chat_session u = Some s" using v(3) by (auto simp: holds_lane_def)
      then show ?thesis using none v by (auto simp: lane_holder_def find_None_iff)
    qed
    have row: "x \<in> set (fl_turns fl1) \<and> turn_id x \<noteq> n \<or> x = ?f u" if x: "x \<in> set (fl_turns fl')" for x
    proof -
      obtain x0 where x0: "x0 \<in> set (fl_turns fl1)" "x = (if turn_id x0 = n then ?f x0 else x0)"
        using x unfolding moved tbl_update_def by auto
      then have "x0 = u" if "turn_id x0 = n" using get_turn_row [OF ids1 x0(1)] u that by simp
      then show ?thesis using x0 by auto
    qed
    have old: "lanes_ok (fl_db fl1)" using inv1 by (simp add: lanes_inv_def)
    have clash: False if "v \<in> set (fl_turns fl1) \<and> turn_id v \<noteq> n" "holds_lane v" "holds_lane (?f u)" "chat_session v = chat_session (?f u)" for v
      using only [of v] that by simp
    have "lanes_ok (fl_db fl')"
      unfolding lanes_ok_def
    proof (intro ballI impI)
      fix x y assume x: "x \<in> set (fl_turns fl')" and y: "y \<in> set (fl_turns fl')"
        and h: "holds_lane x" "holds_lane y" "chat_session x = chat_session y"
      from row [OF x] row [OF y] show "turn_id x = turn_id y"
      proof (elim disjE)
        assume "x \<in> set (fl_turns fl1) \<and> turn_id x \<noteq> n" "y \<in> set (fl_turns fl1) \<and> turn_id y \<noteq> n"
        then show ?thesis using old h unfolding lanes_ok_def by blast
      next
        assume "x \<in> set (fl_turns fl1) \<and> turn_id x \<noteq> n" "y = ?f u"
        then show ?thesis using clash [of x] h by blast
      next
        assume "x = ?f u" "y \<in> set (fl_turns fl1) \<and> turn_id y \<noteq> n"
        then show ?thesis using clash [of y] h by metis
      qed simp
    qed
    moreover have "turn_ids_ok (fl_db fl')"
      using ids1 unfolding moved by (simp add: tbl_update_def comp_def if_distrib cong: if_cong)
    ultimately show ?thesis by (simp add: c lanes_inv_def)
  qed
qed

interpretation arrivals: turn_insert_frame lane_kept "\<lambda>_ _. True" UNIV "set TERMINAL"
  by unfold_locales
    (auto simp: TERMINAL_def lane_kept_def holds_lane_def refuse_profile_def stamp_profile_def EXECUTING_def)

lemma lanes_insert:
  assumes inv: "lanes_inv (world ad)" and fresh: "turn_id t \<notin> turn_id ` set (turns (world ad))" and queued: "status t = Queued"
  shows "lanes_inv (world (insert_turn rd g reach t requested now ad))"
proof (rule lanes_inv_kept [OF _ arrivals.kept_insert])
  let ?db = "(world ad)\<lparr>turns := turns (world ad) @ [t]\<rparr>"
  have idle: "\<not> holds_lane t" using queued by (simp add: holds_lane_def EXECUTING_def)
  have "turn_ids_ok ?db" using inv fresh by (simp add: lanes_inv_def)
  moreover have "lanes_ok ?db"
    unfolding lanes_ok_def
  proof (intro ballI impI)
    fix x y assume "x \<in> set (turns ?db)" "y \<in> set (turns ?db)" and h: "holds_lane x" "holds_lane y" "chat_session x = chat_session y"
    then have "x \<in> set (turns (world ad))" "y \<in> set (turns (world ad))" using idle by auto
    then show "turn_id x = turn_id y" using inv h unfolding lanes_inv_def lanes_ok_def by blast
  qed
  ultimately show "lanes_inv ?db" by (simp add: lanes_inv_def)
qed

lemma lanes_pause: "lanes_inv (fl_db fl) \<Longrightarrow> lanes_inv (fl_db (pause rd reach covered b msg until who now fl))"
proof -
  assume inv: "lanes_inv (fl_db fl)"
  have "lanes_inv (fl_db (set_boxes f fl))" for f using inv by (rule lanes_inv_turns [THEN iffD2, rotated]) (simp add: set_boxes_def)
  moreover have "lanes.kept (world a) (world (snd (recheck_stranded rd reach covered b now a)))" for a
    by (rule lanes.kept_stranded) (simp_all add: TERMINAL_def)
  ultimately show ?thesis
    using inv lanes_inv_kept by (simp add: pause_def Let_def split: option.split) blast
qed

lemma boxes_only [simp]: "fl_turns (set_boxes f fl) = fl_turns fl" "fl_turns (unpause b fl) = fl_turns fl"
  by (simp_all add: set_boxes_def unpause_def)

lemma wake_induct:
  assumes start: "P fl"
    and one: "\<And>c fl r. P fl \<Longrightarrow> tbl_get rb_id c (fl_boxes fl) = Some r \<Longrightarrow> due_to_wake now r \<Longrightarrow> P (unpause c fl)"
  shows "P (snd (wake_due_runners now fl))"
proof -
  define wake where "wake c s = (case s of (woken, fl) \<Rightarrow> (case tbl_get rb_id c (fl_boxes fl) of None \<Rightarrow> (woken, fl)
      | Some r \<Rightarrow> if due_to_wake now r then (woken @ [c], unpause c fl) else (woken, fl)))" for c and s :: "nat list \<times> fleet"
  have wake: "P (snd (wake c s))" if "P (snd s)" for c s
    using one that by (cases s) (simp add: wake_def split: option.split)
  have "P (snd s) \<Longrightarrow> P (snd (fold wake cs s))" for cs s
    by (induction cs arbitrary: s) (simp_all add: wake)
  from this [of "([], fl)"] start show ?thesis by (simp add: wake_due_runners_def wake_def [abs_def] Let_def)
qed

lemma wake_turns [simp]: "fl_turns (snd (wake_due_runners now fl)) = fl_turns fl"
  by (rule wake_induct) simp_all

lemma lanes_beat: "lanes_inv (fl_db fl) \<Longrightarrow> lanes_inv (fl_db (snd (heartbeat event_ts b bt now fl)))"
proof -
  assume inv: "lanes_inv (fl_db fl)"
  let ?P = "renews event_ts b (b_active bt) now (fl_db fl)" and ?f = "\<lambda>t. t\<lparr>lease_expires_at := Some (now + DEFAULT_LEASE)\<rparr>"
  have "lanes.kept (fl_db fl) ((fl_db fl)\<lparr>turns := tbl_update ?P ?f (fl_turns fl)\<rparr>)"
    by (rule lanes.kept_update) (simp add: lane_kept_def holds_lane_def)
  with inv have "lanes_inv ((fl_db fl)\<lparr>turns := tbl_update ?P ?f (fl_turns fl)\<rparr>)" by (rule lanes_inv_kept)
  then show ?thesis
    by (rule lanes_inv_turns [THEN iffD2, rotated]) (simp add: heartbeat_def Let_def set_turns_def set_boxes_def)
qed

lemma lanes_step: "fleet_step U fl fl' \<Longrightarrow> lanes_inv (fl_db fl) \<Longrightarrow> lanes_inv (fl_db fl')"
proof (induction rule: fleet_step.induct)
  case (step_enqueue new_id fl rd g reach now q)
  then show ?case
    by (auto simp: enqueue_turn_def Let_def intro!: lanes_insert split: option.split) (simp_all add: new_turn_def)
next
  case (step_turn fl db)
  then show ?case using lanes_inv_kept lanes.kept_op by simp
qed (auto simp: lanes_claim lanes_beat lanes_pause intro: lanes_inv_turns [THEN iffD2])

text \<open>C2. Whatever is queued, claimed, paused, woken, renewed, run, finished, stopped or swept, in any
  order: two turns that execute in one conversation, neither of them riding another, are the same turn.
\<close>

theorem one_turn_holds_the_lane:
  assumes run: "fleet_run U fl fl'" and start: "lanes_inv (fl_db fl)"
    and t: "t \<in> set (fl_turns fl')" "status t \<in> set EXECUTING" "rides_turn t = None" "chat_session t = Some c"
    and u: "u \<in> set (fl_turns fl')" "status u \<in> set EXECUTING" "rides_turn u = None" "chat_session u = Some c"
  shows "t = u"
proof -
  have "lanes_inv (fl_db fl')" using run start by (induction rule: rtranclp_induct) (auto intro: lanes_step)
  then have ok: "lanes_ok (fl_db fl')" and ids: "turn_ids_ok (fl_db fl')" by (simp_all add: lanes_inv_def)
  have "holds_lane t" "holds_lane u" "chat_session t = chat_session u" using t u by (simp_all add: holds_lane_def)
  then have "turn_id t = turn_id u" using ok t(1) u(1) unfolding lanes_ok_def by blast
  then show ?thesis using get_turn_row [OF ids t(1)] get_turn_row [OF ids u(1)] by (metis option.inject)
qed

text \<open>A claim on the sample; the one turn in the lane is found from either end of the table.\<close>

lemma riding_run: "fleet_run {} riding_fleet (snd (claim_next_turn open_claims 1 DEFAULT_LEASE [] '''' 10 riding_fleet))"
  by (rule r_into_rtranclp) (rule step_claim)

lemma riding_inv: "lanes_inv (fl_db riding_fleet)"
  by code_simp

lemma one_turn_holds_the_lane_witness:
  "find holds_lane (fl_turns (snd (claim_next_turn open_claims 1 DEFAULT_LEASE [] '''' 10 riding_fleet)))
   = find holds_lane (rev (fl_turns (snd (claim_next_turn open_claims 1 DEFAULT_LEASE [] '''' 10 riding_fleet))))"
proof -
  define ts where "ts = fl_turns (snd (claim_next_turn open_claims 1 DEFAULT_LEASE [] '''' 10 riding_fleet))"
  have chat: "list_all (\<lambda>t. chat_session t = Some 1) ts" and held: "list_ex holds_lane ts" unfolding ts_def by code_simp+
  have "find holds_lane ts \<noteq> None" "find holds_lane (rev ts) \<noteq> None" using held by (auto simp: find_None_iff list_ex_iff)
  then obtain x y where f: "find holds_lane ts = Some x" "find holds_lane (rev ts) = Some y" by blast
  then have x: "x \<in> set ts" "holds_lane x" and y: "y \<in> set ts" "holds_lane y"
    using find_listed_row [OF f(1)] find_listed_row [OF f(2)] by simp_all
  have held1: "status z \<in> set EXECUTING" "rides_turn z = None" "chat_session z = Some 1" if "z \<in> set ts" "holds_lane z" for z
    using that chat by (simp_all add: holds_lane_def list_all_iff)
  have "x = y"
    by (rule one_turn_holds_the_lane [OF riding_run riding_inv, folded ts_def, OF x(1) held1 [OF x] y(1) held1 [OF y]])
  then show ?thesis using f by (simp add: ts_def)
qed

section \<open>A pause with no end\<close>

definition parked :: "nat \<Rightarrow> fleet \<Rightarrow> bool" where
  "parked b fl \<longleftrightarrow> (case tbl_get rb_id b (fl_boxes fl) of None \<Rightarrow> False | Some r \<Rightarrow> rb_paused r \<and> rb_unpause_at r = None)"

lemma parked_update:
  assumes "parked b fl" and "\<And>r. rb_id (f r) = rb_id r" and "\<And>r. rb_id r = b \<Longrightarrow> P r \<Longrightarrow> rb_paused r \<Longrightarrow> rb_unpause_at r = None
      \<Longrightarrow> rb_paused (f r) \<and> rb_unpause_at (f r) = None"
  shows "parked b (set_boxes (tbl_update P f) fl)"
proof -
  obtain r where r: "tbl_get rb_id b (fl_boxes fl) = Some r" "rb_paused r" "rb_unpause_at r = None"
    using assms(1) by (auto simp: parked_def split: option.splits)
  moreover have "rb_id r = b" using tbl_get_Some [OF r(1)] by simp
  ultimately show ?thesis
    using assms(3) by (simp add: parked_def set_boxes_def tbl_get_tbl_update [of P rb_id, OF assms(2)])
qed

lemma parked_boxes: "fl_boxes fl' = fl_boxes fl \<Longrightarrow> parked b fl' = parked b fl"
  by (simp add: parked_def)

lemma parked_lanes: "lanes.kept (fl_db fl) (fl_db fl') \<Longrightarrow> parked b fl' = parked b fl"
  by (simp add: row_step_def parked_def)

lemma parked_poll: "parked b fl \<Longrightarrow> parked b (record_poll r now fl)"
  by (simp add: record_poll_def parked_update)

lemma parked_claim: "parked b fl \<Longrightarrow> parked b (snd (claim_next_turn e c lease exclude acts now fl))"
  using claim_boxes [of e c lease exclude acts now fl] parked_poll by (auto simp: parked_def)

lemma stranded_boxes: "boxes (world (snd (recheck_stranded rd reach covered c now ad))) = boxes (world ad)"
  using lanes.kept_stranded [where ad = ad] unfolding row_step_def by (simp add: TERMINAL_def)

lemma parked_pause: "parked b fl \<Longrightarrow> parked b (pause rd reach covered c msg until who now fl)"
proof -
  assume p: "parked b fl"
  show ?thesis
  proof (cases "tbl_get rb_id c (fl_boxes fl)")
    case (Some r)
    show ?thesis
    proof (cases "pause_row msg until who now r")
      case (Some r')
      have id: "rb_id r' = rb_id r" using Some by (auto simp: pause_row_def Let_def split: if_splits option.splits)
      have c: "rb_id r = c" using tbl_get_Some [OF \<open>tbl_get rb_id c (fl_boxes fl) = Some r\<close>] by simp
      let ?fl1 = "set_boxes (tbl_update (\<lambda>x. rb_id x = c) (\<lambda>_. r')) fl"
      have same: "tbl_update (\<lambda>x. rb_id x = c) (\<lambda>x. if rb_id x = c then r' else x) = tbl_update (\<lambda>x. rb_id x = c) (\<lambda>_. r')"
        by (auto simp: tbl_update_def fun_eq_iff)
      have "parked b (set_boxes (tbl_update (\<lambda>x. rb_id x = c) (\<lambda>x. if rb_id x = c then r' else x)) fl)"
      proof (rule parked_update [OF p])
        show "rb_id (if rb_id x = c then r' else x) = rb_id x" for x :: runner_box using id c by simp
        fix x :: runner_box assume "rb_id x = b" "rb_id x = c"
        then have "rb_paused r" "rb_unpause_at r = None"
          using p \<open>tbl_get rb_id c (fl_boxes fl) = Some r\<close> by (simp_all add: parked_def)
        then show "rb_paused (if rb_id x = c then r' else x) \<and> rb_unpause_at (if rb_id x = c then r' else x) = None"
          using Some \<open>rb_id x = c\<close> by (auto simp: pause_row_def Let_def split: if_splits)
      qed
      then have "parked b ?fl1" by (simp only: same)
      moreover have "fl_boxes (?fl1\<lparr>fl_queue := snd (recheck_stranded rd reach covered c now (fl_queue ?fl1))\<rparr>) = fl_boxes ?fl1"
        by (simp add: stranded_boxes)
      then have "parked b (?fl1\<lparr>fl_queue := snd (recheck_stranded rd reach covered c now (fl_queue ?fl1))\<rparr>) = parked b ?fl1"
        by (rule parked_boxes)
      ultimately show ?thesis
        unfolding pause_def \<open>tbl_get rb_id c (fl_boxes fl) = Some r\<close> Some option.case Let_def
        by (simp only: if_split [where P = "parked b"] simp_thms)
    qed (use Some p in \<open>simp add: pause_def\<close>)
  qed (use p in \<open>simp add: pause_def\<close>)
qed

lemma parked_unpause: "parked b fl \<Longrightarrow> c \<noteq> b \<Longrightarrow> parked b (unpause c fl)"
  unfolding unpause_def by (rule parked_update) (auto simp: unpause_row_def)

lemma parked_wake: "parked b fl \<Longrightarrow> parked b (snd (wake_due_runners now fl))"
proof (erule wake_induct)
  fix c fl r assume p: "parked b fl" and r: "tbl_get rb_id c (fl_boxes fl) = Some r" "due_to_wake now r"
  have "c \<noteq> b" using p r by (auto simp: parked_def due_to_wake_def)
  then show "parked b (unpause c fl)" by (rule parked_unpause [OF p])
qed

lemma parked_beat: "parked b fl \<Longrightarrow> parked b (snd (heartbeat event_ts c bt now fl))"
proof -
  assume "parked b fl"
  then have "parked b (set_boxes (tbl_update (\<lambda>r. rb_id r = c) (beat_row bt now)) fl)"
    by (rule parked_update) (simp_all add: beat_row_def)
  then show ?thesis by (simp add: heartbeat_def Let_def set_turns_def parked_def)
qed

lemma parked_step: "fleet_step U fl fl' \<Longrightarrow> b \<notin> U \<Longrightarrow> parked b fl \<Longrightarrow> parked b fl'"
proof (induction rule: fleet_step.induct)
  case (step_enqueue new_id fl rd g reach now q)
  let ?t = "new_turn g new_id (scope_for (fl_db fl) q) now q"
  have "boxes (world (insert_turn rd g reach ?t (q_requested q) now (fl_queue fl))) = fl_boxes fl"
    using arrivals.kept_insert [of "fl_queue fl" ?t rd g reach "q_requested q" now] by (simp add: row_step_def)
  then have "fl_boxes (fl\<lparr>fl_queue := snd (enqueue_turn rd g reach new_id now q (fl_queue fl))\<rparr>) = fl_boxes fl"
    by (simp add: enqueue_turn_def Let_def split: option.split)
  then show ?case using step_enqueue.prems(2) parked_boxes by blast
next
  case (step_turn fl db)
  then show ?case using parked_lanes [of fl "set_world db fl"] lanes.kept_op by simp
next
  case (step_release c fl)
  then have "c \<noteq> b" by blast
  with step_release.prems(2) show ?case by (rule parked_unpause)
qed (rule parked_claim parked_beat parked_pause parked_wake, assumption)+

text \<open>C31. A machine paused with no end stays paused through everything but a release by hand - its own
  heartbeats, a second pause with an end, the clock that wakes machines - and asks for work in vain,
  whatever is pinned to it.
\<close>

theorem a_parked_machine_gets_nothing:
  assumes run: "fleet_run U fl fl'" and free: "b \<notin> U" and parked: "parked b fl"
  shows "parked b fl' \<and> fst (claim_next_turn e b lease exclude acts now fl') = None"
proof -
  have p: "parked b fl'" using run parked by (induction rule: rtranclp_induct) (auto intro: parked_step [OF _ free])
  then obtain r where r: "box_row fl' b = Some r" "rb_paused r" by (auto simp: parked_def box_row_def split: option.splits)
  then have "live_status now r \<noteq> ''online''" by (auto simp: live_status_def split: option.split)
  then have "\<not> may_ask (record_poll r now fl') r now" by (simp add: may_ask_def)
  then show ?thesis using p r by (simp add: claim_next_turn_def Let_def)
qed

lemma a_parked_machine_gets_nothing_witness:
  "fst (claim_next_turn open_claims 1 DEFAULT_LEASE [] '''' 10
     (snd (wake_due_runners 9 (pause blind_redactor no_reach (\<lambda>_ _. []) 1 ''parked'' None (Some 1) 5 sample_fleet)))) = None"
proof -
  let ?p = "pause blind_redactor no_reach (\<lambda>_ _. []) 1 ''parked'' None (Some 1) 5 sample_fleet"
  have "parked 1 ?p" by code_simp
  moreover have "fleet_run {} ?p (snd (wake_due_runners 9 ?p))" by (rule r_into_rtranclp) (rule step_wake)
  ultimately show ?thesis using a_parked_machine_gets_nothing by blast
qed

section \<open>What a turn waits behind\<close>

lemma passes_cli:
  assumes db: "passes db db'"
  shows "allowed_clis db' (t\<lparr>capability := s\<rparr>) = allowed_clis db t"
proof -
  have "chat_cli db' t = chat_cli db t"
  proof (cases "chat_session t")
    case (Some c)
    have "same_chat x y \<Longrightarrow> ch_cli y = ch_cli x" for x y unfolding same_chat_def by (auto dest: arg_cong [of _ _ ch_cli])
    then show ?thesis using passes_chat [OF db, of c] Some
      by (cases "tbl_get ch_id c (chats db)"; cases "tbl_get ch_id c (chats db')") (simp_all add: chat_cli_def)
  qed (simp add: chat_cli_def)
  moreover have "chat_cli db' (t\<lparr>capability := s\<rparr>) = chat_cli db' t" by (simp add: chat_cli_def)
  moreover have "acting_agent db' (t\<lparr>capability := s\<rparr>) = acting_agent db' t" by (simp add: acting_agent_def split: option.split)
  ultimately show ?thesis by (simp add: allowed_clis_def passes_agent [OF db])
qed

lemma passes_session_cli:
  assumes db: "passes db db'" and x: "get_turn db n = Some x"
  shows "session_cli db' n = session_cli db n"
proof -
  obtain x' where x': "get_turn db' n = Some x'" "passed x x'" using passes_get [OF db x] by blast
  have "t_cli x' = t_cli x" using x'(2) unfolding passed_def place_def by (auto dest: arg_cong [of _ _ t_cli])
  then show ?thesis using x x'(1) by (simp add: session_cli_def)
qed

lemma session_cli_named [simp]: "session_cli db n \<noteq> ''''"
  by (simp add: session_cli_def CLAUDE_CODE_def split: option.split)

lemma busy_holder: "chat_session t = Some c \<Longrightarrow> c \<in> set (busy_session_ids db) \<longleftrightarrow> lane_holder db t \<noteq> None"
  by (force simp: busy_session_ids_def List.map_filter_def lane_holder_def find_None_iff holds_lane_def image_iff)

lemma ridden_holds_lane:
  assumes inv: "lanes_inv (fl_db fl)" and h: "lane_holder (fl_db fl) t = Some h" and rides: "ridable fl r (chat_session t) = Some n"
  shows "turn_id h = n \<and> can_carry fl r h \<and> delivers_midturn r \<and> \<not> dialog_up (fl_db fl) (the (chat_session t))
    \<and> chat_session h = chat_session t \<and> get_turn (fl_db fl) n = Some h"
proof -
  obtain s x where s: "chat_session t = Some s" "delivers_midturn r" "\<not> dialog_up (fl_db fl) s"
    and x: "x \<in> set (fl_turns fl)" "turn_id x = n" "can_carry fl r x" "chat_session x = Some s"
    using ridable_Some [OF rides] by blast
  have h': "h \<in> set (fl_turns fl)" "holds_lane h" "chat_session h = Some s"
    using find_listed_row [of _ "fl_turns fl" h] h s(1) unfolding lane_holder_def by auto
  have "holds_lane x" using x by (auto simp: can_carry_def holds_lane_def EXECUTING_def)
  then have same: "turn_id x = turn_id h" using inv h' x(1,4) unfolding lanes_inv_def lanes_ok_def by metis
  then have "x = h" using inv get_turn_row x(1) h'(1) unfolding lanes_inv_def by (metis option.inject)
  then show ?thesis using s x h' inv get_turn_row [of "fl_db fl" h] unfolding lanes_inv_def by auto
qed

text \<open>C30. The claim and the status line.  No machine is handed a turn that the status line says waits behind
  another: nothing blocked it (\<open>blocking_turn\<close>), unless it is a transfer's own turn, or the claim itself
  lifted its restricted profile.  When a turn was running in its conversation, the claim was that turn's
  own machine's and the turn it was handed rides the running one, on a CLI the follow-up may run on.
  So a follow-up that may not run on the CLI of the running turn is handed to nobody until that turn ends,
  whatever the status line answers.\<close>

theorem a_claimed_turn_was_not_blocked:
  assumes inv: "lanes_inv (fl_db fl)" and claim: "claim_next_turn e b lease exclude acts now fl = (Some n, fl')"
    and t: "get_turn (fl_db fl) n = Some t"
  shows "(blocking_turn fl t = None \<or> Some n \<in> ho_turn ` set (moving fl)
      \<or> (capability t \<noteq> '''' \<and> map_option capability (get_turn (fl_db fl') n) = Some ''''))
    \<and> (\<forall>h. lane_holder (fl_db fl) t = Some h \<longrightarrow> claimed_by h = Some b
        \<and> map_option rides_turn (get_turn (fl_db fl') n) = Some (Some (turn_id h))
        \<and> session_cli (fl_db fl) (turn_id h) \<in> set (allowed_clis (fl_db fl) t))"
proof -
  let ?p = "\<lambda>r. record_poll r now fl"
  have ids: "turn_ids_ok (fl_db fl)" using inv by (simp add: lanes_inv_def)
  obtain r t0 g fl1 fl2 where r: "box_row fl b = Some r" and n0: "turn_id t0 = n" and t0: "get_turn (fl_db fl) n = Some t0"
    and cand: "is_candidate e (?p r) r exclude t0"
    and g0: "grants e r (ridable (?p r) r) now lease t0 (?p r) g fl1 fl2" and turns: "fl_turns fl' = fl_turns fl2"
    using claim_facts [OF ids claim] by blast
  have n: "turn_id t = n" and "t0 = t" using t t0 n0 by simp_all
  note g = g0 [unfolded \<open>t0 = t\<close>] and c = cand [unfolded \<open>t0 = t\<close> is_candidate_def Let_def]
  have rb: "rb_id r = b" using box_row_id [OF r] by blast
  have tp: "get_turn (fl_db (?p r)) (turn_id t) = Some t" using t n by simp
  from granted_row [OF tp g] obtain u where u: "get_turn (fl_db fl1) n = Some u" "capability u = g_stamped g"
    and moved: "fl_turns fl' = tbl_update (\<lambda>x. turn_id x = n)
        (taken r now lease (g_mode g) (g_basis g) (g_rides g) (g_cli g) (g_cap g)) (fl_turns fl1)"
    using n turns by auto
  have got: "get_turn (fl_db fl') n = Some (taken r now lease (g_mode g) (g_basis g) (g_rides g) (g_cli g) (g_cap g) u)"
    using u(1) tbl_get_Some [OF u(1)]
    unfolding moved tbl_get_tbl_update [of "\<lambda>x. turn_id x = n" turn_id, OF taken_simps(1)] by simp
  have k: "g_rides g = ridable (?p r) r (chat_session t)" "passes (fl_db (?p r)) (fl_db fl1)"
    "may_deliver (fl_db fl1) (t\<lparr>capability := g_stamped g\<rparr>) (g_cli g) (g_rides g)"
    using g unfolding grants_def by blast+
  have inv': "lanes_inv (fl_db (?p r))" using inv lanes_inv_turns [OF poll_frame(1)] by blast
  have dialog: "dialog_up (fl_db (?p r)) x = dialog_up (fl_db fl) x" for x by (simp add: dialog_up_def)
  have lane: "lane_holder (fl_db (?p r)) t = lane_holder (fl_db fl) t" unfolding lane_holder_def poll_frame(1) ..
  have holder: "claimed_by h = Some b \<and> g_rides g = Some (turn_id h) \<and> session_cli (fl_db fl) (turn_id h) \<in> set (allowed_clis (fl_db fl) t)
      \<and> g_stamped g = '''' \<and> (capability t = '''' \<longrightarrow> may_ride fl t h)"
    if h: "lane_holder (fl_db fl) t = Some h" for h
  proof -
    obtain s where s: "chat_session t = Some s" using h by (auto simp: lane_holder_def split: option.splits)
    have "s \<in> set (busy_session_ids (fl_db (?p r)))" using busy_holder [OF s, of "fl_db (?p r)"] lane h by simp
    then obtain m where m: "ridable (?p r) r (chat_session t) = Some m" using c s by auto
    note rid = ridden_holds_lane [OF inv' _ m, unfolded lane, OF h]
    have del: "g_cli g = session_cli (fl_db fl1) m" "g_stamped g = ''''" "\<not> midturn_failed t"
      using k(1,3) m by (auto simp: may_deliver_def midturn_failed_def)
    have "session_cli (fl_db fl1) m = session_cli (fl_db (?p r)) m" using passes_session_cli [OF k(2)] rid by blast
    then have cli: "g_cli g = session_cli (fl_db fl) m" using del(1) by (simp add: session_cli_def)
    obtain fl3 where fl3: "passes (fl_db (?p r)) (fl_db fl3)" "cli_for fl3 r (t\<lparr>capability := g_stamped g\<rparr>) = Some (g_cli g)"
      using g by (auto simp: grants_def)
    then have "choose_cli (fl_db fl3) (t\<lparr>capability := g_stamped g\<rparr>) (reported r) = Some (g_cli g)"
      using cli by (simp add: cli_for_def split: if_splits) (metis session_cli_named)
    then have "g_cli g \<in> set (allowed_clis (fl_db fl3) (t\<lparr>capability := g_stamped g\<rparr>))"
      unfolding choose_cli_def by (metis find_listed_row)
    then have "g_cli g \<in> set (allowed_clis (fl_db (?p r)) t)" unfolding passes_cli [OF fl3(1)] .
    moreover have "allowed_clis (fl_db (?p r)) t = allowed_clis (fl_db fl) t"
      by (simp add: allowed_clis_def poll_agent chat_cli_def cong: option.case_cong)
    moreover have "capability t = '''' \<longrightarrow> may_ride fl t h"
      using rid del(3) s c rb r by (auto simp: may_ride_def can_carry_def dialog)
    ultimately show ?thesis using rid cli del k(1) m rb by (auto simp: can_carry_def)
  qed
  have clear: "blocking_turn fl t = None \<or> Some n \<in> ho_turn ` set (moving fl)
      \<or> (capability t \<noteq> '''' \<and> map_option capability (get_turn (fl_db fl') n) = Some '''')"
  proof (cases "transfer_holding fl t")
    case None
    then show ?thesis using holder u(2) by (auto simp: blocking_turn_def got split: option.split)
  next
    case (Some x)
    then obtain s where "chat_session t = Some s" "s \<in> ho_session ` set (moving fl)"
      by (auto simp: transfer_holding_def dest!: first_max_Some split: option.splits if_splits)
    moreover have "\<not> transfer_held fl t" using c unfolding poll_transfers by blast
    ultimately show ?thesis using n by (simp add: transfer_held_def)
  qed
  with holder show ?thesis by (simp add: got)
qed

text \<open>A second message that asks for another CLI than the one the running turn is on: nothing blocks it, and
  no claim takes it.\<close>

definition other_cli_fleet :: fleet where
  "other_cli_fleet = set_world ((fl_db riding_fleet)\<lparr>
     boxes := [plain_box 1 ''emdash''\<lparr>rb_caps := [(''midturn'', JNum 1),
       (''clis'', JObj [(''claude-code'', JObj [(''signed_in'', JBool True)]), (''codex'', JObj [(''signed_in'', JBool True)])])]\<rparr>],
     agent_rows := map (\<lambda>a. a\<lparr>ag_clis := [''claude-code'', ''codex'']\<rparr>) (agent_rows (fl_db riding_fleet)),
     turns := [plain_turn ''aaaaaaaa-1''\<lparr>chat_session := Some 1, t_cli := ''claude-code''\<rparr>,
       plain_turn ''bbbbbbbb-2''\<lparr>chat_session := Some 1, status := Queued, claimed_by := None, lease_expires_at := None,
         requested_cli := ''codex''\<rparr>]\<rparr>) riding_fleet"

lemma other_cli_inv: "lanes_inv (fl_db other_cli_fleet)"
  by code_simp

lemma other_cli_facts:
  "get_turn (fl_db other_cli_fleet) ''bbbbbbbb-2'' = Some (fl_turns other_cli_fleet ! 1)"
  "lane_holder (fl_db other_cli_fleet) (fl_turns other_cli_fleet ! 1) = Some (fl_turns other_cli_fleet ! 0)"
  "session_cli (fl_db other_cli_fleet) (turn_id (fl_turns other_cli_fleet ! 0))
     \<notin> set (allowed_clis (fl_db other_cli_fleet) (fl_turns other_cli_fleet ! 1))"
  "blocking_turn other_cli_fleet (fl_turns other_cli_fleet ! 1) = None"
  by code_simp+

lemma a_claimed_turn_was_not_blocked_witness:
  "claimed_by (fl_turns riding_fleet ! 0) = Some 1
   \<and> blocking_turn other_cli_fleet (fl_turns other_cli_fleet ! 1) = None
   \<and> (\<forall>e b lease exclude acts now. fst (claim_next_turn e b lease exclude acts now other_cli_fleet) \<noteq> Some ''bbbbbbbb-2'')"
proof (intro conjI allI notI other_cli_facts(4))
  let ?c = "claim_next_turn open_claims 1 DEFAULT_LEASE [] '''' 10 riding_fleet"
  have "?c = (Some ''bbbbbbbb-2'', snd ?c)" using riding_claim(1) by (simp add: prod_eq_iff)
  moreover have "get_turn (fl_db riding_fleet) ''bbbbbbbb-2'' = Some (fl_turns riding_fleet ! 1)"
    "lane_holder (fl_db riding_fleet) (fl_turns riding_fleet ! 1) = Some (fl_turns riding_fleet ! 0)" by code_simp+
  ultimately show "claimed_by (fl_turns riding_fleet ! 0) = Some 1"
    using a_claimed_turn_was_not_blocked [OF riding_inv] by blast
next
  fix e b lease exclude acts now
  let ?c = "claim_next_turn e b lease exclude acts now other_cli_fleet"
  assume "fst ?c = Some ''bbbbbbbb-2''"
  then have "?c = (Some ''bbbbbbbb-2'', snd ?c)" by (simp add: prod_eq_iff)
  from a_claimed_turn_was_not_blocked [OF other_cli_inv this other_cli_facts(1)] other_cli_facts(2,3) show False by blast
qed

end
