(* ===== verification/Approvals.thy ===== *)
theory Approvals
  imports Workspace_Invites
begin

text \<open>
  Approval requests (\<open>apps/approvals\<close>: \<open>models.py\<close>, \<open>services.py\<close>, \<open>authority.py\<close>, \<open>delivery.py\<close>,
  \<open>kinds/__init__.py\<close>, \<open>alerts_approval.py\<close>, the texts of \<open>cards.py\<close> and the routes of \<open>api.py\<close>): a request
  names a kind from a registry, carries that kind's params, and is decided once by someone who holds the
  authority the kind asks for; approving runs the kind's handler as the approver inside a savepoint.

  A kind is a record of its class's methods, as \<open>Kind\<close> is an abstract class; the theory
  \<open>Approval_Kinds\<close> gives the registered ones.  Each operation takes the registry, the time and what the
  channels answer (\<open>courier\<close>: a push, a Slack message or a mail goes out or does not).  The refusals are
  values; their texts are not modelled, but for the line that says how a request ended, which every
  channel shows.
\<close>

section \<open>What a request acts on\<close>

record person =
  pn_id :: user_id
  pn_email :: string
  pn_full_name :: string
  pn_username :: string
  pn_active :: bool

record agent_login =
  al_id :: nat
  al_slug :: slug
  al_name :: string
  al_workspace :: slug
  al_owner :: "user_id option"
  al_user :: "user_id option"

record agent_admin =
  ad_agent :: nat
  ad_user :: user_id
  ad_granted_by :: "user_id option"
  ad_granted_at :: instant

text \<open>The organisation: memberships and invites, the people, the agents and their admins, and what the
  departure sweep's revokers change.\<close>

record 'g org =
  og_access :: accessdb
  og_people :: "person list"
  og_agents :: "agent_login list"
  og_admins :: "agent_admin list"
  og_grants :: 'g

abbreviation og_members :: "'g org \<Rightarrow> wsdb" where
  "og_members w \<equiv> members_db (og_access w)"

definition email_of :: "'g org \<Rightarrow> user_id \<Rightarrow> string" where
  "email_of w u = (case tbl_get pn_id u (og_people w) of None \<Rightarrow> '''' | Some p \<Rightarrow> py_lower (pn_email p))"

definition is_active :: "'g org \<Rightarrow> user_id \<Rightarrow> bool" where
  "is_active w u = (case tbl_get pn_id u (og_people w) of None \<Rightarrow> False | Some p \<Rightarrow> pn_active p)"

definition user_by_email :: "'g org \<Rightarrow> string \<Rightarrow> user_id option" where
  "user_by_email w email = map_option pn_id
     (first_min pn_id (filter (\<lambda>p. py_lower (pn_email p) = py_lower (py_strip email) \<and> pn_active p) (og_people w)))"

text \<open>\<open>cards.who\<close>: what a person is called.\<close>

definition who :: "'g org \<Rightarrow> user_id option \<Rightarrow> string" where
  "who w u = (case u of None \<Rightarrow> ''someone''
     | Some n \<Rightarrow> (case tbl_get pn_id n (og_people w) of None \<Rightarrow> ''someone''
         | Some p \<Rightarrow> if py_strip (pn_full_name p) \<noteq> '''' then py_strip (pn_full_name p)
             else if pn_email p \<noteq> '''' then pn_email p else pn_username p))"


section \<open>Requests and their audit trail\<close>

datatype approval_status = AprPending | AprDone | AprFailed | AprDeclined | AprCancelled | AprExpired

definition APR_CLOSED :: "approval_status list" where
  "APR_CLOSED = [AprDone, AprFailed, AprDeclined, AprCancelled, AprExpired]"

record evidence =
  ev_quote :: string
  ev_who :: string
  ev_source_url :: string

record ('j, 'r) request =
  rq_id :: nat
  rq_workspace :: slug
  rq_kind :: string
  rq_params :: 'j
  rq_title :: string
  rq_summary :: string
  rq_plan :: "string list"
  rq_if_declined :: string
  rq_scopes :: "string list"
  rq_reason :: string
  rq_evidence :: "evidence list"
  rq_source_url :: string
  rq_agent :: "nat option"
  rq_user :: "user_id option"
  rq_for :: "user_id option"
  rq_status :: approval_status
  rq_decided_by :: "user_id option"
  rq_decided_at :: "instant option"
  rq_via :: string
  rq_comment :: string
  rq_result :: "'r option"
  rq_error :: string
  rq_expires :: "instant option"
  rq_key :: "string option"
  rq_created :: instant
  rq_updated :: instant

definition is_pending :: "('j, 'r) request \<Rightarrow> bool" where
  "is_pending r \<longleftrightarrow> rq_status r = AprPending"

datatype event_kind = EvCreated | EvDelivered | EvApproved | EvDeclined | EvExecuted | EvFailed | EvCancelled | EvExpired

datatype channel = Push | Slack | Email

definition CHANNELS :: "channel list" where "CHANNELS = [Push, Slack, Email]"
definition FIRST_WAVE :: "channel list" where "FIRST_WAVE = [Push, Slack]"

datatype 'r event_payload = FiledAs string "slug option" | ApprovedVia string
  | ClosedAs string string "'r option" | SentCopies "(channel \<times> nat) list"

record 'r approval_event =
  ae_request :: nat
  ae_kind :: event_kind
  ae_actor :: "user_id option"
  ae_payload :: "'r event_payload"
  ae_at :: instant

record copy =
  cp_request :: nat
  cp_user :: user_id
  cp_channel :: channel
  cp_ref :: string
  cp_created :: instant
  cp_settled :: "instant option"

record ('g, 'j, 'r) desk =
  requests :: "('j, 'r) request list"
  trail :: "'r approval_event list"
  copies :: "copy list"
  next_request :: nat
  org :: "'g org"

section \<open>Kinds\<close>

datatype kind_error = UnknownKind | BadParams string | NoWorkspace | NotAnEmail | NotMember | NoAgent

datatype exec_error = ExecRefused string | HandlerBroke

record described =
  ds_workspace :: slug
  ds_title :: string
  ds_summary :: string
  ds_plan :: "string list"
  ds_scopes :: "string list"
  ds_about :: string

text \<open>A kind's class: its texts, the validation of its params and their dump (its pydantic model), and its
  methods.  \<open>kd_recipients\<close> is given the approvers it starts from.  \<open>approvers\<close> is no field: it is the one
  definition below, which the kinds of \<open>Approval_Kinds\<close> inherit; a kind of another application that
  overrides it (\<open>apps/local_apps/release_kind.py\<close>) is not such a record.\<close>

record ('g, 'j, 'p, 'r) kind =
  kd_slug :: string
  kd_validate :: "'j \<Rightarrow> string + 'p"
  kd_dump :: "'p \<Rightarrow> 'j"
  kd_describe :: "'g org \<Rightarrow> 'p \<Rightarrow> kind_error + described"
  kd_may :: "'g org \<Rightarrow> actor \<Rightarrow> 'p \<Rightarrow> described \<Rightarrow> kind_error + bool"
  kd_recipients :: "'g org \<Rightarrow> 'p \<Rightarrow> described \<Rightarrow> user_id list \<Rightarrow> kind_error + user_id list"
  kd_execute :: "instant \<Rightarrow> actor \<Rightarrow> 'p \<Rightarrow> ('j, 'r) request \<Rightarrow> 'g org \<Rightarrow> (exec_error + 'r) \<times> 'g org"

type_synonym ('g, 'j, 'p, 'r) registry = "('g, 'j, 'p, 'r) kind list"

definition register_kind :: "('g, 'j, 'p, 'r) kind \<Rightarrow> ('g, 'j, 'p, 'r) registry \<Rightarrow> ('g, 'j, 'p, 'r) registry option" where
  "register_kind k ks = (if kd_slug k = '''' \<or> kd_slug k \<in> kd_slug ` set ks then None else Some (ks @ [k]))"

definition get_kind :: "('g, 'j, 'p, 'r) registry \<Rightarrow> string \<Rightarrow> kind_error + ('g, 'j, 'p, 'r) kind" where
  "get_kind ks s = (case tbl_get kd_slug s ks of None \<Rightarrow> Inl UnknownKind | Some k \<Rightarrow> Inr k)"

definition parse_kind :: "('g, 'j, 'p, 'r) registry \<Rightarrow> string \<Rightarrow> 'j \<Rightarrow> kind_error + ('g, 'j, 'p, 'r) kind \<times> 'p" where
  "parse_kind ks s params = (case get_kind ks s of Inl e \<Rightarrow> Inl e
     | Inr k \<Rightarrow> (case kd_validate k params of Inl problems \<Rightarrow> Inl (BadParams problems) | Inr p \<Rightarrow> Inr (k, p)))"

text \<open>Every caller parses and then describes.\<close>

definition read_kind :: "('g, 'j, 'p, 'r) registry \<Rightarrow> 'g org \<Rightarrow> string \<Rightarrow> 'j
    \<Rightarrow> kind_error + ('g, 'j, 'p, 'r) kind \<times> 'p \<times> described" where
  "read_kind ks w s params = (case parse_kind ks s params of Inl e \<Rightarrow> Inl e
     | Inr (k, p) \<Rightarrow> (case kd_describe k w p of Inl e \<Rightarrow> Inl e | Inr d \<Rightarrow> Inr (k, p, d)))"

definition bots :: "'g org \<Rightarrow> user_id list" where
  "bots w = List.map_filter al_user (og_agents w)"

text \<open>The people who could approve: the workspace's members at its gate, but for the agents' logins,
  those who are gone and the person the request is about.\<close>

definition approver_row :: "('g, 'j, 'p, 'r) kind \<Rightarrow> 'g org \<Rightarrow> 'p \<Rightarrow> described \<Rightarrow> effective \<Rightarrow> kind_error + user_id list" where
  "approver_row k w p d m =
     (if ds_about d \<noteq> '''' \<and> email_of w (e_user m) = py_lower (ds_about d) then Inr []
      else case kd_may k w (uncapped (e_user m)) p d of Inl e \<Rightarrow> Inl e
        | Inr ok \<Rightarrow> Inr (if ok then [e_user m] else []))"

definition approvers :: "('g, 'j, 'p, 'r) kind \<Rightarrow> 'g org \<Rightarrow> 'p \<Rightarrow> described \<Rightarrow> kind_error + user_id list" where
  "approvers k w p d =
     (if ds_workspace d \<notin> ws_slug ` set (workspaces (og_members w)) then Inr []
      else case try_map (approver_row k w p d)
          (filter (\<lambda>m. e_user m \<notin> set (bots w) \<and> is_active w (e_user m)) (effective_memberships (og_members w) (ds_workspace d)))
        of Inl e \<Rightarrow> Inl e | Inr us \<Rightarrow> Inr (sort (concat us)))"

text \<open>Who is told by default: the workspace's own members among the approvers, else all of them.\<close>

definition direct_first :: "'g org \<Rightarrow> 'p \<Rightarrow> described \<Rightarrow> user_id list \<Rightarrow> kind_error + user_id list" where
  "direct_first w p d us =
     (let direct = filter (\<lambda>u. row_of (og_members w) u (ds_workspace d) \<noteq> None) us
      in Inr (if direct \<noteq> [] then direct else us))"

text \<open>\<open>authority.may_approve\<close>: the kind's answer for this person, now.\<close>

definition may_approve :: "('g, 'j, 'p, 'r) registry \<Rightarrow> 'g org \<Rightarrow> actor \<Rightarrow> ('j, 'r) request \<Rightarrow> bool" where
  "may_approve ks w a r =
     (if \<not> authenticated a then False
      else case read_kind ks w (rq_kind r) (rq_params r) of Inl _ \<Rightarrow> False
        | Inr (k, p, d) \<Rightarrow> (case kd_may k w a p d of Inl _ \<Rightarrow> False | Inr ok \<Rightarrow> ok))"

definition approvers_of :: "('g, 'j, 'p, 'r) registry \<Rightarrow> 'g org \<Rightarrow> ('j, 'r) request \<Rightarrow> kind_error + user_id list" where
  "approvers_of ks w r = (case read_kind ks w (rq_kind r) (rq_params r) of Inl e \<Rightarrow> Inl e
     | Inr (k, p, d) \<Rightarrow> approvers k w p d)"


section \<open>Sending copies\<close>

text \<open>What the channels answer: a send's reference (none when it did not go out, or raised), whether the
  update of a sent copy went through, and who wants approval cards.\<close>

record ('j, 'r) courier =
  co_send :: "channel \<Rightarrow> ('j, 'r) request \<Rightarrow> user_id \<Rightarrow> string option"
  co_settle :: "copy \<Rightarrow> ('j, 'r) request \<Rightarrow> bool"
  co_wants :: "user_id \<Rightarrow> bool"

definition MAX_RECIPIENTS :: nat where "MAX_RECIPIENTS = 5"
definition BACKSTOP_WINDOW :: int where "BACKSTOP_WINDOW = seconds (6 * 3600)"

definition recipients :: "('g, 'j, 'p, 'r) registry \<Rightarrow> 'g org \<Rightarrow> ('j, 'r) request \<Rightarrow> kind_error + user_id list" where
  "recipients ks w r = (case rq_for r of Some u \<Rightarrow> Inr [u]
     | None \<Rightarrow> (case read_kind ks w (rq_kind r) (rq_params r) of Inl e \<Rightarrow> Inl e
         | Inr (k, p, d) \<Rightarrow> (case approvers k w p d of Inl e \<Rightarrow> Inl e
             | Inr us \<Rightarrow> map_sum id (take MAX_RECIPIENTS) (kd_recipients k w p d us))))"

definition have_channels :: "nat \<Rightarrow> user_id \<Rightarrow> copy list \<Rightarrow> channel list" where
  "have_channels n u cs = map cp_channel (filter (\<lambda>c. cp_request c = n \<and> cp_user c = u) cs)"

definition record_copy :: "nat \<Rightarrow> user_id \<Rightarrow> channel \<Rightarrow> string \<Rightarrow> instant \<Rightarrow> copy list \<Rightarrow> copy list" where
  "record_copy n u ch ref now cs =
     (if ch \<in> set (have_channels n u cs) then cs
      else cs @ [\<lparr> cp_request = n, cp_user = u, cp_channel = ch, cp_ref = ref, cp_created = now, cp_settled = None \<rparr>])"

text \<open>One channel to one person, unless they have that copy; the channels that went out are collected.\<close>

definition send_copy :: "('j, 'r) courier \<Rightarrow> ('j, 'r) request \<Rightarrow> instant \<Rightarrow> user_id \<Rightarrow> channel
    \<Rightarrow> copy list \<times> channel list \<Rightarrow> copy list \<times> channel list" where
  "send_copy co r now u ch st =
     (case st of (cs, out) \<Rightarrow>
        if ch \<in> set (have_channels (rq_id r) u cs) then st
        else (case co_send co ch r u of None \<Rightarrow> st
          | Some ref \<Rightarrow> (record_copy (rq_id r) u ch ref now cs, out @ [ch])))"

definition send_to :: "('j, 'r) courier \<Rightarrow> ('j, 'r) request \<Rightarrow> instant \<Rightarrow> user_id
    \<Rightarrow> copy list \<times> channel list \<Rightarrow> copy list \<times> channel list" where
  "send_to co r now u st =
     (let st1 = fold (send_copy co r now u) FIRST_WAVE st
      in if have_channels (rq_id r) u (fst st1) = [] then send_copy co r now u Email st1 else st1)"

definition log_event :: "nat \<Rightarrow> event_kind \<Rightarrow> user_id option \<Rightarrow> 'r event_payload \<Rightarrow> instant
    \<Rightarrow> ('g, 'j, 'r) desk \<Rightarrow> ('g, 'j, 'r) desk" where
  "log_event n k who' payload now s = s\<lparr>trail := trail s @
     [\<lparr> ae_request = n, ae_kind = k, ae_actor = who', ae_payload = payload, ae_at = now \<rparr>]\<rparr>"

text \<open>One delivery is one step.  The code's \<open>deliver\<close> is no transaction: a backstop that starts while the first
  delivery of the same request is still sending is a run this model does not have.\<close>

definition deliver :: "('g, 'j, 'p, 'r) registry \<Rightarrow> ('j, 'r) courier \<Rightarrow> instant \<Rightarrow> nat
    \<Rightarrow> ('g, 'j, 'r) desk \<Rightarrow> (kind_error + (channel \<times> nat) list) \<times> ('g, 'j, 'r) desk" where
  "deliver ks co now n s =
     (case tbl_get rq_id n (requests s) of None \<Rightarrow> (Inr [], s)
      | Some r \<Rightarrow>
        if \<not> is_pending r then (Inr [], s)
        else (case recipients ks (org s) r of Inl e \<Rightarrow> (Inl e, s)
          | Inr us \<Rightarrow>
            let (cs, out) = fold (send_to co r now) (filter (co_wants co) us) (copies s, []);
                sent = map (\<lambda>c. (c, count_list out c)) CHANNELS;
                s' = s\<lparr>copies := cs\<rparr>
            in (Inr sent, if out \<noteq> [] then log_event n EvDelivered None (SentCopies sent) now s' else s')))"

definition deliver_safely :: "('g, 'j, 'p, 'r) registry \<Rightarrow> ('j, 'r) courier \<Rightarrow> instant \<Rightarrow> nat
    \<Rightarrow> ('g, 'j, 'r) desk \<Rightarrow> ('g, 'j, 'r) desk" where
  "deliver_safely ks co now n s = snd (deliver ks co now n s)"

text \<open>\<open>settle\<close>: every sent copy is brought up to date once; one whose update fails stays for later.\<close>

definition settle_copies :: "('j, 'r) courier \<Rightarrow> instant \<Rightarrow> nat \<Rightarrow> ('g, 'j, 'r) desk \<Rightarrow> nat \<times> ('g, 'j, 'r) desk" where
  "settle_copies co now n s =
     (case tbl_get rq_id n (requests s) of None \<Rightarrow> (0, s)
      | Some r \<Rightarrow>
        if is_pending r then (0, s)
        else let (m, cs) = tbl_cas (\<lambda>c. cp_request c = n \<and> cp_settled c = None \<and> co_settle co c r)
                 (\<lambda>c. c\<lparr>cp_settled := Some now\<rparr>) (copies s)
             in (m, s\<lparr>copies := cs\<rparr>))"

definition deliver_missed :: "('g, 'j, 'p, 'r) registry \<Rightarrow> ('j, 'r) courier \<Rightarrow> instant
    \<Rightarrow> ('g, 'j, 'r) desk \<Rightarrow> nat \<times> ('g, 'j, 'r) desk" where
  "deliver_missed ks co now s =
     (let missed = take 50 (sort (map rq_id (filter (\<lambda>r. is_pending r \<and> rq_created r \<ge> now - BACKSTOP_WINDOW
              \<and> rq_id r \<notin> cp_request ` set (copies s)) (requests s))))
      in (length missed, fold (deliver_safely ks co now) missed s))"

section \<open>Refusals\<close>

datatype refusal = BadDecision | SignInFirst | NoRequest nat | AlreadyDecided string | ExpiredUndecided
  | NoLongerValid kind_error | CannotApproveThis | OnlyFilerOrApprover
  | CannotFile kind_error | ForSomeoneWhoCannot string | NobodyCanApprove
  | Uncaught kind_error

text \<open>\<open>ApprovalError.status\<close>; an exception nobody catches is a 500.\<close>

primrec refusal_status :: "refusal \<Rightarrow> nat" where
  "refusal_status BadDecision = 422"
| "refusal_status SignInFirst = 401"
| "refusal_status (NoRequest n) = 404"
| "refusal_status (AlreadyDecided line) = 409"
| "refusal_status ExpiredUndecided = 409"
| "refusal_status (NoLongerValid e) = 409"
| "refusal_status CannotApproveThis = 403"
| "refusal_status OnlyFilerOrApprover = 403"
| "refusal_status (CannotFile e) = 422"
| "refusal_status (ForSomeoneWhoCannot e) = 422"
| "refusal_status NobodyCanApprove = 422"
| "refusal_status (Uncaught e) = 500"

definition VIA :: "(string \<times> string) list" where
  "VIA = [(''slack'', ''Slack''), (''web'', ''the web''), (''email'', ''email''), (''push'', ''a notification''),
     (''alert'', ''an alert''), (''api'', ''the API'')]"

definition outcome_line :: "'g org \<Rightarrow> ('j, 'r) request \<Rightarrow> string" where
  "outcome_line w r =
     (let by' = who w (rq_decided_by r);
          via = (case map_of VIA (rq_via r) of None \<Rightarrow> rq_via r | Some v \<Rightarrow> v);
          place = (if via \<noteq> '''' then '' via '' @ via else '''')
      in case rq_status r of
        AprDone \<Rightarrow> ''Approved by '' @ by' @ place @ '' and done.''
      | AprFailed \<Rightarrow> ''Approved by '' @ by' @ place @ '', but it could not be done: '' @ rq_error r
      | AprDeclined \<Rightarrow> ''Declined by '' @ by' @ place @ ''.''
      | AprCancelled \<Rightarrow> ''Withdrawn before anyone decided it.''
      | AprExpired \<Rightarrow> ''Expired without a decision.''
      | AprPending \<Rightarrow> ''Waiting for a decision.'')"

definition already_decided :: "'g org \<Rightarrow> ('j, 'r) request \<Rightarrow> string" where
  "already_decided w r = ''Already decided. '' @ outcome_line w r"


section \<open>Filing\<close>

definition DEFAULT_TTL :: int where "DEFAULT_TTL = days 7"
definition MAX_TTL :: int where "MAX_TTL = days 30"
definition QUOTE_MAX :: nat where "QUOTE_MAX = 1500"
definition WHO_MAX :: nat where "WHO_MAX = 200"
definition REASON_MAX :: nat where "REASON_MAX = 4000"

definition IF_DECLINED :: string where
  "IF_DECLINED = ''Nothing happens. The request is closed.''"

definition kept_evidence :: "evidence list \<Rightarrow> evidence list" where
  "kept_evidence items = take 5 (List.map_filter (\<lambda>e. let quote = py_strip (ev_quote e) in
     if quote = '''' then None
     else Some \<lparr> ev_quote = take QUOTE_MAX quote, ev_who = take WHO_MAX (ev_who e),
                 ev_source_url = take 500 (ev_source_url e) \<rparr>) items)"

record 'j filing =
  fl_kind :: string
  fl_params :: 'j
  fl_agent :: "nat option"
  fl_user :: "user_id option"
  fl_reason :: string
  fl_evidence :: "evidence list"
  fl_source_url :: string
  fl_for_email :: string
  fl_hours :: nat
  fl_key :: string

text \<open>\<open>expires_in_hours\<close> of none and 0 both read as the default; no key is the empty one.\<close>

definition ttl_of :: "nat \<Rightarrow> int" where
  "ttl_of hours = (if hours \<noteq> 0 then min (seconds (int hours * 3600)) MAX_TTL else DEFAULT_TTL)"

definition keyed_request :: "string \<Rightarrow> ('g, 'j, 'r) desk \<Rightarrow> ('j, 'r) request option" where
  "keyed_request key s = (if key = '''' then None else find (\<lambda>r. rq_key r = Some key) (requests s))"

definition for_user :: "'g org \<Rightarrow> string \<Rightarrow> user_id list \<Rightarrow> (user_id option) option" where
  "for_user w email us =
     (if email = '''' then Some None
      else case find (\<lambda>u. email_of w u = py_lower (py_strip email)) us of None \<Rightarrow> None | Some u \<Rightarrow> Some (Some u))"

definition new_request :: "('g, 'j, 'p, 'r) kind \<Rightarrow> 'p \<Rightarrow> described \<Rightarrow> user_id option \<Rightarrow> nat \<Rightarrow> instant \<Rightarrow> 'j filing
    \<Rightarrow> ('j, 'r) request" where
  "new_request k p d target n now f =
     \<lparr> rq_id = n, rq_workspace = ds_workspace d, rq_kind = kd_slug k, rq_params = kd_dump k p,
       rq_title = take 300 (ds_title d), rq_summary = ds_summary d, rq_plan = ds_plan d,
       rq_if_declined = IF_DECLINED, rq_scopes = ds_scopes d,
       rq_reason = take REASON_MAX (py_strip (fl_reason f)), rq_evidence = kept_evidence (fl_evidence f),
       rq_source_url = take 500 (fl_source_url f), rq_agent = fl_agent f, rq_user = fl_user f,
       rq_for = target, rq_status = AprPending, rq_decided_by = None, rq_decided_at = None, rq_via = '''',
       rq_comment = '''', rq_result = None, rq_error = '''', rq_expires = Some (now + ttl_of (fl_hours f)),
       rq_key = (if fl_key f = '''' then None else Some (fl_key f)), rq_created = now, rq_updated = now \<rparr>"

definition agent_slug :: "'g org \<Rightarrow> nat option \<Rightarrow> slug option" where
  "agent_slug w n = (case n of None \<Rightarrow> None | Some a \<Rightarrow> map_option al_slug (tbl_get al_id a (og_agents w)))"

definition insert_request :: "('j, 'r) request \<Rightarrow> ('g, 'j, 'r) desk \<Rightarrow> ('g, 'j, 'r) desk" where
  "insert_request r s = s\<lparr>requests := requests s @ [r], next_request := Suc (next_request s)\<rparr>"

text \<open>\<open>create\<close>.  The lookup by key and the insert run one after the other here, so the branch that
  catches a concurrent filing of the same key does not arise.  The alert raised after the commit belongs
  to \<open>apps/attention\<close>.\<close>

definition create_request :: "('g, 'j, 'p, 'r) registry \<Rightarrow> ('j, 'r) courier \<Rightarrow> instant \<Rightarrow> 'j filing
    \<Rightarrow> ('g, 'j, 'r) desk \<Rightarrow> (refusal + ('j, 'r) request \<times> bool) \<times> ('g, 'j, 'r) desk" where
  "create_request ks co now f s =
     (case keyed_request (fl_key f) s of Some existing \<Rightarrow> (Inr (existing, False), s)
      | None \<Rightarrow>
        (case read_kind ks (org s) (fl_kind f) (fl_params f) of Inl e \<Rightarrow> (Inl (CannotFile e), s)
         | Inr (k, p, d) \<Rightarrow>
           (case approvers k (org s) p d of Inl e \<Rightarrow> (Inl (Uncaught e), s)
            | Inr us \<Rightarrow>
              (case for_user (org s) (fl_for_email f) us of
                 None \<Rightarrow> (Inl (ForSomeoneWhoCannot (fl_for_email f)), s)
               | Some target \<Rightarrow>
                 if us = [] then (Inl NobodyCanApprove, s)
                 else let r = new_request k p d target (next_request s) now f;
                          s' = log_event (rq_id r) EvCreated (fl_user f)
                                 (FiledAs (kd_slug k) (agent_slug (org s) (fl_agent f))) now (insert_request r s)
                      in (Inr (r, True), deliver_safely ks co now (rq_id r) s')))))"


section \<open>Closing\<close>

definition user_pk :: "actor \<Rightarrow> user_id option" where
  "user_pk a = (if authenticated a then Some (actor_id a) else None)"

definition closed_fields :: "approval_status \<Rightarrow> user_id option \<Rightarrow> string \<Rightarrow> string \<Rightarrow> 'r option \<Rightarrow> string \<Rightarrow> instant
    \<Rightarrow> ('j, 'r) request \<Rightarrow> ('j, 'r) request" where
  "closed_fields st who' via comment result err now r =
     r\<lparr>rq_status := st, rq_decided_by := who', rq_decided_at := Some now, rq_via := via, rq_comment := comment,
       rq_result := result, rq_error := err, rq_updated := now\<rparr>"

definition close_request :: "nat \<Rightarrow> approval_status \<Rightarrow> event_kind \<Rightarrow> user_id option \<Rightarrow> string \<Rightarrow> string \<Rightarrow> 'r option \<Rightarrow> string
    \<Rightarrow> instant \<Rightarrow> ('g, 'j, 'r) desk \<Rightarrow> ('g, 'j, 'r) desk" where
  "close_request n st ev who' via comment result err now s =
     log_event n ev who' (ClosedAs via err result) now
       (s\<lparr>requests := tbl_update (\<lambda>r. rq_id r = n) (closed_fields st who' via comment result err now) (requests s)\<rparr>)"

text \<open>The approve branch: the event, the handler in its savepoint, and how it closes.\<close>

definition run_approved :: "('g, 'j, 'p, 'r) kind \<Rightarrow> 'p \<Rightarrow> ('j, 'r) request \<Rightarrow> actor \<Rightarrow> string \<Rightarrow> string \<Rightarrow> instant
    \<Rightarrow> ('g, 'j, 'r) desk \<Rightarrow> ('g, 'j, 'r) desk" where
  "run_approved k p r a comment via now s =
     (let s1 = log_event (rq_id r) EvApproved (user_pk a) (ApprovedVia via) now s in
      case atomic (kd_execute k now a p r) (org s1) of
        (Inl (ExecRefused why), w) \<Rightarrow>
          close_request (rq_id r) AprFailed EvFailed (user_pk a) via comment None why now (s1\<lparr>org := w\<rparr>)
      | (Inl HandlerBroke, w) \<Rightarrow>
          close_request (rq_id r) AprFailed EvFailed (user_pk a) via comment None
            ''Something went wrong running this. Nothing was changed.'' now (s1\<lparr>org := w\<rparr>)
      | (Inr result, w) \<Rightarrow>
          close_request (rq_id r) AprDone EvExecuted (user_pk a) via comment (Some result) '''' now (s1\<lparr>org := w\<rparr>))"

text \<open>The transaction of \<open>decide\<close>.  A request past its time is closed and then refused: the refusal leaves
  the transaction, and takes the close with it.\<close>

definition decide_locked :: "('g, 'j, 'p, 'r) registry \<Rightarrow> nat \<Rightarrow> actor \<Rightarrow> string \<Rightarrow> string \<Rightarrow> string \<Rightarrow> instant
    \<Rightarrow> ('g, 'j, 'r) desk \<Rightarrow> (refusal + nat) \<times> ('g, 'j, 'r) desk" where
  "decide_locked ks n a decision comment via now s =
     (case tbl_get rq_id n (requests s) of None \<Rightarrow> (Inl (NoRequest n), s)
      | Some r \<Rightarrow>
        if \<not> is_pending r then (Inl (AlreadyDecided (already_decided (org s) r)), s)
        else if (case rq_expires r of None \<Rightarrow> False | Some t \<Rightarrow> t \<le> now)
        then (Inl ExpiredUndecided, close_request n AprExpired EvExpired None '''' '''' None '''' now s)
        else (case read_kind ks (org s) (rq_kind r) (rq_params r) of Inl e \<Rightarrow> (Inl (NoLongerValid e), s)
          | Inr (k, p, d) \<Rightarrow>
            (case kd_may k (org s) a p d of Inl e \<Rightarrow> (Inl (Uncaught e), s)
             | Inr ok \<Rightarrow>
               if \<not> ok then (Inl CannotApproveThis, s)
               else (Inr n, if decision = ''decline''
                   then close_request n AprDeclined EvDeclined (user_pk a) via (py_strip comment) None '''' now s
                   else run_approved k p r a (py_strip comment) via now s))))"

definition settle_safely :: "('j, 'r) courier \<Rightarrow> instant \<Rightarrow> nat \<Rightarrow> ('g, 'j, 'r) desk \<Rightarrow> ('g, 'j, 'r) desk" where
  "settle_safely co now n s = snd (settle_copies co now n s)"

definition decide_request :: "('g, 'j, 'p, 'r) registry \<Rightarrow> ('j, 'r) courier \<Rightarrow> instant \<Rightarrow> nat \<Rightarrow> actor \<Rightarrow> string \<Rightarrow> string \<Rightarrow> string
    \<Rightarrow> ('g, 'j, 'r) desk \<Rightarrow> (refusal + nat) \<times> ('g, 'j, 'r) desk" where
  "decide_request ks co now n a decision comment via s =
     (if decision \<notin> {''approve'', ''decline''} then (Inl BadDecision, s)
      else if \<not> authenticated a then (Inl SignInFirst, s)
      else case atomic (decide_locked ks n a decision comment via now) s of
        (Inl e, s') \<Rightarrow> (Inl e, s') | (Inr m, s') \<Rightarrow> (Inr m, settle_safely co now n s'))"

text \<open>\<open>cancel\<close>: whoever filed it, in person or as the agent's login, or someone who could approve it.\<close>

definition filed_by :: "'g org \<Rightarrow> actor \<Rightarrow> ('j, 'r) request \<Rightarrow> bool" where
  "filed_by w a r \<longleftrightarrow> rq_user r = user_pk a \<or>
     (case rq_agent r of None \<Rightarrow> False
      | Some n \<Rightarrow> (case tbl_get al_id n (og_agents w) of None \<Rightarrow> False | Some ag \<Rightarrow> al_user ag = user_pk a))"

definition cancel_locked :: "('g, 'j, 'p, 'r) registry \<Rightarrow> nat \<Rightarrow> actor \<Rightarrow> instant
    \<Rightarrow> ('g, 'j, 'r) desk \<Rightarrow> (refusal + nat) \<times> ('g, 'j, 'r) desk" where
  "cancel_locked ks n a now s =
     (case tbl_get rq_id n (requests s) of None \<Rightarrow> (Inl (NoRequest n), s)
      | Some r \<Rightarrow>
        if \<not> is_pending r then (Inl (AlreadyDecided (already_decided (org s) r)), s)
        else if \<not> (filed_by (org s) a r \<or> may_approve ks (org s) a r) then (Inl OnlyFilerOrApprover, s)
        else (Inr n, close_request n AprCancelled EvCancelled (user_pk a) '''' '''' None '''' now s))"

definition cancel_request :: "('g, 'j, 'p, 'r) registry \<Rightarrow> ('j, 'r) courier \<Rightarrow> instant \<Rightarrow> nat \<Rightarrow> actor
    \<Rightarrow> ('g, 'j, 'r) desk \<Rightarrow> (refusal + nat) \<times> ('g, 'j, 'r) desk" where
  "cancel_request ks co now n a s =
     (case atomic (cancel_locked ks n a now) s of
        (Inl e, s') \<Rightarrow> (Inl e, s') | (Inr m, s') \<Rightarrow> (Inr m, settle_safely co now n s'))"

text \<open>\<open>expire_due\<close>: up to a hundred overdue requests, newest first (the model's ordering), each in a
  transaction of its own.\<close>

definition past_due :: "instant \<Rightarrow> ('j, 'r) request \<Rightarrow> bool" where
  "past_due now r \<longleftrightarrow> is_pending r \<and> (case rq_expires r of None \<Rightarrow> False | Some t \<Rightarrow> t \<le> now)"

definition newest_requests :: "('j, 'r) request list \<Rightarrow> ('j, 'r) request list" where
  "newest_requests rs = sort_key (\<lambda>r. - rq_created r) (sort_key (\<lambda>r. - int (rq_id r)) rs)"

definition expire_one :: "('j, 'r) courier \<Rightarrow> instant \<Rightarrow> nat \<Rightarrow> nat \<times> ('g, 'j, 'r) desk \<Rightarrow> nat \<times> ('g, 'j, 'r) desk" where
  "expire_one co now n st =
     (case st of (m, s) \<Rightarrow>
        (case tbl_get rq_id n (requests s) of None \<Rightarrow> (m, s)
         | Some r \<Rightarrow> if \<not> is_pending r then (m, s)
             else (Suc m, settle_safely co now n (close_request n AprExpired EvExpired None '''' '''' None '''' now s))))"

definition expire_due :: "('j, 'r) courier \<Rightarrow> instant \<Rightarrow> ('g, 'j, 'r) desk \<Rightarrow> nat \<times> ('g, 'j, 'r) desk" where
  "expire_due co now s =
     fold (expire_one co now) (take 100 (map rq_id (newest_requests (filter (past_due now) (requests s))))) (0, s)"

section \<open>The routes and the alert\<close>

text \<open>\<open>_visible\<close>: a request in a workspace the caller's request does not reach is not there
  (\<open>visible_agent_workspaces\<close> is given).\<close>

definition visible_request :: "slug set \<Rightarrow> nat \<Rightarrow> ('g, 'j, 'r) desk \<Rightarrow> ('j, 'r) request option" where
  "visible_request ws n s = (case tbl_get rq_id n (requests s) of None \<Rightarrow> None
     | Some r \<Rightarrow> if rq_workspace r \<in> ws then Some r else None)"

definition decide_route :: "slug set \<Rightarrow> ('g, 'j, 'p, 'r) registry \<Rightarrow> ('j, 'r) courier \<Rightarrow> instant \<Rightarrow> nat \<Rightarrow> actor \<Rightarrow> string \<Rightarrow> string
    \<Rightarrow> ('g, 'j, 'r) desk \<Rightarrow> (refusal + nat) \<times> ('g, 'j, 'r) desk" where
  "decide_route ws ks co now n a decision comment s =
     (case visible_request ws n s of None \<Rightarrow> (Inl (NoRequest n), s)
      | Some _ \<Rightarrow> decide_request ks co now n a decision comment ''web'' s)"

definition cancel_route :: "slug set \<Rightarrow> ('g, 'j, 'p, 'r) registry \<Rightarrow> ('j, 'r) courier \<Rightarrow> instant \<Rightarrow> nat \<Rightarrow> actor
    \<Rightarrow> ('g, 'j, 'r) desk \<Rightarrow> (refusal + nat) \<times> ('g, 'j, 'r) desk" where
  "cancel_route ws ks co now n a s =
     (case visible_request ws n s of None \<Rightarrow> (Inl (NoRequest n), s) | Some _ \<Rightarrow> cancel_request ks co now n a s)"

text \<open>Filing: an editor of the request's workspace, or the agent's own login; a workspace out of reach reads
  as one that is not there.\<close>

datatype filing_refusal = FilingRefused refusal | WorkspaceNotFound slug

definition filing_of :: "'g org \<Rightarrow> actor \<Rightarrow> 'j filing \<Rightarrow> 'j filing" where
  "filing_of w a f = (case find (\<lambda>ag. al_user ag = Some (actor_id a)) (og_agents w) of
       None \<Rightarrow> f\<lparr>fl_agent := None, fl_user := Some (actor_id a)\<rparr>
     | Some ag \<Rightarrow> f\<lparr>fl_agent := Some (al_id ag), fl_user := None\<rparr>)"

definition file_route :: "slug set \<Rightarrow> ('g, 'j, 'p, 'r) registry \<Rightarrow> ('j, 'r) courier \<Rightarrow> instant \<Rightarrow> actor \<Rightarrow> 'j filing
    \<Rightarrow> ('g, 'j, 'r) desk \<Rightarrow> (filing_refusal + nat \<times> ('j, 'r) request) \<times> ('g, 'j, 'r) desk" where
  "file_route ws ks co now a f s =
     (case read_kind ks (org s) (fl_kind f) (fl_params f) of Inl e \<Rightarrow> (Inl (FilingRefused (CannotFile e)), s)
      | Inr (k, p, d) \<Rightarrow>
        if ds_workspace d \<notin> ws \<or> can (og_members (org s)) a (ds_workspace d) AGENT_WORK \<noteq> Inr True
        then (Inl (WorkspaceNotFound (ds_workspace d)), s)
        else (case create_request ks co now (filing_of (org s) a f) s of
            (Inl e, s') \<Rightarrow> (Inl (FilingRefused e), s')
          | (Inr (r, created), s') \<Rightarrow> (Inr (if created then 201 else 200, r), s')))"

definition LIST_MAX :: nat where "LIST_MAX = 100"

text \<open>The listing loop: what the caller could approve among the newest 400 of their workspaces.\<close>

definition list_route :: "slug set \<Rightarrow> ('g, 'j, 'p, 'r) registry \<Rightarrow> actor \<Rightarrow> string \<Rightarrow> string \<Rightarrow> ('g, 'j, 'r) desk
    \<Rightarrow> ('j, 'r) request list" where
  "list_route ws ks a status scope s =
     take LIST_MAX (filter (\<lambda>r. (status = ''all'' \<or> is_pending r) \<and> (scope = '''' \<or> scope \<in> set (rq_scopes r))
         \<and> may_approve ks (org s) a r)
       (take 400 (sort_key (\<lambda>r. - rq_created r) (filter (\<lambda>r. rq_workspace r \<in> ws) (requests s)))))"

text \<open>The card's button, and the alert's: shown to those who could approve a pending request.\<close>

definition can_decide :: "('g, 'j, 'p, 'r) registry \<Rightarrow> 'g org \<Rightarrow> actor option \<Rightarrow> ('j, 'r) request \<Rightarrow> bool" where
  "can_decide ks w viewer r \<longleftrightarrow> is_pending r \<and> (case viewer of None \<Rightarrow> False | Some a \<Rightarrow> may_approve ks w a r)"

definition alert_request :: "nat option \<Rightarrow> ('g, 'j, 'r) desk \<Rightarrow> ('j, 'r) request option" where
  "alert_request subject s = (case subject of None \<Rightarrow> None
     | Some n \<Rightarrow> (case tbl_get rq_id n (requests s) of None \<Rightarrow> None | Some r \<Rightarrow> if is_pending r then Some r else None))"

definition alert_actions :: "('g, 'j, 'p, 'r) registry \<Rightarrow> nat option \<Rightarrow> actor \<Rightarrow> ('g, 'j, 'r) desk \<Rightarrow> string list" where
  "alert_actions ks subject a s = (case alert_request subject s of None \<Rightarrow> []
     | Some r \<Rightarrow> if may_approve ks (org s) a r then [''approve'', ''decline'', ''open''] else [])"

datatype alert_error = NoLongerWaiting | NoHandler string | AlertRefused refusal

definition alert_perform :: "('g, 'j, 'p, 'r) registry \<Rightarrow> ('j, 'r) courier \<Rightarrow> instant \<Rightarrow> nat option \<Rightarrow> actor \<Rightarrow> string
    \<Rightarrow> ('g, 'j, 'r) desk \<Rightarrow> (alert_error + unit) \<times> ('g, 'j, 'r) desk" where
  "alert_perform ks co now subject a action s =
     (case alert_request subject s of None \<Rightarrow> (Inl NoLongerWaiting, s)
      | Some r \<Rightarrow>
        if action \<notin> {''approve'', ''decline''} then (Inl (NoHandler action), s)
        else (case decide_request ks co now (rq_id r) a action '''' ''alert'' s of
            (Inl e, s') \<Rightarrow> (Inl (AlertRefused e), s') | (Inr m, s') \<Rightarrow> (Inr (), s')))"

text \<open>\<open>apps.py\<close>: the backstop tick sends what nobody was told of and then expires what is due.\<close>

definition backstop :: "('g, 'j, 'p, 'r) registry \<Rightarrow> ('j, 'r) courier \<Rightarrow> instant \<Rightarrow> ('g, 'j, 'r) desk \<Rightarrow> ('g, 'j, 'r) desk" where
  "backstop ks co now s = snd (expire_due co now (snd (deliver_missed ks co now s)))"


section \<open>What each operation leaves alone\<close>

lemma log_event_simps [simp]:
  "requests (log_event n k w pl now s) = requests s" "org (log_event n k w pl now s) = org s"
  "copies (log_event n k w pl now s) = copies s" "next_request (log_event n k w pl now s) = next_request s"
  "trail (log_event n k w pl now s) = trail s @ [\<lparr>ae_request = n, ae_kind = k, ae_actor = w, ae_payload = pl, ae_at = now\<rparr>]"
  by (simp_all add: log_event_def)

lemma insert_request_simps [simp]:
  "requests (insert_request r s) = requests s @ [r]" "org (insert_request r s) = org s"
  "copies (insert_request r s) = copies s" "next_request (insert_request r s) = Suc (next_request s)"
  "trail (insert_request r s) = trail s"
  by (simp_all add: insert_request_def)

lemma closed_fields_simps [simp]:
  "rq_id (closed_fields st w via c x err now r) = rq_id r"
  "rq_status (closed_fields st w via c x err now r) = st"
  "rq_decided_by (closed_fields st w via c x err now r) = w"
  "rq_decided_at (closed_fields st w via c x err now r) = Some now"
  "rq_via (closed_fields st w via c x err now r) = via"
  "rq_result (closed_fields st w via c x err now r) = x"
  "rq_error (closed_fields st w via c x err now r) = err"
  "rq_expires (closed_fields st w via c x err now r) = rq_expires r"
  by (simp_all add: closed_fields_def)

lemma close_request_simps [simp]:
  "requests (close_request n st ev w via c x err now s) =
     tbl_update (\<lambda>r. rq_id r = n) (closed_fields st w via c x err now) (requests s)"
  "org (close_request n st ev w via c x err now s) = org s"
  "copies (close_request n st ev w via c x err now s) = copies s"
  "next_request (close_request n st ev w via c x err now s) = next_request s"
  "trail (close_request n st ev w via c x err now s) = trail s @
     [\<lparr>ae_request = n, ae_kind = ev, ae_actor = w, ae_payload = ClosedAs via err x, ae_at = now\<rparr>]"
  by (simp_all add: close_request_def)

lemma settle_simps [simp]:
  "requests (settle_safely co now n s) = requests s" "org (settle_safely co now n s) = org s"
  "next_request (settle_safely co now n s) = next_request s" "trail (settle_safely co now n s) = trail s"
  by (auto simp: settle_safely_def settle_copies_def tbl_cas_def Let_def split: option.splits)

text \<open>What is told of a request beside its deliveries.\<close>

definition story :: "nat \<Rightarrow> 'r approval_event list \<Rightarrow> 'r approval_event list" where
  "story n tr = filter (\<lambda>e. ae_request e = n \<and> ae_kind e \<noteq> EvDelivered) tr"

lemma story_append [simp]: "story n (xs @ ys) = story n xs @ story n ys"
  by (simp add: story_def)

lemma story_Cons: "story n (e # tr) = (if ae_request e = n \<and> ae_kind e \<noteq> EvDelivered then [e] else []) @ story n tr"
  by (simp add: story_def)

lemma story_Nil [simp]: "story n [] = []"
  by (simp add: story_def)

lemma deliver_simps [simp]:
  "requests (deliver_safely ks co now n s) = requests s" "org (deliver_safely ks co now n s) = org s"
  "next_request (deliver_safely ks co now n s) = next_request s"
  "story m (trail (deliver_safely ks co now n s)) = story m (trail s)"
  by (auto simp: deliver_safely_def deliver_def Let_def story_Cons split: option.splits sum.splits prod.splits)

lemma deliver_trail_ids:
  "e \<in> set (trail (deliver_safely ks co now n s)) \<Longrightarrow> e \<in> set (trail s) \<or> ae_request e = n \<and> n \<in> rq_id ` set (requests s)"
  by (auto simp: deliver_safely_def deliver_def Let_def dest: tbl_get_Some split: option.splits sum.splits prod.splits if_splits)

text \<open>How an approval ends: done by the handler, or failed with the organisation as it was.\<close>

definition approved_event :: "nat \<Rightarrow> actor \<Rightarrow> string \<Rightarrow> instant \<Rightarrow> 'r approval_event" where
  "approved_event n a via now = \<lparr>ae_request = n, ae_kind = EvApproved, ae_actor = user_pk a, ae_payload = ApprovedVia via, ae_at = now\<rparr>"

lemma run_approved_done:
  assumes "kd_execute k now a p r (org s) = (Inr x, w)"
  shows "run_approved k p r a c via now s = close_request (rq_id r) AprDone EvExecuted (user_pk a) via c (Some x) '''' now
           (s\<lparr>org := w, trail := trail s @ [approved_event (rq_id r) a via now]\<rparr>)"
  using assms by (simp add: run_approved_def atomic_def Let_def log_event_def approved_event_def)

lemma run_approved_failed:
  assumes "kd_execute k now a p r (org s) = (Inl e, w)"
  shows "\<exists>err. run_approved k p r a c via now s = close_request (rq_id r) AprFailed EvFailed (user_pk a) via c None err now
           (s\<lparr>trail := trail s @ [approved_event (rq_id r) a via now]\<rparr>)"
  using assms by (cases e) (auto simp: run_approved_def atomic_def Let_def log_event_def approved_event_def)

lemma run_approved_cases:
  obtains (handled) x w where "kd_execute k now a p r (org s) = (Inr x, w)"
    "run_approved k p r a c via now s = close_request (rq_id r) AprDone EvExecuted (user_pk a) via c (Some x) '''' now
           (s\<lparr>org := w, trail := trail s @ [approved_event (rq_id r) a via now]\<rparr>)"
  | (refused) e w err where "kd_execute k now a p r (org s) = (Inl e, w)"
    "run_approved k p r a c via now s = close_request (rq_id r) AprFailed EvFailed (user_pk a) via c None err now
           (s\<lparr>trail := trail s @ [approved_event (rq_id r) a via now]\<rparr>)"
proof (cases "kd_execute k now a p r (org s)")
  case (Pair res w)
  then show ?thesis
    by (cases res) (metis refused run_approved_failed, metis handled run_approved_done)
qed

text \<open>The one successful way through \<open>decide\<close>.\<close>

definition passed_due :: "instant \<Rightarrow> ('j, 'r) request \<Rightarrow> bool" where
  "passed_due now r \<longleftrightarrow> (case rq_expires r of None \<Rightarrow> False | Some t \<Rightarrow> t \<le> now)"

definition decidable :: "('g, 'j, 'p, 'r) registry \<Rightarrow> nat \<Rightarrow> actor \<Rightarrow> instant \<Rightarrow> ('g, 'j, 'r) desk
    \<Rightarrow> ('j, 'r) request \<Rightarrow> ('g, 'j, 'p, 'r) kind \<Rightarrow> 'p \<Rightarrow> described \<Rightarrow> bool" where
  "decidable ks n a now s r k p d \<longleftrightarrow> authenticated a \<and> tbl_get rq_id n (requests s) = Some r \<and> is_pending r
     \<and> \<not> passed_due now r \<and> read_kind ks (org s) (rq_kind r) (rq_params r) = Inr (k, p, d)
     \<and> kd_may k (org s) a p d = Inr True"

definition decided :: "('g, 'j, 'p, 'r) kind \<Rightarrow> 'p \<Rightarrow> ('j, 'r) request \<Rightarrow> actor \<Rightarrow> string \<Rightarrow> string \<Rightarrow> string \<Rightarrow> instant
    \<Rightarrow> ('g, 'j, 'r) desk \<Rightarrow> ('g, 'j, 'r) desk" where
  "decided k p r a decision comment via now s =
     (if decision = ''decline''
      then close_request (rq_id r) AprDeclined EvDeclined (user_pk a) via (py_strip comment) None '''' now s
      else run_approved k p r a (py_strip comment) via now s)"

lemma decide_request_ok:
  assumes "decidable ks n a now s r k p d" and "decision \<in> {''approve'', ''decline''}"
  shows "decide_request ks co now n a decision comment via s =
    (Inr n, settle_safely co now n (decided k p r a decision comment via now s))"
proof -
  have "rq_id r = n" using assms by (auto simp: decidable_def dest: tbl_get_Some)
  moreover have "\<not> (case rq_expires r of None \<Rightarrow> False | Some t \<Rightarrow> t \<le> now)"
    using assms(1) by (simp add: decidable_def passed_due_def)
  ultimately have "decide_locked ks n a decision comment via now s = (Inr n, decided k p r a decision comment via now s)"
    using assms(1) by (simp add: decide_locked_def decided_def decidable_def)
  then show ?thesis
    using assms by (simp add: decide_request_def atomic_def decidable_def)
qed

lemma decide_locked_Inr:
  assumes "decide_locked ks n a decision comment via now s = (Inr m, s')" and "authenticated a"
  shows "\<exists>r k p d. decidable ks n a now s r k p d"
  using assms
  by (auto simp: decide_locked_def decidable_def passed_due_def split: option.splits sum.splits prod.splits if_splits)

lemma decide_request_cases:
  obtains (refused) e where "decide_request ks co now n a decision comment via s = (Inl e, s)"
  | (closed) r k p d where "decidable ks n a now s r k p d" "decision \<in> {''approve'', ''decline''}"
      "decide_request ks co now n a decision comment via s =
        (Inr n, settle_safely co now n (decided k p r a decision comment via now s))"
proof (cases "decision \<in> {''approve'', ''decline''} \<and> authenticated a")
  case True
  show ?thesis
  proof (cases "decide_locked ks n a decision comment via now s")
    case (Pair res s')
    show ?thesis
    proof (cases res)
      case (Inl e)
      then show ?thesis using True Pair by (intro refused [of e]) (simp add: decide_request_def atomic_def)
    next
      case (Inr m)
      then obtain r k p d where "decidable ks n a now s r k p d"
        using decide_locked_Inr [of ks n a decision comment via now s m s'] True Pair by blast
      then show ?thesis by (intro closed decide_request_ok) (use True in simp_all)
    qed
  qed
next
  case False
  then have "decide_request ks co now n a decision comment via s
      = (Inl (if decision \<notin> {''approve'', ''decline''} then BadDecision else SignInFirst), s)"
    by (auto simp: decide_request_def)
  then show ?thesis by (rule refused)
qed

lemma cancel_request_cases:
  obtains (refused) e where "cancel_request ks co now n a s = (Inl e, s)"
  | (closed) r where "tbl_get rq_id n (requests s) = Some r" "is_pending r"
      "filed_by (org s) a r \<or> may_approve ks (org s) a r"
      "cancel_request ks co now n a s =
        (Inr n, settle_safely co now n (close_request n AprCancelled EvCancelled (user_pk a) '''' '''' None '''' now s))"
proof (cases "cancel_locked ks n a now s")
  case (Pair res s')
  then show ?thesis
  proof (cases res)
    case (Inl e)
    then show ?thesis using Pair by (intro refused [of e]) (simp add: cancel_request_def atomic_def)
  next
    case (Inr m)
    then obtain r where "tbl_get rq_id n (requests s) = Some r" "is_pending r"
        "filed_by (org s) a r \<or> may_approve ks (org s) a r"
        "m = n" "s' = close_request n AprCancelled EvCancelled (user_pk a) '''' '''' None '''' now s"
      using Pair by (auto simp: cancel_locked_def split: option.splits if_splits)
    then show ?thesis using Pair Inr by (intro closed [of r]) (simp_all add: cancel_request_def atomic_def)
  qed
qed


section \<open>The desk's invariant\<close>

primrec story_of :: "approval_status \<Rightarrow> event_kind list" where
  "story_of AprPending = [EvCreated]"
| "story_of AprDone = [EvCreated, EvApproved, EvExecuted]"
| "story_of AprFailed = [EvCreated, EvApproved, EvFailed]"
| "story_of AprDeclined = [EvCreated, EvDeclined]"
| "story_of AprCancelled = [EvCreated, EvCancelled]"
| "story_of AprExpired = [EvCreated, EvExpired]"

text \<open>The event that closed a request says what its row says.\<close>

definition signed :: "'r approval_event \<Rightarrow> ('j, 'r) request \<Rightarrow> bool" where
  "signed e r \<longleftrightarrow> ae_actor e = rq_decided_by r \<and> rq_decided_at r = Some (ae_at e)
     \<and> ae_payload e = ClosedAs (rq_via r) (rq_error r) (rq_result r)"

definition told :: "'r approval_event list \<Rightarrow> ('j, 'r) request \<Rightarrow> bool" where
  "told tr r \<longleftrightarrow> map ae_kind (story (rq_id r) tr) = story_of (rq_status r)
     \<and> (is_pending r \<or> signed (last (story (rq_id r) tr)) r)"

definition desk_ok :: "('g, 'j, 'r) desk \<Rightarrow> bool" where
  "desk_ok s \<longleftrightarrow> distinct (map rq_id (requests s)) \<and> (\<forall>r\<in>set (requests s). rq_id r < next_request s \<and> told (trail s) r)
     \<and> (\<forall>e\<in>set (trail s). ae_request e < next_request s)"

lemma desk_ok_row: "desk_ok s \<Longrightarrow> r \<in> set (requests s) \<Longrightarrow> rq_id r < next_request s \<and> told (trail s) r"
  by (simp add: desk_ok_def)

lemma desk_ok_get: "desk_ok s \<Longrightarrow> tbl_get rq_id (rq_id r) (requests s) = Some r \<longleftrightarrow> r \<in> set (requests s)"
  by (auto simp: desk_ok_def tbl_get_distinct dest: tbl_get_Some)

lemma desk_ok_unique:
  "desk_ok s \<Longrightarrow> q \<in> set (requests s) \<Longrightarrow> r \<in> set (requests s) \<Longrightarrow> rq_id q = rq_id r \<Longrightarrow> q = r"
  by (metis desk_ok_get option.inject)

lemma told_story: "story (rq_id r) tr' = story (rq_id r) tr \<Longrightarrow> told tr' r = told tr r"
  by (simp add: told_def)

lemma told_deliver [simp]: "told (trail (deliver_safely ks co now n s)) r = told (trail s) r"
  by (rule told_story) simp

lemma desk_ok_org [simp]: "desk_ok (s\<lparr>org := w\<rparr>) = desk_ok s"
  by (simp add: desk_ok_def)

lemma desk_ok_settle [simp]: "desk_ok (settle_safely co now n s) = desk_ok s"
  by (simp add: desk_ok_def)

lemma desk_ok_deliver:
  assumes ok: "desk_ok s"
  shows "desk_ok (deliver_safely ks co now n s)"
proof -
  have "ae_request e < next_request s" if "e \<in> set (trail (deliver_safely ks co now n s))" for e
    using deliver_trail_ids [OF that] ok by (auto simp: desk_ok_def)
  then show ?thesis
    using ok by (simp add: desk_ok_def)
qed

text \<open>Closing a pending request adds the events that tell it, whatever else is in the trail.\<close>

lemma desk_ok_close:
  assumes ok: "desk_ok s" and r: "r \<in> set (requests s)" "is_pending r" and st: "st \<noteq> AprPending"
    and story: "map ae_kind before @ [ev] = tl (story_of st)"
    and before: "\<And>e. e \<in> set before \<Longrightarrow> ae_request e = rq_id r"
  shows "desk_ok (close_request (rq_id r) st ev w via c x err now (s\<lparr>trail := trail s @ before\<rparr>))"
proof -
  have kinds: "ev \<noteq> EvDelivered" "\<forall>e\<in>set before. ae_kind e \<noteq> EvDelivered"
  proof -
    have "EvDelivered \<notin> set (tl (story_of st))" by (cases st) simp_all
    then have "EvDelivered \<notin> set (map ae_kind before @ [ev])" by (metis story)
    then show "ev \<noteq> EvDelivered" "\<forall>e\<in>set before. ae_kind e \<noteq> EvDelivered" by (auto simp: image_iff)
  qed
  have mine: "story (rq_id r) before = before"
    unfolding story_def by (rule filter_True) (use before kinds in auto)
  have others: "story m before = []" if "m \<noteq> rq_id r" for m
    unfolding story_def by (rule filter_False) (use before that in auto)
  have r_told: "map ae_kind (story (rq_id r) (trail s)) = [EvCreated]"
    using desk_ok_row [OF ok r(1)] r(2) by (simp add: told_def is_pending_def)
  let ?r' = "closed_fields st w via c x err now r"
  let ?ev = "\<lparr>ae_request = rq_id r, ae_kind = ev, ae_actor = w, ae_payload = ClosedAs via err x, ae_at = now\<rparr>"
  have "told (trail s @ before @ [?ev]) ?r'"
    using r_told mine kinds story st by (cases st) (simp_all add: told_def story_Cons signed_def)
  moreover have "told (trail s @ before @ [?ev]) q" if "q \<in> set (requests s)" "rq_id q \<noteq> rq_id r" for q
    using desk_ok_row [OF ok that(1)] that(2) others by (simp add: told_def story_Cons)
  moreover have "q = r" if "q \<in> set (requests s)" "rq_id q = rq_id r" for q
    using desk_ok_unique [OF ok that(1) r(1) that(2)] .
  moreover have "distinct (map rq_id (tbl_update (\<lambda>q. rq_id q = rq_id r) (closed_fields st w via c x err now) (requests s)))"
    using ok by (simp add: desk_ok_def map_tbl_update)
  ultimately show ?thesis
    using ok r(1) before by (auto simp: desk_ok_def set_tbl_update)
qed

lemma desk_ok_close_one:
  assumes "desk_ok s" and "r \<in> set (requests s)" "is_pending r" and "st \<noteq> AprPending" and "[ev] = tl (story_of st)"
  shows "desk_ok (close_request (rq_id r) st ev w via c x err now s)"
  using desk_ok_close [of s r st "[]" ev w via c x err now] assms by simp

lemma desk_ok_decided:
  assumes ok: "desk_ok s" and d: "decidable ks n a now s r k p d"
  shows "desk_ok (decided k p r a decision comment via now s)"
proof -
  have r: "r \<in> set (requests s)" "is_pending r"
    using d by (auto simp: decidable_def dest: tbl_get_Some)
  show ?thesis
  proof (cases "decision = ''decline''")
    case True
    then show ?thesis using desk_ok_close_one [OF ok r] by (simp add: decided_def)
  next
    case False
    have "desk_ok (run_approved k p r a (py_strip comment) via now s)"
    proof (cases rule: run_approved_cases [of k now a p r s "py_strip comment" via])
      case (handled x w)
      have "desk_ok (s\<lparr>org := w\<rparr>)" using ok by simp
      from desk_ok_close [OF this, of r AprDone "[approved_event (rq_id r) a via now]" EvExecuted] r handled(2)
      show ?thesis by (simp add: approved_event_def)
    next
      case (refused e w err)
      with desk_ok_close [OF ok r, of AprFailed "[approved_event (rq_id r) a via now]" EvFailed]
      show ?thesis by (simp add: approved_event_def)
    qed
    then show ?thesis using False by (simp add: decided_def)
  qed
qed

lemma new_request_simps [simp]:
  "rq_id (new_request k p d target n now f) = n" "rq_status (new_request k p d target n now f) = AprPending"
  "rq_kind (new_request k p d target n now f) = kd_slug k" "rq_params (new_request k p d target n now f) = kd_dump k p"
  "rq_expires (new_request k p d target n now f) = Some (now + ttl_of (fl_hours f))"
  "rq_for (new_request k p d target n now f) = target" "rq_workspace (new_request k p d target n now f) = ds_workspace d"
  "rq_key (new_request k p d target n now f) = (if fl_key f = '''' then None else Some (fl_key f))"
  by (simp_all add: new_request_def)

definition filed :: "('j, 'r) request \<Rightarrow> user_id option \<Rightarrow> 'r event_payload \<Rightarrow> instant \<Rightarrow> ('g, 'j, 'r) desk \<Rightarrow> ('g, 'j, 'r) desk" where
  "filed r u pl now s = log_event (rq_id r) EvCreated u pl now (insert_request r s)"

text \<open>The three ways through \<open>create\<close>: a replay, a refusal, and a new request.\<close>

lemma create_request_cases:
  obtains (refused) e where "create_request ks co now f s = (Inl e, s)"
  | (replayed) r where "keyed_request (fl_key f) s = Some r" "create_request ks co now f s = (Inr (r, False), s)"
  | (created) k p d us target where "keyed_request (fl_key f) s = None"
      "read_kind ks (org s) (fl_kind f) (fl_params f) = Inr (k, p, d)" "approvers k (org s) p d = Inr us" "us \<noteq> []"
      "for_user (org s) (fl_for_email f) us = Some target"
      "create_request ks co now f s = (Inr (new_request k p d target (next_request s) now f, True),
         deliver_safely ks co now (next_request s)
           (filed (new_request k p d target (next_request s) now f) (fl_user f)
             (FiledAs (kd_slug k) (agent_slug (org s) (fl_agent f))) now s))"
proof (cases "keyed_request (fl_key f) s")
  case (Some r)
  then show ?thesis by (intro replayed) (simp_all add: create_request_def)
next
  case new: None
  show ?thesis
  proof (cases "read_kind ks (org s) (fl_kind f) (fl_params f)")
    case (Inl e)
    then show ?thesis using new by (intro refused) (simp add: create_request_def)
  next
    case (Inr kpd)
    obtain k p d where kpd: "kpd = (k, p, d)" by (cases kpd)
    show ?thesis
    proof (cases "approvers k (org s) p d")
      case Inl': (Inl e)
      then show ?thesis using new Inr kpd by (intro refused) (simp add: create_request_def)
    next
      case us: (Inr us)
      show ?thesis
      proof (cases "for_user (org s) (fl_for_email f) us")
        case None
        then show ?thesis using new Inr kpd us by (intro refused) (simp add: create_request_def)
      next
        case (Some target)
        then show ?thesis using new Inr kpd us
          by (cases "us = []")
            (rule refused, simp add: create_request_def, rule created [OF new], simp_all add: create_request_def filed_def Let_def)
      qed
    qed
  qed
qed

lemma filed_simps [simp]:
  "requests (filed r u pl now s) = requests s @ [r]" "org (filed r u pl now s) = org s"
  "copies (filed r u pl now s) = copies s" "next_request (filed r u pl now s) = Suc (next_request s)"
  by (simp_all add: filed_def)

lemma desk_ok_filed:
  assumes ok: "desk_ok s" and r: "rq_id r = next_request s" "rq_status r = AprPending"
  shows "desk_ok (filed r u pl now s)"
proof -
  have fresh: "story (next_request s) (trail s) = []"
    unfolding story_def by (rule filter_False) (use ok in \<open>auto simp: desk_ok_def\<close>)
  have old: "told (trail (filed r u pl now s)) q" if "q \<in> set (requests s)" for q
    using desk_ok_row [OF ok that] r by (simp add: filed_def told_def story_Cons)
  have "told (trail (filed r u pl now s)) r"
    using fresh r by (simp add: filed_def told_def story_Cons is_pending_def)
  then show ?thesis
    using ok r old by (auto simp: desk_ok_def filed_def less_Suc_eq)
qed

lemma desk_ok_create:
  assumes "desk_ok s"
  shows "desk_ok (snd (create_request ks co now f s))"
  by (cases rule: create_request_cases [of ks co now f s])
    (simp_all add: assms desk_ok_deliver desk_ok_filed)

lemma desk_ok_decide:
  assumes "desk_ok s"
  shows "desk_ok (snd (decide_request ks co now n a decision comment via s))"
  by (cases rule: decide_request_cases [of ks co now n a decision comment via s])
    (use assms desk_ok_decided in auto)

lemma desk_ok_cancel:
  assumes "desk_ok s"
  shows "desk_ok (snd (cancel_request ks co now n a s))"
proof (cases rule: cancel_request_cases [of ks co now n a s])
  case (closed r)
  then have "r \<in> set (requests s)" "rq_id r = n" by (auto dest: tbl_get_Some)
  then show ?thesis using closed desk_ok_close_one [OF assms, of r AprCancelled EvCancelled] by simp
qed (use assms in simp)

lemma desk_ok_expire_one:
  assumes "desk_ok (snd st)"
  shows "desk_ok (snd (expire_one co now n st))"
proof (cases st)
  case (Pair m s)
  show ?thesis
  proof (cases "tbl_get rq_id n (requests s)")
    case (Some r)
    then have "r \<in> set (requests s)" "rq_id r = n" by (auto dest: tbl_get_Some)
    then show ?thesis
      using assms Pair Some desk_ok_close_one [of s r AprExpired EvExpired] by (simp add: expire_one_def)
  qed (use assms Pair in \<open>simp add: expire_one_def\<close>)
qed

lemma desk_ok_expire: "desk_ok s \<Longrightarrow> desk_ok (snd (expire_due co now s))"
  unfolding expire_due_def by (rule fold_invariant [where Q = "\<lambda>_. True"]) (auto intro: desk_ok_expire_one)

lemma desk_ok_missed: "desk_ok s \<Longrightarrow> desk_ok (snd (deliver_missed ks co now s))"
  unfolding deliver_missed_def Let_def snd_conv
  by (rule fold_invariant [where Q = "\<lambda>_. True"]) (auto intro: desk_ok_deliver)

text \<open>Every way the desk changes: the operations, with any registry that qualifies, and the rest of the
  application working on the organisation.\<close>

inductive desk_step :: "(('g, 'j, 'p, 'r) registry \<Rightarrow> bool) \<Rightarrow> ('g org \<Rightarrow> 'g org \<Rightarrow> bool)
    \<Rightarrow> ('g, 'j, 'r) desk \<Rightarrow> ('g, 'j, 'r) desk \<Rightarrow> bool" for Q W where
  step_file: "Q ks \<Longrightarrow> desk_step Q W s (snd (create_request ks co now f s))"
| step_decide: "Q ks \<Longrightarrow> desk_step Q W s (snd (decide_request ks co now n a decision comment via s))"
| step_cancel: "Q ks \<Longrightarrow> desk_step Q W s (snd (cancel_request ks co now n a s))"
| step_expire: "desk_step Q W s (snd (expire_due co now s))"
| step_missed: "Q ks \<Longrightarrow> desk_step Q W s (snd (deliver_missed ks co now s))"
| step_elsewhere: "W (org s) w \<Longrightarrow> desk_step Q W s (s\<lparr>org := w\<rparr>)"

inductive_cases desk_stepE: "desk_step Q W s s'"

lemma desk_ok_step: "desk_step Q W s s' \<Longrightarrow> desk_ok s \<Longrightarrow> desk_ok s'"
  by (erule desk_stepE)
    (auto intro: desk_ok_create desk_ok_decide desk_ok_cancel desk_ok_expire desk_ok_missed)

lemma desk_ok_run: "(desk_step Q W)\<^sup>*\<^sup>* s s' \<Longrightarrow> desk_ok s \<Longrightarrow> desk_ok s'"
  by (induction rule: rtranclp_induct) (auto intro: desk_ok_step)

text \<open>A decided request and its story are final.\<close>

definition view_request :: "nat \<Rightarrow> ('g, 'j, 'r) desk \<Rightarrow> ('j, 'r) request option \<times> 'r approval_event list" where
  "view_request n s = (tbl_get rq_id n (requests s), story n (trail s))"

definition view_closed :: "('j, 'r) request option \<times> 'r approval_event list \<Rightarrow> bool" where
  "view_closed v = (case fst v of None \<Rightarrow> False | Some r \<Rightarrow> \<not> is_pending r)"

lemma view_frame:
  assumes "tbl_get rq_id n (requests s') = tbl_get rq_id n (requests s)" and "story n (trail s') = story n (trail s)"
  shows "view_request n s' = view_request n s"
  using assms by (simp add: view_request_def)

lemma view_close_other:
  "m \<noteq> n \<Longrightarrow> view_request n (close_request m st ev w via c x err now s) = view_request n s"
  by (rule view_frame, cases "tbl_get rq_id n (requests s)")
    (auto simp: tbl_get_tbl_update story_Cons dest: tbl_get_Some)

lemma view_simps [simp]:
  "view_request n (settle_safely co now m s) = view_request n s"
  "view_request n (deliver_safely ks co now m s) = view_request n s"
  "view_request n (s\<lparr>org := w\<rparr>) = view_request n s"
  by (simp_all add: view_request_def)

lemma view_approved_other:
  "m \<noteq> n \<Longrightarrow> view_request n (s\<lparr>trail := trail s @ [approved_event m a via now]\<rparr>) = view_request n s"
  by (simp add: view_request_def story_Cons approved_event_def)

lemma view_decided_other: "rq_id r \<noteq> n \<Longrightarrow> view_request n (decided k p r a decision comment via now s) = view_request n s"
proof (cases rule: run_approved_cases [of k now a p r s "py_strip comment" via])
  case (handled x w)
  assume "rq_id r \<noteq> n"
  then have "view_request n (run_approved k p r a (py_strip comment) via now s) = view_request n (s\<lparr>org := w\<rparr>)"
    using handled view_approved_other [of "rq_id r" n "s\<lparr>org := w\<rparr>"] by (simp add: view_close_other)
  then show ?thesis using \<open>rq_id r \<noteq> n\<close> by (simp add: decided_def view_close_other)
next
  case (refused e w err)
  assume "rq_id r \<noteq> n"
  then show ?thesis using refused by (simp add: decided_def view_close_other view_approved_other)
qed

lemma view_pending: "tbl_get rq_id n (requests s) = Some r \<Longrightarrow> view_closed (view_request n s) = (\<not> is_pending r)"
  by (simp add: view_request_def view_closed_def)

lemma view_expire_one:
  assumes "view_closed (view_request n (snd st))"
  shows "view_request n (snd (expire_one co now m st)) = view_request n (snd st)"
proof (cases st)
  case (Pair i s)
  show ?thesis
  proof (cases "tbl_get rq_id m (requests s)")
    case (Some r)
    then show ?thesis using assms Pair
      by (cases "m = n") (simp_all add: expire_one_def view_pending view_close_other)
  qed (simp add: Pair expire_one_def)
qed

lemma view_fold:
  assumes "\<And>x s. view_closed (view_request n (g s)) \<Longrightarrow> view_request n (g (h x s)) = view_request n (g s)"
    and "view_closed (view_request n (g s))"
  shows "view_request n (g (fold h xs s)) = view_request n (g s)"
  using assms(2) by (induction xs arbitrary: s) (auto simp: assms(1))

lemma view_step:
  assumes step: "desk_step Q W s s'" and ok: "desk_ok s" and closed: "view_closed (view_request n s)"
  shows "view_request n s' = view_request n s"
  using step
proof (cases rule: desk_step.cases)
  case (step_file ks co now f)
  have n: "n \<noteq> next_request s" "tbl_get rq_id n (requests s) \<noteq> None"
    using ok closed by (auto simp: view_request_def view_closed_def desk_ok_def dest!: tbl_get_Some split: option.splits)
  show ?thesis unfolding step_file
    by (cases rule: create_request_cases [of ks co now f s])
      (use n in \<open>auto simp: view_request_def filed_def story_Cons tbl_get_append\<close>)
next
  case (step_decide ks co now m a decision comment via)
  show ?thesis unfolding step_decide
  proof (cases rule: decide_request_cases [of ks co now m a decision comment via s])
    case d: (closed r k p d)
    then have "tbl_get rq_id m (requests s) = Some r" "is_pending r" "rq_id r = m"
      by (auto simp: decidable_def dest: tbl_get_Some)
    then show "view_request n (snd (decide_request ks co now m a decision comment via s)) = view_request n s"
      using closed d(3) view_decided_other [of r n] view_pending by (cases "m = n") fastforce+
  qed simp
next
  case (step_cancel ks co now m a)
  show ?thesis unfolding step_cancel
  proof (cases rule: cancel_request_cases [of ks co now m a s])
    case c: (closed r)
    then show "view_request n (snd (cancel_request ks co now m a s)) = view_request n s"
      using closed by (cases "m = n") (simp_all add: view_pending view_close_other)
  qed simp
next
  case (step_expire co now)
  show ?thesis unfolding step_expire expire_due_def
    by (rule view_fold [where g = snd and s = "(0, s)", simplified snd_conv]) (use closed view_expire_one in auto)
next
  case (step_missed ks co now)
  show ?thesis unfolding step_missed deliver_missed_def Let_def snd_conv
    by (rule view_fold [where g = "\<lambda>s. s"]) (use closed in simp_all)
qed simp

interpretation request_end: lifecycle "\<lambda>s s'. desk_step Q W s s' \<and> desk_ok s" "view_request n" view_closed
  by unfold_locales (auto intro: view_step)

lemma desk_run_ok: "(desk_step Q W)\<^sup>*\<^sup>* s s' \<Longrightarrow> desk_ok s \<Longrightarrow> (\<lambda>s s'. desk_step Q W s s' \<and> desk_ok s)\<^sup>*\<^sup>* s s'"
proof (induction rule: rtranclp_induct)
  case (step y z)
  have "desk_ok y" by (rule desk_ok_run [OF step.hyps(1) step.prems])
  with step show ?case by (auto intro: rtranclp.rtrancl_into_rtrancl)
qed simp

lemma told_row: "desk_ok s \<Longrightarrow> r \<in> set (requests s) \<Longrightarrow> told (trail s) r"
  by (simp add: desk_ok_row)

lemma closed_row_stays:
  assumes ok: "desk_ok s" and run: "(desk_step Q W)\<^sup>*\<^sup>* s s'" and r: "r \<in> set (requests s)" "\<not> is_pending r"
  shows "r \<in> set (requests s') \<and> story (rq_id r) (trail s') = story (rq_id r) (trail s)"
proof -
  have get: "tbl_get rq_id (rq_id r) (requests s) = Some r" using desk_ok_get [OF ok] r by simp
  then have "view_closed (view_request (rq_id r) s)" using r by (simp add: view_pending)
  then have "view_request (rq_id r) s' = view_request (rq_id r) s"
    by (rule request_end.run_final [OF desk_run_ok [OF run ok]])
  then show ?thesis using get by (auto simp: view_request_def dest: tbl_get_Some)
qed


section \<open>What an expiry does\<close>

lemma tbl_update_count:
  assumes "distinct (map key t)" and "x \<in> set t" and "P x" and "\<not> P (f x)"
  shows "length (filter P (tbl_update (\<lambda>y. key y = key x) f t)) = length (filter P t) - 1 \<and> length (filter P t) > 0"
  using assms(1,2)
proof (induction t)
  case (Cons y t)
  show ?case
  proof (cases "y = x")
    case True
    then have "tbl_update (\<lambda>y. key y = key x) f t = t"
      by (intro tbl_update_none) (use Cons.prems in \<open>auto simp: rev_image_eqI\<close>)
    then show ?thesis using True assms(3,4) by simp
  next
    case False
    then have "x \<in> set t" "key y \<noteq> key x" using Cons.prems by (auto simp: rev_image_eqI)
    then show ?thesis using Cons by (cases "P y") auto
  qed
qed simp

lemma expire_fold:
  assumes "desk_ok s" and "distinct ns" and "\<And>n. n \<in> set ns \<Longrightarrow> \<exists>r\<in>set (requests s). rq_id r = n \<and> past_due now r"
  shows "fst (fold (expire_one co now) ns (m, s)) = m + length ns
    \<and> length (filter (past_due now) (requests (snd (fold (expire_one co now) ns (m, s))))) + length ns
      = length (filter (past_due now) (requests s))"
  using assms
proof (induction ns arbitrary: m s)
  case (Cons n ns)
  obtain r where r: "r \<in> set (requests s)" "rq_id r = n" "past_due now r" using Cons.prems(3) by auto
  then have pending: "is_pending r" by (simp add: past_due_def)
  have get: "tbl_get rq_id n (requests s) = Some r" using desk_ok_get [OF Cons.prems(1), of r] r by simp
  define s1 where "s1 = settle_safely co now n (close_request n AprExpired EvExpired None '''' '''' None '''' now s)"
  have one: "expire_one co now n (m, s) = (Suc m, s1)"
    using get pending by (simp add: expire_one_def s1_def)
  have ok1: "desk_ok s1"
    using desk_ok_expire_one [of "(m, s)" co now n] Cons.prems(1) one by simp
  have rows1: "requests s1 = tbl_update (\<lambda>q. rq_id q = rq_id r) (closed_fields AprExpired None '''' '''' None '''' now) (requests s)"
    using r by (simp add: s1_def)
  have count: "length (filter (past_due now) (requests s1)) + 1 = length (filter (past_due now) (requests s))"
    using tbl_update_count [of rq_id "requests s" r "past_due now" "closed_fields AprExpired None '''' '''' None '''' now"]
      Cons.prems(1) r rows1 by (simp add: desk_ok_def past_due_def is_pending_def)
  have "\<exists>q\<in>set (requests s1). rq_id q = i \<and> past_due now q" if "i \<in> set ns" for i
  proof -
    obtain q where q: "q \<in> set (requests s)" "rq_id q = i" "past_due now q" using Cons.prems(3) \<open>i \<in> set ns\<close> by auto
    have "q \<in> set (requests s1)" unfolding rows1 set_tbl_update
      by (rule image_eqI [of _ _ q]) (use q r that Cons.prems(2) in auto)
    then show ?thesis using q by auto
  qed
  then have "fst (fold (expire_one co now) ns (Suc m, s1)) = Suc m + length ns
      \<and> length (filter (past_due now) (requests (snd (fold (expire_one co now) ns (Suc m, s1))))) + length ns
        = length (filter (past_due now) (requests s1))"
    by (intro Cons.IH ok1) (use Cons.prems(2) in auto)
  then show ?case using one count by simp
qed simp

lemma newest_requests_set [simp]: "set (newest_requests rs) = set rs" "length (newest_requests rs) = length rs"
  by (simp_all add: newest_requests_def)

lemma newest_requests_ids: "distinct (map rq_id rs) \<Longrightarrow> distinct (map rq_id (newest_requests rs))"
  by (simp add: newest_requests_def distinct_map)


section \<open>Who could approve a new request\<close>

lemma try_map_in: "try_map f xs = Inr ys \<Longrightarrow> y \<in> set ys \<Longrightarrow> \<exists>x\<in>set xs. f x = Inr y"
  by (induction xs arbitrary: ys) (fastforce split: sum.splits)+

lemma approver_row_may: "approver_row k w p d m = Inr us \<Longrightarrow> u \<in> set us \<Longrightarrow> kd_may k w (uncapped u) p d = Inr True"
  by (cases "kd_may k w (uncapped (e_user m)) p d") (auto simp: approver_row_def split: if_splits)

lemma approvers_may:
  assumes us: "approvers k w p d = Inr us" and u: "u \<in> set us"
  shows "kd_may k w (uncapped u) p d = Inr True"
proof -
  let ?ms = "filter (\<lambda>m. e_user m \<notin> set (bots w) \<and> is_active w (e_user m)) (effective_memberships (og_members w) (ds_workspace d))"
  have "ds_workspace d \<in> ws_slug ` set (workspaces (og_members w))"
    using us u by (rule_tac ccontr) (simp add: approvers_def)
  then obtain uss where rows: "try_map (approver_row k w p d) ?ms = Inr uss" and "us = sort (concat uss)"
    using us by (cases "try_map (approver_row k w p d) ?ms") (simp_all add: approvers_def)
  then obtain us' where us': "us' \<in> set uss" "u \<in> set us'" using u by auto
  from try_map_in [OF rows us'(1)] obtain m where "approver_row k w p d m = Inr us'" by blast
  then show ?thesis using us'(2) by (rule approver_row_may)
qed

lemma get_kind_Inr: "get_kind ks s = Inr k \<Longrightarrow> kd_slug k = s \<and> k \<in> set ks"
  by (auto simp: get_kind_def dest: tbl_get_Some split: option.splits)

lemma read_kind_Inr: "read_kind ks w s params = Inr (k, p, d) \<longleftrightarrow>
    get_kind ks s = Inr k \<and> kd_validate k params = Inr p \<and> kd_describe k w p = Inr d"
  by (auto simp: read_kind_def parse_kind_def split: sum.splits prod.splits)

lemma read_kind_again:
  "read_kind ks w s params = Inr (k, p, d) \<Longrightarrow> kd_validate k (kd_dump k p) = Inr p
    \<Longrightarrow> read_kind ks w (kd_slug k) (kd_dump k p) = Inr (k, p, d)"
  using get_kind_Inr by (fastforce simp: read_kind_Inr)

lemma read_kind_in: "read_kind ks w s params = Inr (k, p, d) \<Longrightarrow> k \<in> set ks"
  using get_kind_Inr by (auto simp: read_kind_Inr)

lemma for_user_in: "for_user w email us = Some (Some u) \<Longrightarrow> u \<in> set us"
  by (auto simp: for_user_def find_Some_iff split: if_splits option.splits)

section \<open>Copies\<close>

definition copy_key :: "copy \<Rightarrow> nat \<times> user_id \<times> channel" where
  "copy_key c = (cp_request c, cp_user c, cp_channel c)"

definition mailed_only :: "copy list \<Rightarrow> bool" where
  "mailed_only cs \<longleftrightarrow> (\<forall>n u. Email \<in> set (have_channels n u cs) \<longrightarrow> set (have_channels n u cs) = {Email})"

definition copies_ok :: "('g, 'j, 'r) desk \<Rightarrow> bool" where
  "copies_ok s \<longleftrightarrow> distinct (map copy_key (copies s)) \<and> mailed_only (copies s)
     \<and> (\<forall>c\<in>set (copies s). cp_request c < next_request s)"

lemma have_channels_set: "ch \<in> set (have_channels n u cs) \<longleftrightarrow> (n, u, ch) \<in> copy_key ` set cs"
  by (auto simp: have_channels_def copy_key_def image_iff)

lemma have_channels_keys: "map copy_key cs' = map copy_key cs \<Longrightarrow> set (have_channels n u cs') = set (have_channels n u cs)"
  by (intro set_eqI) (metis have_channels_set set_map)

lemma have_channels_append:
  "have_channels n u (cs @ [c]) = have_channels n u cs @ (if cp_request c = n \<and> cp_user c = u then [cp_channel c] else [])"
  by (simp add: have_channels_def)

text \<open>While one request goes out: no copy twice, and a mailed person is one no other channel reaches.\<close>

definition sending_ok :: "('j, 'r) courier \<Rightarrow> ('j, 'r) request \<Rightarrow> copy list \<Rightarrow> bool" where
  "sending_ok co r cs \<longleftrightarrow> distinct (map copy_key cs) \<and> mailed_only cs
     \<and> (\<forall>u. Email \<in> set (have_channels (rq_id r) u cs) \<longrightarrow> (\<forall>ch\<in>set FIRST_WAVE. co_send co ch r u = None))"

lemma sending_ok_send:
  assumes ok: "sending_ok co r cs"
    and ch: "ch \<in> set FIRST_WAVE \<or> ch = Email \<and> have_channels (rq_id r) u cs = [] \<and> (\<forall>c\<in>set FIRST_WAVE. co_send co c r u = None)"
  shows "sending_ok co r (fst (send_copy co r now u ch (cs, out)))"
proof (cases "ch \<in> set (have_channels (rq_id r) u cs) \<or> co_send co ch r u = None")
  case True
  then show ?thesis using ok by (auto simp: send_copy_def)
next
  case False
  then obtain ref where ref: "co_send co ch r u = Some ref" and new: "ch \<notin> set (have_channels (rq_id r) u cs)" by auto
  define c where "c = \<lparr> cp_request = rq_id r, cp_user = u, cp_channel = ch, cp_ref = ref, cp_created = now, cp_settled = None \<rparr>"
  have cs': "fst (send_copy co r now u ch (cs, out)) = cs @ [c]"
    using ref new by (simp add: send_copy_def record_copy_def c_def)
  have "copy_key c \<notin> set (map copy_key cs)"
    using new by (auto simp: have_channels_set c_def copy_key_def [of c] image_iff) (auto simp: copy_key_def c_def)
  moreover have unmailed: "Email \<notin> set (have_channels (rq_id r) u cs)"
    using ok ch ref by (auto simp: sending_ok_def)
  ultimately show ?thesis
    using ok ch ref unfolding cs' sending_ok_def mailed_only_def
    by (auto simp: have_channels_append c_def FIRST_WAVE_def)
qed

lemma send_copy_answer:
  "ch \<notin> set (have_channels (rq_id r) u cs) \<Longrightarrow> ch \<notin> set (have_channels (rq_id r) u (fst (send_copy co r now u ch (cs, out))))
    \<Longrightarrow> co_send co ch r u = None"
  by (auto simp: send_copy_def record_copy_def have_channels_append split: option.splits)

lemma send_copy_keeps:
  "set (have_channels n v cs) \<subseteq> set (have_channels n v (fst (send_copy co r now u ch (cs, out))))"
  by (auto simp: send_copy_def record_copy_def have_channels_append split: option.splits)

lemma sending_ok_to:
  assumes "sending_ok co r cs"
  shows "sending_ok co r (fst (send_to co r now u (cs, out)))"
proof -
  obtain cs1 out1 where st1: "send_copy co r now u Push (cs, out) = (cs1, out1)" by fastforce
  obtain cs2 out2 where st2: "send_copy co r now u Slack (cs1, out1) = (cs2, out2)" by fastforce
  have ok2: "sending_ok co r cs2"
    using sending_ok_send [OF assms, of Push u now out] sending_ok_send [of co r cs1 Slack u now out1] st1 st2
    by (simp add: FIRST_WAVE_def)
  show ?thesis
  proof (cases "have_channels (rq_id r) u cs2 = []")
    case True
    have "have_channels (rq_id r) u cs1 = []" "have_channels (rq_id r) u cs = []"
      using True send_copy_keeps [of "rq_id r" u cs1 co r now u Slack out1] send_copy_keeps [of "rq_id r" u cs co r now u Push out] st1 st2
      by auto
    then have "co_send co Push r u = None" "co_send co Slack r u = None"
      using send_copy_answer [of Push r u cs co now out] send_copy_answer [of Slack r u cs1 co now out1] st1 st2 True by simp_all
    then have "sending_ok co r (fst (send_copy co r now u Email (cs2, out2)))"
      using True by (intro sending_ok_send [OF ok2]) (simp add: FIRST_WAVE_def)
    then show ?thesis using st1 st2 True by (simp add: send_to_def FIRST_WAVE_def Let_def)
  next
    case False
    then show ?thesis using st1 st2 ok2 by (simp add: send_to_def FIRST_WAVE_def Let_def)
  qed
qed

lemma sending_ok_fold: "sending_ok co r (fst st) \<Longrightarrow> sending_ok co r (fst (fold (send_to co r now) us st))"
proof (induction us arbitrary: st)
  case (Cons u us)
  then have "sending_ok co r (fst (send_to co r now u st))" by (cases st) (simp add: sending_ok_to)
  then show ?case by (simp add: Cons.IH)
qed simp

lemma send_copy_others:
  "\<exists>new. fst (send_copy co r now u ch st) = fst st @ new \<and> (\<forall>c\<in>set new. cp_request c = rq_id r)"
  by (cases st) (auto simp: send_copy_def record_copy_def split: option.split)

lemma send_to_others:
  "\<exists>new. fst (send_to co r now u st) = fst st @ new \<and> (\<forall>c\<in>set new. cp_request c = rq_id r)"
proof -
  let ?st1 = "send_copy co r now u Push st" and ?st2 = "send_copy co r now u Slack (send_copy co r now u Push st)"
  obtain a where a: "fst ?st1 = fst st @ a" "\<forall>c\<in>set a. cp_request c = rq_id r" using send_copy_others by blast
  obtain b where b: "fst ?st2 = fst ?st1 @ b" "\<forall>c\<in>set b. cp_request c = rq_id r" using send_copy_others by blast
  obtain c where c: "fst (send_copy co r now u Email ?st2) = fst ?st2 @ c" "\<forall>x\<in>set c. cp_request x = rq_id r"
    using send_copy_others by blast
  show ?thesis
  proof (cases "have_channels (rq_id r) u (fst ?st2) = []")
    case True
    then show ?thesis using a b c
      by (intro exI [of _ "a @ b @ c"]) (auto simp: send_to_def FIRST_WAVE_def Let_def)
  next
    case False
    then show ?thesis using a b
      by (intro exI [of _ "a @ b"]) (auto simp: send_to_def FIRST_WAVE_def Let_def)
  qed
qed

lemma send_fold_others:
  "\<exists>new. fst (fold (send_to co r now) us st) = fst st @ new \<and> (\<forall>c\<in>set new. cp_request c = rq_id r)"
proof (induction us arbitrary: st)
  case (Cons u us)
  obtain a where a: "fst (send_to co r now u st) = fst st @ a" "\<forall>c\<in>set a. cp_request c = rq_id r"
    using send_to_others by blast
  obtain b where "fst (fold (send_to co r now) us (send_to co r now u st)) = fst (send_to co r now u st) @ b"
      "\<forall>c\<in>set b. cp_request c = rq_id r" using Cons.IH by blast
  with a show ?case by (intro exI [of _ "a @ b"]) auto
qed simp

lemma deliver_copies:
  "copies (deliver_safely ks co now n s) = copies s \<or> (\<exists>r us. tbl_get rq_id n (requests s) = Some r
     \<and> copies (deliver_safely ks co now n s) = fst (fold (send_to co r now) us (copies s, [])))"
proof (cases "tbl_get rq_id n (requests s)")
  case (Some r)
  show ?thesis
  proof (cases "is_pending r \<and> is_ok (recipients ks (org s) r)")
    case True
    then obtain us where "recipients ks (org s) r = Inr us" by (auto simp: is_ok_iff)
    then have "copies (deliver_safely ks co now n s) = fst (fold (send_to co r now) (filter (co_wants co) us) (copies s, []))"
      using True Some by (simp add: deliver_safely_def deliver_def Let_def split: prod.split)
    then show ?thesis using Some by blast
  next
    case False
    then show ?thesis using Some
      by (cases "recipients ks (org s) r") (auto simp: deliver_safely_def deliver_def)
  qed
qed (simp add: deliver_safely_def deliver_def)

text \<open>A delivery adds copies of its request only; on a request nobody was sent, the copies stay in order.\<close>

lemma deliver_others:
  "\<exists>new. copies (deliver_safely ks co now n s) = copies s @ new \<and> (\<forall>c\<in>set new. cp_request c = n \<and> n \<in> rq_id ` set (requests s))"
proof (cases "copies (deliver_safely ks co now n s) = copies s")
  case False
  then obtain r us where r: "tbl_get rq_id n (requests s) = Some r"
    and cs: "copies (deliver_safely ks co now n s) = fst (fold (send_to co r now) us (copies s, []))"
    using deliver_copies by blast
  obtain new where "fst (fold (send_to co r now) us (copies s, [])) = copies s @ new" "\<forall>c\<in>set new. cp_request c = rq_id r"
    using send_fold_others [of co r now us "(copies s, [])"] by auto
  then show ?thesis using cs r by (auto dest: tbl_get_Some)
qed simp

lemma copies_ok_deliver:
  assumes ok: "copies_ok s" and ids: "\<forall>r\<in>set (requests s). rq_id r < next_request s"
    and fresh: "n \<notin> cp_request ` set (copies s)"
  shows "copies_ok (deliver_safely ks co now n s)"
proof (cases "copies (deliver_safely ks co now n s) = copies s")
  case True
  then show ?thesis using ok by (simp add: copies_ok_def)
next
  case False
  then obtain r us where r: "tbl_get rq_id n (requests s) = Some r"
    and cs: "copies (deliver_safely ks co now n s) = fst (fold (send_to co r now) us (copies s, []))"
    using deliver_copies by blast
  have n: "rq_id r = n" using r by (auto dest: tbl_get_Some)
  have "have_channels (rq_id r) u (copies s) = []" for u
    unfolding have_channels_def n using fresh by (auto simp: filter_empty_conv)
  then have "sending_ok co r (copies s)" using ok by (simp add: sending_ok_def copies_ok_def)
  then have "sending_ok co r (copies (deliver_safely ks co now n s))"
    using sending_ok_fold [of co r "(copies s, [])" now us] cs by simp
  moreover obtain new where "copies (deliver_safely ks co now n s) = copies s @ new"
      "\<forall>c\<in>set new. cp_request c = n \<and> n \<in> rq_id ` set (requests s)"
    using deliver_others by blast
  ultimately show ?thesis using ok ids by (auto simp: copies_ok_def sending_ok_def)
qed

lemma copies_ok_keys:
  assumes "map copy_key (copies s') = map copy_key (copies s)" and "next_request s' \<ge> next_request s" and "copies_ok s"
  shows "copies_ok s'"
proof -
  have "cp_request c < next_request s'" if "c \<in> set (copies s')" for c
  proof -
    have "copy_key c \<in> set (map copy_key (copies s'))" using that by simp
    then obtain c0 where "c0 \<in> set (copies s)" "copy_key c0 = copy_key c" unfolding assms(1) by auto
    then show ?thesis using assms(2,3) by (auto simp: copies_ok_def copy_key_def)
  qed
  moreover have "mailed_only (copies s')"
    using assms(3) have_channels_keys [OF assms(1)] by (simp add: copies_ok_def mailed_only_def)
  ultimately show ?thesis using assms(1,3) by (simp add: copies_ok_def)
qed

lemma settle_keys [simp]: "map copy_key (copies (settle_safely co now n s)) = map copy_key (copies s)"
  by (auto simp: settle_safely_def settle_copies_def tbl_cas_def Let_def map_tbl_update copy_key_def split: option.splits)

lemma expire_one_keys: "map copy_key (copies (snd (expire_one co now n st))) = map copy_key (copies (snd st))
    \<and> next_request (snd (expire_one co now n st)) = next_request (snd st)"
  by (cases st) (auto simp: expire_one_def split: option.splits)

lemma decided_copies [simp]: "copies (decided k p r a decision comment via now s) = copies s"
    "next_request (decided k p r a decision comment via now s) = next_request s"
  by (auto simp: decided_def run_approved_def Let_def split: prod.splits sum.splits exec_error.splits)

lemma copies_ok_missed_fold:
  assumes "copies_ok s" and "\<forall>r\<in>set (requests s). rq_id r < next_request s" and "distinct ns"
    and "set ns \<inter> cp_request ` set (copies s) = {}"
  shows "copies_ok (fold (deliver_safely ks co now) ns s)"
  using assms
proof (induction ns arbitrary: s)
  case (Cons n ns)
  obtain new where new: "copies (deliver_safely ks co now n s) = copies s @ new" "\<forall>c\<in>set new. cp_request c = n"
    using deliver_others by blast
  have "copies_ok (deliver_safely ks co now n s)" using Cons.prems by (intro copies_ok_deliver) auto
  moreover have "set ns \<inter> cp_request ` set (copies (deliver_safely ks co now n s)) = {}"
    using new Cons.prems by auto
  ultimately show ?case using Cons.prems by (simp add: Cons.IH)
qed simp

lemma copies_ok_step:
  assumes step: "desk_step Q W s s'" and desk: "desk_ok s" and ok: "copies_ok s"
  shows "copies_ok s'"
  using step
proof (cases rule: desk_step.cases)
  case (step_file ks co now f)
  show ?thesis unfolding step_file
  proof (cases rule: create_request_cases [of ks co now f s])
    case (created k p d us target)
    let ?s1 = "filed (new_request k p d target (next_request s) now f) (fl_user f) (FiledAs (kd_slug k) (agent_slug (org s) (fl_agent f))) now s"
    have "copies_ok ?s1" by (rule copies_ok_keys [OF _ _ ok]) simp_all
    then have "copies_ok (deliver_safely ks co now (next_request s) ?s1)"
      by (rule copies_ok_deliver) (use desk ok in \<open>auto simp: desk_ok_def copies_ok_def\<close>)
    then show "copies_ok (snd (create_request ks co now f s))" using created(6) by simp
  qed (simp_all add: ok)
next
  case (step_decide ks co now m a decision comment via)
  show ?thesis unfolding step_decide
    by (cases rule: decide_request_cases [of ks co now m a decision comment via s])
      (use ok in \<open>auto intro: copies_ok_keys [OF _ _ ok]\<close>)
next
  case (step_cancel ks co now m a)
  show ?thesis unfolding step_cancel
    by (cases rule: cancel_request_cases [of ks co now m a s]) (use ok in \<open>auto intro: copies_ok_keys [OF _ _ ok]\<close>)
next
  case (step_expire co now)
  have "copies_ok (snd (fold (expire_one co now) ns st))" if "copies_ok (snd st)" for ns st
    using that
  proof (induction ns arbitrary: st)
    case (Cons n ns)
    have "copies_ok (snd (expire_one co now n st))"
      by (rule copies_ok_keys [OF _ _ Cons.prems]) (simp_all add: expire_one_keys)
    then show ?case by (simp add: Cons.IH)
  qed simp
  from this [of "(0, s)"] show ?thesis unfolding step_expire expire_due_def using ok by simp
next
  case (step_missed ks co now)
  show ?thesis unfolding step_missed deliver_missed_def Let_def snd_conv
  proof (rule copies_ok_missed_fold [OF ok])
    let ?rs = "filter (\<lambda>r. is_pending r \<and> rq_created r \<ge> now - BACKSTOP_WINDOW \<and> rq_id r \<notin> cp_request ` set (copies s)) (requests s)"
    show "distinct (take 50 (sort (map rq_id ?rs)))" using desk by (simp add: desk_ok_def distinct_map_filter)
    show "set (take 50 (sort (map rq_id ?rs))) \<inter> cp_request ` set (copies s) = {}"
      by (auto dest!: in_set_takeD simp: image_iff) metis
  qed (use desk in \<open>auto simp: desk_ok_def\<close>)
next
  case (step_elsewhere w)
  show ?thesis unfolding step_elsewhere by (rule copies_ok_keys [OF _ _ ok]) simp_all
qed

section \<open>The contract of the registered kinds\<close>

text \<open>What the desk asks of the kinds it runs: a handler that answers keeps what holds of the organisation
  (one that refuses or breaks is rolled back).  Then so does every operation of the desk, whatever the rest
  of the application does as long as it keeps it too.\<close>

locale keeping_kinds =
  fixes Q :: "('g, 'j, 'p, 'r) registry \<Rightarrow> bool" and I :: "'g org \<Rightarrow> bool"
  assumes handler_keeps: "Q ks \<Longrightarrow> k \<in> set ks \<Longrightarrow> I w \<Longrightarrow> kd_execute k now a p r w = (Inr x, w') \<Longrightarrow> I w'"
begin

lemma decided_keeps:
  assumes "Q ks" and "decidable ks n a now s r k p d" and "I (org s)"
  shows "I (org (decided k p r a decision comment via now s))"
proof (cases "decision = ''decline''")
  case False
  have k: "k \<in> set ks" using assms(2) read_kind_in by (fastforce simp: decidable_def)
  show ?thesis
    by (cases rule: run_approved_cases [of k now a p r s "py_strip comment" via])
      (use False assms(1,3) k handler_keeps in \<open>auto simp: decided_def\<close>)
qed (use assms(3) in \<open>simp add: decided_def\<close>)

lemma step_keeps:
  assumes step: "desk_step Q (\<lambda>w w'. I w \<longrightarrow> I w') s s'" and holds: "I (org s)"
  shows "I (org s')"
  using step
proof (cases rule: desk_step.cases)
  case (step_file ks co now f)
  show ?thesis unfolding step_file by (cases rule: create_request_cases [of ks co now f s]) (simp_all add: holds)
next
  case (step_decide ks co now n a decision comment via)
  show ?thesis unfolding step_decide(1)
    by (cases rule: decide_request_cases [of ks co now n a decision comment via s])
      (use step_decide(2) decided_keeps holds in auto)
next
  case (step_cancel ks co now n a)
  show ?thesis unfolding step_cancel by (cases rule: cancel_request_cases [of ks co now n a s]) (simp_all add: holds)
next
  case (step_expire co now)
  have "org (snd (expire_one co now n st)) = org (snd st)" for n and st :: "nat \<times> ('g, 'j, 'r) desk"
    by (cases st) (auto simp: expire_one_def split: option.splits)
  then have "org (snd (fold (expire_one co now) ns st)) = org (snd st)" for ns and st :: "nat \<times> ('g, 'j, 'r) desk"
    by (induction ns arbitrary: st) simp_all
  then show ?thesis unfolding step_expire using holds by (simp add: expire_due_def)
next
  case (step_missed ks co now)
  have "org (fold (deliver_safely ks co now) ns s) = org s" for ns and s :: "('g, 'j, 'r) desk"
    by (induction ns arbitrary: s) simp_all
  then show ?thesis unfolding step_missed using holds by (simp add: deliver_missed_def Let_def)
qed (use holds in auto)

lemma run_keeps: "(desk_step Q (\<lambda>w w'. I w \<longrightarrow> I w'))\<^sup>*\<^sup>* s s' \<Longrightarrow> I (org s) \<Longrightarrow> I (org s')"
  by (induction rule: rtranclp_induct) (auto intro: step_keeps)

end

end
