(* ===== verification/Approval_Kinds.thy ===== *)
theory Approval_Kinds
  imports Approvals
begin

text \<open>
  The registered kinds of approval request that change who belongs where
  (\<open>apps/approvals/kinds/workspace_members.py\<close> and \<open>agent_admin.py\<close>): add someone to a workspace, change a
  member's role, make someone an agent's admin.  Their handlers run the members routes' own services.

  \<open>kind_env\<close> holds what a kind takes from elsewhere: pydantic's validation and dump of each params model,
  the workspaces' display names, the departure sweep's revokers, the fresh token of an invite and what
  mailing one answered.  Then come the theorems about the desk and these kinds together, with a sample
  organisation.
\<close>

section \<open>Params, results, parameters\<close>

record member_params =
  mp_workspace :: slug
  mp_email :: string
  mp_role :: role

record admin_params =
  ap_agent :: slug
  ap_email :: string

datatype params = OfMember (member_of: member_params) | OfAdmin (admin_of: admin_params)

datatype result = Added string role | WasMember string "role option" | Invited string role string
  | RoleSet string role | AdminMade slug string bool

record ('g, 'j) kind_env =
  ke_member :: "'j \<Rightarrow> string + member_params"
  ke_member_dump :: "member_params \<Rightarrow> 'j"
  ke_admin :: "'j \<Rightarrow> string + admin_params"
  ke_admin_dump :: "admin_params \<Rightarrow> 'j"
  ke_display :: "slug \<Rightarrow> string"
  ke_revokers :: "'g revoker list"
  ke_token :: string
  ke_mail :: "invite \<Rightarrow> string"


section \<open>Shared by the kinds\<close>

definition kind_workspace :: "'g org \<Rightarrow> slug \<Rightarrow> kind_error + slug" where
  "kind_workspace w s = (if s \<in> ws_slug ` set (workspaces (og_members w)) then Inr s else Inl NoWorkspace)"

definition kind_email :: "string \<Rightarrow> kind_error + string" where
  "kind_email value = (let email = py_lower (py_strip value) in
     if CHR ''@'' \<notin> set email \<or> CHR '' '' \<in> set email then Inl NotAnEmail else Inr email)"

definition kind_agent :: "'g org \<Rightarrow> slug \<Rightarrow> kind_error + agent_login" where
  "kind_agent w s = (case tbl_get al_slug s (og_agents w) of None \<Rightarrow> Inl NoAgent | Some ag \<Rightarrow> Inr ag)"

definition may_manage :: "'g org \<Rightarrow> actor \<Rightarrow> slug \<Rightarrow> role option \<Rightarrow> role \<Rightarrow> bool" where
  "may_manage w a s target new = (case member_role (og_members w) a s of None \<Rightarrow> False
     | Some mine \<Rightarrow> role_allows (Some mine) MEMBERS_MANAGE = Inr True \<and> may_manage_member (Some mine) target (Some new))"

definition current_role :: "'g org \<Rightarrow> string \<Rightarrow> slug \<Rightarrow> role option" where
  "current_role w email s = (case user_by_email w email of None \<Rightarrow> None
     | Some t \<Rightarrow> member_role (og_members w) (uncapped t) s)"

definition member_error_code :: "member_error \<Rightarrow> string" where
  "member_error_code e = (case e of MemberNotFound \<Rightarrow> ''not_found'' | LastOwner \<Rightarrow> ''last_owner''
     | InvalidRole \<Rightarrow> ''invalid_role'' | AlreadyMember \<Rightarrow> ''already_member'')"


section \<open>Add someone to a workspace\<close>

definition add_describe :: "('g, 'j) kind_env \<Rightarrow> 'g org \<Rightarrow> member_params \<Rightarrow> kind_error + described" where
  "add_describe e w p =
     (case kind_workspace w (mp_workspace p) of Inl err \<Rightarrow> Inl err
      | Inr ws \<Rightarrow> (case kind_email (mp_email p) of Inl err \<Rightarrow> Inl err
        | Inr email \<Rightarrow>
          let name = ke_display e ws; r = role_name (mp_role p) in
          Inr \<lparr> ds_workspace = ws,
                ds_title = ''Add '' @ email @ '' to '' @ name @ '' as '' @ r,
                ds_summary = email @ '' would become '' @ r @ '' of '' @ name @ '' ('' @ ws @ '').'',
                ds_plan = [email @ '' becomes '' @ r @ '' of '' @ name,
                  ''If they already have a canopy account in this organisation they are added now; ''
                  @ ''otherwise they are emailed an invitation and join when they accept it''],
                ds_scopes = [''workspace:'' @ ws], ds_about = email \<rparr>))"

definition add_may :: "'g org \<Rightarrow> actor \<Rightarrow> member_params \<Rightarrow> described \<Rightarrow> kind_error + bool" where
  "add_may w a p d = Inr (email_of w (actor_id a) \<noteq> ds_about d \<and> may_manage w a (mp_workspace p) None (mp_role p))"

definition invite_them :: "('g, 'j) kind_env \<Rightarrow> instant \<Rightarrow> actor \<Rightarrow> slug \<Rightarrow> string \<Rightarrow> role \<Rightarrow> 'g org \<Rightarrow> result \<times> 'g org" where
  "invite_them e now a ws email r w =
     (let (inv, db) = create_invite ws email r (actor_id a) (ke_token e) now (og_access w)
      in (Invited email r (ke_mail e inv), w\<lparr>og_access := db\<rparr>))"

text \<open>An error of the lookups here is an exception the desk does not know: the handler broke.\<close>

definition add_execute :: "('g, 'j) kind_env \<Rightarrow> instant \<Rightarrow> actor \<Rightarrow> member_params \<Rightarrow> 'g org \<Rightarrow> (exec_error + result) \<times> 'g org" where
  "add_execute e now a p w =
     (case kind_workspace w (mp_workspace p) of Inl err \<Rightarrow> (Inl HandlerBroke, w)
      | Inr ws \<Rightarrow> (case kind_email (mp_email p) of Inl err \<Rightarrow> (Inl HandlerBroke, w)
        | Inr email \<Rightarrow>
          let invited = (case invite_them e now a ws email (mp_role p) w of (x, w') \<Rightarrow> (Inr x, w')) in
          (case user_by_email w email of None \<Rightarrow> invited
           | Some t \<Rightarrow>
             (case add_tree_member ws t (role_name (mp_role p)) (fst ` set (member_roles (og_members w) a))
                 (Some (actor_id a)) now (og_members w) of
                (Inr m, db) \<Rightarrow> (Inr (Added email (mp_role p)), w\<lparr>og_access := (og_access w)\<lparr>members_db := db\<rparr>\<rparr>)
              | (Inl err, _) \<Rightarrow>
                if err = AlreadyMember then (Inr (WasMember email (member_role (og_members w) (uncapped t) ws)), w)
                else if err \<noteq> MemberNotFound
                then (Inl (ExecRefused (''could not add '' @ email @ '': '' @ member_error_code err)), w)
                else invited))))"


section \<open>Change a member's role\<close>

definition set_describe :: "('g, 'j) kind_env \<Rightarrow> 'g org \<Rightarrow> member_params \<Rightarrow> kind_error + described" where
  "set_describe e w p =
     (case kind_workspace w (mp_workspace p) of Inl err \<Rightarrow> Inl err
      | Inr ws \<Rightarrow> (case kind_email (mp_email p) of Inl err \<Rightarrow> Inl err
        | Inr email \<Rightarrow>
          (case current_role w email ws of None \<Rightarrow> Inl NotMember
           | Some current \<Rightarrow>
             let name = ke_display e ws; r = role_name (mp_role p); c = role_name current in
             Inr \<lparr> ds_workspace = ws,
                   ds_title = ''Change '' @ email @ '' from '' @ c @ '' to '' @ r @ '' in '' @ name,
                   ds_summary = email @ '' is '' @ c @ '' of '' @ name @ '' ('' @ ws @ '') today.'',
                   ds_plan = [email @ CHR 0x27 # ''s role in '' @ name @ '' changes from '' @ c @ '' to '' @ r],
                   ds_scopes = [''workspace:'' @ ws], ds_about = email \<rparr>)))"

definition set_may :: "'g org \<Rightarrow> actor \<Rightarrow> member_params \<Rightarrow> described \<Rightarrow> kind_error + bool" where
  "set_may w a p d =
     (let current = current_role w (ds_about d) (mp_workspace p) in
      Inr (email_of w (actor_id a) \<noteq> ds_about d \<and> current \<noteq> None \<and> may_manage w a (mp_workspace p) current (mp_role p)))"

definition set_refusal :: "slug \<Rightarrow> member_params \<Rightarrow> member_error \<Rightarrow> string" where
  "set_refusal ws p err = (case err of LastOwner \<Rightarrow> ''that would leave the workspace with no owner''
     | MemberNotFound \<Rightarrow> mp_email p @ '' is not a member of '' @ ws
     | InvalidRole \<Rightarrow> role_name (mp_role p) @ '' is not a role'' | AlreadyMember \<Rightarrow> ''already_member'')"

definition set_execute :: "('g, 'j) kind_env \<Rightarrow> instant \<Rightarrow> actor \<Rightarrow> member_params \<Rightarrow> 'g org \<Rightarrow> (exec_error + result) \<times> 'g org" where
  "set_execute e now a p w =
     (case kind_workspace w (mp_workspace p) of Inl err \<Rightarrow> (Inl HandlerBroke, w)
      | Inr ws \<Rightarrow> (case kind_email (mp_email p) of Inl err \<Rightarrow> (Inl HandlerBroke, w)
        | Inr email \<Rightarrow>
          (case user_by_email w email of None \<Rightarrow> (Inl (ExecRefused (mp_email p @ '' is no longer on canopy'')), w)
           | Some t \<Rightarrow>
             (case set_member_role (ke_revokers e) ws t (role_name (mp_role p)) (Some (actor_id a)) (og_members w, og_grants w) of
                (Inl err, _) \<Rightarrow> (Inl (ExecRefused (set_refusal ws p err)), w)
              | (Inr m, db, g) \<Rightarrow> (Inr (RoleSet (mp_email p) (mp_role p)),
                  w\<lparr>og_access := (og_access w)\<lparr>members_db := db\<rparr>, og_grants := g\<rparr>)))))"


section \<open>Make someone an agent's admin\<close>

definition admin_describe :: "'g org \<Rightarrow> admin_params \<Rightarrow> kind_error + described" where
  "admin_describe w p =
     (case kind_agent w (ap_agent p) of Inl err \<Rightarrow> Inl err
      | Inr ag \<Rightarrow> (case kind_email (ap_email p) of Inl err \<Rightarrow> Inl err
        | Inr email \<Rightarrow>
          let name = (if al_name ag \<noteq> '''' then al_name ag else al_slug ag) in
          Inr \<lparr> ds_workspace = al_workspace ag,
                ds_title = ''Make '' @ email @ '' an admin of '' @ name,
                ds_summary = email @ '' would be able to run '' @ name @ '', change its settings and reach its credentials.'',
                ds_plan = [email @ '' becomes an admin of the agent '' @ name @ '' ('' @ al_workspace ag @ '')'',
                  ''They must already be a member of that workspace''],
                ds_scopes = [''agent:'' @ al_slug ag, ''workspace:'' @ al_workspace ag], ds_about = email \<rparr>))"

definition agent_recipients :: "'g org \<Rightarrow> agent_login \<Rightarrow> user_id list \<Rightarrow> user_id list" where
  "agent_recipients w ag us =
     (let accountable = filter (\<lambda>u. al_owner ag = Some u \<or> (\<exists>d\<in>set (og_admins w). ad_agent d = al_id ag \<and> ad_user d = u)) us
      in if accountable \<noteq> [] then accountable else us)"

definition admin_recipients :: "'g org \<Rightarrow> admin_params \<Rightarrow> described \<Rightarrow> user_id list \<Rightarrow> kind_error + user_id list" where
  "admin_recipients w p d us = (case kind_agent w (ap_agent p) of Inl err \<Rightarrow> Inl err | Inr ag \<Rightarrow> Inr (agent_recipients w ag us))"

definition admin_may :: "'g org \<Rightarrow> actor \<Rightarrow> admin_params \<Rightarrow> described \<Rightarrow> kind_error + bool" where
  "admin_may w a p d =
     (case kind_agent w (ap_agent p) of Inl err \<Rightarrow> Inl err
      | Inr ag \<Rightarrow>
        if email_of w (actor_id a) = ds_about d then Inr False
        else Inr (al_owner ag = user_pk a \<or> can (og_members w) a (al_workspace ag) OWN = Inr True))"

definition admin_execute :: "instant \<Rightarrow> actor \<Rightarrow> admin_params \<Rightarrow> 'g org \<Rightarrow> (exec_error + result) \<times> 'g org" where
  "admin_execute now a p w =
     (case kind_agent w (ap_agent p) of Inl err \<Rightarrow> (Inl HandlerBroke, w)
      | Inr ag \<Rightarrow> (case kind_email (ap_email p) of Inl err \<Rightarrow> (Inl HandlerBroke, w)
        | Inr email \<Rightarrow>
          let refused = (Inl (ExecRefused (ap_email p @ '' must be a member of '' @ al_workspace ag
                @ '' first -- ask to add them to the workspace'')), w) in
          (case user_by_email w email of None \<Rightarrow> refused
           | Some t \<Rightarrow>
             if \<not> is_member (og_members w) (uncapped t) (al_workspace ag) then refused
             else if \<exists>d\<in>set (og_admins w). ad_agent d = al_id ag \<and> ad_user d = t
             then (Inr (AdminMade (al_slug ag) (ap_email p) True), w)
             else (Inr (AdminMade (al_slug ag) (ap_email p) False),
               w\<lparr>og_admins := og_admins w @ [\<lparr> ad_agent = al_id ag, ad_user = t, ad_granted_by = Some (actor_id a), ad_granted_at = now \<rparr>]\<rparr>))))"


section \<open>The registry\<close>

definition member_add :: "('g, 'j) kind_env \<Rightarrow> ('g, 'j, params, result) kind" where
  "member_add e = \<lparr> kd_slug = ''workspace.member.add'',
     kd_validate = (\<lambda>j. map_sum id OfMember (ke_member e j)), kd_dump = (\<lambda>p. ke_member_dump e (member_of p)),
     kd_describe = (\<lambda>w p. add_describe e w (member_of p)), kd_may = (\<lambda>w a p. add_may w a (member_of p)),
     kd_recipients = direct_first, kd_execute = (\<lambda>now a p r. add_execute e now a (member_of p)) \<rparr>"

definition member_set_role :: "('g, 'j) kind_env \<Rightarrow> ('g, 'j, params, result) kind" where
  "member_set_role e = \<lparr> kd_slug = ''workspace.member.set_role'',
     kd_validate = (\<lambda>j. map_sum id OfMember (ke_member e j)), kd_dump = (\<lambda>p. ke_member_dump e (member_of p)),
     kd_describe = (\<lambda>w p. set_describe e w (member_of p)), kd_may = (\<lambda>w a p. set_may w a (member_of p)),
     kd_recipients = direct_first, kd_execute = (\<lambda>now a p r. set_execute e now a (member_of p)) \<rparr>"

definition admin_add :: "('g, 'j) kind_env \<Rightarrow> ('g, 'j, params, result) kind" where
  "admin_add e = \<lparr> kd_slug = ''agent.admin.add'',
     kd_validate = (\<lambda>j. map_sum id OfAdmin (ke_admin e j)), kd_dump = (\<lambda>p. ke_admin_dump e (admin_of p)),
     kd_describe = (\<lambda>w p. admin_describe w (admin_of p)), kd_may = (\<lambda>w a p. admin_may w a (admin_of p)),
     kd_recipients = (\<lambda>w p. admin_recipients w (admin_of p)), kd_execute = (\<lambda>now a p r. admin_execute now a (admin_of p)) \<rparr>"

text \<open>In the order \<open>_load\<close> imports the modules.\<close>

definition org_kinds :: "('g, 'j) kind_env \<Rightarrow> ('g, 'j, params, result) registry" where
  "org_kinds e = [admin_add e, member_add e, member_set_role e]"

lemmas kind_defs = member_add_def member_set_role_def admin_add_def

lemma org_kinds_slugs [simp]:
  "kd_slug (member_add e) = ''workspace.member.add''" "kd_slug (member_set_role e) = ''workspace.member.set_role''"
  "kd_slug (admin_add e) = ''agent.admin.add''"
  by (simp_all add: kind_defs)


section \<open>What the handlers change\<close>

text \<open>The three ways a handler ends well: a membership, an invite or an admin row; or nothing at all.\<close>

lemma kind_workspace_Inr: "kind_workspace w s = Inr ws \<longleftrightarrow> ws = s \<and> s \<in> ws_slug ` set (workspaces (og_members w))"
  by (auto simp: kind_workspace_def)

lemma kind_email_Inr: "kind_email v = Inr email \<Longrightarrow> email = py_lower (py_strip v) \<and> normal_email email"
  by (auto simp: kind_email_def Let_def normal_email_norm split: if_splits)

lemma add_execute_cases:
  assumes "add_execute e now a p w = (Inr x, w')"
  obtains (added) t m db where "user_by_email w (py_lower (py_strip (mp_email p))) = Some t" "row_of (og_members w) t (mp_workspace p) = None"
      "mp_workspace p \<in> ws_slug ` set (workspaces (og_members w))"
      "grant_role (mp_workspace p) t (mp_role p) (Some (actor_id a)) now (og_members w) = (m, db)"
      "w' = w\<lparr>og_access := (og_access w)\<lparr>members_db := db\<rparr>\<rparr>"
  | (already) "w' = w"
  | (invited) "mp_workspace p \<in> ws_slug ` set (workspaces (og_members w))"
      "w' = w\<lparr>og_access := snd (create_invite (mp_workspace p) (py_lower (py_strip (mp_email p))) (mp_role p) (actor_id a) (ke_token e) now (og_access w))\<rparr>"
proof -
  obtain ws where "kind_workspace w (mp_workspace p) = Inr ws"
    using assms by (cases "kind_workspace w (mp_workspace p)") (simp_all add: add_execute_def)
  then have ws: "kind_workspace w (mp_workspace p) = Inr (mp_workspace p)" "mp_workspace p \<in> ws_slug ` set (workspaces (og_members w))"
    by (auto simp: kind_workspace_Inr)
  obtain email where email: "kind_email (mp_email p) = Inr email"
    using assms ws by (cases "kind_email (mp_email p)") (simp_all add: add_execute_def)
  have e: "email = py_lower (py_strip (mp_email p))" using kind_email_Inr [OF email] by simp
  let ?inv = "invite_them e now a (mp_workspace p) email (mp_role p) w"
  have inv: "snd ?inv = w\<lparr>og_access := snd (create_invite (mp_workspace p) email (mp_role p) (actor_id a) (ke_token e) now (og_access w))\<rparr>"
    by (simp add: invite_them_def split: prod.split)
  show thesis
  proof (cases "user_by_email w email")
    case None
    then have "w' = snd ?inv" using assms ws email by (simp add: add_execute_def Let_def split: prod.splits)
    then show thesis using invited ws(2) inv e by simp
  next
    case (Some t)
    let ?add = "add_tree_member (mp_workspace p) t (role_name (mp_role p)) (fst ` set (member_roles (og_members w) a)) (Some (actor_id a)) now (og_members w)"
    show thesis
    proof (cases ?add)
      case (Pair res db)
      show thesis
      proof (cases res)
        case (Inr m)
        then have g: "row_of (og_members w) t (mp_workspace p) = None"
            "\<exists>r. role_of_name (role_name (mp_role p)) = Some r \<and> grant_role (mp_workspace p) t r (Some (actor_id a)) now (og_members w) = (m, db)"
          using Pair by (auto simp: add_tree_member_def Let_def split: option.splits if_splits prod.splits)
        have "role_of_name (role_name (mp_role p)) = Some r \<Longrightarrow> r = mp_role p" for r
          by (cases "mp_role p") (auto simp: role_of_name_def ROLE_CHOICES_def)
        then have "grant_role (mp_workspace p) t (mp_role p) (Some (actor_id a)) now (og_members w) = (m, db)" using g(2) by auto
        moreover have "w' = w\<lparr>og_access := (og_access w)\<lparr>members_db := db\<rparr>\<rparr>"
          using assms ws email Some Pair Inr by (simp add: add_execute_def Let_def)
        ultimately show thesis using added Some g(1) ws(2) e by simp
      next
        case (Inl err)
        then have "w' = w \<or> w' = snd ?inv"
          using assms ws email Some Pair by (auto simp: add_execute_def Let_def split: prod.splits if_splits)
        then show thesis using already invited ws(2) inv e by auto
      qed
    qed
  qed
qed

lemma role_of_own_name: "role_of_name (role_name r) = Some r' \<Longrightarrow> r' = r"
  by (cases r) (auto simp: role_of_name_def ROLE_CHOICES_def)

lemma set_execute_cases:
  assumes "set_execute e now a p w = (Inr x, w')"
  obtains (same) g where "w' = w\<lparr>og_grants := g\<rparr>"
  | (changed) t m g where "user_by_email w (py_lower (py_strip (mp_email p))) = Some t" "row_of (og_members w) t (mp_workspace p) = Some m"
      "\<not> is_last_owner (og_members w) m"
      "w' = w\<lparr>og_access := (og_access w)\<lparr>members_db := set_role_row (mp_workspace p) t (mp_role p) (og_members w)\<rparr>, og_grants := g\<rparr>"
proof -
  obtain ws where "kind_workspace w (mp_workspace p) = Inr ws"
    using assms by (cases "kind_workspace w (mp_workspace p)") (simp_all add: set_execute_def)
  then have ws: "kind_workspace w (mp_workspace p) = Inr (mp_workspace p)" by (auto simp: kind_workspace_Inr)
  obtain email where email: "kind_email (mp_email p) = Inr email"
    using assms ws by (cases "kind_email (mp_email p)") (simp_all add: set_execute_def)
  have e: "email = py_lower (py_strip (mp_email p))" using kind_email_Inr [OF email] by simp
  obtain t where t: "user_by_email w email = Some t"
    using assms ws email by (cases "user_by_email w email") (simp_all add: set_execute_def)
  obtain m db g where set: "set_member_role (ke_revokers e) (mp_workspace p) t (role_name (mp_role p)) (Some (actor_id a)) (og_members w, og_grants w) = (Inr m, db, g)"
    and w': "w' = w\<lparr>og_access := (og_access w)\<lparr>members_db := db\<rparr>, og_grants := g\<rparr>"
    using assms ws email t by (auto simp: set_execute_def split: sum.splits prod.splits)
  obtain r where "role_of_name (role_name (mp_role p)) = Some r"
    using set by (cases "role_of_name (role_name (mp_role p))") (simp_all add: set_member_role_def)
  then have r: "role_of_name (role_name (mp_role p)) = Some (mp_role p)" using role_of_own_name by blast
  obtain m0 where m0: "row_of (og_members w) t (mp_workspace p) = Some m0"
    and "db = og_members w \<or> \<not> is_last_owner (og_members w) m0 \<and> db = set_role_row (mp_workspace p) t (mp_role p) (og_members w)"
    using set r by (auto simp: set_member_role_def guarded_Inr Let_def split: if_splits)
  then show thesis
  proof (elim disjE conjE)
    assume "db = og_members w"
    then show thesis using w' by (intro same [of g]) simp
  next
    assume "\<not> is_last_owner (og_members w) m0" "db = set_role_row (mp_workspace p) t (mp_role p) (og_members w)"
    then show thesis using w' t m0 e by (intro changed) simp_all
  qed
qed

lemma admin_execute_cases:
  assumes "admin_execute now a p w = (Inr x, w')"
  obtains (already) "w' = w"
  | (made) ag t where "kind_agent w (ap_agent p) = Inr ag" "user_by_email w (py_lower (py_strip (ap_email p))) = Some t"
      "is_member (og_members w) (uncapped t) (al_workspace ag)"
      "w' = w\<lparr>og_admins := og_admins w @ [\<lparr> ad_agent = al_id ag, ad_user = t, ad_granted_by = Some (actor_id a), ad_granted_at = now \<rparr>]\<rparr>"
proof -
  obtain ag where ag: "kind_agent w (ap_agent p) = Inr ag"
    using assms by (cases "kind_agent w (ap_agent p)") (simp_all add: admin_execute_def)
  obtain email where email: "kind_email (ap_email p) = Inr email"
    using assms ag by (cases "kind_email (ap_email p)") (simp_all add: admin_execute_def)
  have e: "email = py_lower (py_strip (ap_email p))" using kind_email_Inr [OF email] by simp
  obtain t where t: "user_by_email w email = Some t"
    using assms ag email by (cases "user_by_email w email") (simp_all add: admin_execute_def Let_def)
  show thesis
  proof (cases "\<exists>d\<in>set (og_admins w). ad_agent d = al_id ag \<and> ad_user d = t")
    case True
    then show thesis using assms ag email t by (intro already) (simp add: admin_execute_def Let_def split: if_splits)
  next
    case False
    then show thesis using assms ag email t e
      by (intro made [of ag t]) (auto simp: admin_execute_def Let_def split: if_splits)
  qed
qed

section \<open>What the approver's authority covers\<close>

lemma user_by_email_email:
  assumes "distinct (map pn_id (og_people w))" and "user_by_email w email = Some t" and "normal_email email"
  shows "email_of w t = email"
proof -
  obtain x where x: "first_min pn_id (filter (\<lambda>p. py_lower (pn_email p) = py_lower (py_strip email) \<and> pn_active p) (og_people w)) = Some x" "t = pn_id x"
    using assms(2) by (auto simp: user_by_email_def)
  then have "x \<in> set (og_people w)" "py_lower (pn_email x) = email"
    using first_min_Some [OF x(1)] assms(3) by (auto simp: normal_email_def)
  then show ?thesis using x(2) tbl_get_distinct [OF assms(1), of x] by (simp add: email_of_def)
qed

abbreviation may_grant :: "'g org \<Rightarrow> actor \<Rightarrow> slug \<Rightarrow> role \<Rightarrow> bool" where
  "may_grant w a s r \<equiv> \<exists>mine. member_role (og_members w) a s = Some mine
     \<and> (mine \<in> {Owner, Superuser} \<or> mine = Admin \<and> r \<in> {Viewer, Editor})"

lemma may_manage_grants: "may_manage w a s target r \<Longrightarrow> may_grant w a s r"
  by (auto simp: may_manage_def managing_members_never_escalates split: option.splits)

lemma add_authority:
  assumes "add_describe e w p = Inr d" and "add_may w a p d = Inr True"
  shows "email_of w (actor_id a) \<noteq> py_lower (py_strip (mp_email p)) \<and> may_grant w a (mp_workspace p) (mp_role p)"
proof -
  obtain ws email where "kind_workspace w (mp_workspace p) = Inr ws" "kind_email (mp_email p) = Inr email" "ds_about d = email"
    using assms(1) by (auto simp: add_describe_def Let_def split: sum.splits)
  then have "ds_about d = py_lower (py_strip (mp_email p))" using kind_email_Inr by blast
  then show ?thesis using assms(2) may_manage_grants by (auto simp: add_may_def)
qed

lemma set_authority:
  assumes "set_describe e w p = Inr d" and "set_may w a p d = Inr True"
  shows "email_of w (actor_id a) \<noteq> py_lower (py_strip (mp_email p)) \<and> may_grant w a (mp_workspace p) (mp_role p)"
proof -
  obtain ws email where "kind_workspace w (mp_workspace p) = Inr ws" "kind_email (mp_email p) = Inr email" "ds_about d = email"
    using assms(1) by (auto simp: set_describe_def Let_def split: sum.splits option.splits)
  then have "ds_about d = py_lower (py_strip (mp_email p))" using kind_email_Inr by blast
  then show ?thesis using assms(2) may_manage_grants by (auto simp: set_may_def Let_def)
qed

lemma kind_agent_Inr: "kind_agent w s = Inr ag \<Longrightarrow> ag \<in> set (og_agents w) \<and> al_slug ag = s"
  by (auto simp: kind_agent_def dest: tbl_get_Some split: option.splits)

lemma admin_authority:
  assumes "admin_describe w p = Inr d" and "admin_may w a p d = Inr True" and "kind_agent w (ap_agent p) = Inr ag"
  shows "email_of w (actor_id a) \<noteq> py_lower (py_strip (ap_email p))
    \<and> (al_owner ag = user_pk a \<or> can (og_members w) a (al_workspace ag) OWN = Inr True)"
proof -
  obtain email where "kind_email (ap_email p) = Inr email" "ds_about d = email"
    using assms(1,3) by (auto simp: admin_describe_def Let_def split: sum.splits)
  then have "ds_about d = py_lower (py_strip (ap_email p))" using kind_email_Inr by blast
  then show ?thesis using assms(2,3) by (auto simp: admin_may_def split: if_splits)
qed

text \<open>The rows that are new after each change.\<close>

lemma create_invite_rows:
  assumes "distinct (map iv_id (invites db))"
    and new: "i \<in> set (invites (snd (create_invite s email r by' token now db)))" "i \<notin> set (invites db)"
  shows "iv_workspace i = s \<and> iv_email i = py_lower (py_strip email) \<and> iv_role i = r"
proof -
  let ?live = "newest_first (filter (\<lambda>i. iv_workspace i = s \<and> iv_email i = py_lower (py_strip email) \<and> unactioned i) (invites db))"
  show ?thesis
  proof (cases ?live)
    case Nil
    then show ?thesis using new by (auto simp: create_invite_def Let_def)
  next
    case (Cons j js)
    then have j: "j \<in> set (invites db)" "iv_workspace j = s" "iv_email j = py_lower (py_strip email)"
      using set_newest_first [of "filter (\<lambda>i. iv_workspace i = s \<and> iv_email i = py_lower (py_strip email) \<and> unactioned i) (invites db)"]
      by auto
    then obtain k where "k \<in> set (invites db)" "iv_id k = iv_id j" "i = rearm token now r k"
      using new Cons by (auto simp: create_invite_def Let_def update_invite_def set_tbl_update split: if_splits)
    moreover from this have "k = j" using assms(1) j(1) by (auto simp: distinct_map inj_on_def)
    ultimately show ?thesis using j by (simp add: rearm_def)
  qed
qed

lemma create_invite_members [simp]: "members_db (snd (create_invite s email r by' token now db)) = members_db db"
  by (auto simp: create_invite_def Let_def update_invite_def split: list.split)

lemma grant_rows:
  assumes "row_of db u s = None" and "m \<in> set (memberships (snd (grant_role s u r by' now db)))" "m \<notin> set (memberships db)"
  shows "m_workspace m = s \<and> m_user m = u \<and> m_role m = r"
  using assms by (auto simp: grant_role_def Let_def)

lemma set_role_rows:
  assumes "m \<in> set (memberships (set_role_row s u r db))" and "m \<notin> set (memberships db)"
  shows "m_workspace m = s \<and> m_user m = u \<and> m_role m = r"
  using assms by (auto simp: set_role_row_def set_tbl_update row_key_def split: if_splits)

text \<open>What is new in the organisation after a decision.\<close>

definition granted_within :: "'g org \<Rightarrow> actor \<Rightarrow> 'g org \<Rightarrow> bool" where
  "granted_within w a w' \<longleftrightarrow>
     (\<forall>m\<in>set (memberships (og_members w')) - set (memberships (og_members w)).
        m_user m \<noteq> actor_id a \<and> may_grant w a (m_workspace m) (m_role m))
   \<and> (\<forall>i\<in>set (invites (og_access w')) - set (invites (og_access w)).
        iv_email i \<noteq> email_of w (actor_id a) \<and> may_grant w a (iv_workspace i) (iv_role i))
   \<and> (\<forall>d\<in>set (og_admins w') - set (og_admins w). ad_user d \<noteq> actor_id a \<and>
        (\<exists>ag\<in>set (og_agents w). al_id ag = ad_agent d \<and> is_member (og_members w) (uncapped (ad_user d)) (al_workspace ag)
          \<and> (al_owner ag = user_pk a \<or> can (og_members w) a (al_workspace ag) OWN = Inr True)))"

lemma granted_within_refl [simp]: "granted_within w a w"
  by (simp add: granted_within_def)

lemma add_grants_within:
  assumes ids: "distinct (map pn_id (og_people w))" "distinct (map iv_id (invites (og_access w)))"
    and run: "add_execute e now a p w = (Inr x, w')"
    and auth: "email_of w (actor_id a) \<noteq> py_lower (py_strip (mp_email p))" "may_grant w a (mp_workspace p) (mp_role p)"
  shows "granted_within w a w'"
  using run
proof (cases rule: add_execute_cases)
  case (added t m db)
  have "email_of w t = py_lower (py_strip (mp_email p))"
    by (rule user_by_email_email [OF ids(1) added(1) normal_email_norm])
  then have t: "t \<noteq> actor_id a" using auth(1) by auto
  have "m' \<in> set (memberships db) \<Longrightarrow> m' \<notin> set (memberships (og_members w)) \<Longrightarrow>
      m_workspace m' = mp_workspace p \<and> m_user m' = t \<and> m_role m' = mp_role p" for m'
    using grant_rows [OF added(2), of m' "mp_role p" "Some (actor_id a)" now] added(4) by simp
  then show ?thesis using t auth(2) added(5) by (auto simp: granted_within_def)
next
  case invited
  have "iv_workspace i = mp_workspace p \<and> iv_email i = py_lower (py_strip (mp_email p)) \<and> iv_role i = mp_role p"
    if "i \<in> set (invites (og_access w'))" "i \<notin> set (invites (og_access w))" for i
    using create_invite_rows [OF ids(2)] that invited(2) normal_email_norm [of "mp_email p"]
    by (force simp: normal_email_def)
  then show ?thesis using auth invited(2) by (auto simp: granted_within_def)
qed simp

lemma set_grants_within:
  assumes ids: "distinct (map pn_id (og_people w))"
    and run: "set_execute e now a p w = (Inr x, w')"
    and auth: "email_of w (actor_id a) \<noteq> py_lower (py_strip (mp_email p))" "may_grant w a (mp_workspace p) (mp_role p)"
  shows "granted_within w a w'"
  using run
proof (cases rule: set_execute_cases)
  case (changed t m g)
  have "email_of w t = py_lower (py_strip (mp_email p))"
    by (rule user_by_email_email [OF ids changed(1) normal_email_norm])
  then have "t \<noteq> actor_id a" using auth(1) by auto
  then show ?thesis using auth(2) changed(4) set_role_rows by (fastforce simp: granted_within_def)
qed (simp add: granted_within_def)

lemma admin_grants_within:
  assumes ids: "distinct (map pn_id (og_people w))"
    and run: "admin_execute now a p w = (Inr x, w')"
    and auth: "admin_describe w p = Inr d" "admin_may w a p d = Inr True"
  shows "granted_within w a w'"
  using run
proof (cases rule: admin_execute_cases)
  case (made ag t)
  have "email_of w t = py_lower (py_strip (ap_email p))"
    by (rule user_by_email_email [OF ids made(2) normal_email_norm])
  then have "t \<noteq> actor_id a" using admin_authority [OF auth made(1)] by auto
  then show ?thesis
    using admin_authority [OF auth made(1)] kind_agent_Inr [OF made(1)] made(3,4) by (auto simp: granted_within_def)
qed simp

section \<open>What the handlers keep\<close>

text \<open>The membership and invite tables are well formed, the workspaces a tree, and the workspaces of a set
  each have an owner.\<close>

definition org_ok :: "slug set \<Rightarrow> 'g org \<Rightarrow> bool" where
  "org_ok V w \<longleftrightarrow> access_ok (og_access w) \<and> tree_ok (workspaces (og_members w)) \<and> (\<forall>v\<in>V. owned (og_members w) v)"

lemma access_ok_set_role:
  "access_ok db \<Longrightarrow> access_ok (db\<lparr>members_db := set_role_row s u r (members_db db)\<rparr>)"
  using wsdb_ok_set_role [of "members_db db"] by (simp add: access_ok_def set_role_row_def)

lemma grant_new_owned:
  assumes "owned db v"
  shows "row_of db u s = None \<Longrightarrow> owned (snd (grant_role s u r by' now db)) v
    \<and> workspaces (snd (grant_role s u r by' now db)) = workspaces db"
  using assms by (auto simp: owned_def grant_role_def Let_def)

lemma grant_workspaces [simp]: "workspaces (snd (grant_role s u r by' now db)) = workspaces db"
  by (auto simp: grant_role_def set_role_row_def Let_def split: option.split)

lemma add_keeps: "add_execute e now a p w = (Inr x, w') \<Longrightarrow> org_ok V w \<Longrightarrow> org_ok V w'"
proof (erule add_execute_cases)
  fix t m db
  assume ok: "org_ok V w" and row: "row_of (og_members w) t (mp_workspace p) = None"
    and s: "mp_workspace p \<in> ws_slug ` set (workspaces (og_members w))"
    and g: "grant_role (mp_workspace p) t (mp_role p) (Some (actor_id a)) now (og_members w) = (m, db)"
    and w': "w' = w\<lparr>og_access := (og_access w)\<lparr>members_db := db\<rparr>\<rparr>"
  have "db = snd (grant_role (mp_workspace p) t (mp_role p) (Some (actor_id a)) now (og_members w))" using g by simp
  then show "org_ok V w'"
    using ok row s access_ok_grant [of "og_access w" "mp_workspace p"] grant_new_owned [OF _ row]
    by (auto simp: org_ok_def w')
next
  assume ok: "org_ok V w" and s: "mp_workspace p \<in> ws_slug ` set (workspaces (og_members w))"
    and w': "w' = w\<lparr>og_access := snd (create_invite (mp_workspace p) (py_lower (py_strip (mp_email p))) (mp_role p) (actor_id a) (ke_token e) now (og_access w))\<rparr>"
  show "org_ok V w'" using ok access_ok_create [OF _ s] by (simp add: org_ok_def w')
qed simp

lemma set_keeps: "set_execute e now a p w = (Inr x, w') \<Longrightarrow> org_ok V w \<Longrightarrow> org_ok V w'"
proof (erule set_execute_cases)
  fix t m g
  assume ok: "org_ok V w" and row: "row_of (og_members w) t (mp_workspace p) = Some m" and last: "\<not> is_last_owner (og_members w) m"
    and w': "w' = w\<lparr>og_access := (og_access w)\<lparr>members_db := set_role_row (mp_workspace p) t (mp_role p) (og_members w)\<rparr>, og_grants := g\<rparr>"
  have "owned (set_role_row (mp_workspace p) t (mp_role p) (og_members w)) v" if "v \<in> V" for v
    by (rule owned_set_role [OF _ _ row]) (use ok last that in \<open>auto simp: org_ok_def access_ok_def\<close>)
  moreover have "workspaces (set_role_row (mp_workspace p) t (mp_role p) (og_members w)) = workspaces (og_members w)"
    by (simp add: set_role_row_def)
  ultimately show "org_ok V w'" using ok access_ok_set_role by (simp add: org_ok_def w')
qed (simp add: org_ok_def)

lemma admin_keeps: "admin_execute now a p w = (Inr x, w') \<Longrightarrow> org_ok V w \<Longrightarrow> org_ok V w'"
  by (erule admin_execute_cases) (simp_all add: org_ok_def)

interpretation approvals: keeping_kinds "\<lambda>ks. \<exists>e. ks = org_kinds e" "org_ok V"
proof
  fix ks :: "('a, 'b, params, result) registry" and k w now a p r x w'
  assume "\<exists>e. ks = org_kinds e" and "k \<in> set ks" and ok: "org_ok V w" and run: "kd_execute k now a p r w = (Inr x, w')"
  then obtain e where "k \<in> {admin_add e, member_add e, member_set_role e}" by (auto simp: org_kinds_def)
  then show "org_ok V w'"
    using run ok by (auto simp: kind_defs intro: add_keeps set_keeps admin_keeps)
qed


section \<open>A sample organisation\<close>

definition sample_persons :: "person list" where
  "sample_persons = [
     \<lparr> pn_id = 1, pn_email = ''ada@x.org'', pn_full_name = ''Ada'', pn_username = ''ada'', pn_active = True \<rparr>,
     \<lparr> pn_id = 2, pn_email = ''Bob@x.org'', pn_full_name = '''', pn_username = ''bob'', pn_active = True \<rparr>,
     \<lparr> pn_id = 3, pn_email = ''cy@x.org'', pn_full_name = ''Cy'', pn_username = ''cy'', pn_active = True \<rparr>]"

definition sample_org :: "unit org" where
  "sample_org = \<lparr> og_access = sample_access, og_people = sample_persons,
     og_agents = [\<lparr> al_id = 7, al_slug = ''hal'', al_name = ''Hal'', al_workspace = ''div'', al_owner = Some 3, al_user = None \<rparr>],
     og_admins = [], og_grants = () \<rparr>"

definition sample_kind_env :: "(unit, params) kind_env" where
  "sample_kind_env = \<lparr> ke_member = (\<lambda>j. case j of OfMember m \<Rightarrow> Inr m | OfAdmin _ \<Rightarrow> Inl ''workspace: missing''),
     ke_member_dump = OfMember,
     ke_admin = (\<lambda>j. case j of OfAdmin m \<Rightarrow> Inr m | OfMember _ \<Rightarrow> Inl ''agent: missing''), ke_admin_dump = OfAdmin,
     ke_display = (\<lambda>s. s), ke_revokers = [], ke_token = ''tok'', ke_mail = (\<lambda>i. ''sent'') \<rparr>"

definition sample_courier :: "(params, result) courier" where
  "sample_courier = \<lparr> co_send = (\<lambda>c r u. if c = Slack \<and> u = 1 then None else if c = Push then None else Some ''ref''),
     co_settle = (\<lambda>c r. True), co_wants = (\<lambda>u. True) \<rparr>"

definition sample_filing :: "params filing" where
  "sample_filing = \<lparr> fl_kind = ''workspace.member.add'',
     fl_params = OfMember \<lparr> mp_workspace = ''div'', mp_email = ''Zed@x.org'', mp_role = Editor \<rparr>,
     fl_agent = None, fl_user = Some 2, fl_reason = ''please'', fl_evidence = [], fl_source_url = '''',
     fl_for_email = '''', fl_hours = 1, fl_key = ''k1'' \<rparr>"

definition empty_desk :: "(unit, params, result) desk" where
  "empty_desk = \<lparr> requests = [], trail = [], copies = [], next_request = 0, org = sample_org \<rparr>"

definition sample_desk :: "(unit, params, result) desk" where
  "sample_desk = snd (create_request (org_kinds sample_kind_env) sample_courier 1000 sample_filing empty_desk)"

lemma sample_org_ok: "org_ok {''div''} sample_org" "distinct (map pn_id (og_people sample_org))"
  by code_simp+

lemma empty_desk_ok: "desk_ok empty_desk" "copies_ok empty_desk"
  by (simp_all add: empty_desk_def desk_ok_def copies_ok_def mailed_only_def have_channels_def)

definition org_registry :: "(unit, params, params, result) registry \<Rightarrow> bool" where
  "org_registry ks \<longleftrightarrow> (\<exists>e. ks = org_kinds e)"

lemma org_registry_kinds [simp]: "org_registry (org_kinds e)"
  by (auto simp: org_registry_def)

lemma sample_desk_ok: "desk_ok sample_desk"
  unfolding sample_desk_def by (rule desk_ok_create [OF empty_desk_ok(1)])

lemma create_request_org: "org (snd (create_request ks co now f s)) = org s"
  by (cases rule: create_request_cases [of ks co now f s]) simp_all

lemma sample_desk_org: "org sample_desk = sample_org"
  by (simp add: sample_desk_def create_request_org empty_desk_def)

lemma create_request_new:
  assumes "create_request ks co now f s = (Inr (r, True), s')"
  shows "requests s' = requests s @ [r] \<and> is_pending r \<and> rq_id r = next_request s \<and> rq_expires r = Some (now + ttl_of (fl_hours f))
    \<and> rq_key r = (if fl_key f = '''' then None else Some (fl_key f))
    \<and> (\<exists>k p d. read_kind ks (org s) (fl_kind f) (fl_params f) = Inr (k, p, d) \<and> rq_kind r = kd_slug k \<and> rq_params r = kd_dump k p
        \<and> rq_workspace r = ds_workspace d)"
  by (cases rule: create_request_cases [of ks co now f s]) (use assms in \<open>auto simp: is_pending_def\<close>)

definition sample_member :: member_params where
  "sample_member = \<lparr> mp_workspace = ''div'', mp_email = ''Zed@x.org'', mp_role = Editor \<rparr>"

lemma sample_read:
  "read_kind (org_kinds sample_kind_env) sample_org ''workspace.member.add'' (OfMember sample_member)
    = Inr (member_add sample_kind_env, OfMember sample_member, projr (add_describe sample_kind_env sample_org sample_member))"
proof -
  have "is_ok (add_describe sample_kind_env sample_org sample_member)" by code_simp
  then show ?thesis
    by (auto simp: read_kind_Inr get_kind_def org_kinds_def is_ok_iff) (simp_all add: member_add_def sample_kind_env_def)
qed

lemma sample_approvers:
  "\<exists>u us. approvers (member_add sample_kind_env) sample_org (OfMember sample_member) (projr (add_describe sample_kind_env sample_org sample_member)) = Inr (u # us)"
proof -
  have "case approvers (member_add sample_kind_env) sample_org (OfMember sample_member) (projr (add_describe sample_kind_env sample_org sample_member))
      of Inl _ \<Rightarrow> False | Inr us \<Rightarrow> us \<noteq> []" by code_simp
  then show ?thesis by (auto simp: neq_Nil_conv split: sum.splits)
qed

lemma sample_asks: "org empty_desk = sample_org" "fl_kind sample_filing = ''workspace.member.add''"
    "fl_params sample_filing = OfMember sample_member" "fl_for_email sample_filing = ''''" "keyed_request k empty_desk = None"
  by (simp_all add: empty_desk_def sample_filing_def sample_member_def keyed_request_def)

lemma sample_filed: "create_request (org_kinds sample_kind_env) sample_courier 1000 sample_filing empty_desk
    = (Inr (hd (requests sample_desk), True), sample_desk)"
proof (cases rule: create_request_cases [of "org_kinds sample_kind_env" sample_courier 1000 sample_filing empty_desk])
  case (refused e)
  obtain u us where "approvers (member_add sample_kind_env) sample_org (OfMember sample_member) (projr (add_describe sample_kind_env sample_org sample_member)) = Inr (u # us)"
    using sample_approvers by blast
  then show ?thesis using refused by (simp add: create_request_def sample_asks sample_read for_user_def Let_def)
next
  case (replayed r)
  then show ?thesis by (simp add: sample_asks)
next
  case (created k p d us target)
  then show ?thesis by (simp add: sample_desk_def) (simp add: empty_desk_def)
qed

lemmas sample_request = create_request_new [OF sample_filed]

lemma sample_rows: "requests sample_desk = [hd (requests sample_desk)]" "rq_id (hd (requests sample_desk)) = 0"
    "rq_expires (hd (requests sample_desk)) = Some 3600001000" "is_pending (hd (requests sample_desk))"
  using sample_request by (simp_all add: empty_desk_def sample_filing_def ttl_of_def MAX_TTL_def)

lemma sample_get: "tbl_get rq_id 0 (requests sample_desk) = Some (hd (requests sample_desk))"
  using sample_rows(1,2) by (metis tbl_get_Cons)

lemma sample_keyed: "keyed_request (fl_key sample_filing) sample_desk = Some (hd (requests sample_desk))"
proof -
  have "rq_key (hd (requests sample_desk)) = Some ''k1''" using sample_request by (simp add: sample_filing_def)
  then show ?thesis by (subst (asm) sample_rows(1), subst keyed_request_def, subst sample_rows(1)) (simp add: sample_filing_def)
qed

lemma sample_placed: "rq_workspace (hd (requests sample_desk)) = ''div''"
proof -
  have "ds_workspace (projr (add_describe sample_kind_env sample_org sample_member)) = ''div''" by code_simp
  then show ?thesis using sample_request sample_read sample_asks by auto
qed

lemma sample_decidable:
  "decidable (org_kinds sample_kind_env) 0 (uncapped 3) 2000 sample_desk (hd (requests sample_desk))
     (member_add sample_kind_env) (OfMember sample_member) (projr (add_describe sample_kind_env sample_org sample_member))"
proof -
  have "rq_kind (hd (requests sample_desk)) = kd_slug (member_add sample_kind_env)"
      "rq_params (hd (requests sample_desk)) = kd_dump (member_add sample_kind_env) (OfMember sample_member)"
    using sample_request sample_read sample_asks by auto
  then have "rq_kind (hd (requests sample_desk)) = ''workspace.member.add''" "rq_params (hd (requests sample_desk)) = OfMember sample_member"
    by (simp_all add: member_add_def sample_kind_env_def)
  moreover have "add_may sample_org (uncapped 3) sample_member (projr (add_describe sample_kind_env sample_org sample_member)) = Inr True"
    by code_simp
  ultimately show ?thesis
    using sample_get sample_rows sample_read by (simp add: decidable_def passed_due_def sample_desk_org member_add_def [of sample_kind_env, THEN arg_cong [of _ _ kd_may]])
qed

text \<open>The sample request once an owner of its workspace approved it.\<close>

definition sample_done :: "(unit, params, result) desk" where
  "sample_done = snd (decide_request (org_kinds sample_kind_env) sample_courier 2000 0 (uncapped 3) ''approve'' '''' ''web'' sample_desk)"

lemma sample_decided: "decide_request (org_kinds sample_kind_env) sample_courier 2000 0 (uncapped 3) ''approve'' '''' ''web'' sample_desk
    = (Inr 0, sample_done)"
  using decide_request_ok [OF sample_decidable, of "''approve''"] by (simp add: sample_done_def)

lemma sample_run:
  "\<exists>x w. add_execute sample_kind_env 2000 (uncapped 3) sample_member sample_org = (Inr x, w)
    \<and> sample_done = settle_safely sample_courier 2000 0 (close_request 0 AprDone EvExecuted (Some 3) ''web'' '''' (Some x) ''''  2000
        (sample_desk\<lparr>org := w, trail := trail sample_desk @ [approved_event 0 (uncapped 3) ''web'' 2000]\<rparr>))"
proof -
  have "is_ok (fst (add_execute sample_kind_env 2000 (uncapped 3) sample_member sample_org))" by code_simp
  then obtain x w where "add_execute sample_kind_env 2000 (uncapped 3) sample_member sample_org = (Inr x, w)"
    by (auto simp: is_ok_iff prod_eq_iff)
  then show ?thesis
    using decide_request_ok [OF sample_decidable, of "''approve''"] run_approved_done [of "member_add sample_kind_env"] sample_rows(2)
    by (simp add: sample_done_def decided_def sample_desk_org member_add_def user_pk_def py_strip_def)
qed

lemma sample_done_org: "org sample_done = snd (add_execute sample_kind_env 2000 (uncapped 3) sample_member sample_org)"
proof -
  obtain x w where "add_execute sample_kind_env 2000 (uncapped 3) sample_member sample_org = (Inr x, w)"
    and s: "sample_done = settle_safely sample_courier 2000 0 (close_request 0 AprDone EvExecuted (Some 3) ''web'' '''' (Some x) '''' 2000
        (sample_desk\<lparr>org := w, trail := trail sample_desk @ [approved_event 0 (uncapped 3) ''web'' 2000]\<rparr>))"
    using sample_run by blast
  then show ?thesis unfolding s by simp
qed

lemma sample_done_rows: "requests sample_done = [hd (requests sample_done)]" "rq_id (hd (requests sample_done)) = 0"
    "rq_status (hd (requests sample_done)) = AprDone"
proof -
  obtain x w where s: "sample_done = settle_safely sample_courier 2000 0 (close_request 0 AprDone EvExecuted (Some 3) ''web'' '''' (Some x) '''' 2000
        (sample_desk\<lparr>org := w, trail := trail sample_desk @ [approved_event 0 (uncapped 3) ''web'' 2000]\<rparr>))"
    using sample_run by blast
  have "requests sample_done = tbl_update (\<lambda>r. rq_id r = 0) (closed_fields AprDone (Some 3) ''web'' '''' (Some x) '''' 2000)
      (requests sample_desk)" unfolding s by simp
  then have "requests sample_done = [closed_fields AprDone (Some 3) ''web'' '''' (Some x) '''' 2000 (hd (requests sample_desk))]"
    by (subst (asm) sample_rows(1)) (simp add: sample_rows(2))
  then show "requests sample_done = [hd (requests sample_done)]" "rq_id (hd (requests sample_done)) = 0"
      "rq_status (hd (requests sample_done)) = AprDone"
    using sample_rows(2) by simp_all
qed

lemma sample_done_ok: "desk_ok sample_done"
  unfolding sample_done_def by (rule desk_ok_decide [OF sample_desk_ok])


section \<open>What approving, filing and expiring promise\<close>

text \<open>Validating the dump of validated params gives them back, as pydantic's \<open>model_validate\<close> and
  \<open>model_dump\<close> do.\<close>

definition dumps_back :: "('g, 'j, 'p, 'r) registry \<Rightarrow> bool" where
  "dumps_back ks \<longleftrightarrow> (\<forall>k\<in>set ks. \<forall>j p. kd_validate k j = Inr p \<longrightarrow> kd_validate k (kd_dump k p) = Inr p)"

lemma dumps_backD: "dumps_back ks \<Longrightarrow> k \<in> set ks \<Longrightarrow> kd_validate k j = Inr p \<Longrightarrow> kd_validate k (kd_dump k p) = Inr p"
  by (simp add: dumps_back_def)

text \<open>C5. A request is decided once: whatever is filed, decided, withdrawn, expired and sent, and whatever the
  rest of the application does to the organisation, in a desk whose rows and audit trail fit, they still fit,
  so every request's trail is the one its status allows (a handler ran at most once); and a request that was
  closed keeps its row and its trail as they are.\<close>

theorem a_request_is_decided_once:
  assumes "desk_ok s" and "(desk_step Q W)\<^sup>*\<^sup>* s s'"
  shows "desk_ok s' \<and> (\<forall>r\<in>set (requests s'). map ae_kind (story (rq_id r) (trail s')) = story_of (rq_status r))
    \<and> (\<forall>r\<in>set (requests s). rq_status r \<in> set APR_CLOSED \<longrightarrow>
        r \<in> set (requests s') \<and> story (rq_id r) (trail s') = story (rq_id r) (trail s))"
proof (intro conjI ballI impI)
  show ok': "desk_ok s'" by (rule desk_ok_run [OF assms(2,1)])
  show "map ae_kind (story (rq_id r) (trail s')) = story_of (rq_status r)" if "r \<in> set (requests s')" for r
    using told_row [OF ok' that] by (simp add: told_def)
  fix r assume r: "r \<in> set (requests s)" "rq_status r \<in> set APR_CLOSED"
  then have "\<not> is_pending r" by (auto simp: APR_CLOSED_def is_pending_def)
  from closed_row_stays [OF assms r(1) this]
  show "r \<in> set (requests s')" "story (rq_id r) (trail s') = story (rq_id r) (trail s)" by simp_all
qed

lemma a_request_is_decided_once_witness:
  "hd (requests sample_done) \<in> set (requests (snd (cancel_request (org_kinds sample_kind_env) sample_courier 3000 0 (uncapped 3) sample_done)))
   \<and> map ae_kind (story 0 (trail (snd (cancel_request (org_kinds sample_kind_env) sample_courier 3000 0 (uncapped 3) sample_done))))
     = [EvCreated, EvApproved, EvExecuted]"
proof -
  have "(desk_step org_registry (\<lambda>_ _. False))\<^sup>*\<^sup>* sample_done
      (snd (cancel_request (org_kinds sample_kind_env) sample_courier 3000 0 (uncapped 3) sample_done))"
    by (intro r_into_rtranclp step_cancel org_registry_kinds)
  from a_request_is_decided_once [OF sample_done_ok this] sample_done_rows(2,3)
  show ?thesis
    using sample_done_rows(1) by (metis APR_CLOSED_def list.set_intros(1) story_of.simps(2))
qed

text \<open>C6. Nothing runs without authority.  A refused decision leaves the whole desk and the organisation as they
  were.  One that goes through was made by a signed-in person whom the kind itself, read from the request's
  stored params, lets approve it, on a request that was pending and not past its time; the row names that
  person and channel; declining changes nothing of the organisation, approving either runs exactly the
  kind's handler as that person, and keeps its answer, or fails with the organisation as it was.\<close>

theorem only_authority_acts:
  assumes "desk_ok s" and "decide_request ks co now n a decision comment via s = (res, s')"
  shows "case res of Inl e \<Rightarrow> s' = s
    | Inr m \<Rightarrow> m = n \<and> (\<exists>r k p d r'. decidable ks n a now s r k p d
        \<and> tbl_get rq_id n (requests s') = Some r' \<and> rq_decided_by r' = Some (actor_id a) \<and> rq_via r' = via
        \<and> (if decision = ''decline'' then rq_status r' = AprDeclined \<and> org s' = org s
           else rq_status r' = AprDone \<and> (\<exists>x. kd_execute k now a p r (org s) = (Inr x, org s') \<and> rq_result r' = Some x)
              \<or> rq_status r' = AprFailed \<and> (\<exists>e w. kd_execute k now a p r (org s) = (Inl e, w)) \<and> org s' = org s))"
proof (cases rule: decide_request_cases [of ks co now n a decision comment via s])
  case (refused e)
  then show ?thesis using assms(2) by auto
next
  case (closed r k p d)
  have r: "tbl_get rq_id n (requests s) = Some r" "rq_id r = n" "user_pk a = Some (actor_id a)"
    using closed(1) by (auto simp: decidable_def user_pk_def dest: tbl_get_Some)
  have res: "res = Inr n" "s' = settle_safely co now n (decided k p r a decision comment via now s)"
    using closed(3) assms(2) by simp_all
  let ?row = "\<lambda>st c x err. closed_fields st (Some (actor_id a)) via c x err now r"
  have "\<exists>r'. tbl_get rq_id n (requests s') = Some r' \<and> rq_decided_by r' = Some (actor_id a) \<and> rq_via r' = via
        \<and> (if decision = ''decline'' then rq_status r' = AprDeclined \<and> org s' = org s
           else rq_status r' = AprDone \<and> (\<exists>x. kd_execute k now a p r (org s) = (Inr x, org s') \<and> rq_result r' = Some x)
              \<or> rq_status r' = AprFailed \<and> (\<exists>e w. kd_execute k now a p r (org s) = (Inl e, w)) \<and> org s' = org s)"
  proof (cases "decision = ''decline''")
    case True
    then show ?thesis using r res by (simp add: decided_def tbl_get_tbl_update)
  next
    case False
    then show ?thesis
      by (cases rule: run_approved_cases [of k now a p r s "py_strip comment" via])
        (use r res in \<open>simp_all add: decided_def tbl_get_tbl_update\<close>)
  qed
  with closed(1) show ?thesis unfolding res(1) sum.case by blast
qed

lemma only_authority_acts_witness:
  "\<exists>r k p d r'. decidable (org_kinds sample_kind_env) 0 (uncapped 3) 2000 sample_desk r k p d
        \<and> tbl_get rq_id 0 (requests sample_done) = Some r' \<and> rq_decided_by r' = Some 3 \<and> rq_via r' = ''web''
        \<and> (rq_status r' = AprDone \<and> (\<exists>x. kd_execute k 2000 (uncapped 3) p r (org sample_desk) = (Inr x, org sample_done) \<and> rq_result r' = Some x)
           \<or> rq_status r' = AprFailed \<and> (\<exists>e w. kd_execute k 2000 (uncapped 3) p r (org sample_desk) = (Inl e, w)) \<and> org sample_done = org sample_desk)"
  using only_authority_acts [OF sample_desk_ok sample_decided] by simp

text \<open>C36. A decision that comes after a request's time is refused and, contrary to what the code sets out to
  do, leaves the request pending: the close is rolled back with the refusal that follows it.  The next
  expiry is what closes it.\<close>

theorem a_late_decision_leaves_it_pending:
  assumes "authenticated a" and "decision \<in> {''approve'', ''decline''}"
    and "tbl_get rq_id n (requests s) = Some r" and "is_pending r" and "rq_expires r = Some t" and "t \<le> now"
  shows "decide_request ks co now n a decision comment via s = (Inl ExpiredUndecided, s)"
  using assms by (auto simp: decide_request_def decide_locked_def atomic_def)

lemma a_late_decision_leaves_it_pending_witness:
  "decide_request (org_kinds sample_kind_env) sample_courier 3600001000 0 (uncapped 3) ''approve'' '''' ''web'' sample_desk
    = (Inl ExpiredUndecided, sample_desk)"
  by (rule a_late_decision_leaves_it_pending [OF _ _ sample_get sample_rows(4,3)]) simp_all

text \<open>An expiry closes a hundred overdue requests, or all there are, and counts exactly those it closed.\<close>

theorem an_expiry_closes_what_it_counts:
  assumes ok: "desk_ok s"
  shows "fst (expire_due co now s) = min 100 (length (filter (past_due now) (requests s)))
    \<and> length (filter (past_due now) (requests (snd (expire_due co now s))))
      = length (filter (past_due now) (requests s)) - fst (expire_due co now s)"
proof -
  let ?due = "filter (past_due now) (requests s)" and ?ns = "take 100 (map rq_id (newest_requests (filter (past_due now) (requests s))))"
  have "distinct (map rq_id ?due)" using ok by (simp add: desk_ok_def distinct_map_filter)
  then have "distinct ?ns" by (simp add: newest_requests_ids)
  moreover have "\<exists>r\<in>set (requests s). rq_id r = n \<and> past_due now r" if "n \<in> set ?ns" for n
    using in_set_takeD [OF that] by auto
  ultimately show ?thesis
    using expire_fold [OF ok, of ?ns now co 0] by (simp add: expire_due_def min.commute [of _ 100]) linarith
qed

lemma an_expiry_closes_what_it_counts_witness:
  "length (filter (past_due 3600001000) (requests sample_desk)) = 1
   \<and> fst (expire_due sample_courier 3600001000 sample_desk) = min 100 (length (filter (past_due 3600001000) (requests sample_desk)))
   \<and> length (filter (past_due 3600001000) (requests (snd (expire_due sample_courier 3600001000 sample_desk))))
      = length (filter (past_due 3600001000) (requests sample_desk)) - fst (expire_due sample_courier 3600001000 sample_desk)"
proof
  show "length (filter (past_due 3600001000) (requests sample_desk)) = 1"
    by (subst sample_rows(1)) (use sample_rows(3,4) in \<open>simp add: past_due_def\<close>)
qed (rule an_expiry_closes_what_it_counts [OF sample_desk_ok])

text \<open>C35. What is filed can be decided: a new request is pending, names a person only if that person can
  approve it, and there is someone who can; until its time is up each of them can approve or decline it,
  and is not refused.  (Validating the dump of validated params gives them back, as pydantic's
  \<open>model_validate\<close> and \<open>model_dump\<close> do.)\<close>

theorem what_is_filed_can_be_decided:
  assumes ok: "desk_ok s" and dumps: "dumps_back ks"
    and filing: "create_request ks co now f s = (Inr (r, True), s')"
  shows "is_pending r \<and> tbl_get rq_id (rq_id r) (requests s') = Some r
    \<and> (\<exists>us. us \<noteq> [] \<and> approvers_of ks (org s') r = Inr us \<and> (\<forall>u. rq_for r = Some u \<longrightarrow> u \<in> set us)
      \<and> (\<forall>u\<in>set us. \<forall>decision\<in>{''approve'', ''decline''}. \<forall>now' < now + ttl_of (fl_hours f).
          fst (decide_request ks co now' (rq_id r) (uncapped u) decision comment via s') = Inr (rq_id r)))"
proof (cases rule: create_request_cases [of ks co now f s])
  case (created k p d us target)
  have r: "r = new_request k p d target (next_request s) now f"
    and s': "s' = deliver_safely ks co now (next_request s)
        (filed r (fl_user f) (FiledAs (kd_slug k) (agent_slug (org s) (fl_agent f))) now s)"
    using created(6) filing by simp_all
  have org: "org s' = org s" using s' by simp
  have valid: "kd_validate k (fl_params f) = Inr p" using created(2) by (simp add: read_kind_Inr)
  have read: "read_kind ks (org s) (rq_kind r) (rq_params r) = Inr (k, p, d)"
    using read_kind_again [OF created(2) dumps_backD [OF dumps read_kind_in [OF created(2)] valid]] r by simp
  have get: "tbl_get rq_id (rq_id r) (requests s') = Some r"
    using ok r s' by (auto simp: tbl_get_append desk_ok_def dest!: tbl_get_Some split: option.split)
  have pending: "is_pending r" using r by (simp add: is_pending_def)
  have who: "\<forall>u. rq_for r = Some u \<longrightarrow> u \<in> set us" using created(5) r for_user_in by fastforce
  have can: "fst (decide_request ks co now' (rq_id r) (uncapped u) decision comment via s') = Inr (rq_id r)"
    if "u \<in> set us" "decision \<in> {''approve'', ''decline''}" "now' < now + ttl_of (fl_hours f)" for u decision now'
  proof -
    have "decidable ks (rq_id r) (uncapped u) now' s' r k p d"
      using get pending read org that(3) r approvers_may [OF created(3) that(1)] by (simp add: decidable_def passed_due_def)
    from decide_request_ok [OF this that(2)] show ?thesis by simp
  qed
  have "approvers_of ks (org s') r = Inr us"
    using read created(3) org by (simp add: approvers_of_def)
  then show ?thesis using pending get who can created(4) by (intro conjI exI [of _ us]) simp_all
qed (use filing in simp_all)

lemma sample_dumps: "dumps_back (org_kinds sample_kind_env)"
proof -
  have "kd_validate k (kd_dump k p) = Inr p" if "k \<in> set (org_kinds sample_kind_env)" "kd_validate k j = Inr p" for k j p
    using that by (cases j) (auto simp: org_kinds_def kind_defs sample_kind_env_def)
  then show ?thesis by (simp add: dumps_back_def)
qed

lemma what_is_filed_can_be_decided_witness:
  "is_pending (hd (requests sample_desk))
    \<and> (\<exists>u us. approvers_of (org_kinds sample_kind_env) (org sample_desk) (hd (requests sample_desk)) = Inr (u # us)
        \<and> fst (decide_request (org_kinds sample_kind_env) sample_courier 2000 0 (uncapped u) ''decline'' ''no'' ''web'' sample_desk) = Inr 0)"
proof -
  note filed = what_is_filed_can_be_decided [OF empty_desk_ok(1) sample_dumps sample_filed, where comment = "''no''" and via = "''web''"]
  then obtain us where us: "us \<noteq> []" "approvers_of (org_kinds sample_kind_env) (org sample_desk) (hd (requests sample_desk)) = Inr us"
    and can: "\<forall>u\<in>set us. \<forall>decision\<in>{''approve'', ''decline''}. \<forall>now' < 1000 + ttl_of (fl_hours sample_filing).
        fst (decide_request (org_kinds sample_kind_env) sample_courier now' (rq_id (hd (requests sample_desk))) (uncapped u) decision ''no'' ''web'' sample_desk)
          = Inr (rq_id (hd (requests sample_desk)))"
    by (elim conjE exE) (rule that)
  obtain u vs where "us = u # vs" using us(1) by (cases us) simp_all
  moreover have "(2000 :: int) < 1000 + ttl_of (fl_hours sample_filing)" by (simp add: sample_filing_def ttl_of_def MAX_TTL_def)
  ultimately have "fst (decide_request (org_kinds sample_kind_env) sample_courier 2000 (rq_id (hd (requests sample_desk))) (uncapped u) ''decline'' ''no'' ''web'' sample_desk)
      = Inr (rq_id (hd (requests sample_desk)))"
    using can by simp
  then show ?thesis using us(2) \<open>us = u # vs\<close> sample_rows(2) filed [THEN conjunct1] by auto
qed

text \<open>C37. Nobody is sent the same copy twice, and a mail goes only to someone no other channel reached:
  whatever sequence of operations runs, a request reaches a person at most once per channel, and whoever
  was mailed a request was sent it by mail alone.\<close>

theorem no_copy_goes_out_twice:
  assumes "(desk_step Q W)\<^sup>*\<^sup>* s s'" and "desk_ok s" and "copies_ok s"
  shows "distinct (map (\<lambda>c. (cp_request c, cp_user c, cp_channel c)) (copies s'))
    \<and> (\<forall>c\<in>set (copies s'). \<forall>c'\<in>set (copies s'). cp_channel c = Email \<and> cp_request c' = cp_request c \<and> cp_user c' = cp_user c
        \<longrightarrow> c' = c)"
proof -
  have ok: "copies_ok s'"
    using assms
  proof (induction rule: rtranclp_induct)
    case (step y z)
    then show ?case using copies_ok_step [OF step.hyps(2)] desk_ok_run [OF step.hyps(1)] by blast
  qed
  have "c' = c" if c: "c \<in> set (copies s')" "c' \<in> set (copies s')" "cp_channel c = Email"
      "cp_request c' = cp_request c" "cp_user c' = cp_user c" for c c'
  proof -
    have "cp_channel x \<in> set (have_channels (cp_request c) (cp_user c) (copies s'))" if "x \<in> {c, c'}" for x
      using that c by (auto simp: have_channels_def)
    then have "cp_channel c' = Email"
      using ok c(3) unfolding copies_ok_def mailed_only_def by (metis insertCI singletonD)
    then have "copy_key c' = copy_key c" using c by (simp add: copy_key_def)
    then show ?thesis using ok c(1,2) by (auto simp: copies_ok_def distinct_map inj_on_def)
  qed
  moreover have "copy_key = (\<lambda>c. (cp_request c, cp_user c, cp_channel c))" by (simp add: fun_eq_iff copy_key_def)
  ultimately show ?thesis using ok unfolding copies_ok_def by metis
qed

lemma no_copy_goes_out_twice_witness:
  "distinct (map (\<lambda>c. (cp_request c, cp_user c, cp_channel c)) (copies sample_desk))"
proof -
  have "(desk_step org_registry (\<lambda>_ _. False))\<^sup>*\<^sup>* empty_desk sample_desk"
    unfolding sample_desk_def by (intro r_into_rtranclp step_file org_registry_kinds)
  from no_copy_goes_out_twice [OF this empty_desk_ok] show ?thesis by simp
qed

text \<open>C7. Nobody gains more by an approval than the approver may give.  Whatever is approved of the registered
  kinds, each membership that is new or changed and each invite goes to someone else than the approver and
  at a role the approver may grant there (any, for an owner; viewer or editor, for an admin), and each new
  admin of an agent is another member of the agent's workspace, made so by the agent's owner or by an owner
  of that workspace.\<close>

theorem approving_never_escalates:
  assumes ids: "distinct (map pn_id (og_people (org s)))" and ok: "access_ok (og_access (org s))"
    and run: "decide_request (org_kinds e) co now n a decision comment via s = (res, s')"
  shows "granted_within (org s) a (org s')"
proof (cases rule: decide_request_cases [of "org_kinds e" co now n a decision comment via s])
  case (closed r k p d)
  have reads: "k \<in> {admin_add e, member_add e, member_set_role e}" "kd_describe k (org s) p = Inr d" "kd_may k (org s) a p d = Inr True"
    using closed(1) read_kind_in by (fastforce simp: decidable_def org_kinds_def read_kind_Inr)+
  have invites: "distinct (map iv_id (invites (og_access (org s))))" using ok by (simp add: access_ok_def invite_rows_ok_def)
  have "granted_within (org s) a w" if "kd_execute k now a p r (org s) = (Inr x, w)" for x w
    using reads(1)
  proof (elim insertE emptyE)
    assume "k = admin_add e"
    then show ?thesis using reads(2,3) that by (auto simp: kind_defs intro: admin_grants_within [OF ids])
  next
    assume "k = member_add e"
    then have k: "add_describe e (org s) (member_of p) = Inr d" "add_may (org s) a (member_of p) d = Inr True"
        "add_execute e now a (member_of p) (org s) = (Inr x, w)" using reads(2,3) that by (simp_all add: kind_defs)
    show ?thesis by (rule add_grants_within [OF ids invites k(3)]) (use add_authority [OF k(1,2)] in simp_all)
  next
    assume "k = member_set_role e"
    then have k: "set_describe e (org s) (member_of p) = Inr d" "set_may (org s) a (member_of p) d = Inr True"
        "set_execute e now a (member_of p) (org s) = (Inr x, w)" using reads(2,3) that by (simp_all add: kind_defs)
    show ?thesis by (rule set_grants_within [OF ids k(3)]) (use set_authority [OF k(1,2)] in simp_all)
  qed
  then have "granted_within (org s) a (org (decided k p r a decision comment via now s))"
    by (cases rule: run_approved_cases [of k now a p r s "py_strip comment" via]) (auto simp: decided_def)
  then show ?thesis using closed(3) run by auto
qed (use run in auto)

lemma approving_never_escalates_witness:
  "granted_within sample_org (uncapped 3) (org sample_done) \<and> length (invites (og_access (org sample_done))) = 2"
proof
  show "granted_within sample_org (uncapped 3) (org sample_done)"
    using approving_never_escalates [OF _ _ sample_decided] sample_org_ok by (simp add: sample_desk_org org_ok_def)
  show "length (invites (og_access (org sample_done))) = 2" unfolding sample_done_org by code_simp
qed

text \<open>C34. Approvals keep the organisation in order.  Whatever is filed, decided, withdrawn and expired, with the
  registered kinds and next to anything else that keeps it, the membership and invite tables stay well
  formed, the workspaces stay a tree, and each workspace that had an owner keeps one.\<close>

theorem approvals_keep_every_owner:
  assumes "(desk_step (\<lambda>ks. \<exists>e. ks = org_kinds e) (\<lambda>w w'. org_ok V w \<longrightarrow> org_ok V w'))\<^sup>*\<^sup>* s s'" and "org_ok V (org s)"
  shows "access_ok (og_access (org s')) \<and> tree_ok (workspaces (og_members (org s'))) \<and> (\<forall>v\<in>V. owned (og_members (org s')) v)"
  using approvals.run_keeps [OF assms] by (simp add: org_ok_def)

lemma approvals_keep_every_owner_witness:
  "access_ok (og_access (org sample_done)) \<and> owned (og_members (org sample_done)) ''div''"
proof -
  have "(desk_step (\<lambda>ks. \<exists>e. ks = org_kinds e) (\<lambda>w w'. org_ok {''div''} w \<longrightarrow> org_ok {''div''} w'))\<^sup>*\<^sup>* sample_desk sample_done"
    unfolding sample_done_def by (intro r_into_rtranclp step_decide) blast
  moreover have "org_ok {''div''} (org sample_desk)" using sample_org_ok by (simp add: sample_desk_org)
  ultimately show ?thesis using approvals_keep_every_owner by blast
qed

text \<open>C38. A known key answers across workspaces.  Whoever may file in the workspace their params name and gives
  a key that some request already has is answered with that request, wherever it is and whoever may see it:
  the lookup is by the key alone.\<close>

theorem a_replayed_key_crosses_workspaces:
  assumes "keyed_request (fl_key f) s = Some r" and "read_kind ks (org s) (fl_kind f) (fl_params f) = Inr (k, p, d)"
    and "ds_workspace d \<in> ws" and "can (og_members (org s)) a (ds_workspace d) AGENT_WORK = Inr True"
  shows "file_route ws ks co now a f s = (Inr (200, r), s)"
proof -
  have "fl_key (filing_of (org s) a f) = fl_key f" by (simp add: filing_of_def split: option.split)
  then show ?thesis using assms by (simp add: file_route_def create_request_def)
qed

text \<open>An owner of the root files there with the key of the request in its division, out of their reach.\<close>

definition sample_replay :: "params filing" where
  "sample_replay = sample_filing\<lparr>fl_params := OfMember (sample_member\<lparr>mp_workspace := ''org''\<rparr>)\<rparr>"

lemma sample_replay_read:
  "\<exists>d. read_kind (org_kinds sample_kind_env) sample_org ''workspace.member.add'' (OfMember (sample_member\<lparr>mp_workspace := ''org''\<rparr>))
    = Inr (member_add sample_kind_env, OfMember (sample_member\<lparr>mp_workspace := ''org''\<rparr>), d) \<and> ds_workspace d = ''org''"
proof -
  have "case add_describe sample_kind_env sample_org (sample_member\<lparr>mp_workspace := ''org''\<rparr>) of Inl _ \<Rightarrow> False | Inr d \<Rightarrow> ds_workspace d = ''org''"
    by code_simp
  then show ?thesis
    by (auto simp: read_kind_Inr get_kind_def org_kinds_def split: sum.splits) (simp_all add: member_add_def sample_kind_env_def)
qed

lemma a_replayed_key_crosses_workspaces_witness:
  "file_route {''org''} (org_kinds sample_kind_env) sample_courier 3000 (uncapped 1) sample_replay sample_desk
     = (Inr (200, hd (requests sample_desk)), sample_desk)
   \<and> rq_workspace (hd (requests sample_desk)) \<notin> {''org''}"
proof
  obtain k p d where read: "read_kind (org_kinds sample_kind_env) (org sample_desk) (fl_kind sample_replay) (fl_params sample_replay) = Inr (k, p, d)"
      and d: "ds_workspace d = ''org''"
    using sample_replay_read by (auto simp: sample_desk_org sample_replay_def sample_filing_def)
  have key: "keyed_request (fl_key sample_replay) sample_desk = Some (hd (requests sample_desk))"
    using sample_keyed by (simp add: sample_replay_def)
  have "can (og_members (org sample_desk)) (uncapped 1) ''org'' AGENT_WORK = Inr True"
    unfolding sample_desk_org by code_simp
  then have may: "can (og_members (org sample_desk)) (uncapped 1) (ds_workspace d) AGENT_WORK = Inr True" unfolding d .
  show "file_route {''org''} (org_kinds sample_kind_env) sample_courier 3000 (uncapped 1) sample_replay sample_desk
     = (Inr (200, hd (requests sample_desk)), sample_desk)"
    by (rule a_replayed_key_crosses_workspaces [OF key read _ may]) (simp add: d)
  show "rq_workspace (hd (requests sample_desk)) \<notin> {''org''}" using sample_placed by simp
qed

end
