(* ===== verification/Iso_Time.thy ===== *)
theory Iso_Time
  imports Canopy_Prelude
begin

text \<open>
  Times as texts: what \<open>datetime.isoformat\<close> writes of an aware time, and \<open>datetime.fromisoformat\<close> on
  texts of that shape, in the proleptic Gregorian calendar of years 1 to 9999.  A moment is an instant
  with the offset, in minutes, it is written in: Python compares moments by their instants and writes
  them with their offsets, and a slot's key is such a text (\<open>schedule_turns.py\<close>).
\<close>

section \<open>The calendar\<close>

definition is_leap :: "nat \<Rightarrow> bool" where
  "is_leap y \<longleftrightarrow> y mod 4 = 0 \<and> (y mod 100 \<noteq> 0 \<or> y mod 400 = 0)"

definition year_length :: "nat \<Rightarrow> nat" where
  "year_length y = (if is_leap y then 366 else 365)"

definition month_lengths :: "nat \<Rightarrow> nat list" where
  "month_lengths y = [31, if is_leap y then 29 else 28, 31, 30, 31, 30, 31, 31, 30, 31, 30, 31]"

definition days_before_year :: "nat \<Rightarrow> nat" where
  "days_before_year y = (y - 1) * 365 + (y - 1) div 4 + (y - 1) div 400 - (y - 1) div 100"

text \<open>The year a day falls in, counted from the first of January of year \<open>y\<close>; then its month and day.\<close>

function year_of_day :: "nat \<Rightarrow> nat \<Rightarrow> nat \<times> nat" where
  "year_of_day y d = (if d < year_length y then (y, d) else year_of_day (y + 1) (d - year_length y))"
  by pat_completeness auto
termination by (relation "measure snd") (auto simp: year_length_def)

declare year_of_day.simps [simp del]

fun month_of_day :: "nat list \<Rightarrow> nat \<Rightarrow> nat \<Rightarrow> nat \<times> nat" where
  "month_of_day [] m d = (m, d + 1)"
| "month_of_day (l # ls) m d = (if d < l then (m, d + 1) else month_of_day ls (m + 1) (d - l))"

text \<open>Whole cycles of 400 years first, 146097 days each.\<close>

definition date_of_day :: "nat \<Rightarrow> nat \<times> nat \<times> nat" where
  "date_of_day n = (let (y, d) = year_of_day (1 + 400 * (n div 146097)) (n mod 146097);
     (m, dd) = month_of_day (month_lengths y) 1 d in (y, m, dd))"

definition day_of_date :: "nat \<Rightarrow> nat \<Rightarrow> nat \<Rightarrow> nat" where
  "day_of_date y m d = days_before_year y + sum_list (take (m - 1) (month_lengths y)) + (d - 1)"

definition valid_date :: "nat \<Rightarrow> nat \<Rightarrow> nat \<Rightarrow> bool" where
  "valid_date y m d \<longleftrightarrow> 1 \<le> y \<and> y \<le> 9999 \<and> 1 \<le> m \<and> m \<le> 12 \<and> 1 \<le> d \<and> d \<le> month_lengths y ! (m - 1)"

lemma days_before_next: "1 \<le> y \<Longrightarrow> days_before_year (y + 1) = days_before_year y + year_length y"
proof -
  assume "1 \<le> y"
  then obtain k where y: "y = Suc k" by (cases y) auto
  have le: "j div 100 \<le> j div 4" for j :: nat by (intro div_le_mono2) simp_all
  define a where "a = k div 100"
  define b where "b = k div 4"
  define c where "c = k div 400"
  have ab: "a \<le> b" unfolding a_def b_def by (rule le)
  have step: "Suc k div j = k div j + (if Suc k mod j = 0 then 1 else 0)" for j
    by (simp add: div_Suc)
  have steps: "Suc k div 100 = a + (if Suc k mod 100 = 0 then 1 else 0)"
    "Suc k div 4 = b + (if Suc k mod 4 = 0 then 1 else 0)"
    "Suc k div 400 = c + (if Suc k mod 400 = 0 then 1 else 0)"
    unfolding a_def b_def c_def by (rule step)+
  have imp: "Suc k mod 400 = 0 \<Longrightarrow> Suc k mod 100 = 0" "Suc k mod 100 = 0 \<Longrightarrow> Suc k mod 4 = 0"
    by (simp_all only: mod_eq_0_iff_dvd) (rule dvd_trans [of _ 400], simp_all, rule dvd_trans [of _ 100], simp_all)
  have next': "days_before_year (y + 1) = Suc k * 365 + Suc k div 4 + Suc k div 400 - Suc k div 100"
    and this': "days_before_year y = k * 365 + b + c - a"
    by (simp_all only: days_before_year_def y Suc_eq_plus1 [symmetric] diff_Suc_1 a_def b_def c_def)
  have len: "year_length y = (if Suc k mod 4 = 0 \<and> (Suc k mod 100 \<noteq> 0 \<or> Suc k mod 400 = 0) then 366 else 365)"
    by (simp only: year_length_def is_leap_def y)
  have all: "(p \<Longrightarrow> q) \<Longrightarrow> (q \<Longrightarrow> r) \<Longrightarrow>
      Suc k * 365 + (b + (if r then 1 else 0)) + (c + (if p then 1 else 0)) - (a + (if q then 1 else 0))
      = k * 365 + b + c - a + (if r \<and> (\<not> q \<or> p) then 366 else 365)" for p q r
    using ab by (cases p; cases q; cases r) auto
  show ?thesis unfolding next' this' len steps by (rule all [OF imp])
qed

lemma days_before_cycle: "days_before_year (1 + 400 * k) = 146097 * k"
  by (simp add: days_before_year_def)

lemma year_of_day_sound:
  "1 \<le> y \<Longrightarrow> year_of_day y d = (y', d') \<Longrightarrow> d' < year_length y' \<and> y \<le> y' \<and> days_before_year y' + d' = days_before_year y + d"
proof (induction y d arbitrary: y' d' rule: year_of_day.induct)
  case (1 y d)
  show ?case
  proof (cases "d < year_length y")
    case True
    then show ?thesis using "1.prems" by (simp add: year_of_day.simps)
  next
    case False
    then have "year_of_day (y + 1) (d - year_length y) = (y', d')" using "1.prems" by (simp add: year_of_day.simps [of y d])
    from "1.IH" [OF False _ this] show ?thesis using False days_before_next [OF "1.prems"(1)] by simp
  qed
qed

lemma month_of_day_sound:
  "d < sum_list ls \<Longrightarrow> month_of_day ls k d = (m, dd) \<Longrightarrow>
    k \<le> m \<and> m < k + length ls \<and> 1 \<le> dd \<and> dd \<le> ls ! (m - k) \<and> sum_list (take (m - k) ls) + dd = d + 1"
proof (induction ls k d rule: month_of_day.induct)
  case (2 l ls k d)
  show ?case
  proof (cases "d < l")
    case False
    then have "k + 1 \<le> m \<and> m < k + 1 + length ls \<and> 1 \<le> dd \<and> dd \<le> ls ! (m - (k + 1))
        \<and> sum_list (take (m - (k + 1)) ls) + dd = d - l + 1"
      using "2.IH" "2.prems" by simp
    moreover from this have e: "m - k = Suc (m - (k + 1))" by linarith
    ultimately show ?thesis using False by (simp only: e take_Suc_Cons sum_list.Cons) auto
  qed (use "2.prems" in auto)
qed simp

lemma sum_month_lengths: "sum_list (month_lengths y) = year_length y"
  by (simp add: month_lengths_def year_length_def)

lemma date_of_day_back:
  assumes "date_of_day n = (y, m, d)"
  shows "day_of_date y m d = n" and "1 \<le> y" and "1 \<le> m \<and> m \<le> 12 \<and> 1 \<le> d \<and> d \<le> month_lengths y ! (m - 1)"
proof -
  obtain d0 where y: "year_of_day (1 + 400 * (n div 146097)) (n mod 146097) = (y, d0)"
    and m: "month_of_day (month_lengths y) 1 d0 = (m, d)"
    using assms by (auto simp: date_of_day_def split: prod.splits)
  note sy = year_of_day_sound [OF _ y]
  have "d0 < sum_list (month_lengths y)" using sy by (simp add: sum_month_lengths)
  note sm = month_of_day_sound [OF this m]
  have "length (month_lengths y) = 12" by (simp add: month_lengths_def)
  then show "1 \<le> y" "1 \<le> m \<and> m \<le> 12 \<and> 1 \<le> d \<and> d \<le> month_lengths y ! (m - 1)" using sy sm by auto
  have "146097 * (n div 146097) + n mod 146097 = n" by (rule mult_div_mod_eq)
  then show "day_of_date y m d = n" using sy sm days_before_cycle [of "n div 146097"]
    unfolding day_of_date_def by linarith
qed

lemma days_before_mono: "1 \<le> y \<Longrightarrow> y \<le> z \<Longrightarrow> days_before_year y \<le> days_before_year z"
proof (induction z)
  case (Suc z)
  then show ?case using days_before_next [of z] by (cases "y = Suc z") auto
qed simp

section \<open>Texts\<close>

definition MINUTE :: int where "MINUTE = seconds 60"
definition DAY :: int where "DAY = days 1"
definition EPOCH_DAY :: int where "EPOCH_DAY = 719162"

type_synonym moment = "instant \<times> int"

definition digit :: "nat \<Rightarrow> char" where
  "digit n = char_of (48 + n mod 10)"

text \<open>\<open>%0wd\<close> of a number of at most \<open>w\<close> digits.\<close>

primrec fixed :: "nat \<Rightarrow> nat \<Rightarrow> string" where
  "fixed 0 n = ''''"
| "fixed (Suc w) n = fixed w (n div 10) @ [digit n]"

definition offset_text :: "int \<Rightarrow> string" where
  "offset_text z = (let k = nat (abs z) in
     (if z < 0 then ''-'' else ''+'') @ fixed 2 (k div 60) @ '':'' @ fixed 2 (k mod 60))"

definition iso_text :: "moment \<Rightarrow> string" where
  "iso_text x = (case x of (t, z) \<Rightarrow>
     let local = t + z * MINUTE + EPOCH_DAY * DAY;
         (y, m, d) = date_of_day (nat (local div DAY));
         us = nat (local mod DAY); s = us div 1000000; frac = us mod 1000000
     in fixed 4 y @ ''-'' @ fixed 2 m @ ''-'' @ fixed 2 d @ ''T''
        @ fixed 2 (s div 3600) @ '':'' @ fixed 2 (s div 60 mod 60) @ '':'' @ fixed 2 (s mod 60)
        @ (if frac = 0 then '''' else ''.'' @ fixed 6 frac) @ offset_text z)"

text \<open>Reading them: \<open>w\<close> digits, then a given text.\<close>

definition digit_value :: "char \<Rightarrow> nat option" where
  "digit_value c = (let n = of_char c :: nat in if 48 \<le> n \<and> n \<le> 57 then Some (n - 48) else None)"

fun read_number :: "nat \<Rightarrow> nat \<Rightarrow> string \<Rightarrow> (nat \<times> string) option" where
  "read_number 0 acc s = Some (acc, s)"
| "read_number (Suc w) acc [] = None"
| "read_number (Suc w) acc (c # s) = (case digit_value c of None \<Rightarrow> None | Some d \<Rightarrow> read_number w (10 * acc + d) s)"

fun read_text :: "string \<Rightarrow> string \<Rightarrow> string option" where
  "read_text [] s = Some s"
| "read_text (p # ps) [] = None"
| "read_text (p # ps) (c # s) = (if c = p then read_text ps s else None)"

text \<open>A number of \<open>w\<close> digits behind a separator.\<close>

definition read_part :: "string \<Rightarrow> nat \<Rightarrow> string \<Rightarrow> (nat \<times> string) option" where
  "read_part sep w s = Option.bind (read_text sep s) (read_number w 0)"

definition read_fraction :: "string \<Rightarrow> (nat \<times> string) option" where
  "read_fraction s = (if s \<noteq> [] \<and> hd s = CHR ''.'' then read_number 6 0 (tl s) else Some (0, s))"

text \<open>The offset, None when the text has none.\<close>

definition read_offset :: "string \<Rightarrow> int option option" where
  "read_offset s = (if s = [] then Some None
     else if hd s = CHR ''+'' \<or> hd s = CHR ''-'' then
       Option.bind (read_number 2 0 (tl s)) (\<lambda>(h, s1). Option.bind (read_part '':'' 2 s1) (\<lambda>(m, s2).
         if s2 = [] \<and> m < 60 \<and> h < 24
         then Some (Some ((if hd s = CHR ''-'' then - 1 else 1) * int (60 * h + m))) else None))
     else None)"

definition from_iso :: "string \<Rightarrow> (instant \<times> int option) option" where
  "from_iso s = Option.bind (read_number 4 0 s) (\<lambda>(y, s1). Option.bind (read_part ''-'' 2 s1) (\<lambda>(m, s2).
     Option.bind (read_part ''-'' 2 s2) (\<lambda>(d, s3). Option.bind (read_part ''T'' 2 s3) (\<lambda>(hh, s4).
     Option.bind (read_part '':'' 2 s4) (\<lambda>(mm, s5). Option.bind (read_part '':'' 2 s5) (\<lambda>(ss, s6).
     Option.bind (read_fraction s6) (\<lambda>(us, s7). Option.bind (read_offset s7) (\<lambda>z.
       if valid_date y m d \<and> hh < 24 \<and> mm < 60 \<and> ss < 60
       then let local = (int (day_of_date y m d) - EPOCH_DAY) * DAY + seconds (int (3600 * hh + 60 * mm + ss)) + int us
            in Some (local - (case z of None \<Rightarrow> 0 | Some k \<Rightarrow> k) * MINUTE, z)
       else None))))))))"

text \<open>The moments Python can hold: years 1 to 9999 where they are written, and less than a day of offset.\<close>

definition moment_ok :: "moment \<Rightarrow> bool" where
  "moment_ok x \<longleftrightarrow> (case x of (t, z) \<Rightarrow> abs z < 1440
     \<and> 0 \<le> t + z * MINUTE + EPOCH_DAY * DAY \<and> t + z * MINUTE + EPOCH_DAY * DAY < 3652059 * DAY)"

lemma digit_value_digit [simp]: "digit_value (digit n) = Some (n mod 10)"
proof -
  have "of_char (digit n) = (48 + n mod 10) mod (256 :: nat)" by (simp add: digit_def)
  also have "\<dots> = 48 + n mod 10" by simp
  finally show ?thesis by (simp add: digit_value_def)
qed

lemma read_number_Suc:
  "read_number (Suc w) acc s = (case read_number w acc s of
      Some (v, x # r) \<Rightarrow> (case digit_value x of None \<Rightarrow> None | Some k \<Rightarrow> Some (10 * v + k, r)) | _ \<Rightarrow> None)"
proof (induction w arbitrary: acc s)
  case 0
  then show ?case by (cases s) (auto split: option.split)
next
  case (Suc w)
  then show ?case by (cases s) (auto split: option.split)
qed

lemma read_number_append: "read_number w acc (fixed w n @ s) = Some (acc * 10 ^ w + n mod 10 ^ w, s)"
proof (induction w arbitrary: acc n s)
  case (Suc w)
  have "n div 10 mod 10 ^ w * 10 + n mod 10 = n mod 10 ^ Suc w"
    by (simp add: mod_mult2_eq)
  then show ?case using Suc.IH [of acc "n div 10" "digit n # s"] by (simp add: read_number_Suc algebra_simps del: read_number.simps)
qed simp

lemma read_text_append [simp]: "read_text p (p @ s) = Some s"
  by (induction p) simp_all

lemma read_part_append: "read_part sep w (sep @ fixed w n @ s) = Some (n mod 10 ^ w, s)"
  by (simp add: read_part_def read_number_append)

lemma read_fraction_append:
  assumes "k < 1000000"
  shows "read_fraction ((if k = 0 then '''' else ''.'' @ fixed 6 k) @ offset_text z) = Some (k, offset_text z)"
proof (cases "k = 0")
  case True
  then show ?thesis by (simp add: read_fraction_def offset_text_def Let_def)
next
  case False
  then show ?thesis using assms by (simp add: read_fraction_def read_number_append del: fixed.simps)
qed

lemma read_offset_text: "abs z < 1440 \<Longrightarrow> read_offset (offset_text z) = Some (Some z)"
proof -
  assume z: "abs z < 1440"
  define k where "k = nat (abs z)"
  have k: "k < 1440" using z by (simp add: k_def)
  have "k div 60 < 24" using k by auto
  moreover have "int (60 * (k div 60) + k mod 60) = int k" by simp
  ultimately show ?thesis
    using read_part_append [of "'':''" 2 "k mod 60" "''''"]
    by (simp add: read_offset_def offset_text_def Let_def k_def [symmetric] read_number_append del: fixed.simps)
      (simp add: k_def)
qed

lemma iso_text_reads_back:
  assumes "moment_ok (t, z)"
  shows "from_iso (iso_text (t, z)) = Some (t, Some z)"
proof -
  define local where "local = t + z * MINUTE + EPOCH_DAY * DAY"
  define n where "n = nat (local div DAY)"
  define us where "us = nat (local mod DAY)"
  define s where "s = us div 1000000"
  define frac where "frac = us mod 1000000"
  obtain y m d where date: "date_of_day n = (y, m, d)" by (metis prod_cases3)
  have bounds: "0 \<le> local" "local < 3652059 * DAY" "abs z < 1440" using assms by (simp_all add: moment_ok_def local_def)
  have DAY: "DAY = 86400000000" by (simp add: DAY_def)
  have n: "int n = local div DAY" "n < 3652059" and us: "int us = local mod DAY" "us < 86400000000"
    using bounds by (auto simp: n_def us_def DAY nat_less_iff pos_imp_zdiv_nonneg_iff)
  note dates = date_of_day_back [OF date]
  have y: "y \<le> 9999"
  proof (rule ccontr)
    assume "\<not> y \<le> 9999"
    then have "days_before_year 10000 \<le> days_before_year y" by (intro days_before_mono) simp_all
    then have "3652059 \<le> day_of_date y m d" by (simp add: day_of_date_def days_before_year_def)
    then show False using dates n by simp
  qed
  have date': "valid_date y m d" "y mod 10000 = y" "m mod 100 = m" "d mod 100 = d"
  proof -
    have "month_lengths y ! (m - 1) \<le> 31" if "1 \<le> m \<and> m \<le> 12" for m
      using that by (auto simp: month_lengths_def nth_Cons split: nat.split)
    then have "month_lengths y ! (m - 1) \<le> 31" using dates by blast
    then have "d \<le> 31" using dates by linarith
    then show "valid_date y m d" "y mod 10000 = y" "m mod 100 = m" "d mod 100 = d"
      using dates y by (auto simp: valid_date_def)
  qed
  have clock: "s div 3600 < 24" "s div 60 mod 60 < 60" "s mod 60 < 60" "frac < 1000000"
    "int (3600 * (s div 3600) + 60 * (s div 60 mod 60) + s mod 60) * 1000000 + int frac = int us"
  proof -
    have "s < 86400" using us(2) unfolding s_def by (intro less_mult_imp_div_less) simp
    then show "s div 3600 < 24" by (intro less_mult_imp_div_less) simp
    show "s div 60 mod 60 < 60" "s mod 60 < 60" "frac < 1000000" by (simp_all add: frac_def)
    have "s div 60 = 60 * (s div 3600) + s div 60 mod 60"
      using mult_div_mod_eq [of 60 "s div 60"] by (simp add: div_mult2_eq [symmetric])
    then have parts: "3600 * (s div 3600) + 60 * (s div 60 mod 60) + s mod 60 = s"
      using mult_div_mod_eq [of 60 s] by linarith
    have "s * 1000000 + frac = us" by (simp add: s_def frac_def)
    then have "int s * 1000000 + int frac = int us" by linarith
    then show "int (3600 * (s div 3600) + 60 * (s div 60 mod 60) + s mod 60) * 1000000 + int frac = int us"
      by (simp only: parts)
  qed
  have iso: "iso_text (t, z) = fixed 4 y @ ''-'' @ fixed 2 m @ ''-'' @ fixed 2 d @ ''T'' @ fixed 2 (s div 3600) @ '':''
      @ fixed 2 (s div 60 mod 60) @ '':'' @ fixed 2 (s mod 60) @ (if frac = 0 then '''' else ''.'' @ fixed 6 frac) @ offset_text z"
    using date by (simp only: iso_text_def Let_def prod.case local_def n_def us_def s_def frac_def)
  have "int n * DAY + int us = local" unfolding n us by (rule div_mult_mod_eq)
  then have at: "(int (day_of_date y m d) - EPOCH_DAY) * DAY
      + seconds (int (3600 * (s div 3600) + 60 * (s div 60 mod 60) + s mod 60)) + int frac - z * MINUTE = t"
    unfolding dates(1) clock(5) [symmetric] local_def by (simp add: algebra_simps)
  have "s div 3600 mod 100 = s div 3600" using clock(1) by simp
  then show ?thesis
    unfolding iso from_iso_def using at
    by (simp add: read_number_append read_part_append read_fraction_append clock date' read_offset_text bounds del: fixed.simps append.simps)
qed

text \<open>A key made of such a text tells moments apart.\<close>

lemma iso_text_inj: "moment_ok x \<Longrightarrow> moment_ok y \<Longrightarrow> iso_text x = iso_text y \<Longrightarrow> x = y"
  using iso_text_reads_back [of "fst x" "snd x"] iso_text_reads_back [of "fst y" "snd y"] by (simp add: prod_eq_iff)

text \<open>Decimal numbers tell themselves apart, also in front of a separator.\<close>

lemma nat_digits_value: "foldl (\<lambda>a c. 10 * a + (of_char c - 48)) (0 :: nat) (nat_digits n) = n"
proof (induction n rule: nat_digits.induct)
  case (1 n)
  have "(of_char (char_of (48 + n mod 10) :: char) :: nat) = 48 + n mod 10" by simp
  then show ?case using 1 by (subst nat_digits.simps) (cases "n < 10", simp_all)
qed

lemma nat_digits_inj: "nat_digits m = nat_digits n \<Longrightarrow> m = n"
  by (metis nat_digits_value)

lemma nat_digits_not: "x \<in> set (nat_digits n) \<Longrightarrow> digit_value x \<noteq> None"
proof (induction n rule: nat_digits.induct)
  case (1 n)
  have "digit_value (char_of (48 + n mod 10)) \<noteq> None" for n :: nat using digit_value_digit [of n] by (simp add: digit_def)
  moreover from this [of n] have "n < 10 \<Longrightarrow> digit_value (char_of (48 + n)) \<noteq> None" by simp
  ultimately show ?case using 1 by (subst (asm) nat_digits.simps) (auto split: if_splits)
qed

lemma nat_digits_sep:
  assumes "nat_digits m @ c # s = nat_digits n @ c # s'" and "digit_value c = None"
  shows "m = n \<and> s = s'"
proof -
  have head: "takeWhile (\<lambda>x. digit_value x \<noteq> None) (nat_digits k @ c # r) = nat_digits k" for k r
    using nat_digits_not assms(2) by simp
  have "nat_digits m = nat_digits n" using assms(1) head by metis
  then show ?thesis using assms(1) nat_digits_inj by simp
qed

end
