(* ===== verification/Schedules.thy ===== *)
theory Schedules
  imports Turn_Queue Approvals Iso_Time "HOL-Library.Multiset"
begin

text \<open>
  An agent's triggers and what they do to the turn queue (\<open>apps/harness\<close>: \<open>models/schedule.py\<close>,
  \<open>triggers.py\<close>, \<open>schedule_turns.py\<close>, \<open>schedule_hooks.py\<close>, \<open>schedule_clock.py\<close>, and \<open>due_slot\<close> of
  \<open>packages/canopy_cron\<close>), on top of enqueueing and finishing turns and of the organisation whose people
  set triggers up.  There is no table of occurrences: a schedule's turns are its occurrences.

  Parameters: \<open>due_slot\<close> searches with croniter's previous fire time in a time zone, a parameter of the
  clock (None for an expression or a zone that is refused); the announcer that a project check-in
  registers is a record of its methods, as \<open>schedule_hooks\<close> has it; new ids are given.  Every operation
  takes the schedule as it was read, which may be stale: writes name the row and its fields, as
  \<open>save(update_fields=...)\<close> does.  A review that a missed occurrence raises is a row of \<open>nags\<close> with the
  fields the schedule code gives it.  Naive times are not modelled: the clock and the runner report
  slots with an offset.
\<close>

section \<open>Triggers and who they answer to\<close>

record schedule =
  sc_id :: nat
  sc_agent :: slug
  sc_created_by :: "user_id option"
  sc_updated_by :: "user_id option"
  sc_kind :: string
  sc_name :: string
  sc_prompt :: string
  sc_job :: string
  sc_job_repo :: string
  sc_cron :: string
  sc_sender_address :: string
  sc_subject_pattern :: string
  sc_turn_mode :: string
  sc_mail_quiet_minutes :: nat
  sc_run_once_at :: "instant option"
  sc_timezone :: string
  sc_enabled :: bool
  sc_routing :: string
  sc_grace_minutes :: nat
  sc_always_run :: bool
  sc_notify :: "string list"
  sc_cli :: string
  sc_last_slot :: "instant option"
  sc_created_at :: instant

definition CRON :: string where "CRON = ''cron''"
definition INBOUND_MAIL :: string where "INBOUND_MAIL = ''inbound_mail''"
definition TRIGGER_KINDS :: "string list" where "TRIGGER_KINDS = [CRON, INBOUND_MAIL]"
definition AGENT_ADMIN :: string where "AGENT_ADMIN = ''agent admin''"

definition is_own_login_of :: "agent_login \<Rightarrow> actor \<Rightarrow> bool" where
  "is_own_login_of ag a \<longleftrightarrow> al_user ag = Some (actor_id a)"

definition is_admin_of :: "'g org \<Rightarrow> agent_login \<Rightarrow> actor \<Rightarrow> bool" where
  "is_admin_of w ag a =
     (if \<not> authenticated a \<or> acts_as a \<noteq> Uncapped then False
      else case member_role (og_members w) a (al_workspace ag) of None \<Rightarrow> False
        | Some r \<Rightarrow> al_owner ag = Some (actor_id a) \<or> role_allows (Some r) OWN = Inr True
            \<or> (\<exists>g\<in>set (og_admins w). ad_agent g = al_id ag \<and> ad_user g = actor_id a))"

definition may_set_up :: "'g org \<Rightarrow> actor \<Rightarrow> agent_login \<Rightarrow> string \<Rightarrow> string \<Rightarrow> bool \<Rightarrow> string option" where
  "may_set_up w a ag k mode a_job =
     (if k = INBOUND_MAIL \<or> mode = ''auto'' \<or> a_job then (if is_admin_of w ag a then None else Some AGENT_ADMIN)
      else if can (og_members w) a (al_workspace ag) AGENT_WORK \<noteq> Inr True
      then Some (role_name (the (map_of MINIMUM_ROLE AGENT_WORK)))
      else None)"

definition address_of :: "'g org \<Rightarrow> user_id \<Rightarrow> string" where
  "address_of w u = (case tbl_get pn_id u (og_people w) of None \<Rightarrow> '''' | Some p \<Rightarrow> pn_email p)"

definition trigger_refusal :: "'g org \<Rightarrow> agent_login \<Rightarrow> schedule \<Rightarrow> string option" where
  "trigger_refusal w ag s =
     (case sc_created_by s of
        None \<Rightarrow> (if sc_kind s = CRON then None else Some ''nobody is recorded as having set it up'')
      | Some u \<Rightarrow>
          if \<not> is_active w u then Some (address_of w u @ '', who set it up, has been deactivated'')
          else if is_own_login_of ag (uncapped u) \<and> sc_kind s = CRON \<and> sc_turn_mode s \<noteq> ''auto'' \<and> sc_job s = '''' then None
          else if \<not> is_member (og_members w) (uncapped u) (al_workspace ag)
          then Some (address_of w u @ '', who set it up, is no longer a member of '' @ al_workspace ag)
          else (case may_set_up w (uncapped u) ag (sc_kind s) (sc_turn_mode s) (sc_job s \<noteq> '''') of
              None \<Rightarrow> None
            | Some needed \<Rightarrow> if needed = AGENT_ADMIN
                then Some (address_of w u @ '', who set it up, is no longer an admin of '' @ al_slug ag)
                else Some (address_of w u @ '', who set it up, may no longer direct '' @ al_slug ag @ [CHR 0x27] @ ''s work'')))"


section \<open>The state\<close>

record refusal_line =
  rl_key :: string
  rl_summary :: string
  rl_trigger :: nat
  rl_slot :: string

record nag =
  ng_key :: string
  ng_agent :: slug
  ng_schedule :: nat
  ng_turn :: string
  ng_title :: string
  ng_job :: string
  ng_on_approve :: "(string \<times> payload \<times> string) option"
  ng_open :: bool

record 'g planner =
  pl_queue :: admission
  pl_org :: "'g org"
  pl_schedules :: "schedule list"
  pl_log :: "refusal_line list"
  pl_nags :: "nag list"

datatype fire_error = NoAgentRow | RowGone | Stopped string | WrongInstant | NotQueued enqueue_error
  | JobRunning | NotAnnounced

record 'g announcer =
  an_owns :: "schedule \<Rightarrow> bool"
  an_announce :: "schedule \<Rightarrow> moment \<Rightarrow> bool \<Rightarrow> 'g planner \<Rightarrow> (fire_error + bool) \<times> 'g planner"

record 'g clockwork =
  cw_rd :: redactor
  cw_gates :: gates
  cw_reach :: reach_api
  cw_announcer :: "'g announcer option"
  cw_prev :: "string \<Rightarrow> string \<Rightarrow> instant \<Rightarrow> moment option"

abbreviation pl_world :: "'g planner \<Rightarrow> turndb" where
  "pl_world p \<equiv> world (pl_queue p)"

definition with_world :: "'g planner \<Rightarrow> turndb \<Rightarrow> 'g planner" where
  "with_world p db = p\<lparr>pl_queue := (pl_queue p)\<lparr>world := db\<rparr>\<rparr>"

definition save_schedule :: "nat \<Rightarrow> (schedule \<Rightarrow> schedule) \<Rightarrow> 'g planner \<Rightarrow> (fire_error + unit) \<times> 'g planner" where
  "save_schedule i f p =
     (if tbl_get sc_id i (pl_schedules p) = None then (Inl RowGone, p)
      else (Inr (), p\<lparr>pl_schedules := tbl_update (\<lambda>s. sc_id s = i) f (pl_schedules p)\<rparr>))"


section \<open>Occurrences\<close>

definition ref_schedule :: "turn \<Rightarrow> json option" where
  "ref_schedule t = map_of (origin_ref t) ''schedule_id''"

definition occurrence :: "schedule \<Rightarrow> turn \<Rightarrow> bool" where
  "occurrence s t \<longleftrightarrow> t_agent t = Some (sc_agent s) \<and> ref_schedule t = Some (JNum (int (sc_id s)))"

text \<open>\<open>order_by("-created_at").first()\<close>.\<close>

definition latest_occurrence_turn :: "schedule \<Rightarrow> turndb \<Rightarrow> turn option" where
  "latest_occurrence_turn s db = first_max created_at (filter (occurrence s) (turns db))"

definition finish_each :: "redactor \<Rightarrow> (turn \<Rightarrow> string) \<Rightarrow> bool \<Rightarrow> instant \<Rightarrow> turn list \<Rightarrow> turndb \<Rightarrow> turndb" where
  "finish_each rd said q now ts db = fold (\<lambda>t db. snd (finish_turn rd (turn_id t) Missed (said t) q now db)) ts db"

definition open_occurrences :: "schedule \<Rightarrow> bool \<Rightarrow> turndb \<Rightarrow> turn list" where
  "open_occurrences s spare_executing db =
     filter (\<lambda>t. occurrence s t \<and> status t \<in> set (if spare_executing then [Queued] else NON_TERMINAL)) (turns db)"

definition supersede_open_turns :: "redactor \<Rightarrow> schedule \<Rightarrow> string \<Rightarrow> bool \<Rightarrow> instant \<Rightarrow> turndb \<Rightarrow> nat \<times> turndb" where
  "supersede_open_turns rd s reason spare_executing now db =
     (let ts = open_occurrences s spare_executing db in (length ts, finish_each rd (\<lambda>_. reason) True now ts db))"

definition job_running :: "schedule \<Rightarrow> turndb \<Rightarrow> bool" where
  "job_running s db \<longleftrightarrow> sc_job s \<noteq> '''' \<and> (\<exists>t\<in>set (turns db). occurrence s t \<and> status t \<in> set EXECUTING)"


section \<open>Firing\<close>

definition fire_after_of :: "schedule \<Rightarrow> instant" where
  "fire_after_of s = (let after = (case sc_last_slot s of None \<Rightarrow> sc_created_at s | Some l \<Rightarrow> l) in
     case sc_run_once_at s of None \<Rightarrow> after | Some o' \<Rightarrow> max after (o' - MINUTE))"

definition later_slot :: "moment \<Rightarrow> schedule \<Rightarrow> bool" where
  "later_slot x s \<longleftrightarrow> (case sc_last_slot s of None \<Rightarrow> True | Some l \<Rightarrow> l < fst x)"

definition trigger_name_line :: "schedule \<Rightarrow> string \<Rightarrow> string" where
  "trigger_name_line s reason = take 500 (sc_agent s @ [CHR 0x27] @ ''s trigger '' @ [CHR 0x27] @ sc_name s @ [CHR 0x27] @ '' did not fire: '' @ reason)"

definition record_refusal :: "schedule \<Rightarrow> string \<Rightarrow> moment \<Rightarrow> 'g planner \<Rightarrow> 'g planner" where
  "record_refusal s reason x p = p\<lparr>pl_log := pl_log p @
     [\<lparr> rl_key = ''trigger:'' @ nat_digits (sc_id s) @ '':refused'', rl_summary = trigger_name_line s reason,
        rl_trigger = sc_id s, rl_slot = iso_text x \<rparr>]\<rparr>"

definition refuse_if_stopped :: "schedule \<Rightarrow> moment option \<Rightarrow> 'g planner \<Rightarrow> (fire_error + unit) \<times> 'g planner" where
  "refuse_if_stopped s slot p =
     (case tbl_get al_slug (sc_agent s) (og_agents (pl_org p)) of
        None \<Rightarrow> (Inl NoAgentRow, p)
      | Some ag \<Rightarrow>
        (case trigger_refusal (pl_org p) ag s of
           None \<Rightarrow> (Inr (), p)
         | Some reason \<Rightarrow>
           (case slot of
              None \<Rightarrow> (Inl (Stopped reason), p)
            | Some x \<Rightarrow>
              if \<not> later_slot x s then (Inl (Stopped reason), p)
              else (case save_schedule (sc_id s) (\<lambda>r. r\<lparr>sc_last_slot := Some (fst x)\<rparr>) p of
                  (Inl e, p') \<Rightarrow> (Inl e, p')
                | (Inr _, p') \<Rightarrow> (Inl (Stopped reason), record_refusal s reason x p')))))"

definition slot_key :: "nat \<Rightarrow> moment \<Rightarrow> string" where
  "slot_key i x = ''sched:'' @ nat_digits i @ '':'' @ iso_text x"

definition manual_key :: "nat \<Rightarrow> string \<Rightarrow> string" where
  "manual_key i uuid = ''sched:'' @ nat_digits i @ '':manual:'' @ uuid"

definition STILL_RUNNING_NOTE :: string where
  "STILL_RUNNING_NOTE = ''the previous run was still going, so this one was not started''"

definition slot_ref :: "schedule \<Rightarrow> moment \<Rightarrow> payload" where
  "slot_ref s x = [(''schedule_id'', JNum (int (sc_id s))), (''slot'', JStr (iso_text x)), (''schedule_name'', JStr (sc_name s))]"

definition manual_ref :: "schedule \<Rightarrow> payload" where
  "manual_ref s = [(''schedule_id'', JNum (int (sc_id s))), (''manual'', JBool True), (''schedule_name'', JStr (sc_name s))]"

text \<open>What a schedule asks of the queue: \<open>_job_fields\<close>, \<open>_turn_routing\<close> and \<open>schedule_initiator\<close> included.\<close>

definition schedule_ask :: "schedule \<Rightarrow> agent_row option \<Rightarrow> string \<Rightarrow> payload \<Rightarrow> (string \<times> string) list \<Rightarrow> ask" where
  "schedule_ask s row key ref provenance = \<lparr> q_agent = row, q_project = '''', q_session = None, q_workspace = None,
     q_origin = ''canopy_scheduler'', q_key = key, q_prompt = (if sc_job s \<noteq> '''' then '''' else sc_prompt s), q_origin_ref = ref,
     q_routing = (if sc_job s \<noteq> '''' then ''cloud_only'' else sc_routing s),
     q_job = sc_job s, q_job_repo = (if sc_job s \<noteq> '''' then sc_job_repo s else ''''),
     q_initiator_kind = ''system'', q_requested = None, q_parent_turn = None, q_parent_session = None,
     q_provenance = provenance, q_pinned_runner = None, q_requested_cli = sc_cli s,
     q_initiator_user = sc_created_by s, q_enqueued_by = None \<rparr>"

definition skip_if_running :: "redactor \<Rightarrow> string \<Rightarrow> bool \<Rightarrow> instant \<Rightarrow> turndb \<Rightarrow> turndb" where
  "skip_if_running rd n was_running now db =
     (case get_turn db n of None \<Rightarrow> db
      | Some t \<Rightarrow> if was_running \<and> status t = Queued
          then snd (finish_turn rd n Missed STILL_RUNNING_NOTE True now db) else db)"

definition fired_row :: "moment \<Rightarrow> schedule \<Rightarrow> schedule \<Rightarrow> schedule" where
  "fired_row x s r = (if sc_run_once_at s = None then r\<lparr>sc_last_slot := Some (fst x)\<rparr>
     else r\<lparr>sc_last_slot := Some (fst x), sc_enabled := False\<rparr>)"

definition fire_slot :: "'g clockwork \<Rightarrow> schedule \<Rightarrow> moment \<Rightarrow> string \<Rightarrow> instant \<Rightarrow> 'g planner
    \<Rightarrow> (fire_error + string \<times> bool) \<times> 'g planner" where
  "fire_slot cw s x new_id now p =
     (let db = pl_world p; running = job_running s db; row = tbl_get ag_slug (sc_agent s) (agent_rows db);
          q = schedule_ask s row (slot_key (sc_id s) x) (slot_ref s x) [];
          db1 = (if keyed (slot_key (sc_id s) x) (scope_for db q) db = None
                 then snd (supersede_open_turns (cw_rd cw) s (''superseded by slot '' @ iso_text x) running now db) else db)
      in case enqueue_turn (cw_rd cw) (cw_gates cw) (cw_reach cw) new_id now q ((pl_queue p)\<lparr>world := db1\<rparr>) of
           (Inl e, ad) \<Rightarrow> (Inl (NotQueued e), p\<lparr>pl_queue := ad\<rparr>)
         | (Inr (n, created), ad) \<Rightarrow>
             let p2 = p\<lparr>pl_queue := ad\<lparr>world := (if created then skip_if_running (cw_rd cw) n running now (world ad) else world ad)\<rparr>\<rparr>
             in if created \<and> later_slot x s
                then (case save_schedule (sc_id s) (fired_row x s) p2 of
                    (Inl e, p3) \<Rightarrow> (Inl e, p3) | (Inr _, p3) \<Rightarrow> (Inr (n, created), p3))
                else (Inr (n, created), p2))"

definition owned :: "'g clockwork \<Rightarrow> schedule \<Rightarrow> bool" where
  "owned cw s \<longleftrightarrow> (case cw_announcer cw of None \<Rightarrow> False | Some an \<Rightarrow> an_owns an s)"

definition announce_run :: "'g clockwork \<Rightarrow> schedule \<Rightarrow> moment \<Rightarrow> bool \<Rightarrow> 'g planner \<Rightarrow> (fire_error + bool) \<times> 'g planner" where
  "announce_run cw s x manual p = (case cw_announcer cw of None \<Rightarrow> (Inl NotAnnounced, p) | Some an \<Rightarrow> an_announce an s x manual p)"

text \<open>The turn's id, None for a check-in's run, and whether it is new.\<close>

definition fire_schedule :: "'g clockwork \<Rightarrow> schedule \<Rightarrow> moment \<Rightarrow> string \<Rightarrow> instant \<Rightarrow> 'g planner
    \<Rightarrow> (fire_error + string option \<times> bool) \<times> 'g planner" where
  "fire_schedule cw s x new_id now p =
     (case refuse_if_stopped s (Some x) p of
        (Inl e, p') \<Rightarrow> (Inl e, p')
      | (Inr _, p') \<Rightarrow>
        if sc_run_once_at s \<noteq> None \<and> sc_run_once_at s \<noteq> Some (fst x) then (Inl WrongInstant, p')
        else if owned cw s then (case announce_run cw s x False p' of
            (Inl e, p2) \<Rightarrow> (Inl e, p2) | (Inr created, p2) \<Rightarrow> (Inr (None, created), p2))
        else (case atomic (fire_slot cw s x new_id now) p' of
            (Inl e, p2) \<Rightarrow> (Inl e, p2) | (Inr (n, created), p2) \<Rightarrow> (Inr (Some n, created), p2)))"

definition run_schedule_now :: "'g clockwork \<Rightarrow> schedule \<Rightarrow> string \<Rightarrow> string \<Rightarrow> string \<Rightarrow> instant \<Rightarrow> 'g planner
    \<Rightarrow> (fire_error + string option) \<times> 'g planner" where
  "run_schedule_now cw s clicked_by uuid new_id now p =
     (case refuse_if_stopped s None p of
        (Inl e, p') \<Rightarrow> (Inl e, p')
      | (Inr _, p') \<Rightarrow>
        if owned cw s then (case announce_run cw s (now, 0) True p' of (Inl e, p2) \<Rightarrow> (Inl e, p2) | (Inr _, p2) \<Rightarrow> (Inr None, p2))
        else if job_running s (pl_world p') then (Inl JobRunning, p')
        else
          let db = snd (supersede_open_turns (cw_rd cw) s ''superseded by a manual run'' False now (pl_world p'));
              q = schedule_ask s (tbl_get ag_slug (sc_agent s) (agent_rows db)) (manual_key (sc_id s) uuid) (manual_ref s)
                    [(''clicked_by'', clicked_by)]
          in (case enqueue_turn (cw_rd cw) (cw_gates cw) (cw_reach cw) new_id now q ((pl_queue p')\<lparr>world := db\<rparr>) of
               (Inl e, ad) \<Rightarrow> (Inl (NotQueued e), p')
             | (Inr (n, _), ad) \<Rightarrow> (Inr (Some n), p'\<lparr>pl_queue := ad\<rparr>)))"


section \<open>Reviews of missed occurrences\<close>

definition nag_ref :: "schedule \<Rightarrow> payload" where
  "nag_ref s = [(''schedule_id'', JNum (int (sc_id s))), (''manual'', JBool True), (''schedule_name'', JStr (sc_name s))]"

definition CHECKIN_KINDS :: "string list" where
  "CHECKIN_KINDS = [''checkin_run'', ''huddle_group_run'']"

definition is_checkin_turn :: "turn \<Rightarrow> bool" where
  "is_checkin_turn t \<longleftrightarrow> (\<exists>k\<in>set CHECKIN_KINDS. map_of (origin_ref t) ''kind'' = Some (JStr k))"

definition nag_key :: "schedule \<Rightarrow> turn \<Rightarrow> string" where
  "nag_key s t = ''sched-nag:'' @ nat_digits (sc_id s) @ '':'' @ turn_id t"

text \<open>\<open>create_tasks\<close>: a key that is known keeps its row.\<close>

definition create_nag :: "nag \<Rightarrow> nag list \<Rightarrow> nag list" where
  "create_nag n ns = (if ng_key n \<in> ng_key ` set ns then ns else ns @ [n])"

text \<open>How the ending reads in a title: up to its parenthesis.\<close>

definition job_ending :: "turn_status \<Rightarrow> string" where
  "job_ending st = (case st of Failed \<Rightarrow> ''failed'' | Lost \<Rightarrow> ''was lost'' | Missed \<Rightarrow> ''was released as missed'' | _ \<Rightarrow> status_name st)"

definition open_nag :: "nat \<Rightarrow> nag \<Rightarrow> bool" where
  "open_nag i n \<longleftrightarrow> ng_schedule n = i \<and> ng_open n"

definition raise_job_nag :: "schedule \<Rightarrow> turn \<Rightarrow> nag list \<Rightarrow> nag list" where
  "raise_job_nag s t ns =
     (if \<exists>n\<in>set ns. open_nag (sc_id s) n then ns
      else create_nag \<lparr> ng_key = nag_key s t, ng_agent = sc_agent s, ng_schedule = sc_id s, ng_turn = turn_id t,
        ng_title = ''Scheduled job '' @ job_ending (status t) @ '': '' @ sc_name s, ng_job = sc_job s,
        ng_on_approve = None, ng_open = True \<rparr> ns)"

definition raise_schedule_nag :: "schedule \<Rightarrow> turn \<Rightarrow> nag list \<Rightarrow> nag list" where
  "raise_schedule_nag s t ns =
     (if ''inbox'' \<notin> set (sc_notify s) then ns
      else if sc_job s \<noteq> '''' then raise_job_nag s t ns
      else create_nag \<lparr> ng_key = nag_key s t, ng_agent = sc_agent s, ng_schedule = sc_id s, ng_turn = turn_id t,
        ng_title = ''Scheduled turn unattended: '' @ sc_name s, ng_job = '''',
        ng_on_approve = Some (if is_checkin_turn t
           then (prompt t, dict_merge (origin_ref t) [(''manual'', JBool True)], sc_routing s)
           else (sc_prompt s, nag_ref s, sc_routing s)),
        ng_open = True \<rparr> ns)"

definition job_ended_badly :: "turn \<Rightarrow> 'g planner \<Rightarrow> 'g planner" where
  "job_ended_badly t p =
     (case ref_schedule t of Some (JNum i) \<Rightarrow>
        (case tbl_get (\<lambda>s. int (sc_id s)) i (pl_schedules p) of None \<Rightarrow> p
         | Some s \<Rightarrow> if sc_job s = '''' \<or> ''inbox'' \<notin> set (sc_notify s) then p
             else p\<lparr>pl_nags := raise_job_nag s t (pl_nags p)\<rparr>)
      | _ \<Rightarrow> p)"

definition resolve_schedule_nags :: "nat \<Rightarrow> nag list \<Rightarrow> nat \<times> nag list" where
  "resolve_schedule_nags i ns = tbl_cas (open_nag i) (\<lambda>n. n\<lparr>ng_open := False\<rparr>) ns"


section \<open>Releasing what holds an agent too long, skipping what is too late\<close>

definition overstays :: "schedule \<Rightarrow> instant \<Rightarrow> turn \<Rightarrow> bool" where
  "overstays s now t \<longleftrightarrow> occurrence s t \<and> status t \<in> set EXECUTING
     \<and> (case claimed_at t of None \<Rightarrow> False | Some c \<Rightarrow> c < now - int (sc_grace_minutes s) * MINUTE)"

definition released_note :: "schedule \<Rightarrow> string" where
  "released_note s = ''released after '' @ nat_digits (sc_grace_minutes s) @ ''m unattended''"

text \<open>The review is of the turn object \<open>finish_turn\<close> was given; it leaves its status at missed.\<close>

definition release_one :: "redactor \<Rightarrow> schedule \<Rightarrow> instant \<Rightarrow> turn \<Rightarrow> 'g planner \<Rightarrow> 'g planner" where
  "release_one rd s now t p =
     (let db = snd (finish_turn rd (turn_id t) Missed (released_note s) False now (pl_world p));
          row = (case get_turn db (turn_id t) of None \<Rightarrow> t | Some r \<Rightarrow> r)
      in (with_world p db)\<lparr>pl_nags := raise_schedule_nag s row (pl_nags p)\<rparr>)"

definition release_stale :: "redactor \<Rightarrow> schedule \<Rightarrow> instant \<Rightarrow> 'g planner \<Rightarrow> nat \<times> 'g planner" where
  "release_stale rd s now p =
     (let ts = filter (overstays s now) (turns (pl_world p)) in (length ts, fold (release_one rd s now) ts p))"

definition release_stale_all :: "redactor \<Rightarrow> instant \<Rightarrow> 'g planner \<Rightarrow> nat \<times> 'g planner" where
  "release_stale_all rd now p =
     fold (\<lambda>s (c, p). let (k, p') = release_stale rd s now p in (c + k, p'))
       (filter (\<lambda>s. \<exists>t\<in>set (turns (pl_world p)). status t \<in> set EXECUTING \<and> ref_schedule t = Some (JNum (int (sc_id s))))
          (pl_schedules p)) (0, p)"

definition LATE_SLOT_WINDOW_MINUTES :: int where "LATE_SLOT_WINDOW_MINUTES = 30"
definition JOB_NOT_TAKEN_NOTE :: string where
  "JOB_NOT_TAKEN_NOTE = ''No cloud machine that can run jobs took it in time.''"

definition turn_slot :: "turn \<Rightarrow> instant option" where
  "turn_slot t = (case map_of (origin_ref t) ''slot'' of Some (JStr x) \<Rightarrow> map_option fst (from_iso x) | _ \<Rightarrow> None)"

definition is_manual :: "turn \<Rightarrow> bool" where
  "is_manual t \<longleftrightarrow> (case map_of (origin_ref t) ''manual'' of None \<Rightarrow> False | Some j \<Rightarrow> truthy j)"

definition slot_turn :: "turn \<Rightarrow> bool" where
  "slot_turn t \<longleftrightarrow> status t = Queued \<and> t_origin t = ''canopy_scheduler'' \<and> \<not> is_manual t \<and> \<not> is_checkin_turn t"

definition runs_however_late :: "'g planner \<Rightarrow> turn \<Rightarrow> bool" where
  "runs_however_late p t \<longleftrightarrow> (\<exists>s\<in>set (pl_schedules p). ref_schedule t = Some (JNum (int (sc_id s)))
     \<and> (sc_always_run s \<or> sc_run_once_at s \<noteq> None))"

definition too_late :: "'g planner \<Rightarrow> instant \<Rightarrow> turn \<Rightarrow> bool" where
  "too_late p now t \<longleftrightarrow> slot_turn t \<and> \<not> runs_however_late p t
     \<and> (case turn_slot t of None \<Rightarrow> False | Some x \<Rightarrow> x < now - LATE_SLOT_WINDOW_MINUTES * MINUTE)"

definition late_note :: "instant \<Rightarrow> turn \<Rightarrow> string" where
  "late_note now t = ''skipped: not started within 30m of its slot (''
     @ int_str ((now - (case turn_slot t of None \<Rightarrow> now | Some x \<Rightarrow> x)) div MINUTE) @ ''m late); the next slot fires on schedule''"

definition skip_one :: "redactor \<Rightarrow> instant \<Rightarrow> turn \<Rightarrow> 'g planner \<Rightarrow> 'g planner" where
  "skip_one rd now t p =
     (let db = snd (finish_turn rd (turn_id t) Missed (if job t \<noteq> '''' then JOB_NOT_TAKEN_NOTE else late_note now t) True now (pl_world p));
          row = (case get_turn db (turn_id t) of None \<Rightarrow> t | Some r \<Rightarrow> r); p' = with_world p db
      in if job t \<noteq> '''' then job_ended_badly row p' else p')"

definition skip_late :: "redactor \<Rightarrow> instant \<Rightarrow> 'g planner \<Rightarrow> nat \<times> 'g planner" where
  "skip_late rd now p = (let ts = filter (too_late p now) (turns (pl_world p)) in (length ts, fold (skip_one rd now) ts p))"


section \<open>The clock\<close>

datatype due_answer = BadCron | NotDue | Due moment

text \<open>\<open>canopy_cron.due_slot\<close>: the newest fire time before now, unless it is not after the anchor.\<close>

definition due_slot :: "'g clockwork \<Rightarrow> string \<Rightarrow> string \<Rightarrow> instant \<Rightarrow> instant \<Rightarrow> due_answer" where
  "due_slot cw cron tz after now =
     (case cw_prev cw cron tz now of None \<Rightarrow> BadCron
      | Some x \<Rightarrow> if fst x \<le> after then NotDue else Due x)"

record tick_report =
  tk_fired :: "(nat \<times> moment \<times> string \<times> bool) list"
  tk_failed :: "nat list"

definition tick_one :: "'g clockwork \<Rightarrow> (nat \<Rightarrow> string) \<Rightarrow> instant \<Rightarrow> schedule \<Rightarrow> tick_report \<times> 'g planner \<Rightarrow> tick_report \<times> 'g planner" where
  "tick_one cw ids now s acc =
     (case acc of (rep, p) \<Rightarrow>
      (case due_slot cw (sc_cron s) (sc_timezone s) (fire_after_of s) now of
         BadCron \<Rightarrow> (rep\<lparr>tk_failed := tk_failed rep @ [sc_id s]\<rparr>, p)
       | NotDue \<Rightarrow> (rep, p)
       | Due x \<Rightarrow>
         (case fire_schedule cw s x (ids (sc_id s)) now p of
            (Inl _, p') \<Rightarrow> (rep\<lparr>tk_failed := tk_failed rep @ [sc_id s]\<rparr>, p')
          | (Inr (n, created), p') \<Rightarrow>
              (rep\<lparr>tk_fired := tk_fired rep @ [(sc_id s, x, case n of None \<Rightarrow> '''' | Some m \<Rightarrow> m, created)]\<rparr>, p'))))"

definition tick_over :: "'g clockwork \<Rightarrow> (nat \<Rightarrow> string) \<Rightarrow> instant \<Rightarrow> schedule list \<Rightarrow> 'g planner \<Rightarrow> tick_report \<times> 'g planner" where
  "tick_over cw ids now ss p = fold (tick_one cw ids now) ss (\<lparr> tk_fired = [], tk_failed = [] \<rparr>, p)"

definition tick :: "'g clockwork \<Rightarrow> (nat \<Rightarrow> string) \<Rightarrow> instant \<Rightarrow> 'g planner \<Rightarrow> tick_report \<times> 'g planner" where
  "tick cw ids now p = tick_over cw ids now (filter (\<lambda>s. sc_enabled s \<and> sc_kind s = CRON) (pl_schedules p)) p"

text \<open>\<open>tick_if_due\<close>: \<open>cache_add\<close> is whether this process got the interval's cache key, None when the cache is down.\<close>

definition tick_if_due :: "'g clockwork \<Rightarrow> (nat \<Rightarrow> string) \<Rightarrow> bool option \<Rightarrow> instant \<Rightarrow> 'g planner \<Rightarrow> tick_report option \<times> 'g planner" where
  "tick_if_due cw ids cache_add now p =
     (if cache_add = Some False then (None, p) else (case tick cw ids now p of (rep, p') \<Rightarrow> (Some rep, p')))"

section \<open>Turns that are retired\<close>

text \<open>Retiring the turns \<open>ns\<close>: a row stays as it is, or was still open and ended missed, because it was named
  or rode on one that was.\<close>

definition retires :: "string set \<Rightarrow> turndb \<Rightarrow> turndb \<Rightarrow> bool" where
  "retires ns db db' \<longleftrightarrow> map turn_id (turns db') = map turn_id (turns db)
     \<and> (\<forall>m r. get_turn db m = Some r \<longrightarrow> get_turn db' m = Some r
          \<or> (status r \<in> set NON_TERMINAL \<and> status_of db' m = Some Missed
             \<and> (m \<in> ns \<or> (\<exists>h\<in>ns. is_rider h r))))"

lemma retires_refl [simp]: "retires ns db db"
  by (simp add: retires_def)

lemma missed_terminal: "Missed \<in> set TERMINAL" "Missed \<notin> set NON_TERMINAL" "Missed \<in> set FINISH_STATUSES"
  by (simp_all add: TERMINAL_def NON_TERMINAL_def FINISH_STATUSES_def)

lemma retires_ids: "retires ns db db' \<Longrightarrow> turn_ids_ok db \<Longrightarrow> turn_ids_ok db'"
  by (simp add: retires_def)

lemma retires_trans:
  assumes "retires A a b" and "retires B b c"
  shows "retires (A \<union> B) a c"
  unfolding retires_def
proof (intro conjI allI impI)
  show "map turn_id (turns c) = map turn_id (turns a)" using assms by (simp add: retires_def)
  fix m r assume r: "get_turn a m = Some r"
  have one: "get_turn b m = Some r \<or> (status r \<in> set NON_TERMINAL \<and> status_of b m = Some Missed \<and> (m \<in> A \<or> (\<exists>h\<in>A. is_rider h r)))"
    using assms(1) r by (simp add: retires_def)
  show "get_turn c m = Some r \<or> (status r \<in> set NON_TERMINAL \<and> status_of c m = Some Missed
      \<and> (m \<in> A \<union> B \<or> (\<exists>h\<in>A \<union> B. is_rider h r)))"
  proof (cases "get_turn b m = Some r")
    case True
    then show ?thesis using assms(2) unfolding retires_def by blast
  next
    case False
    then obtain r' where r': "get_turn b m = Some r'" "status r' = Missed" using one by auto
    then have "get_turn c m = Some r'" using assms(2) missed_terminal(2) unfolding retires_def by fastforce
    then show ?thesis using False one r' by auto
  qed
qed

lemma finish_missed:
  assumes ids: "turn_ids_ok db"
  shows "retires {n} db (snd (finish_turn rd n Missed said q now db))"
    and "get_turn db n = Some t \<Longrightarrow> status t \<in> set EXECUTING \<or> (q \<and> status t = Queued)
      \<Longrightarrow> status_of (snd (finish_turn rd n Missed said q now db)) n = Some Missed"
proof -
  obtain res db' where f: "finish_turn rd n Missed said q now db = (res, db')" by fastforce
  have "retires {n} db db' \<and> (\<forall>t. get_turn db n = Some t \<longrightarrow> status t \<in> set EXECUTING \<or> (q \<and> status t = Queued)
      \<longrightarrow> status_of db' n = Some Missed)"
  proof (cases "get_turn db n")
    case None
    then show ?thesis using f missed_terminal(3) by (simp add: finish_turn_def) 
  next
    case (Some t)
    have "\<not> goes_back db Missed t" by (simp add: goes_back_def)
    note settled = finish_turn_settles [OF ids Some missed_terminal(3) f, THEN conjunct2, unfolded if_not_P [OF this]]
    show ?thesis
    proof (cases "status t \<in> set EXECUTING \<or> (q \<and> status t = Queued)")
      case True
      then obtain t' where t': "settles db db' n (Some t') 1 (Some Missed)" "status t' = Missed" using settled by auto
      have live: "status t \<in> set NON_TERMINAL" using True executing_live by (auto simp: NON_TERMINAL_def)
      have "get_turn db' m = Some r \<or> (status r \<in> set NON_TERMINAL \<and> status_of db' m = Some Missed \<and> (m = n \<or> is_rider n r))"
        if "get_turn db m = Some r" for m r
      proof (cases "m = n")
        case True
        then show ?thesis using that Some live t' by (simp add: settles_def)
      next
        case False
        then have "if is_rider n r then status_of db' m = Some Missed else untouched db db' m"
          using t' that by (simp add: settles_def)
        then show ?thesis using that executing_live [of "status r"]
          by (cases "is_rider n r") (auto simp: untouched_def is_rider_def)
      qed
      then show ?thesis using t' by (simp add: settles_def retires_def)
    next
      case False
      then have "settles db db' n (Some t) 0 None" using settled by simp
      then have "get_turn db' m = Some r" if "get_turn db m = Some r" for m r
        using that Some unfolding settles_def untouched_def by (cases "m = n") auto
      then show ?thesis using False Some \<open>settles db db' n (Some t) 0 None\<close> by (auto simp: retires_def settles_def)
    qed
  qed
  then show "retires {n} db (snd (finish_turn rd n Missed said q now db))"
    and "get_turn db n = Some t \<Longrightarrow> status t \<in> set EXECUTING \<or> (q \<and> status t = Queued)
      \<Longrightarrow> status_of (snd (finish_turn rd n Missed said q now db)) n = Some Missed"
    using f by auto
qed

text \<open>A turn that is open, or has been missed since.\<close>

lemma retires_missed: "retires ns db db' \<Longrightarrow> status_of db m = Some Missed \<Longrightarrow> status_of db' m = Some Missed"
  unfolding retires_def using missed_terminal(2) by fastforce

lemma finish_each_retires:
  assumes "turn_ids_ok db"
  shows "retires (turn_id ` set ts) db (finish_each rd said q now ts db)"
    and "t \<in> set ts \<Longrightarrow> get_turn db (turn_id t) = Some r \<Longrightarrow> status r \<in> set EXECUTING \<or> (q \<and> status r = Queued)
      \<Longrightarrow> status_of (finish_each rd said q now ts db) (turn_id t) = Some Missed"
proof -
  have "retires (turn_id ` set ts) db (finish_each rd said q now ts db)
      \<and> (\<forall>t r. t \<in> set ts \<longrightarrow> get_turn db (turn_id t) = Some r \<longrightarrow> status r \<in> set EXECUTING \<or> (q \<and> status r = Queued)
          \<longrightarrow> status_of (finish_each rd said q now ts db) (turn_id t) = Some Missed)"
    using assms
  proof (induction ts arbitrary: db)
    case Nil
    then show ?case by (simp add: finish_each_def)
  next
    case (Cons x xs)
    define a where "a = snd (finish_turn rd (turn_id x) Missed (said x) q now db)"
    have step: "finish_each rd said q now (x # xs) db = finish_each rd said q now xs a"
      by (simp add: finish_each_def a_def)
    note one = finish_missed [OF Cons.prems, where n = "turn_id x" and rd = rd and said = "said x" and q = q and now = now, folded a_def]
    have ids: "turn_ids_ok a" by (rule retires_ids [OF one(1) Cons.prems])
    note IH = Cons.IH [OF ids]
    have "retires (turn_id ` set (x # xs)) db (finish_each rd said q now xs a)"
      using retires_trans [OF one(1) IH [THEN conjunct1]] by simp
    moreover have "status_of (finish_each rd said q now xs a) (turn_id t) = Some Missed"
      if t: "t \<in> set (x # xs)" "get_turn db (turn_id t) = Some r" "status r \<in> set EXECUTING \<or> (q \<and> status r = Queued)" for t r
    proof (cases "get_turn a (turn_id t) = Some r \<and> turn_id t \<noteq> turn_id x")
      case True
      then show ?thesis using IH [THEN conjunct2] t by auto
    next
      case False
      then have "status_of a (turn_id t) = Some Missed"
        using one(2) t one(1) unfolding retires_def by metis
      then show ?thesis using retires_missed IH by blast
    qed
    ultimately show ?case unfolding step by blast
  qed
  then show "retires (turn_id ` set ts) db (finish_each rd said q now ts db)"
    and "t \<in> set ts \<Longrightarrow> get_turn db (turn_id t) = Some r \<Longrightarrow> status r \<in> set EXECUTING \<or> (q \<and> status r = Queued)
      \<Longrightarrow> status_of (finish_each rd said q now ts db) (turn_id t) = Some Missed" by blast+
qed

text \<open>Another row and a new one.\<close>

lemma closed_others:
  assumes "turn_ids_ok db" and "st \<in> set TERMINAL" and "get_turn db m = Some r" and "m \<noteq> n" and "\<not> is_rider n r"
  shows "get_turn (snd (close_turn rd n st msg opts now db)) m = Some r"
proof (cases "get_turn db n")
  case None
  then show ?thesis using assms by (simp add: close_turn_def close_with_def)
next
  case (Some t)
  obtain res db' where c: "close_turn rd n st msg opts now db = (res, db')" by fastforce
  then obtain b where "res = Inr b" using Some assms(2) by (auto simp: close_turn_def close_with_def Let_def split: if_splits)
  then show ?thesis
    using close_turn_ends_it_once' [OF assms(1) Some assms(2), where rd = rd and msg = msg and opts = opts and now = now and b = b and db' = db'] c assms
    by (auto simp: untouched_def split: if_splits)
qed

lemma inserted_others:
  assumes ids: "turn_ids_ok (world ad)" and fresh: "turn_id t \<notin> turn_id ` set (turns (world ad))"
    and r: "get_turn (world ad) m = Some r" and alone: "\<not> is_rider (turn_id t) r"
  shows "get_turn (world (insert_turn rd g reach t requested now ad)) m = Some r"
proof -
  define ad1 where "ad1 = ad\<lparr>world := take_on (chat_session t) t ((world ad)\<lparr>turns := turns (world ad) @ [t]\<rparr>)\<rparr>"
  define ad2 where "ad2 = apply_capability rd g t requested now ad1"
  define row where "row = (case get_turn (world ad2) (turn_id t) of None \<Rightarrow> t | Some r \<Rightarrow> r)"
  have m: "m \<noteq> turn_id t" using fresh tbl_get_Some [OF r] by (metis imageI)
  have "turns (world ad1) = turns (world ad) @ [t]"
    by (simp add: ad1_def take_on_def add_runner_requirements_def Let_def split: option.split)
  then have one: "get_turn (world ad1) m = Some r" "turn_ids_ok (world ad1)" using r ids fresh by (simp_all add: tbl_get_append)
  have change: "get_turn (world (change_turn (turn_id t) f ad1)) m = Some r \<and> turn_ids_ok (world (change_turn (turn_id t) f ad1))"
    if "\<And>x. turn_id (f x) = turn_id x" for f
    using one m tbl_get_Some [OF r] that by (simp add: change_turn_def tbl_get_tbl_update map_tbl_update)
  have "turns (world (snd (at_refusal rd x u w now a))) = turns (world a)" for x u w a
    by (simp add: at_refusal_def Let_def fire_def split: option.split)
  then have two: "get_turn (world ad2) m = Some r \<and> turn_ids_ok (world ad2)"
    using one change by (simp add: ad2_def apply_capability_def Let_def refuse_profile_def stamp_profile_def split: option.split sum.split)
  have row: "turn_id row = turn_id t"
    unfolding row_def using tbl_get_Some [of turn_id "turn_id t" "turns (world ad2)"] by (cases "get_turn (world ad2) (turn_id t)") auto
  then have "\<not> is_rider (turn_id row) r" using alone by simp
  then have closed: "close_turn rd (turn_id t) Cancelled msg opts now (world ad2) = (res, d) \<Longrightarrow> get_turn d m = Some r" for msg opts res d
    using closed_others [of "world ad2" Cancelled m r "turn_id row"] two cancelled_terminal row m by (metis snd_conv)
  then have "get_turn (world (snd (reject rd row x u w now ad2))) m = Some r" for x u w
    by (auto simp: reject_def Let_def fire_def row split: prod.split sum.split bool.split dest!: closed)
  then have "get_turn (world (snd (at_enqueue rd reach row now ad2))) m = Some r"
    using two by (simp add: at_enqueue_def Let_def split: option.split prod.split)
  then show ?thesis by (simp add: insert_turn_def Let_def ad1_def [symmetric] ad2_def [symmetric] row_def [symmetric])
qed

text \<open>Enqueueing leaves every other turn that does not ride on the new one as it is.\<close>

lemma enqueue_others:
  assumes "keys_ok (world ad)" and "new_id \<notin> turn_id ` set (turns (world ad))"
    and "enqueue_turn rd g reach new_id now q ad = (res, ad')"
    and "get_turn (world ad) m = Some r" and "\<not> is_rider new_id r"
  shows "get_turn (world ad') m = Some r"
proof -
  have new: "turn_id (new_turn g new_id sc now q) = new_id" for sc by (simp add: new_turn_def)
  have ids: "turn_ids_ok (world ad)" using assms(1) by (simp add: keys_ok_def)
  show ?thesis
    using assms inserted_others [OF ids, of "new_turn g new_id (scope_for (world ad) q) now q" m r] new
    by (auto simp: enqueue_turn_def Let_def split: option.splits if_splits)
qed

lemma fire_slot_cases:
  assumes "fire_slot cw s x new_id now p = (Inr (n, created), p')"
  obtains db1 ad where
    "db1 = (let db = pl_world p; q = schedule_ask s (tbl_get ag_slug (sc_agent s) (agent_rows db)) (slot_key (sc_id s) x) (slot_ref s x) []
       in if keyed (slot_key (sc_id s) x) (scope_for db q) db = None
          then snd (supersede_open_turns (cw_rd cw) s (''superseded by slot '' @ iso_text x) (job_running s db) now db) else db)"
    and "enqueue_turn (cw_rd cw) (cw_gates cw) (cw_reach cw) new_id now
       (schedule_ask s (tbl_get ag_slug (sc_agent s) (agent_rows (pl_world p))) (slot_key (sc_id s) x) (slot_ref s x) [])
       ((pl_queue p)\<lparr>world := db1\<rparr>) = (Inr (n, created), ad)"
    and "pl_queue p' = ad\<lparr>world := (if created then skip_if_running (cw_rd cw) n (job_running s (pl_world p)) now (world ad) else world ad)\<rparr>"
    and "pl_schedules p' = (if created \<and> later_slot x s
       then tbl_update (\<lambda>r. sc_id r = sc_id s) (fired_row x s) (pl_schedules p) else pl_schedules p)"
    and "pl_org p' = pl_org p" "pl_log p' = pl_log p" "pl_nags p' = pl_nags p"
  using assms unfolding fire_slot_def Let_def save_schedule_def
  by (auto split: prod.splits sum.splits if_splits)

text \<open>A turn's identity outlives every operation, so keys stay unique.\<close>

interpretation owed: turn_ops_frame "\<lambda>t u. identity u = identity t" "\<lambda>c d. belongs d = belongs c" UNIV "set TERMINAL"
  by unfold_locales (auto simp: identity_def belongs_def close_fields_def rider_waits_def retry_later_def unclaim_def)

lemma kept_same_rows: "row_step (\<lambda>t u. identity u = identity t) (\<lambda>c d. belongs d = belongs c) db db' \<Longrightarrow> same_rows db db'"
  unfolding row_step_def same_rows_def by (blast intro: map_eq_rel)

lemma finish_keys:
  assumes "keys_ok db"
  shows "keys_ok (snd (finish_turn rd n st said q now db)) \<and> same_rows db (snd (finish_turn rd n st said q now db))"
proof -
  have "turn_ids_ok db" using assms by (simp add: keys_ok_def)
  then have "same_rows db (snd (finish_turn rd n st said q now db))" by (intro kept_same_rows owed.kept_finish)
  then show ?thesis using same_keys_ok assms by blast
qed

lemma same_rows_trans: "same_rows a b \<Longrightarrow> same_rows b c \<Longrightarrow> same_rows a c"
  by (simp add: same_rows_def)

lemma finish_each_keys: "keys_ok db \<Longrightarrow> keys_ok (finish_each rd said q now ts db) \<and> same_rows db (finish_each rd said q now ts db)"
proof (induction ts arbitrary: db)
  case (Cons x xs)
  then show ?case
    using finish_keys [OF Cons.prems, of rd "turn_id x" Missed "said x" q now] same_rows_trans by (auto simp: finish_each_def)
qed (simp add: finish_each_def same_rows_def)

definition nobody_rides :: "string \<Rightarrow> turndb \<Rightarrow> bool" where
  "nobody_rides n db \<longleftrightarrow> (\<forall>t\<in>set (turns db). rides_turn t \<noteq> Some n)"

definition superseded :: "schedule \<Rightarrow> turndb \<Rightarrow> turn list" where
  "superseded s db = open_occurrences s (job_running s db) db"

lemma superseded_ends:
  assumes "keys_ok db"
  shows "retires (turn_id ` set (superseded s db)) db (snd (supersede_open_turns rd s why (job_running s db) now db))"
    and "t \<in> set (superseded s db) \<Longrightarrow>
      status_of (snd (supersede_open_turns rd s why (job_running s db) now db)) (turn_id t) = Some Missed"
    and "keys_ok (snd (supersede_open_turns rd s why (job_running s db) now db))"
    and "same_rows db (snd (supersede_open_turns rd s why (job_running s db) now db))"
proof -
  have ids: "turn_ids_ok db" using assms by (simp add: keys_ok_def)
  have eq: "snd (supersede_open_turns rd s why (job_running s db) now db) = finish_each rd (\<lambda>_. why) True now (superseded s db) db"
    by (simp add: supersede_open_turns_def superseded_def Let_def)
  show "retires (turn_id ` set (superseded s db)) db (snd (supersede_open_turns rd s why (job_running s db) now db))"
    unfolding eq by (rule finish_each_retires [OF ids])
  show "keys_ok (snd (supersede_open_turns rd s why (job_running s db) now db))"
    "same_rows db (snd (supersede_open_turns rd s why (job_running s db) now db))"
    unfolding eq using finish_each_keys [OF assms] by blast+
  assume t: "t \<in> set (superseded s db)"
  then have row: "t \<in> set (turns db)" and st: "status t \<in> set NON_TERMINAL"
    by (auto simp: superseded_def open_occurrences_def NON_TERMINAL_def split: if_splits)
  then have "status t \<in> set EXECUTING \<or> (True \<and> status t = Queued)" by (auto simp: NON_TERMINAL_def EXECUTING_def)
  then show "status_of (snd (supersede_open_turns rd s why (job_running s db) now db)) (turn_id t) = Some Missed"
    unfolding eq using finish_each_retires(2) [OF ids t get_turn_row [OF ids row]] by blast
qed

lemma keyed_same: "same_rows db db' \<Longrightarrow> keyed k sc db' = None \<longleftrightarrow> keyed k sc db = None"
  using keyed_identity [of k sc db] keyed_identity [of k sc db'] by (simp add: same_rows_def) (metis map_option_is_None)

definition slot_ask :: "schedule \<Rightarrow> moment \<Rightarrow> turndb \<Rightarrow> ask" where
  "slot_ask s x db = schedule_ask s (tbl_get ag_slug (sc_agent s) (agent_rows db)) (slot_key (sc_id s) x) (slot_ref s x) []"

lemma slot_ask_scope: "scope_for db' (slot_ask s x db) = (case tbl_get ag_slug (sc_agent s) (agent_rows db) of None \<Rightarrow> '''' | Some a \<Rightarrow> ag_workspace a)"
  by (simp add: scope_for_def slot_ask_def schedule_ask_def split: option.split)

lemma slot_ask_key [simp]: "q_key (slot_ask s x db) = slot_key (sc_id s) x"
  by (simp add: slot_ask_def schedule_ask_def)

abbreviation keyed_slot :: "schedule \<Rightarrow> moment \<Rightarrow> turndb \<Rightarrow> turn option" where
  "keyed_slot s x db \<equiv> keyed (slot_key (sc_id s) x) (scope_for db (slot_ask s x db)) db"

lemma fire_slot_splits:
  assumes ok: "keys_ok (pl_world p)" and fire: "fire_slot cw s x new_id now p = (Inr (n, created), p')"
  shows "created = (keyed_slot s x (pl_world p) = None)"
    and "\<not> created \<Longrightarrow> p' = p \<and> (\<exists>t. keyed_slot s x (pl_world p) = Some t \<and> turn_id t = n)"
    and "created \<Longrightarrow> \<exists>db1 ad. db1 = snd (supersede_open_turns (cw_rd cw) s (''superseded by slot '' @ iso_text x)
          (job_running s (pl_world p)) now (pl_world p))
      \<and> enqueue_turn (cw_rd cw) (cw_gates cw) (cw_reach cw) new_id now (slot_ask s x (pl_world p)) ((pl_queue p)\<lparr>world := db1\<rparr>) = (Inr (n, True), ad)
      \<and> pl_world p' = skip_if_running (cw_rd cw) n (job_running s (pl_world p)) now (world ad)
      \<and> pl_schedules p' = (if later_slot x s then tbl_update (\<lambda>r. sc_id r = sc_id s) (fired_row x s) (pl_schedules p) else pl_schedules p)
      \<and> pl_org p' = pl_org p \<and> pl_log p' = pl_log p \<and> pl_nags p' = pl_nags p"
proof -
  let ?db = "pl_world p"
  let ?sup = "snd (supersede_open_turns (cw_rd cw) s (''superseded by slot '' @ iso_text x) (job_running s ?db) now ?db)"
  from fire obtain db1 ad where db1: "db1 = (if keyed_slot s x ?db = None then ?sup else ?db)"
    and enq: "enqueue_turn (cw_rd cw) (cw_gates cw) (cw_reach cw) new_id now (slot_ask s x ?db) ((pl_queue p)\<lparr>world := db1\<rparr>) = (Inr (n, created), ad)"
    and p': "pl_queue p' = ad\<lparr>world := (if created then skip_if_running (cw_rd cw) n (job_running s ?db) now (world ad) else world ad)\<rparr>"
      "pl_schedules p' = (if created \<and> later_slot x s then tbl_update (\<lambda>r. sc_id r = sc_id s) (fired_row x s) (pl_schedules p) else pl_schedules p)"
      "pl_org p' = pl_org p" "pl_log p' = pl_log p" "pl_nags p' = pl_nags p"
    by (rule fire_slot_cases) (auto simp: Let_def slot_ask_def [symmetric])
  have scope: "scope_for db1 (slot_ask s x ?db) = scope_for ?db (slot_ask s x ?db)" by (simp only: slot_ask_scope)
  have "same_rows ?db db1" using superseded_ends(4) [OF ok] by (simp add: db1 same_rows_def)
  then have none: "keyed (slot_key (sc_id s) x) (scope_for db1 (slot_ask s x ?db)) db1 = None \<longleftrightarrow> keyed_slot s x ?db = None"
    unfolding scope by (rule keyed_same)
  have made: "created \<longleftrightarrow> keyed (slot_key (sc_id s) x) (scope_for db1 (slot_ask s x ?db)) db1 = None"
    using enq by (auto simp: enqueue_turn_def Let_def split: option.splits if_splits)
  then show c: "created = (keyed_slot s x ?db = None)" using none by blast
  show "\<exists>db1 ad. db1 = ?sup \<and> enqueue_turn (cw_rd cw) (cw_gates cw) (cw_reach cw) new_id now (slot_ask s x ?db) ((pl_queue p)\<lparr>world := db1\<rparr>) = (Inr (n, True), ad)
      \<and> pl_world p' = skip_if_running (cw_rd cw) n (job_running s ?db) now (world ad)
      \<and> pl_schedules p' = (if later_slot x s then tbl_update (\<lambda>r. sc_id r = sc_id s) (fired_row x s) (pl_schedules p) else pl_schedules p)
      \<and> pl_org p' = pl_org p \<and> pl_log p' = pl_log p \<and> pl_nags p' = pl_nags p" if created
    using that c db1 enq p' by (intro exI [of _ ?sup] exI [of _ ad]) simp
  assume "\<not> created"
  then obtain t where t: "keyed_slot s x ?db = Some t" using c by auto
  then have "ad = pl_queue p \<and> n = turn_id t"
    using enq db1 by (auto simp: enqueue_turn_def Let_def split: option.splits if_splits)
  then show "p' = p \<and> (\<exists>t. keyed_slot s x ?db = Some t \<and> turn_id t = n)" using p' \<open>\<not> created\<close> t by simp
qed

lemma skip_ids:
  assumes "keys_ok db"
  shows "keys_ok (skip_if_running rd n b now db)" and "map turn_id (turns (skip_if_running rd n b now db)) = map turn_id (turns db)"
    and "retires {n} db (skip_if_running rd n b now db)" and "b \<Longrightarrow> status_of (skip_if_running rd n b now db) n \<noteq> Some Queued"
    and "\<not> b \<Longrightarrow> skip_if_running rd n b now db = db"
proof -
  have ids: "turn_ids_ok db" using assms by (simp add: keys_ok_def)
  note f = finish_keys [OF assms, of rd n Missed STILL_RUNNING_NOTE True now] finish_missed [OF ids, where n = n and rd = rd and said = STILL_RUNNING_NOTE and q = True and now = now]
  show "keys_ok (skip_if_running rd n b now db)" using f assms by (simp add: skip_if_running_def split: option.split)
  show r: "retires {n} db (skip_if_running rd n b now db)" using f by (simp add: skip_if_running_def split: option.split)
  then show "map turn_id (turns (skip_if_running rd n b now db)) = map turn_id (turns db)" by (simp add: retires_def)
  show "b \<Longrightarrow> status_of (skip_if_running rd n b now db) n \<noteq> Some Queued"
    using f(3) by (auto simp: skip_if_running_def split: option.split)
  show "\<not> b \<Longrightarrow> skip_if_running rd n b now db = db" by (simp add: skip_if_running_def split: option.split)
qed

lemma fire_slot_effect:
  assumes ok: "keys_ok (pl_world p)" and fresh: "new_id \<notin> turn_id ` set (turns (pl_world p))" and alone: "nobody_rides new_id (pl_world p)"
    and fire: "fire_slot cw s x new_id now p = (Inr (n, True), p')"
  shows "n = new_id" and "keys_ok (pl_world p')"
    and "map turn_id (turns (pl_world p')) = map turn_id (turns (pl_world p)) @ [new_id]"
    and "get_turn (pl_world p) m = Some r \<Longrightarrow> get_turn (pl_world p') m = Some r
      \<or> (status r \<in> set NON_TERMINAL \<and> status_of (pl_world p') m = Some Missed
         \<and> (m \<in> turn_id ` set (superseded s (pl_world p)) \<or> (\<exists>h\<in>turn_id ` set (superseded s (pl_world p)). is_rider h r)))"
    and "t \<in> set (superseded s (pl_world p)) \<Longrightarrow> status_of (pl_world p') (turn_id t) = Some Missed"
    and "job_running s (pl_world p) \<Longrightarrow> status_of (pl_world p') new_id \<noteq> Some Queued"
proof -
  let ?db = "pl_world p"
  obtain db1 ad where db1: "db1 = snd (supersede_open_turns (cw_rd cw) s (''superseded by slot '' @ iso_text x) (job_running s ?db) now ?db)"
    and enq: "enqueue_turn (cw_rd cw) (cw_gates cw) (cw_reach cw) new_id now (slot_ask s x ?db) ((pl_queue p)\<lparr>world := db1\<rparr>) = (Inr (n, True), ad)"
    and w: "pl_world p' = skip_if_running (cw_rd cw) n (job_running s ?db) now (world ad)"
    using fire_slot_splits(3) [OF ok fire] by blast
  note sup = superseded_ends [OF ok, where s = s and rd = "cw_rd cw" and why = "''superseded by slot '' @ iso_text x" and now = now, folded db1]
  have rows: "map turn_id (turns db1) = map turn_id (turns ?db)" using sup(1) by (simp add: retires_def)
  then have fresh1: "new_id \<notin> turn_id ` set (turns db1)" using fresh by (metis list.set_map)
  note answer = enqueue_answer [of "(pl_queue p)\<lparr>world := db1\<rparr>", simplified, OF sup(3) fresh1 enq]
  show n: "n = new_id" using answer(3) by simp
  note skip = skip_ids [OF answer(1), where n = n and rd = "cw_rd cw" and b = "job_running s ?db" and now = now, folded w]
  show "keys_ok (pl_world p')" by (rule skip(1))
  show "map turn_id (turns (pl_world p')) = map turn_id (turns ?db) @ [new_id]" using skip(2) answer(3) rows by simp
  have on: "get_turn (pl_world p') m = Some r" if "get_turn db1 m = Some r" "\<not> is_rider new_id r" for m r
  proof -
    have "get_turn (world ad) m = Some r"
      using enqueue_others [of "(pl_queue p)\<lparr>world := db1\<rparr>", simplified, OF sup(3) fresh1 enq that] .
    moreover have "m \<noteq> new_id" using fresh1 tbl_get_Some [OF that(1)] by (metis imageI)
    ultimately show ?thesis using skip(3) that(2) n unfolding retires_def by blast
  qed
  have missed: "status_of (pl_world p') m = Some Missed" if gone: "status_of db1 m = Some Missed" for m
  proof -
    obtain r where "get_turn db1 m = Some r" "status r = Missed" using gone by auto
    then show ?thesis using on [of m r] by (simp add: is_rider_def EXECUTING_def)
  qed
  show "status_of (pl_world p') (turn_id t) = Some Missed" if "t \<in> set (superseded s ?db)"
    by (rule missed) (rule sup(2) [OF that])
  show "get_turn (pl_world p') m = Some r \<or> (status r \<in> set NON_TERMINAL \<and> status_of (pl_world p') m = Some Missed
         \<and> (m \<in> turn_id ` set (superseded s ?db) \<or> (\<exists>h\<in>turn_id ` set (superseded s ?db). is_rider h r)))"
    if r: "get_turn ?db m = Some r"
  proof -
    have "\<not> is_rider new_id r" using alone tbl_get_Some [OF r] by (auto simp: nobody_rides_def is_rider_def)
    then show ?thesis using sup(1) r on missed unfolding retires_def by blast
  qed
  show "status_of (pl_world p') new_id \<noteq> Some Queued" if "job_running s ?db" using skip(4) that n by simp
qed

section \<open>What a fire does\<close>

lemma refuse_ok: "refuse_if_stopped s slot p = (Inr u, p') \<Longrightarrow> p' = p \<and>
    (\<exists>ag. tbl_get al_slug (sc_agent s) (og_agents (pl_org p)) = Some ag \<and> trigger_refusal (pl_org p) ag s = None)"
  by (auto simp: refuse_if_stopped_def split: option.splits if_splits prod.splits sum.splits)

lemma refuse_world: "pl_queue (snd (refuse_if_stopped s slot p)) = pl_queue p" "pl_org (snd (refuse_if_stopped s slot p)) = pl_org p"
  by (auto simp: refuse_if_stopped_def save_schedule_def record_refusal_def split: option.splits if_splits prod.splits sum.splits)

lemma fire_schedule_fired:
  assumes "\<not> owned cw s" and "fire_schedule cw s x new_id now p = (Inr (res, created), p')"
  obtains n ag where "res = Some n" and "fire_slot cw s x new_id now p = (Inr (n, created), p')"
    and "tbl_get al_slug (sc_agent s) (og_agents (pl_org p)) = Some ag" and "trigger_refusal (pl_org p) ag s = None"
    and "sc_run_once_at s = None \<or> sc_run_once_at s = Some (fst x)"
proof -
  obtain res0 p0 where r: "refuse_if_stopped s (Some x) p = (res0, p0)" by fastforce
  then obtain u where u: "res0 = Inr u" using assms(2) by (cases res0) (simp_all add: fire_schedule_def)
  note ok = refuse_ok [OF r [unfolded u]]
  then show thesis
    using assms r u that by (auto simp: fire_schedule_def atomic_eq_Inr_iff split: if_splits prod.splits sum.splits)
qed

lemma only_the_newest_slot_is_owed:
  assumes ok: "keys_ok (pl_world p)" and fresh: "new_id \<notin> turn_id ` set (turns (pl_world p))" and alone: "nobody_rides new_id (pl_world p)"
    and own: "\<not> owned cw s" and job: "\<not> job_running s (pl_world p)"
    and fire: "fire_schedule cw s x new_id now p = (Inr (res, True), p')"
  shows "res = Some new_id
    \<and> map turn_id (turns (pl_world p')) = map turn_id (turns (pl_world p)) @ [new_id]
    \<and> (\<forall>t\<in>set (turns (pl_world p)). occurrence s t \<longrightarrow> status t \<in> set NON_TERMINAL
        \<longrightarrow> status_of (pl_world p') (turn_id t) = Some Missed)
    \<and> (\<forall>t\<in>set (turns (pl_world p')). occurrence s t \<longrightarrow> status t \<in> set NON_TERMINAL \<longrightarrow> turn_id t = new_id)
    \<and> (\<forall>t\<in>set (turns (pl_world p)). \<not> occurrence s t \<longrightarrow> get_turn (pl_world p') (turn_id t) \<noteq> Some t
        \<longrightarrow> (\<exists>h\<in>set (turns (pl_world p)). occurrence s h \<and> status h \<in> set NON_TERMINAL \<and> is_rider (turn_id h) t))"
proof -
  let ?db = "pl_world p" and ?db' = "pl_world p'"
  obtain n where n: "res = Some n" and slot: "fire_slot cw s x new_id now p = (Inr (n, True), p')"
    by (rule fire_schedule_fired [OF own fire])
  note eff = fire_slot_effect [OF ok fresh alone slot]
  have sup: "t \<in> set (superseded s ?db) \<longleftrightarrow> t \<in> set (turns ?db) \<and> occurrence s t \<and> status t \<in> set NON_TERMINAL" for t
    using job by (auto simp: superseded_def open_occurrences_def)
  have ids: "turn_ids_ok ?db" "turn_ids_ok ?db'" using ok eff(2) by (simp_all add: keys_ok_def)
  have newest: "turn_id t = new_id" if t: "t \<in> set (turns ?db')" "occurrence s t" "status t \<in> set NON_TERMINAL" for t
  proof (rule ccontr)
    assume "turn_id t \<noteq> new_id"
    moreover have "turn_id t \<in> set (map turn_id (turns ?db'))" using t(1) by simp
    ultimately obtain r where r: "r \<in> set (turns ?db)" "turn_id r = turn_id t" unfolding eff(3) by auto
    have "get_turn ?db (turn_id t) = Some r" using get_turn_row [OF ids(1) r(1)] r(2) by simp
    moreover have t': "get_turn ?db' (turn_id t) = Some t" by (rule get_turn_row [OF ids(2) t(1)])
    ultimately have "r = t \<or> status t = Missed" using eff(4) by fastforce
    then show False
      using eff(5) [of t] sup [of t] t t' r missed_terminal(2) by auto
  qed
  have other: "\<exists>h\<in>set (turns ?db). occurrence s h \<and> status h \<in> set NON_TERMINAL \<and> is_rider (turn_id h) t"
    if t: "t \<in> set (turns ?db)" "\<not> occurrence s t" "get_turn ?db' (turn_id t) \<noteq> Some t" for t
  proof -
    have "turn_id t \<notin> turn_id ` set (superseded s ?db)"
    proof
      assume "turn_id t \<in> turn_id ` set (superseded s ?db)"
      then obtain u where u: "u \<in> set (superseded s ?db)" "turn_id u = turn_id t" by auto
      then have "u = t" using sup [of u] t(1) ids(1) by (metis get_turn_row option.inject)
      then show False using u sup t(2) by blast
    qed
    then show ?thesis using eff(4) [OF get_turn_row [OF ids(1) t(1)]] t(3) sup by blast
  qed
  show ?thesis using n eff(1,3,5) sup newest other by auto
qed

section \<open>Once per slot\<close>

lemma finish_agents: "turn_ids_ok db \<Longrightarrow> agent_rows (snd (finish_turn rd n st said q now db)) = agent_rows db"
  using owed.kept_finish [of db rd n st said q now] by (simp add: row_step_def)

lemma finish_each_agents: "keys_ok db \<Longrightarrow> agent_rows (finish_each rd said q now ts db) = agent_rows db"
proof (induction ts arbitrary: db)
  case (Cons x xs)
  have "turn_ids_ok db" using Cons.prems by (simp add: keys_ok_def)
  then show ?case
    using Cons.IH finish_keys [OF Cons.prems, of rd "turn_id x" Missed "said x" q now] finish_agents
    by (simp add: finish_each_def)
qed (simp add: finish_each_def)

lemma enqueue_agents: "enqueue_turn rd g reach new_id now q ad = (res, ad') \<Longrightarrow> agent_rows (world ad') = agent_rows (world ad)"
  using rows.kept_insert [of ad "new_turn g new_id (scope_for (world ad) q) now q" rd g reach "q_requested q" now]
  by (auto simp: enqueue_turn_def row_step_def Let_def split: option.splits if_splits)

text \<open>A fire appends at most one identity, and keeps the organisation and the agents.\<close>

lemma fire_slot_identities:
  assumes ok: "keys_ok (pl_world p)" and fresh: "new_id \<notin> turn_id ` set (turns (pl_world p))"
    and fire: "fire_slot cw s x new_id now p = (Inr (n, created), p')"
  shows "keys_ok (pl_world p')" and "pl_org p' = pl_org p" and "agent_rows (pl_world p') = agent_rows (pl_world p)"
    and "\<exists>new. map identity (turns (pl_world p')) = map identity (turns (pl_world p)) @ (if created then [new] else [])
       \<and> (created \<longrightarrow> fst new = new_id)"
    and "\<exists>t. keyed_slot s x (pl_world p') = Some t \<and> turn_id t = n \<and> same_target (slot_ask s x (pl_world p)) t"
    and "map sc_id (pl_schedules p') = map sc_id (pl_schedules p)"
proof -
  let ?db = "pl_world p"
  show "map sc_id (pl_schedules p') = map sc_id (pl_schedules p)"
    using fire_slot_splits(2,3) [OF ok fire] by (cases created) (auto simp: tbl_update_def fired_row_def)
  have "keys_ok (pl_world p') \<and> pl_org p' = pl_org p \<and> agent_rows (pl_world p') = agent_rows (pl_world p)
    \<and> (\<exists>new. map identity (turns (pl_world p')) = map identity (turns (pl_world p)) @ (if created then [new] else [])
       \<and> (created \<longrightarrow> fst new = new_id))
    \<and> (\<exists>t. keyed_slot s x (pl_world p') = Some t \<and> turn_id t = n \<and> same_target (slot_ask s x (pl_world p)) t)"
  proof (cases created)
    case False
    note same = fire_slot_splits(2) [OF ok fire False]
    have "same_target (slot_ask s x ?db) t" if "keyed_slot s x ?db = Some t" for t
      using fire that False unfolding fire_slot_def Let_def slot_ask_def [symmetric]
      by (auto simp: enqueue_turn_def slot_ask_scope split: prod.splits sum.splits if_splits option.splits)
    then show ?thesis using same ok False by auto
  next
    case True
    obtain db1 ad where db1: "db1 = snd (supersede_open_turns (cw_rd cw) s (''superseded by slot '' @ iso_text x) (job_running s ?db) now ?db)"
      and enq: "enqueue_turn (cw_rd cw) (cw_gates cw) (cw_reach cw) new_id now (slot_ask s x ?db) ((pl_queue p)\<lparr>world := db1\<rparr>) = (Inr (n, True), ad)"
      and w: "pl_world p' = skip_if_running (cw_rd cw) n (job_running s ?db) now (world ad)" and org: "pl_org p' = pl_org p"
      using fire_slot_splits(3) [OF ok fire True] by blast
    note sup = superseded_ends [OF ok, where s = s and rd = "cw_rd cw" and why = "''superseded by slot '' @ iso_text x" and now = now, folded db1]
    have rows: "map turn_id (turns db1) = map turn_id (turns ?db)" using sup(1) by (simp add: retires_def)
    then have fresh1: "new_id \<notin> turn_id ` set (turns db1)" using fresh by (metis list.set_map)
    note answer = enqueue_answer [of "(pl_queue p)\<lparr>world := db1\<rparr>", simplified, OF sup(3) fresh1 enq]
    have ag1: "agent_rows db1 = agent_rows ?db"
      using finish_each_agents [OF ok] by (simp add: db1 supersede_open_turns_def Let_def)
    have ag2: "agent_rows (world ad) = agent_rows ?db" using enqueue_agents [OF enq] ag1 by simp
    have skip: "keys_ok (pl_world p')" "same_rows (world ad) (pl_world p')" "agent_rows (pl_world p') = agent_rows (world ad)"
    proof -
      have ids: "turn_ids_ok (world ad)" using answer(1) by (simp add: keys_ok_def)
      note f = finish_keys [OF answer(1), of "cw_rd cw" n Missed STILL_RUNNING_NOTE True now] finish_agents [OF ids, of "cw_rd cw" n Missed STILL_RUNNING_NOTE True now]
      show "keys_ok (pl_world p')" "same_rows (world ad) (pl_world p')" "agent_rows (pl_world p') = agent_rows (world ad)"
        using f answer(1) by (simp_all add: w skip_if_running_def same_rows_def split: option.split)
    qed
    let ?t = "new_turn (cw_gates cw) new_id (scope_for db1 (slot_ask s x ?db)) now (slot_ask s x ?db)"
    have "ad = insert_turn (cw_rd cw) (cw_gates cw) (cw_reach cw) ?t (q_requested (slot_ask s x ?db)) now ((pl_queue p)\<lparr>world := db1\<rparr>)"
      using enq by (auto simp: enqueue_turn_def Let_def split: option.splits if_splits)
    then have "map identity (turns (world ad)) = map identity (turns db1) @ [identity ?t]"
      using insert_turn_rows [of "(pl_queue p)\<lparr>world := db1\<rparr>" ?t] by (simp add: same_rows_def)
    then have ident: "map identity (turns (pl_world p')) = map identity (turns ?db) @ [identity ?t]"
      using skip(2) sup(4) by (simp add: same_rows_def)
    have new: "fst (identity ?t) = new_id" by (simp add: identity_def new_turn_def)
    obtain t where t: "keyed (slot_key (sc_id s) x) (scope_for (world ad) (slot_ask s x ?db)) (world ad) = Some t" "turn_id t = n"
      "same_target (slot_ask s x ?db) t" using answer(3) [OF refl] by (auto simp: slot_ask_scope)
    have scope: "scope_for (pl_world p') (slot_ask s x (pl_world p')) = scope_for (world ad) (slot_ask s x ?db)"
      by (simp only: slot_ask_scope skip(3) ag2)
    have "map_option identity (keyed_slot s x (pl_world p')) = Some (identity t)"
      using t(1) keyed_identity [of _ _ "pl_world p'"] keyed_identity [of _ _ "world ad"] skip(2) unfolding scope
      by (simp add: same_rows_def) (metis option.simps(9))
    then obtain t' where t': "keyed_slot s x (pl_world p') = Some t'" "identity t' = identity t" by auto
    then show ?thesis
      using True skip(1,3) org ag2 ident new t(2,3) same_target_identity [OF t'(2)] by (auto simp: identity_def)
  qed
  then show "keys_ok (pl_world p')" and "pl_org p' = pl_org p" and "agent_rows (pl_world p') = agent_rows (pl_world p)"
    and "\<exists>new. map identity (turns (pl_world p')) = map identity (turns (pl_world p)) @ (if created then [new] else [])
       \<and> (created \<longrightarrow> fst new = new_id)"
    and "\<exists>t. keyed_slot s x (pl_world p') = Some t \<and> turn_id t = n \<and> same_target (slot_ask s x (pl_world p)) t" by blast+
qed

text \<open>When a fire makes a turn: what the trigger and its request come to, whatever the turns are.\<close>

definition may_fire :: "'g clockwork \<Rightarrow> schedule \<Rightarrow> moment \<Rightarrow> 'g planner \<Rightarrow> bool" where
  "may_fire cw s x p \<longleftrightarrow> (\<exists>ag. tbl_get al_slug (sc_agent s) (og_agents (pl_org p)) = Some ag \<and> trigger_refusal (pl_org p) ag s = None)
     \<and> (sc_run_once_at s = None \<or> sc_run_once_at s = Some (fst x)) \<and> ask_error (pl_world p) (slot_ask s x (pl_world p)) = None
     \<and> (later_slot x s \<longrightarrow> sc_id s \<in> sc_id ` set (pl_schedules p))"

lemma slot_ask_error: "ask_error db' (slot_ask s x db) = ask_error db (slot_ask s x db)"
proof -
  have "content_deleted d (slot_ask s x db) = False" for d by (simp add: content_deleted_def slot_ask_def schedule_ask_def)
  then show ?thesis by (simp only: ask_error_def)
qed

lemma enqueue_no_error: "enqueue_turn rd g reach new_id now q ad = (Inr v, ad') \<Longrightarrow> ask_error (world ad) q = None"
  by (simp add: enqueue_turn_def split: option.splits)

lemma may_fire_cong:
  assumes "pl_org p' = pl_org p" and rows: "agent_rows (pl_world p') = agent_rows (pl_world p)"
    and "map sc_id (pl_schedules p') = map sc_id (pl_schedules p)"
  shows "may_fire cw s x p' = may_fire cw s x p"
proof -
  have "sc_id ` set (pl_schedules p') = sc_id ` set (pl_schedules p)" using assms(3) by (metis list.set_map)
  moreover have "slot_ask s x (pl_world p') = slot_ask s x (pl_world p)" by (simp add: slot_ask_def rows)
  ultimately show ?thesis using assms(1) by (simp only: may_fire_def slot_ask_error [of "pl_world p'" s x "pl_world p"])
qed

lemma slot_key_inj: "moment_ok x \<Longrightarrow> moment_ok y \<Longrightarrow> slot_key i x = slot_key j y \<longleftrightarrow> i = j \<and> x = y"
proof
  assume ok: "moment_ok x" "moment_ok y" and "slot_key i x = slot_key j y"
  then have e: "nat_digits i @ CHR '':'' # iso_text x = nat_digits j @ CHR '':'' # iso_text y" by (simp add: slot_key_def)
  have "digit_value (CHR '':'') = None" by (simp add: digit_value_def)
  then have "i = j \<and> iso_text x = iso_text y" by (rule nat_digits_sep [OF e])
  then show "i = j \<and> x = y" using iso_text_inj ok by blast
qed simp

lemma find_append: "find P (xs @ ys) = (case find P xs of None \<Rightarrow> find P ys | Some y \<Rightarrow> Some y)"
  by (induction xs) simp_all

lemma map_turn_ids: "map turn_id (turns d) = map fst (map identity (turns (d :: turndb)))"
  by (simp add: identity_def)

lemma copy_slot: "sc_id s2 = sc_id s \<Longrightarrow> sc_agent s2 = sc_agent s \<Longrightarrow> keyed_slot s2 x db = keyed_slot s x db"
  by (simp only: slot_ask_scope)

lemma a_running_job_is_spared:
  assumes ok: "keys_ok (pl_world p)" and fresh: "new_id \<notin> turn_id ` set (turns (pl_world p))" and alone: "nobody_rides new_id (pl_world p)"
    and own: "\<not> owned cw s" and job: "job_running s (pl_world p)"
    and fire: "fire_schedule cw s x new_id now p = (Inr (res, True), p')"
  shows "status_of (pl_world p') new_id \<noteq> None \<and> status_of (pl_world p') new_id \<noteq> Some Queued
    \<and> (\<forall>t\<in>set (turns (pl_world p)). status t \<in> set EXECUTING \<longrightarrow> rides_turn t = None \<longrightarrow> get_turn (pl_world p') (turn_id t) = Some t)
    \<and> (\<forall>t\<in>set (turns (pl_world p)). occurrence s t \<longrightarrow> status t = Queued \<longrightarrow> status_of (pl_world p') (turn_id t) = Some Missed)"
proof -
  let ?db = "pl_world p" and ?db' = "pl_world p'"
  obtain n where n: "res = Some n" and slot: "fire_slot cw s x new_id now p = (Inr (n, True), p')"
    by (rule fire_schedule_fired [OF own fire])
  note eff = fire_slot_effect [OF ok fresh alone slot]
  have sup: "t \<in> set (superseded s ?db) \<longleftrightarrow> t \<in> set (turns ?db) \<and> occurrence s t \<and> status t = Queued" for t
    using job by (auto simp: superseded_def open_occurrences_def)
  have ids: "turn_ids_ok ?db" using ok by (simp add: keys_ok_def)
  have "get_turn ?db' new_id \<noteq> None"
    using eff(3) by (simp add: tbl_get_None_iff) (metis in_set_conv_decomp list.set_map)
  moreover have "get_turn ?db' (turn_id t) = Some t" if t: "t \<in> set (turns ?db)" "status t \<in> set EXECUTING" "rides_turn t = None" for t
  proof -
    have row: "get_turn ?db (turn_id t) = Some t" by (rule get_turn_row [OF ids t(1)])
    have "turn_id t \<notin> turn_id ` set (superseded s ?db)"
    proof
      assume "turn_id t \<in> turn_id ` set (superseded s ?db)"
      then obtain u where u: "u \<in> set (superseded s ?db)" "turn_id u = turn_id t" by auto
      then have "get_turn ?db (turn_id t) = Some u" using get_turn_row [OF ids, of u] sup [of u] by simp
      then have "u = t" using row by simp
      then show False using u sup t(2) by (simp add: EXECUTING_def)
    qed
    then show ?thesis using eff(4) [OF row] t(3) by (auto simp: is_rider_def)
  qed
  ultimately show ?thesis using eff(6) [OF job] eff(5) sup by auto
qed

text \<open>C40. You only ever owe the newest occurrence, and a slot never stops a job.  When a slot of a schedule is fired
  for the first time and no run of its job is going, the schedule's turns that were still open, queued or
  executing, all end as missed; the new turn is then the only turn of the schedule that can still be open, and
  no other turn changes, except follow-ups that rode on a retired one.  When a run of its job is still going,
  every executing turn is left as it is, but for such follow-ups; the queued runs before the slot end as missed,
  and the slot's own turn is recorded and not queued, so nothing can claim it.\<close>

theorem a_new_slot_retires_the_open_ones:
  assumes ok: "keys_ok (pl_world p)" and fresh: "new_id \<notin> turn_id ` set (turns (pl_world p))" and alone: "nobody_rides new_id (pl_world p)"
    and own: "\<not> owned cw s" and fire: "fire_schedule cw s x new_id now p = (Inr (res, True), p')"
  shows "if job_running s (pl_world p)
    then status_of (pl_world p') new_id \<noteq> None \<and> status_of (pl_world p') new_id \<noteq> Some Queued
      \<and> (\<forall>t\<in>set (turns (pl_world p)). status t \<in> set EXECUTING \<longrightarrow> rides_turn t = None \<longrightarrow> get_turn (pl_world p') (turn_id t) = Some t)
      \<and> (\<forall>t\<in>set (turns (pl_world p)). occurrence s t \<longrightarrow> status t = Queued \<longrightarrow> status_of (pl_world p') (turn_id t) = Some Missed)
    else res = Some new_id
      \<and> map turn_id (turns (pl_world p')) = map turn_id (turns (pl_world p)) @ [new_id]
      \<and> (\<forall>t\<in>set (turns (pl_world p)). occurrence s t \<longrightarrow> status t \<in> set NON_TERMINAL
          \<longrightarrow> status_of (pl_world p') (turn_id t) = Some Missed)
      \<and> (\<forall>t\<in>set (turns (pl_world p')). occurrence s t \<longrightarrow> status t \<in> set NON_TERMINAL \<longrightarrow> turn_id t = new_id)
      \<and> (\<forall>t\<in>set (turns (pl_world p)). \<not> occurrence s t \<longrightarrow> get_turn (pl_world p') (turn_id t) \<noteq> Some t
          \<longrightarrow> (\<exists>h\<in>set (turns (pl_world p)). occurrence s h \<and> status h \<in> set NON_TERMINAL \<and> is_rider (turn_id h) t))"
proof (cases "job_running s (pl_world p)")
  case True
  note spared = a_running_job_is_spared [OF ok fresh alone own True fire]
  show ?thesis unfolding if_P [OF True] by (rule spared)
next
  case False
  note newest = only_the_newest_slot_is_owed [OF ok fresh alone own False fire]
  show ?thesis unfolding if_not_P [OF False] by (rule newest)
qed

section \<open>By what right a trigger fires\<close>

lemma member_role_None: "member_role db a w = None \<longleftrightarrow> \<not> is_member db a w"
  by (simp add: member_role_def is_member_def)

lemma may_set_up_member:
  assumes "may_set_up w a ag k mode j = None"
  shows "is_member (og_members w) a (al_workspace ag)"
proof (rule ccontr)
  assume "\<not> is_member (og_members w) a (al_workspace ag)"
  then have "member_role (og_members w) a (al_workspace ag) = None" by (simp add: member_role_None)
  then have "\<not> is_admin_of w ag a" "can (og_members w) a (al_workspace ag) AGENT_WORK \<noteq> Inr True"
    by (simp_all add: is_admin_of_def can_def has_role_at_least_def split: option.split)
  then show False using assms by (auto simp: may_set_up_def split: if_splits)
qed

definition stands_for_itself :: "agent_login \<Rightarrow> schedule \<Rightarrow> user_id \<Rightarrow> bool" where
  "stands_for_itself ag s u \<longleftrightarrow> al_user ag = Some u \<and> sc_kind s = CRON \<and> sc_turn_mode s \<noteq> ''auto'' \<and> sc_job s = ''''"

lemma refusal_None:
  "trigger_refusal w ag s = None \<longleftrightarrow> (case sc_created_by s of None \<Rightarrow> sc_kind s = CRON
     | Some u \<Rightarrow> is_active w u \<and> (stands_for_itself ag s u
         \<or> may_set_up w (uncapped u) ag (sc_kind s) (sc_turn_mode s) (sc_job s \<noteq> '''') = None))"
proof (cases "sc_created_by s")
  case None
  then show ?thesis by (simp add: trigger_refusal_def)
next
  case (Some u)
  define needed where "needed = may_set_up w (uncapped u) ag (sc_kind s) (sc_turn_mode s) (sc_job s \<noteq> '''')"
  have "needed = None \<Longrightarrow> is_member (og_members w) (uncapped u) (al_workspace ag)"
    unfolding needed_def by (rule may_set_up_member)
  moreover have "is_own_login_of ag (uncapped u) \<and> sc_kind s = CRON \<and> sc_turn_mode s \<noteq> ''auto'' \<and> sc_job s = ''''
      \<longleftrightarrow> stands_for_itself ag s u" by (simp add: is_own_login_of_def stands_for_itself_def)
  ultimately show ?thesis
    unfolding trigger_refusal_def Some option.case needed_def [symmetric] by (cases needed) auto
qed

text \<open>A trigger fires by its creator's standing right and no longer.  It may fire exactly when its active
  creator could set the same trigger up now, when an agent's own login set up an ordinary schedule of that
  agent, or when nobody is recorded behind a schedule of the clock.  When it may not, a reported slot adds no
  turn and changes none: the fire is refused with the reason, the slot is consumed, and the workspace log has a
  line more.\<close>

theorem a_trigger_fires_by_its_creators_right:
  assumes ag: "tbl_get al_slug (sc_agent s) (og_agents (pl_org p)) = Some ag"
    and row: "s \<in> set (pl_schedules p)" and new: "later_slot x s"
    and fire: "fire_schedule cw s x new_id now p = (res, p')"
  shows "(trigger_refusal (pl_org p) ag s = None \<longleftrightarrow> (case sc_created_by s of None \<Rightarrow> sc_kind s = CRON
       | Some u \<Rightarrow> is_active (pl_org p) u \<and> (stands_for_itself ag s u
           \<or> may_set_up (pl_org p) (uncapped u) ag (sc_kind s) (sc_turn_mode s) (sc_job s \<noteq> '''') = None)))
    \<and> (\<forall>reason. trigger_refusal (pl_org p) ag s = Some reason \<longrightarrow>
        res = Inl (Stopped reason) \<and> pl_queue p' = pl_queue p \<and> pl_org p' = pl_org p \<and> pl_nags p' = pl_nags p
        \<and> pl_schedules p' = tbl_update (\<lambda>r. sc_id r = sc_id s) (\<lambda>r. r\<lparr>sc_last_slot := Some (fst x)\<rparr>) (pl_schedules p)
        \<and> map rl_slot (pl_log p') = map rl_slot (pl_log p) @ [iso_text x])"
proof -
  have "tbl_get sc_id (sc_id s) (pl_schedules p) \<noteq> None" using row by (simp add: tbl_get_None_iff)
  then show ?thesis
    using refusal_None [of "pl_org p" ag s] ag new fire
    by (auto simp: fire_schedule_def refuse_if_stopped_def save_schedule_def record_refusal_def)
qed

text \<open>A one-off fires its own instant and no other, and is disabled by the fire.\<close>

theorem a_one_off_fires_once:
  assumes ok: "keys_ok (pl_world p)" and once: "sc_run_once_at s = Some at" and own: "\<not> owned cw s" and new: "later_slot x s"
    and fire: "fire_schedule cw s x new_id now p = (res, p')"
  shows "(fst x \<noteq> at \<longrightarrow> pl_queue p' = pl_queue p \<and> (\<exists>e. res = Inl e))
    \<and> (\<forall>n. res = Inr (n, True) \<longrightarrow> fst x = at \<and> (\<forall>r\<in>set (pl_schedules p'). sc_id r = sc_id s \<longrightarrow> \<not> sc_enabled r \<and> sc_last_slot r = Some at))"
proof -
  have "pl_queue p' = pl_queue p \<and> (\<exists>e. res = Inl e)" if "fst x \<noteq> at"
    using fire once that refuse_world [of s "Some x" p]
    by (auto simp: fire_schedule_def split: prod.splits sum.splits dest: refuse_ok)
  moreover have "fst x = at \<and> (\<forall>r\<in>set (pl_schedules p'). sc_id r = sc_id s \<longrightarrow> \<not> sc_enabled r \<and> sc_last_slot r = Some at)"
    if r: "res = Inr (n, True)" for n
  proof -
    obtain m where m: "fire_slot cw s x new_id now p = (Inr (m, True), p')" "sc_run_once_at s = Some (fst x)"
      by (rule fire_schedule_fired [OF own fire [unfolded r]]) (use once in auto)
    have "pl_schedules p' = tbl_update (\<lambda>r. sc_id r = sc_id s) (fired_row x s) (pl_schedules p)"
      using fire_slot_splits(3) [OF ok m(1)] new by auto
    then show ?thesis using m(2) once by (auto simp: tbl_update_def fired_row_def)
  qed
  ultimately show ?thesis by blast
qed

section \<open>The clock\<close>

lemma fire_slot_made:
  assumes ok: "keys_ok (pl_world p)" and err: "ask_error (pl_world p) (slot_ask s x (pl_world p)) = None"
    and none: "keyed_slot s x (pl_world p) = None" and row: "later_slot x s \<Longrightarrow> sc_id s \<in> sc_id ` set (pl_schedules p)"
  shows "\<exists>p'. fire_slot cw s x new_id now p = (Inr (new_id, True), p')"
proof -
  let ?db = "pl_world p"
  define db1 where "db1 = snd (supersede_open_turns (cw_rd cw) s (''superseded by slot '' @ iso_text x) (job_running s ?db) now ?db)"
  have "same_rows ?db db1" unfolding db1_def by (rule superseded_ends(4) [OF ok])
  then have "keyed (slot_key (sc_id s) x) (scope_for db1 (slot_ask s x ?db)) db1 = None"
    using none keyed_same unfolding slot_ask_scope by blast
  moreover have "ask_error db1 (slot_ask s x ?db) = None" using err slot_ask_error [of db1 s x ?db] by simp
  ultimately obtain ad where "enqueue_turn (cw_rd cw) (cw_gates cw) (cw_reach cw) new_id now (slot_ask s x ?db) ((pl_queue p)\<lparr>world := db1\<rparr>)
      = (Inr (new_id, True), ad)" by (simp add: enqueue_turn_def)
  moreover have "tbl_get sc_id (sc_id s) (pl_schedules p) \<noteq> None" if "later_slot x s"
    using row [OF that] by (simp add: tbl_get_None_iff)
  ultimately show ?thesis
    using none unfolding fire_slot_def Let_def slot_ask_def [symmetric] db1_def [symmetric] slot_ask_key [symmetric]
    by (auto simp: save_schedule_def)
qed

text \<open>What firing leaves: new turns come last, with ids of \<open>S\<close>; who may fire what does not change.\<close>

definition grown :: "string set \<Rightarrow> 'g planner \<Rightarrow> 'g planner \<Rightarrow> bool" where
  "grown S p p' \<longleftrightarrow> keys_ok (pl_world p') \<and> pl_org p' = pl_org p \<and> agent_rows (pl_world p') = agent_rows (pl_world p)
     \<and> map sc_id (pl_schedules p') = map sc_id (pl_schedules p)
     \<and> (\<exists>news. map identity (turns (pl_world p')) = map identity (turns (pl_world p)) @ news \<and> fst ` set news \<subseteq> S)"

lemma grown_refl: "keys_ok (pl_world p) \<Longrightarrow> grown S p p"
  by (simp add: grown_def)

lemma grown_trans: "grown A p q \<Longrightarrow> grown B q r \<Longrightarrow> grown (A \<union> B) p r"
  unfolding grown_def by (elim conjE exE) (intro conjI, simp_all, metis set_append image_Un Un_mono)

lemma refused_frame:
  assumes "refuse_if_stopped s slot p = (Inl e, p')"
  shows "pl_queue p' = pl_queue p" "pl_org p' = pl_org p" "map sc_id (pl_schedules p') = map sc_id (pl_schedules p)"
  using assms by (auto simp: refuse_if_stopped_def save_schedule_def record_refusal_def tbl_update_def
    split: option.splits if_splits prod.splits sum.splits)

lemma fire_refused:
  assumes own: "\<not> owned cw s" and fire: "fire_schedule cw s x new_id now p = (Inl e, p')"
  shows "pl_queue p' = pl_queue p" "pl_org p' = pl_org p" "map sc_id (pl_schedules p') = map sc_id (pl_schedules p)"
proof -
  obtain r q where r: "refuse_if_stopped s (Some x) p = (r, q)" by fastforce
  have "pl_queue p' = pl_queue p \<and> pl_org p' = pl_org p \<and> map sc_id (pl_schedules p') = map sc_id (pl_schedules p)"
  proof (cases r)
    case (Inl e')
    then show ?thesis using refused_frame [OF r [unfolded Inl]] fire r by (simp add: fire_schedule_def)
  next
    case (Inr u)
    then have "q = p" using refuse_ok r by blast
    then have "p' = p" using fire own r Inr
      by (auto simp: fire_schedule_def atomic_def split: prod.splits sum.splits if_splits)
    then show ?thesis by simp
  qed
  then show "pl_queue p' = pl_queue p" "pl_org p' = pl_org p" "map sc_id (pl_schedules p') = map sc_id (pl_schedules p)" by blast+
qed

lemma fire_slot_may:
  assumes ok: "keys_ok (pl_world p)" and fire: "fire_slot cw s x new_id now p = (Inr (n, True), p')"
  shows "ask_error (pl_world p) (slot_ask s x (pl_world p)) = None" and "later_slot x s \<Longrightarrow> sc_id s \<in> sc_id ` set (pl_schedules p)"
proof -
  obtain db1 ad where "enqueue_turn (cw_rd cw) (cw_gates cw) (cw_reach cw) new_id now (slot_ask s x (pl_world p)) ((pl_queue p)\<lparr>world := db1\<rparr>) = (Inr (n, True), ad)"
    using fire_slot_cases [OF fire] unfolding slot_ask_def by blast
  from enqueue_no_error [OF this] show "ask_error (pl_world p) (slot_ask s x (pl_world p)) = None"
    using slot_ask_error [of db1 s x "pl_world p"] by simp
  assume "later_slot x s"
  then have "tbl_get sc_id (sc_id s) (pl_schedules p) \<noteq> None"
    using fire unfolding fire_slot_def Let_def save_schedule_def by (auto split: prod.splits sum.splits if_splits)
  then show "sc_id s \<in> sc_id ` set (pl_schedules p)" by (simp add: tbl_get_None_iff)
qed

lemma fire_grows:
  assumes ok: "keys_ok (pl_world p)" and fresh: "new_id \<notin> turn_id ` set (turns (pl_world p))" and own: "\<not> owned cw s"
    and fire: "fire_schedule cw s x new_id now p = (res, p')"
  shows "grown (if may_fire cw s x p \<and> keyed_slot s x (pl_world p) = None then {new_id} else {}) p p'"
    and "res = Inr (n, c) \<Longrightarrow> c = (may_fire cw s x p \<and> keyed_slot s x (pl_world p) = None)
        \<and> (\<exists>t. keyed_slot s x (pl_world p') = Some t \<and> n = Some (turn_id t))"
    and "may_fire cw s x p \<Longrightarrow> keyed_slot s x (pl_world p') \<noteq> None"
proof -
  let ?made = "may_fire cw s x p \<and> keyed_slot s x (pl_world p) = None"
  have "grown (if ?made then {new_id} else {}) p p' \<and> (\<forall>n c. res = Inr (n, c) \<longrightarrow> c = ?made
        \<and> (\<exists>t. keyed_slot s x (pl_world p') = Some t \<and> n = Some (turn_id t)))
      \<and> (may_fire cw s x p \<longrightarrow> keyed_slot s x (pl_world p') \<noteq> None)"
  proof (cases res)
    case (Inr v)
    obtain n c where v: "v = (n, c)" by (cases v)
    obtain m ag where m: "n = Some m" "fire_slot cw s x new_id now p = (Inr (m, c), p')"
      "tbl_get al_slug (sc_agent s) (og_agents (pl_org p)) = Some ag" "trigger_refusal (pl_org p) ag s = None"
      "sc_run_once_at s = None \<or> sc_run_once_at s = Some (fst x)"
      by (rule fire_schedule_fired [OF own]) (use fire Inr v in auto)
    note ids = fire_slot_identities [OF ok fresh m(2)]
    have "c \<longleftrightarrow> keyed_slot s x (pl_world p) = None" by (rule fire_slot_splits(1) [OF ok m(2)])
    moreover have "c \<Longrightarrow> may_fire cw s x p" using fire_slot_may [OF ok] m by (auto simp: may_fire_def)
    ultimately have c: "c = ?made" by blast
    have "grown (if c then {new_id} else {}) p p'" using ids by (auto simp: grown_def)
    then show ?thesis using c ids(5) Inr v m(1) by auto
  next
    case (Inl e)
    note same = fire_refused [OF own fire [unfolded Inl]]
    have "keyed_slot s x (pl_world p) \<noteq> None" if may: "may_fire cw s x p"
    proof
      assume none: "keyed_slot s x (pl_world p) = None"
      obtain q where "fire_slot cw s x new_id now p = (Inr (new_id, True), q)"
        using fire_slot_made [OF ok _ none, where cw = cw and new_id = new_id and now = now] may by (auto simp: may_fire_def)
      moreover have "refuse_if_stopped s (Some x) p = (Inr (), p)"
        using may by (auto simp: may_fire_def refuse_if_stopped_def)
      ultimately show False using fire Inl own may by (auto simp: fire_schedule_def atomic_def may_fire_def)
    qed
    then show ?thesis using same ok Inl by (auto simp: grown_def)
  qed
  then show "grown (if ?made then {new_id} else {}) p p'"
    and "res = Inr (n, c) \<Longrightarrow> c = ?made \<and> (\<exists>t. keyed_slot s x (pl_world p') = Some t \<and> n = Some (turn_id t))"
    and "may_fire cw s x p \<Longrightarrow> keyed_slot s x (pl_world p') \<noteq> None" by blast+
qed

text \<open>What may happen between two fires: other fires and run-nows, enqueueing, every operation on turns, and any
  change that leaves the queue alone (edits of schedules, of the organisation, of reviews).  The release of
  what overstays and the skip of late slots are finishes followed by such a change.\<close>

inductive plan_step :: "'g planner \<Rightarrow> 'g planner \<Rightarrow> bool" where
  plan_fire: "\<not> owned cw s \<Longrightarrow> new_id \<notin> turn_id ` set (turns (pl_world p)) \<Longrightarrow> plan_step p (snd (fire_schedule cw s x new_id now p))"
| plan_enqueue: "new_id \<notin> turn_id ` set (turns (pl_world p)) \<Longrightarrow> plan_step p (p\<lparr>pl_queue := snd (enqueue_turn rd g reach new_id now q (pl_queue p))\<rparr>)"
| plan_turn: "turn_op (pl_world p) db \<Longrightarrow> plan_step p (with_world p db)"
| plan_rest: "pl_queue p' = pl_queue p \<Longrightarrow> plan_step p p'"

abbreviation plan_run :: "'g planner \<Rightarrow> 'g planner \<Rightarrow> bool" where
  "plan_run \<equiv> plan_step\<^sup>*\<^sup>*"

definition outlived :: "turndb \<Rightarrow> turndb \<Rightarrow> bool" where
  "outlived db db' \<longleftrightarrow> keys_ok db' \<and> agent_rows db' = agent_rows db
     \<and> (\<exists>news. map identity (turns db') = map identity (turns db) @ news)"

lemma outlived_refl: "keys_ok db \<Longrightarrow> outlived db db"
  by (simp add: outlived_def)

lemma outlived_trans: "outlived a b \<Longrightarrow> outlived b c \<Longrightarrow> outlived a c"
  by (auto simp: outlived_def)

lemma outlived_same: "keys_ok db \<Longrightarrow> same_rows db db' \<Longrightarrow> agent_rows db' = agent_rows db \<Longrightarrow> outlived db db'"
  using same_keys_ok [of db db'] by (simp add: outlived_def same_rows_def)

lemma outlived_enqueue:
  assumes ok: "keys_ok (world ad)" and fresh: "new_id \<notin> turn_id ` set (turns (world ad))"
    and call: "enqueue_turn rd g reach new_id now q ad = (res, ad')"
  shows "outlived (world ad) (world ad')"
proof -
  have "\<exists>news. map identity (turns (world ad')) = map identity (turns (world ad)) @ news"
  proof (cases "ask_error (world ad) q = None \<and> keyed (q_key q) (scope_for (world ad) q) (world ad) = None")
    case True
    then have "ad' = insert_turn rd g reach (new_turn g new_id (scope_for (world ad) q) now q) (q_requested q) now ad"
      using call by (simp add: enqueue_turn_def)
    then show ?thesis using insert_turn_rows [of ad "new_turn g new_id (scope_for (world ad) q) now q"] by (simp add: same_rows_def)
  next
    case False
    then show ?thesis using call by (auto simp: enqueue_turn_def Let_def split: option.splits)
  qed
  then show ?thesis using enqueue_answer(1) [OF ok fresh call] enqueue_agents [OF call] by (simp add: outlived_def)
qed

lemma outlived_step: "plan_step p p' \<Longrightarrow> keys_ok (pl_world p) \<Longrightarrow> outlived (pl_world p) (pl_world p')"
proof (induction rule: plan_step.induct)
  case (plan_fire cw s new_id p x now)
  obtain r q where f: "fire_schedule cw s x new_id now p = (r, q)" by fastforce
  show ?case using fire_grows(1) [OF plan_fire(3,2,1) f] f by (auto simp: outlived_def grown_def)
next
  case (plan_enqueue new_id p rd g reach now q)
  then show ?case using outlived_enqueue [OF plan_enqueue(2,1) prod.collapse [symmetric]] by simp
next
  case (plan_turn p db)
  have k: "row_step (\<lambda>t u. identity u = identity t) (\<lambda>c d. belongs d = belongs c) (pl_world p) db" by (rule owed.kept_op [OF plan_turn(1)])
  then show ?case using outlived_same [OF plan_turn(2) kept_same_rows [OF k]] by (simp add: row_step_def with_world_def)
next
  case (plan_rest p' p)
  then show ?case by (simp add: outlived_refl)
qed

lemma outlived_run: "plan_run p p' \<Longrightarrow> keys_ok (pl_world p) \<Longrightarrow> outlived (pl_world p) (pl_world p')"
proof (induction rule: rtranclp_induct)
  case (step y z)
  then show ?case using outlived_step [OF step(2)] outlived_trans by (auto simp: outlived_def)
qed (rule outlived_refl)

lemma outlived_keyed:
  assumes out: "outlived db db'" and "keyed_slot s x db = Some t"
  obtains t' where "keyed_slot s x db' = Some t'" "turn_id t' = turn_id t"
proof -
  obtain news where new: "map identity (turns db') = map identity (turns db) @ news" using out by (auto simp: outlived_def)
  define sc where "sc = scope_for db (slot_ask s x db)"
  have scope: "scope_for db' (slot_ask s x db') = sc" using out unfolding sc_def slot_ask_scope by (simp add: outlived_def)
  have "find (\<lambda>i. fst (snd i) = (slot_key (sc_id s) x, sc)) (map identity (turns db)) = Some (identity t)"
    using assms(2) unfolding keyed_identity [symmetric] sc_def by (simp only: option.map)
  then have "map_option identity (keyed_slot s x db') = Some (identity t)"
    unfolding scope keyed_identity new find_append by (simp only: option.case)
  then show thesis using that by (auto simp: identity_def)
qed

lemma grown_keyed: "grown S p p' \<Longrightarrow> keyed_slot s x (pl_world p) = Some t \<Longrightarrow> \<exists>t'. keyed_slot s x (pl_world p') = Some t' \<and> turn_id t' = turn_id t"
  by (rule outlived_keyed [of "pl_world p" "pl_world p'"]) (auto simp: grown_def outlived_def)

text \<open>A fire of a slot that has its turn is answered with it, or refused.\<close>

lemma fire_again:
  assumes ok: "keys_ok (pl_world p)" and own: "\<not> owned cw s" and had: "keyed_slot s x (pl_world p) = Some t"
    and fire: "fire_schedule cw s x new_id now p = (res, p')"
  shows "pl_queue p' = pl_queue p" and "res = Inr (r, c) \<Longrightarrow> r = Some (turn_id t) \<and> \<not> c \<and> p' = p"
proof -
  have "pl_queue p' = pl_queue p \<and> (\<forall>r c. res = Inr (r, c) \<longrightarrow> r = Some (turn_id t) \<and> \<not> c \<and> p' = p)"
  proof (cases res)
    case (Inr v)
    obtain m c where v: "v = (m, c)" by (cases v)
    obtain n where n: "m = Some n" "fire_slot cw s x new_id now p = (Inr (n, c), p')"
      by (rule fire_schedule_fired [OF own]) (use fire Inr v in auto)
    have "\<not> c" using fire_slot_splits(1) [OF ok n(2)] had by simp
    then show ?thesis using fire_slot_splits(2) [OF ok n(2)] had Inr v n(1) by auto
  next
    case (Inl e)
    then show ?thesis using fire_refused(1) [OF own fire [unfolded Inl]] by simp
  qed
  then show "pl_queue p' = pl_queue p" and "res = Inr (r, c) \<Longrightarrow> r = Some (turn_id t) \<and> \<not> c \<and> p' = p" by blast+
qed

text \<open>C39. A slot is fired once, however many clocks and machines report it.  A fire that names a turn says whether
  it is new, and it is new exactly when no turn of the agent's workspace had the slot's key.  Whatever happens
  in between (other fires, enqueueing, operations on turns, edits that leave the queue alone), any later fire of
  the slot, from any copy of the schedule, read before or after, adds no turn: it is refused, or it is answered
  with the same turn and changes nothing.  Different slots have different keys.\<close>

theorem a_slot_fires_once:
  assumes ok: "keys_ok (pl_world p)" and fresh: "new_id \<notin> turn_id ` set (turns (pl_world p))" and own: "\<not> owned cw s"
    and fire: "fire_schedule cw s x new_id now p = (Inr (res, created), p')"
  shows "created = (\<forall>t\<in>set (turns (pl_world p)). (idempotency_key t, idempotency_scope t)
          \<noteq> (slot_key (sc_id s) x, scope_for (pl_world p) (slot_ask s x (pl_world p))))
    \<and> map turn_id (turns (pl_world p')) = map turn_id (turns (pl_world p)) @ (if created then [new_id] else [])
    \<and> (\<exists>t\<in>set (turns (pl_world p')). res = Some (turn_id t) \<and> idempotency_key t = slot_key (sc_id s) x)
    \<and> (\<forall>p2 cw2 s2 id2 now2. plan_run p' p2 \<longrightarrow> sc_id s2 = sc_id s \<longrightarrow> sc_agent s2 = sc_agent s \<longrightarrow> \<not> owned cw2 s2
        \<longrightarrow> pl_queue (snd (fire_schedule cw2 s2 x id2 now2 p2)) = pl_queue p2
          \<and> (\<forall>r c. fst (fire_schedule cw2 s2 x id2 now2 p2) = Inr (r, c) \<longrightarrow> r = res \<and> \<not> c \<and> snd (fire_schedule cw2 s2 x id2 now2 p2) = p2))
    \<and> (\<forall>j y. moment_ok x \<longrightarrow> moment_ok y \<longrightarrow> slot_key j y = slot_key (sc_id s) x \<longrightarrow> j = sc_id s \<and> y = x)"
proof -
  let ?db = "pl_world p" and ?db' = "pl_world p'"
  obtain n where n: "res = Some n" "fire_slot cw s x new_id now p = (Inr (n, created), p')"
    by (rule fire_schedule_fired [OF own fire])
  note ids = fire_slot_identities [OF ok fresh n(2)]
  obtain t where t: "keyed_slot s x ?db' = Some t" "turn_id t = n" using ids(5) by blast
  have "created \<longleftrightarrow> keyed_slot s x ?db = None" by (rule fire_slot_splits(1) [OF ok n(2)])
  moreover have "\<dots> = (\<forall>t\<in>set (turns ?db). (idempotency_key t, idempotency_scope t) \<noteq> (slot_key (sc_id s) x, scope_for ?db (slot_ask s x ?db)))"
    by (auto simp: keyed_def find_None_iff)
  moreover have "map turn_id (turns ?db') = map turn_id (turns ?db) @ (if created then [new_id] else [])"
    using ids(4) unfolding map_turn_ids by (auto simp del: map_map)
  moreover have "\<exists>t\<in>set (turns ?db'). res = Some (turn_id t) \<and> idempotency_key t = slot_key (sc_id s) x"
    using keyed_Some [OF t(1)] t(2) n(1) by blast
  moreover have "pl_queue (snd (fire_schedule cw2 s2 x id2 now2 p2)) = pl_queue p2
      \<and> (\<forall>r c. fst (fire_schedule cw2 s2 x id2 now2 p2) = Inr (r, c) \<longrightarrow> r = res \<and> \<not> c \<and> snd (fire_schedule cw2 s2 x id2 now2 p2) = p2)"
    if later: "plan_run p' p2" and copy: "sc_id s2 = sc_id s" "sc_agent s2 = sc_agent s" "\<not> owned cw2 s2" for p2 cw2 s2 id2 now2
  proof -
    note out = outlived_run [OF later ids(1)]
    have "keyed_slot s2 x ?db' = Some t" using t(1) copy_slot [OF copy(1,2)] by simp
    then obtain u where u: "keyed_slot s2 x (pl_world p2) = Some u" "turn_id u = n" using outlived_keyed [OF out] t(2) by metis
    have ok2: "keys_ok (pl_world p2)" using out by (simp add: outlived_def)
    note again = fire_again [OF ok2 copy(3) u(1) prod.collapse [symmetric]]
    show ?thesis using again u(2) n(1) by blast
  qed
  ultimately show ?thesis using slot_key_inj by blast
qed

definition due_of :: "'g clockwork \<Rightarrow> instant \<Rightarrow> schedule \<Rightarrow> due_answer" where
  "due_of cw now s = due_slot cw (sc_cron s) (sc_timezone s) (fire_after_of s) now"

definition will_fire :: "'g clockwork \<Rightarrow> instant \<Rightarrow> 'g planner \<Rightarrow> schedule \<Rightarrow> bool" where
  "will_fire cw now p s \<longleftrightarrow> (\<exists>x. due_of cw now s = Due x \<and> may_fire cw s x p \<and> keyed_slot s x (pl_world p) = None)"

definition fresh_ids :: "(nat \<Rightarrow> string) \<Rightarrow> schedule list \<Rightarrow> 'g planner \<Rightarrow> bool" where
  "fresh_ids ids ss p \<longleftrightarrow> distinct (map (ids \<circ> sc_id) ss) \<and> set (map (ids \<circ> sc_id) ss) \<inter> turn_id ` set (turns (pl_world p)) = {}"

definition answered :: "'g clockwork \<Rightarrow> instant \<Rightarrow> schedule list \<Rightarrow> 'g planner \<Rightarrow> 'g planner \<Rightarrow> (nat \<times> moment \<times> string \<times> bool) list \<Rightarrow> nat list \<Rightarrow> bool" where
  "answered cw now ss p p' F B \<longleftrightarrow> mset (map fst F @ B) = mset (map sc_id (filter (\<lambda>s. due_of cw now s \<noteq> NotDue) ss))
     \<and> (\<forall>e\<in>set F. \<exists>s\<in>set ss. sc_id s = fst e \<and> due_of cw now s = Due (fst (snd e))
          \<and> (\<exists>t. keyed_slot s (fst (snd e)) (pl_world p') = Some t \<and> turn_id t = fst (snd (snd e)))
          \<and> (snd (snd (snd e)) \<longrightarrow> will_fire cw now p s))"

lemma grown_cong:
  assumes "grown S p p'"
  shows "may_fire cw s x p' = may_fire cw s x p"
  using assms by (intro may_fire_cong) (simp_all add: grown_def)

lemma will_fire_back:
  assumes g: "grown S p p'" and "will_fire cw now p' s"
  shows "will_fire cw now p s"
proof -
  obtain x where x: "due_of cw now s = Due x" "may_fire cw s x p'" "keyed_slot s x (pl_world p') = None"
    using assms(2) by (auto simp: will_fire_def)
  have "keyed_slot s x (pl_world p) = None"
  proof (cases "keyed_slot s x (pl_world p)")
    case (Some t)
    then show ?thesis using grown_keyed [OF g Some] x(3) by simp
  qed
  then show ?thesis using x(1,2) grown_cong [OF g, of cw s x] by (auto simp: will_fire_def)
qed

lemma grown_turns:
  assumes "grown S p p'"
  shows "turn_id ` set (turns (pl_world p')) \<subseteq> turn_id ` set (turns (pl_world p)) \<union> S"
proof -
  obtain news where "map identity (turns (pl_world p')) = map identity (turns (pl_world p)) @ news" "fst ` set news \<subseteq> S"
    using assms by (auto simp: grown_def)
  then have "set (map turn_id (turns (pl_world p'))) \<subseteq> set (map turn_id (turns (pl_world p))) \<union> S"
    unfolding map_turn_ids by (simp only: map_append set_append set_map) blast
  then show ?thesis by simp
qed

lemma grown_mono: "grown S p p' \<Longrightarrow> S \<subseteq> T \<Longrightarrow> grown T p p'"
  unfolding grown_def by blast

lemma tick_step:
  assumes ok: "keys_ok (pl_world p)" and none: "cw_announcer cw = None" and fresh: "ids (sc_id s) \<notin> turn_id ` set (turns (pl_world p))"
    and step: "tick_one cw ids now s (rep, p) = (rep', p')"
  shows "\<exists>F B. tk_fired rep' = tk_fired rep @ F \<and> tk_failed rep' = tk_failed rep @ B
      \<and> grown (if will_fire cw now p s then {ids (sc_id s)} else {}) p p' \<and> answered cw now [s] p p' F B"
    and "\<not> will_fire cw now p' s"
proof -
  have "(\<exists>F B. tk_fired rep' = tk_fired rep @ F \<and> tk_failed rep' = tk_failed rep @ B
      \<and> grown (if will_fire cw now p s then {ids (sc_id s)} else {}) p p' \<and> answered cw now [s] p p' F B)
      \<and> \<not> will_fire cw now p' s"
  proof (cases "due_of cw now s")
    case (Due x)
    have own: "\<not> owned cw s" using none by (simp add: owned_def)
    have will: "will_fire cw now q s \<longleftrightarrow> may_fire cw s x q \<and> keyed_slot s x (pl_world q) = None" for q
      using Due by (auto simp: will_fire_def)
    obtain res q where fire: "fire_schedule cw s x (ids (sc_id s)) now p = (res, q)" by fastforce
    note g = fire_grows [OF ok fresh own fire]
    have q: "p' = q" using step fire Due by (cases res) (auto simp: tick_one_def due_of_def split: prod.splits)
    have gone: "\<not> will_fire cw now p' s" using g(1,3) grown_cong will unfolding q by metis
    show ?thesis
    proof (cases res)
      case (Inl e)
      then have "tk_fired rep' = tk_fired rep" "tk_failed rep' = tk_failed rep @ [sc_id s]"
        using step fire Due by (auto simp: tick_one_def due_of_def)
      then show ?thesis using g(1) gone Due will unfolding q
        by (intro conjI exI [of _ "[]"] exI [of _ "[sc_id s]"]) (simp_all add: answered_def)
    next
      case (Inr v)
      obtain n c where v: "v = (n, c)" by (cases v)
      obtain t where t: "keyed_slot s x (pl_world q) = Some t" "n = Some (turn_id t)" "c = (may_fire cw s x p \<and> keyed_slot s x (pl_world p) = None)"
        using g(2) Inr v by auto
      have "tk_fired rep' = tk_fired rep @ [(sc_id s, x, turn_id t, c)]" "tk_failed rep' = tk_failed rep"
        using step fire Due Inr v t(2) by (auto simp: tick_one_def due_of_def)
      then show ?thesis using g(1) gone Due will t unfolding q
        by (intro conjI exI [of _ "[(sc_id s, x, turn_id t, c)]"] exI [of _ "[]"]) (simp_all add: answered_def)
    qed
  next
    case BadCron
    then have "rep' = rep\<lparr>tk_failed := tk_failed rep @ [sc_id s]\<rparr>" "p' = p" using step by (simp_all add: tick_one_def due_of_def)
    then show ?thesis using BadCron ok
      by (intro conjI exI [of _ "[]"] exI [of _ "[sc_id s]"]) (simp_all add: answered_def will_fire_def grown_refl)
  next
    case NotDue
    then have "rep' = rep" "p' = p" using step by (simp_all add: tick_one_def due_of_def)
    then show ?thesis using NotDue ok
      by (intro conjI exI [of _ "[]"]) (simp_all add: answered_def will_fire_def grown_refl)
  qed
  then show "\<exists>F B. tk_fired rep' = tk_fired rep @ F \<and> tk_failed rep' = tk_failed rep @ B
      \<and> grown (if will_fire cw now p s then {ids (sc_id s)} else {}) p p' \<and> answered cw now [s] p p' F B"
    and "\<not> will_fire cw now p' s" by blast+
qed

lemma answered_append:
  assumes "answered cw now ss p q F B" and "answered cw now us q r G D" and g: "grown S p q" and g2: "grown S2 q r"
  shows "answered cw now (ss @ us) p r (F @ G) (B @ D)"
  unfolding answered_def
proof (intro conjI ballI)
  show "mset (map fst (F @ G) @ B @ D) = mset (map sc_id (filter (\<lambda>s. due_of cw now s \<noteq> NotDue) (ss @ us)))"
  proof -
    have "mset (map fst (F @ G) @ B @ D) = mset (map fst F @ B) + mset (map fst G @ D)" by simp
    also have "\<dots> = mset (map sc_id (filter (\<lambda>s. due_of cw now s \<noteq> NotDue) ss)) + mset (map sc_id (filter (\<lambda>s. due_of cw now s \<noteq> NotDue) us))"
      using assms(1,2) by (simp only: answered_def)
    finally show ?thesis by simp
  qed
  fix e assume "e \<in> set (F @ G)"
  then consider "e \<in> set F" | "e \<in> set G" by auto
  then show "\<exists>s\<in>set (ss @ us). sc_id s = fst e \<and> due_of cw now s = Due (fst (snd e))
          \<and> (\<exists>t. keyed_slot s (fst (snd e)) (pl_world r) = Some t \<and> turn_id t = fst (snd (snd e)))
          \<and> (snd (snd (snd e)) \<longrightarrow> will_fire cw now p s)"
  proof cases
    case 1
    then obtain s t where s: "s \<in> set ss" "sc_id s = fst e" "due_of cw now s = Due (fst (snd e))" "snd (snd (snd e)) \<longrightarrow> will_fire cw now p s"
      "keyed_slot s (fst (snd e)) (pl_world q) = Some t" "turn_id t = fst (snd (snd e))"
      using assms(1) unfolding answered_def by blast
    obtain t' where "keyed_slot s (fst (snd e)) (pl_world r) = Some t'" "turn_id t' = turn_id t" using grown_keyed [OF g2 s(5)] by blast
    then show ?thesis using s by (intro bexI [of _ s]) auto
  next
    case 2
    then show ?thesis using assms(2) will_fire_back [OF g] unfolding answered_def by fastforce
  qed
qed

lemma tick_fold:
  assumes "keys_ok (pl_world p)" and none: "cw_announcer cw = None" and "fresh_ids ids ss p"
    and "fold (tick_one cw ids now) ss (rep, p) = (rep', p')"
  shows "(\<exists>F B. tk_fired rep' = tk_fired rep @ F \<and> tk_failed rep' = tk_failed rep @ B \<and> answered cw now ss p p' F B)
      \<and> grown (ids ` sc_id ` {s \<in> set ss. will_fire cw now p s}) p p' \<and> (\<forall>s\<in>set ss. \<not> will_fire cw now p' s)"
  using assms(1,3,4)
proof (induction ss arbitrary: rep p)
  case Nil
  then show ?case by (auto simp: answered_def grown_refl intro!: exI [of _ "[]"])
next
  case (Cons s ss)
  obtain rep1 q where one: "tick_one cw ids now s (rep, p) = (rep1, q)" by fastforce
  have "ids (sc_id s) \<notin> turn_id ` set (turns (pl_world p))" using Cons.prems(2) by (auto simp: fresh_ids_def)
  note st = tick_step [OF Cons.prems(1) none this one]
  obtain F B where F: "tk_fired rep1 = tk_fired rep @ F" "tk_failed rep1 = tk_failed rep @ B"
    and g: "grown (if will_fire cw now p s then {ids (sc_id s)} else {}) p q" and a: "answered cw now [s] p q F B" using st(1) by blast
  have ok: "keys_ok (pl_world q)" using g by (simp add: grown_def)
  have "turn_id ` set (turns (pl_world q)) \<subseteq> turn_id ` set (turns (pl_world p)) \<union> {ids (sc_id s)}"
    using grown_turns [OF g] by (auto split: if_splits)
  then have "set (map (ids \<circ> sc_id) ss) \<inter> turn_id ` set (turns (pl_world q))
      \<subseteq> set (map (ids \<circ> sc_id) ss) \<inter> (turn_id ` set (turns (pl_world p)) \<union> {ids (sc_id s)})" by blast
  also have "\<dots> = {}" using Cons.prems(2) by (auto simp: fresh_ids_def)
  finally have "fresh_ids ids ss q" using Cons.prems(2) by (simp add: fresh_ids_def)
  note IH = Cons.IH [OF ok this, of rep1]
  have rest: "fold (tick_one cw ids now) ss (rep1, q) = (rep', p')" using Cons.prems(3) one by simp
  obtain G D where G: "tk_fired rep' = tk_fired rep1 @ G" "tk_failed rep' = tk_failed rep1 @ D" and a2: "answered cw now ss q p' G D"
    and g2: "grown (ids ` sc_id ` {s \<in> set ss. will_fire cw now q s}) q p'" and later: "\<forall>s\<in>set ss. \<not> will_fire cw now p' s"
    using IH [OF rest] by blast
  have "answered cw now (s # ss) p p' (F @ G) (B @ D)" using answered_append [OF a a2 g g2] by simp
  moreover have "grown (ids ` sc_id ` {r \<in> set (s # ss). will_fire cw now p r}) p p'"
    by (rule grown_mono [OF grown_trans [OF g g2]]) (auto dest: will_fire_back [OF g] split: if_splits)
  moreover have "\<not> will_fire cw now p' s" using st(2) will_fire_back [OF g2] by blast
  ultimately show ?case using F G later by (intro conjI exI [of _ "F @ G"] exI [of _ "B @ D"]) auto
qed

text \<open>The clock answers for every due schedule exactly once, and two clocks make one turn.  A tick reports each
  schedule whose slot is due, or whose cron cannot be read, once, as fired or as failed, whatever happens to
  the others; it fires one slot per schedule, the newest, later than the schedule's anchor.  A second tick that read the same
  rows, and finds the same slots due, adds no turn: whatever it fires is answered with the turn of the first.\<close>

theorem two_clocks_make_one_turn:
  assumes ok: "keys_ok (pl_world p)" and none: "cw_announcer cw = None" and rows: "distinct (map sc_id ss)"
    and ids: "fresh_ids ids1 ss p" "fresh_ids ids2 ss p1" and due: "\<forall>s\<in>set ss. due_of cw now2 s = due_of cw now1 s"
    and one: "tick_over cw ids1 now1 ss p = (rep1, p1)" and two: "tick_over cw ids2 now2 ss p1 = (rep2, p2)"
  shows "mset (map fst (tk_fired rep1) @ tk_failed rep1) = mset (map sc_id (filter (\<lambda>s. due_of cw now1 s \<noteq> NotDue) ss))
    \<and> (\<forall>e\<in>set (tk_fired rep1). \<exists>s\<in>set ss. sc_id s = fst e \<and> due_of cw now1 s = Due (fst (snd e)) \<and> fire_after_of s < fst (fst (snd e)))
    \<and> (\<exists>news. map turn_id (turns (pl_world p1)) = map turn_id (turns (pl_world p)) @ news \<and> set news \<subseteq> ids1 ` sc_id ` set ss)
    \<and> map turn_id (turns (pl_world p2)) = map turn_id (turns (pl_world p1))
    \<and> (\<forall>e\<in>set (tk_fired rep2). \<not> snd (snd (snd e)) \<and> (\<forall>e1\<in>set (tk_fired rep1). fst e1 = fst e \<longrightarrow> fst (snd (snd e1)) = fst (snd (snd e))))"
proof -
  have a: "answered cw now1 ss p p1 (tk_fired rep1) (tk_failed rep1)"
    and g: "grown (ids1 ` sc_id ` {s \<in> set ss. will_fire cw now1 p s}) p p1" and spent: "\<forall>s\<in>set ss. \<not> will_fire cw now1 p1 s"
    using tick_fold [OF ok none ids(1) one [unfolded tick_over_def]] by auto
  have ok1: "keys_ok (pl_world p1)" using g by (simp add: grown_def)
  have a2: "answered cw now2 ss p1 p2 (tk_fired rep2) (tk_failed rep2)"
    and g2: "grown (ids2 ` sc_id ` {s \<in> set ss. will_fire cw now2 p1 s}) p1 p2"
    using tick_fold [OF ok1 none ids(2) two [unfolded tick_over_def]] by auto
  have still: "\<forall>s\<in>set ss. \<not> will_fire cw now2 p1 s" using spent due by (simp add: will_fire_def)
  then have "{s \<in> set ss. will_fire cw now2 p1 s} = {}" by blast
  with g2 have g0: "grown {} p1 p2" by (simp only: image_empty)
  have same: "s = u" if "s \<in> set ss" "u \<in> set ss" "sc_id s = sc_id u" for s u
    using rows that by (metis inj_onD distinct_map)
  have answers: "\<forall>e\<in>set (tk_fired rep2). \<not> snd (snd (snd e)) \<and> (\<forall>e1\<in>set (tk_fired rep1). fst e1 = fst e \<longrightarrow> fst (snd (snd e1)) = fst (snd (snd e)))"
  proof
    fix e assume e: "e \<in> set (tk_fired rep2)"
    obtain s t where s: "s \<in> set ss" "sc_id s = fst e" "due_of cw now2 s = Due (fst (snd e))" "snd (snd (snd e)) \<longrightarrow> will_fire cw now2 p1 s"
      "keyed_slot s (fst (snd e)) (pl_world p2) = Some t" "turn_id t = fst (snd (snd e))"
      using a2 e unfolding answered_def by blast
    have agree: "fst (snd (snd e1)) = fst (snd (snd e))" if e1: "e1 \<in> set (tk_fired rep1)" "fst e1 = fst e" for e1
    proof -
      obtain u v where u: "u \<in> set ss" "sc_id u = fst e1" "due_of cw now1 u = Due (fst (snd e1))"
        "keyed_slot u (fst (snd e1)) (pl_world p1) = Some v" "turn_id v = fst (snd (snd e1))"
        using a e1(1) unfolding answered_def by blast
      have "u = s" using same u s e1(2) by simp
      then have "fst (snd e1) = fst (snd e)" using u(3) s(3) due s(1) by simp
      then show ?thesis using grown_keyed [OF g0 u(4)] s(5,6) u(5) \<open>u = s\<close> by auto
    qed
    show "\<not> snd (snd (snd e)) \<and> (\<forall>e1\<in>set (tk_fired rep1). fst e1 = fst e \<longrightarrow> fst (snd (snd e1)) = fst (snd (snd e)))"
      using s(1,4) still agree by blast
  qed
  have anchors: "\<forall>e\<in>set (tk_fired rep1). \<exists>s\<in>set ss. sc_id s = fst e \<and> due_of cw now1 s = Due (fst (snd e)) \<and> fire_after_of s < fst (fst (snd e))"
  proof
    fix e assume e: "e \<in> set (tk_fired rep1)"
    obtain s where s: "s \<in> set ss" "sc_id s = fst e" "due_of cw now1 s = Due (fst (snd e))"
      using a e unfolding answered_def by blast
    have "fire_after_of s < fst (fst (snd e))"
      using s(3) by (auto simp: due_of_def due_slot_def split: option.splits if_splits)
    then show "\<exists>s\<in>set ss. sc_id s = fst e \<and> due_of cw now1 s = Due (fst (snd e)) \<and> fire_after_of s < fst (fst (snd e))"
      using s by blast
  qed
  have same': "map turn_id (turns (pl_world p2)) = map turn_id (turns (pl_world p1))"
  proof -
    obtain news where "map identity (turns (pl_world p2)) = map identity (turns (pl_world p1)) @ news" "fst ` set news \<subseteq> {}"
      using g0 by (auto simp: grown_def)
    then show ?thesis unfolding map_turn_ids by (simp del: map_map)
  qed
  have grew: "\<exists>news. map turn_id (turns (pl_world p1)) = map turn_id (turns (pl_world p)) @ news \<and> set news \<subseteq> ids1 ` sc_id ` set ss"
  proof -
    obtain news where n: "map identity (turns (pl_world p1)) = map identity (turns (pl_world p)) @ news"
      "fst ` set news \<subseteq> ids1 ` sc_id ` {s \<in> set ss. will_fire cw now1 p s}"
      using g by (auto simp: grown_def)
    have "set (map fst news) \<subseteq> ids1 ` sc_id ` set ss" using n(2) by auto
    then show ?thesis unfolding map_turn_ids n(1) map_append by (intro exI [of _ "map fst news"] conjI refl)
  qed
  show ?thesis using a [unfolded answered_def, THEN conjunct1] by (intro conjI anchors grew same' answers)
qed

section \<open>Releasing, skipping, running now\<close>

lemma with_world_simps [simp]: "pl_world (with_world p db) = db" "pl_schedules (with_world p db) = pl_schedules p"
  "pl_org (with_world p db) = pl_org p" "pl_nags (with_world p db) = pl_nags p"
  by (simp_all add: with_world_def)

lemma release_fold_world:
  "pl_world (fold (release_one rd s now) ts p) = finish_each rd (\<lambda>_. released_note s) False now ts (pl_world p)"
proof (induction ts arbitrary: p)
  case (Cons t ts)
  have "pl_world (release_one rd s now t p) = snd (finish_turn rd (turn_id t) Missed (released_note s) False now (pl_world p))"
    by (simp add: release_one_def Let_def)
  then show ?case using Cons.IH [of "release_one rd s now t p"] by (simp add: finish_each_def)
qed (simp add: finish_each_def)

lemma job_ended_badly_world [simp]: "pl_world (job_ended_badly r q) = pl_world q" "pl_schedules (job_ended_badly r q) = pl_schedules q"
  by (simp_all add: job_ended_badly_def split: option.split json.split)

lemma skip_fold_world:
  "pl_world (fold (skip_one rd now) ts p)
     = finish_each rd (\<lambda>t. if job t \<noteq> '''' then JOB_NOT_TAKEN_NOTE else late_note now t) True now ts (pl_world p)"
proof (induction ts arbitrary: p)
  case (Cons t ts)
  have "pl_world (skip_one rd now t p) = snd (finish_turn rd (turn_id t) Missed
      (if job t \<noteq> '''' then JOB_NOT_TAKEN_NOTE else late_note now t) True now (pl_world p))"
    by (simp add: skip_one_def Let_def)
  then show ?case using Cons.IH [of "skip_one rd now t p"] by (simp add: finish_each_def)
qed (simp add: finish_each_def)

lemma skip_fold_schedules: "pl_schedules (fold (skip_one rd now) ts p) = pl_schedules p"
proof (induction ts arbitrary: p)
  case (Cons t ts)
  have "pl_schedules (skip_one rd now t p) = pl_schedules p" by (simp add: skip_one_def Let_def)
  then show ?case using Cons.IH [of "skip_one rd now t p"] by simp
qed simp

text \<open>Ending the turns a filter names: they are missed, and nothing else changes but what rides on them.\<close>

lemma finish_filtered:
  assumes ids: "turn_ids_ok db" and live: "\<forall>t. P t \<longrightarrow> status t \<in> set EXECUTING \<or> (q \<and> status t = Queued)"
  shows "t \<in> set (turns db) \<Longrightarrow> P t \<Longrightarrow> status_of (finish_each rd said q now (filter P (turns db)) db) (turn_id t) = Some Missed"
    and "t \<in> set (turns db) \<Longrightarrow> get_turn (finish_each rd said q now (filter P (turns db)) db) (turn_id t) = Some t
      \<or> (status_of (finish_each rd said q now (filter P (turns db)) db) (turn_id t) = Some Missed
         \<and> (P t \<or> (\<exists>h\<in>set (turns db). P h \<and> is_rider (turn_id h) t)))"
proof -
  let ?db' = "finish_each rd said q now (filter P (turns db)) db"
  show "status_of ?db' (turn_id t) = Some Missed" if "t \<in> set (turns db)" "P t"
    using finish_each_retires(2) [OF ids _ get_turn_row [OF ids that(1)] live [rule_format, OF that(2)]] that by simp
  assume t: "t \<in> set (turns db)"
  have "P t" if named: "turn_id t \<in> turn_id ` set (filter P (turns db))"
  proof -
    obtain u where "u \<in> set (turns db)" "P u" "turn_id u = turn_id t" using named by auto
    then show ?thesis using get_turn_row [OF ids] t by (metis option.inject)
  qed
  then show "get_turn ?db' (turn_id t) = Some t \<or> (status_of ?db' (turn_id t) = Some Missed \<and> (P t \<or> (\<exists>h\<in>set (turns db). P h \<and> is_rider (turn_id h) t)))"
    using finish_each_retires(1) [OF ids, of "filter P (turns db)" rd said q now] get_turn_row [OF ids t]
    unfolding retires_def by fastforce
qed

lemma released_nags:
  assumes "''inbox'' \<in> set (sc_notify s)" and "sc_job s = ''''" and "t \<in> set ts \<or> nag_key s t \<in> ng_key ` set (pl_nags q)"
  shows "nag_key s t \<in> ng_key ` set (pl_nags (fold (release_one rd s now) ts q))"
  using assms(3)
proof (induction ts arbitrary: q)
  case (Cons x xs)
  have "turn_id (case get_turn d (turn_id x) of None \<Rightarrow> x | Some r \<Rightarrow> r) = turn_id x" for d
    using tbl_get_Some [of turn_id "turn_id x" "turns d"] by (cases "get_turn d (turn_id x)") auto
  then have "nag_key s x \<in> ng_key ` set (pl_nags (release_one rd s now x q))"
    "ng_key ` set (pl_nags q) \<subseteq> ng_key ` set (pl_nags (release_one rd s now x q))"
    using assms(1,2) by (auto simp: release_one_def Let_def raise_schedule_nag_def create_nag_def nag_key_def)
  then show ?case using Cons.prems Cons.IH [of "release_one rd s now x q"] by auto
qed simp

text \<open>Only what has held its agent past the schedule's grace is released.  The turns released are exactly the
  schedule's executing turns claimed longer ago than its grace; each ends as missed, and every other turn,
  the queued ones among them, is left as it is, but for follow-ups that rode on a released one.  Each turn
  released leaves a review behind, when the schedule's people asked for one.\<close>

theorem only_what_overstays_is_released:
  assumes ids: "turn_ids_ok (pl_world p)" and rel: "release_stale rd s now p = (k, p')"
  shows "k = length (filter (overstays s now) (turns (pl_world p)))
    \<and> (\<forall>t\<in>set (turns (pl_world p)). overstays s now t \<longrightarrow> status_of (pl_world p') (turn_id t) = Some Missed)
    \<and> (\<forall>t\<in>set (turns (pl_world p)). \<not> overstays s now t \<longrightarrow> get_turn (pl_world p') (turn_id t) = Some t
        \<or> (\<exists>h\<in>set (turns (pl_world p)). overstays s now h \<and> is_rider (turn_id h) t))
    \<and> (''inbox'' \<in> set (sc_notify s) \<longrightarrow> sc_job s = '''' \<longrightarrow>
        (\<forall>t\<in>set (turns (pl_world p)). overstays s now t \<longrightarrow> nag_key s t \<in> ng_key ` set (pl_nags p')))"
proof -
  let ?ts = "filter (overstays s now) (turns (pl_world p))"
  have k: "k = length ?ts" and p': "p' = fold (release_one rd s now) ?ts p" using rel by (simp_all add: release_stale_def Let_def)
  have live: "\<forall>t. overstays s now t \<longrightarrow> status t \<in> set EXECUTING \<or> (False \<and> status t = Queued)" by (simp add: overstays_def)
  have world: "pl_world p' = finish_each rd (\<lambda>_. released_note s) False now ?ts (pl_world p)"
    unfolding p' by (rule release_fold_world)
  note f = finish_filtered [where P = "overstays s now", OF ids live, where rd = rd and said = "\<lambda>_. released_note s" and now = now]
  show ?thesis
    using k f(1) f(2) released_nags [of s _ ?ts p rd now] unfolding world [symmetric] p' [symmetric] by auto
qed

text \<open>No slot waits past its time.  After the skip no queued turn of the clock is later than the window, but for
  schedules that always run and one-offs; exactly the late ones end, as missed, and every other turn, a turn run by
  hand among them, is left as it is, but for follow-ups that rode on a skipped one.\<close>

theorem no_late_slot_stays_queued:
  assumes ids: "turn_ids_ok (pl_world p)" and skip: "skip_late rd now p = (k, p')"
  shows "k = length (filter (too_late p now) (turns (pl_world p)))
    \<and> (\<forall>t\<in>set (turns (pl_world p)). too_late p now t \<longrightarrow> status_of (pl_world p') (turn_id t) = Some Missed)
    \<and> (\<forall>t\<in>set (turns (pl_world p)). \<not> too_late p now t \<longrightarrow> get_turn (pl_world p') (turn_id t) = Some t
        \<or> (\<exists>h\<in>set (turns (pl_world p)). too_late p now h \<and> is_rider (turn_id h) t))
    \<and> (\<forall>t\<in>set (turns (pl_world p')). \<not> too_late p' now t)"
proof -
  let ?ts = "filter (too_late p now) (turns (pl_world p))"
  let ?said = "\<lambda>t. if job t \<noteq> '''' then JOB_NOT_TAKEN_NOTE else late_note now t"
  have k: "k = length ?ts" and p': "p' = fold (skip_one rd now) ?ts p" using skip by (simp_all add: skip_late_def Let_def)
  have live: "\<forall>t. too_late p now t \<longrightarrow> status t \<in> set EXECUTING \<or> (True \<and> status t = Queued)" by (simp add: too_late_def slot_turn_def)
  have world: "pl_world p' = finish_each rd ?said True now ?ts (pl_world p)" unfolding p' by (rule skip_fold_world)
  have rows: "pl_schedules p' = pl_schedules p" unfolding p' by (rule skip_fold_schedules)
  note f = finish_filtered [where P = "too_late p now", OF ids live, where rd = rd and said = ?said and now = now, folded world]
  have same: "too_late p' now t \<longleftrightarrow> too_late p now t" for t by (simp add: too_late_def runs_however_late_def rows)
  have on: "map turn_id (turns (pl_world p')) = map turn_id (turns (pl_world p))"
    using finish_each_retires(1) [OF ids, of ?ts rd ?said True now, folded world] by (simp add: retires_def)
  have "\<not> too_late p' now t" if t: "t \<in> set (turns (pl_world p'))" for t
  proof
    assume late: "too_late p' now t"
    have "turn_ids_ok (pl_world p')" using ids on by simp
    then have t': "get_turn (pl_world p') (turn_id t) = Some t" using t by (rule get_turn_row)
    have "turn_id t \<in> set (map turn_id (turns (pl_world p)))" using t unfolding on [symmetric] by simp
    then obtain r where r: "r \<in> set (turns (pl_world p))" "turn_id r = turn_id t" by auto
    have queued: "status t = Queued" using late by (simp add: too_late_def slot_turn_def)
    have "status_of (pl_world p') (turn_id r) \<noteq> Some Missed" using t' r(2) queued by simp
    then have "get_turn (pl_world p') (turn_id r) = Some r" using f(2) [OF r(1)] by blast
    then have "Some r = Some t" unfolding r(2) t' by (rule sym)
    then have "r = t" by (rule option.inject [THEN iffD1])
    moreover have "too_late p now t" using late same by blast
    ultimately have "status_of (pl_world p') (turn_id t) = Some Missed" using f(1) [OF r(1)] by blast
    then show False using t' queued by simp
  qed
  then show ?thesis using k f by blast
qed

text \<open>Run now keeps the cadence.  Whatever a press of the button does, the schedules' rows stay as they are, so the
  next slot still fires on time.  While a run of its job is going it is refused and changes nothing.  When it
  does start a turn, every turn of the schedule that was still open ends as missed, and the new one is the
  last row.\<close>

theorem run_now_keeps_the_cadence:
  assumes ok: "keys_ok (pl_world p)" and fresh: "new_id \<notin> turn_id ` set (turns (pl_world p))" and alone: "nobody_rides new_id (pl_world p)"
    and own: "\<not> owned cw s" and unused: "keyed (manual_key (sc_id s) uuid) w (pl_world p) = None"
    and scope: "w = (case tbl_get ag_slug (sc_agent s) (agent_rows (pl_world p)) of None \<Rightarrow> '''' | Some a \<Rightarrow> ag_workspace a)"
    and run: "run_schedule_now cw s clicked_by uuid new_id now p = (res, p')"
  shows "pl_schedules p' = pl_schedules p \<and> pl_org p' = pl_org p
    \<and> (\<forall>e. res = Inl e \<longrightarrow> p' = p) \<and> (job_running s (pl_world p) \<longrightarrow> (\<exists>e. res = Inl e))
    \<and> (\<forall>n. res = Inr n \<longrightarrow> n = Some new_id
        \<and> map turn_id (turns (pl_world p')) = map turn_id (turns (pl_world p)) @ [new_id]
        \<and> (\<forall>t\<in>set (turns (pl_world p)). occurrence s t \<longrightarrow> status t \<in> set NON_TERMINAL \<longrightarrow> status_of (pl_world p') (turn_id t) = Some Missed))"
proof -
  let ?db = "pl_world p"
  obtain r q where r: "refuse_if_stopped s None p = (r, q)" by fastforce
  have q: "q = p" using r by (auto simp: refuse_if_stopped_def split: option.splits)
  show ?thesis
  proof (cases "is_ok r \<and> \<not> job_running s ?db")
    case False
    then show ?thesis using run r q own by (cases r) (auto simp: run_schedule_now_def)
  next
    case True
    then have job: "\<not> job_running s ?db" and rok: "r = Inr ()" and idle: "job_running s ?db = False" by (cases r; simp)+
    define db1 where "db1 = snd (supersede_open_turns (cw_rd cw) s ''superseded by a manual run'' False now ?db)"
    define ask where "ask = schedule_ask s (tbl_get ag_slug (sc_agent s) (agent_rows db1)) (manual_key (sc_id s) uuid) (manual_ref s) [(''clicked_by'', clicked_by)]"
    obtain out ad where enq: "enqueue_turn (cw_rd cw) (cw_gates cw) (cw_reach cw) new_id now ask ((pl_queue p)\<lparr>world := db1\<rparr>) = (out, ad)" by fastforce
    have res: "(res, p') = (case (out, ad) of (Inl e, ad) \<Rightarrow> (Inl (NotQueued e), p) | (Inr (n, _), ad) \<Rightarrow> (Inr (Some n), p\<lparr>pl_queue := ad\<rparr>))"
      using run r rok q own job enq by (simp add: run_schedule_now_def Let_def db1_def ask_def)
    note sup = superseded_ends [OF ok, where s = s and rd = "cw_rd cw" and why = "''superseded by a manual run''" and now = now, unfolded idle, folded db1_def]
    have named: "t \<in> set (superseded s ?db) \<longleftrightarrow> t \<in> set (turns ?db) \<and> occurrence s t \<and> status t \<in> set NON_TERMINAL" for t
      using job by (auto simp: superseded_def open_occurrences_def)
    show ?thesis
    proof (cases out)
      case (Inl e)
      then show ?thesis using res job by simp
    next
      case (Inr v)
      obtain n made where v: "v = (n, made)" by (cases v)
      have rows: "map turn_id (turns db1) = map turn_id (turns ?db)" using sup(1) by (simp add: retires_def)
      then have fresh1: "new_id \<notin> turn_id ` set (turns db1)" using fresh by (metis list.set_map)
      note answer = enqueue_answer [of "(pl_queue p)\<lparr>world := db1\<rparr>", simplified, OF sup(3) fresh1 enq]
      have ag1: "agent_rows db1 = agent_rows ?db"
        using finish_each_agents [OF ok] by (simp add: db1_def supersede_open_turns_def Let_def)
      have w: "scope_for db1 ask = w" unfolding scope ask_def ag1 by (simp add: scope_for_def schedule_ask_def split: option.split)
      have "q_key ask = manual_key (sc_id s) uuid" by (simp add: ask_def schedule_ask_def)
      then have "keyed (q_key ask) (scope_for db1 ask) db1 = None" using unused keyed_same [OF sup(4)] w by simp
      then have made: "made" and n: "n = new_id" using answer(3) Inr v by auto
      have "status_of (world ad) (turn_id t) = Some Missed" if t: "t \<in> set (superseded s ?db)" for t
      proof -
        obtain u where u: "get_turn db1 (turn_id t) = Some u" "status u = Missed" using sup(2) [OF t] by auto
        then have "\<not> is_rider new_id u" by (simp add: is_rider_def EXECUTING_def)
        then show ?thesis using enqueue_others [of "(pl_queue p)\<lparr>world := db1\<rparr>", simplified, OF sup(3) fresh1 enq u(1)] u(2) by simp
      qed
      then show ?thesis using res Inr v answer(3) made n rows named job by auto
    qed
  qed
qed

lemma fire_made:
  assumes ok: "keys_ok (pl_world p)" and fresh: "new_id \<notin> turn_id ` set (turns (pl_world p))" and own: "\<not> owned cw s"
    and may: "may_fire cw s x p" and none: "keyed_slot s x (pl_world p) = None"
  obtains p' where "fire_schedule cw s x new_id now p = (Inr (Some new_id, True), p')"
proof -
  obtain q where q: "fire_slot cw s x new_id now p = (Inr (new_id, True), q)"
    using fire_slot_made [OF ok _ none, where cw = cw and new_id = new_id and now = now] may by (auto simp: may_fire_def)
  have "refuse_if_stopped s (Some x) p = (Inr (), p)"
    using may by (auto simp: may_fire_def refuse_if_stopped_def)
  then have "fire_schedule cw s x new_id now p = (Inr (Some new_id, True), q)"
    using q own may by (auto simp: fire_schedule_def atomic_def may_fire_def)
  then show thesis by (rule that)
qed

section \<open>A sample schedule\<close>

definition sample_schedule :: schedule where
  "sample_schedule = \<lparr> sc_id = 5, sc_agent = ''eva'', sc_created_by = Some 1, sc_updated_by = None, sc_kind = CRON, sc_name = ''weekly'',
     sc_prompt = ''/eva:report'', sc_job = '''', sc_job_repo = '''', sc_cron = ''0 9 * * 5'', sc_sender_address = '''', sc_subject_pattern = '''',
     sc_turn_mode = '''', sc_mail_quiet_minutes = 30, sc_run_once_at = None, sc_timezone = ''UTC'', sc_enabled = True,
     sc_routing = ''prefer_local'', sc_grace_minutes = 120, sc_always_run = False, sc_notify = [''inbox''], sc_cli = '''',
     sc_last_slot = None, sc_created_at = 0 \<rparr>"

definition team_org :: "unit org" where
  "team_org = \<lparr> og_access = \<lparr> members_db = \<lparr> workspaces = [\<lparr> ws_slug = ''acme'', ws_parent = None, ws_access_request_domains = [],
         ws_auto_approve_role = '''', ws_held = False \<rparr>],
       memberships = [\<lparr> m_workspace = ''acme'', m_user = 1, m_role = Editor, m_invited_by = None, m_joined = 0 \<rparr>], users = [1, 2] \<rparr>,
       invites = [], access_requests = [], next_id = 1 \<rparr>,
     og_people = [\<lparr> pn_id = 1, pn_email = ''ada@x.org'', pn_full_name = ''Ada'', pn_username = ''ada'', pn_active = True \<rparr>,
       \<lparr> pn_id = 2, pn_email = ''bob@x.org'', pn_full_name = ''Bob'', pn_username = ''bob'', pn_active = True \<rparr>],
     og_agents = [\<lparr> al_id = 7, al_slug = ''eva'', al_name = ''Eva'', al_workspace = ''acme'', al_owner = Some 2, al_user = None \<rparr>],
     og_admins = [], og_grants = () \<rparr>"

text \<open>Friday the 18th and the 25th of September 2026, at nine.\<close>

definition last_friday :: moment where "last_friday = (seconds 1789722000, 0)"
definition this_friday :: moment where "this_friday = (seconds 1790326800, 0)"

definition old_run :: turn where
  "old_run = (plain_turn ''old-1'')\<lparr>status := Queued, t_origin := ''canopy_scheduler'', origin_ref := slot_ref sample_schedule last_friday,
     idempotency_key := slot_key 5 last_friday\<rparr>"

definition sample_planner :: "unit planner" where
  "sample_planner = \<lparr> pl_queue = sample_admission\<lparr>world := sample_turns\<lparr>turns := [old_run]\<rparr>, adm_rules := []\<rparr>, pl_org = team_org,
     pl_schedules = [sample_schedule], pl_log = [], pl_nags = [] \<rparr>"

text \<open>Its clock knows the two Fridays.\<close>

definition fridays :: "unit clockwork" where
  "fridays = \<lparr> cw_rd = blind_redactor, cw_gates = plain_gates, cw_reach = no_reach, cw_announcer = None,
     cw_prev = (\<lambda>c z now. if fst this_friday < now then Some this_friday else if fst last_friday < now then Some last_friday else None) \<rparr>"

lemma fixed_digits: "fixed 2 n = [digit (n div 10), digit n]"
  "fixed 4 n = [digit (n div 10 div 10 div 10), digit (n div 10 div 10), digit (n div 10), digit n]"
proof -
  have four: "(4 :: nat) = Suc (Suc (Suc (Suc 0)))" by simp
  show "fixed 2 n = [digit (n div 10), digit n]" by (simp only: numeral_2_eq_2 fixed.simps append.simps)
  show "fixed 4 n = [digit (n div 10 div 10 div 10), digit (n div 10 div 10), digit (n div 10), digit n]"
    by (simp only: four fixed.simps append.simps)
qed

lemma digit_text: "digit n = ''0123456789'' ! (n mod 10)"
proof -
  have "\<forall>k\<in>set [0..<10]. char_of (48 + k) = ''0123456789'' ! k" by code_simp
  moreover have "n mod 10 \<in> set [0..<10]" by simp
  ultimately show ?thesis unfolding digit_def by blast
qed

lemma friday_dates: "date_of_day 739883 = (2026, 9, 25)" "date_of_day 739876 = (2026, 9, 18)"
  by (simp_all add: date_of_day_def year_of_day.simps year_length_def is_leap_def month_lengths_def)

lemma iso_whole_second:
  assumes "nat ((t + EPOCH_DAY * DAY) div DAY) = k" and "date_of_day k = (y, m, d)" and "nat ((t + EPOCH_DAY * DAY) mod DAY) = 1000000 * s"
  shows "iso_text (t, 0) = fixed 4 y @ ''-'' @ fixed 2 m @ ''-'' @ fixed 2 d @ ''T'' @ fixed 2 (s div 3600) @ '':''
     @ fixed 2 (s div 60 mod 60) @ '':'' @ fixed 2 (s mod 60) @ ''+00:00''"
proof -
  have "offset_text 0 = ''+00:00''" by (simp add: offset_text_def digit_text fixed_digits del: fixed.simps)
  then show ?thesis using assms by (simp add: iso_text_def del: fixed.simps)
qed

lemma iso_friday: "iso_text this_friday = ''2026-09-25T09:00:00+00:00''" "iso_text last_friday = ''2026-09-18T09:00:00+00:00''"
proof -
  have "nat ((seconds 1790326800 + EPOCH_DAY * DAY) div DAY) = 739883" "nat ((seconds 1790326800 + EPOCH_DAY * DAY) mod DAY) = 1000000 * 32400"
    "nat ((seconds 1789722000 + EPOCH_DAY * DAY) div DAY) = 739876" "nat ((seconds 1789722000 + EPOCH_DAY * DAY) mod DAY) = 1000000 * 32400"
    by (simp_all add: DAY_def EPOCH_DAY_def)
  note at = this
  show "iso_text this_friday = ''2026-09-25T09:00:00+00:00''"
    unfolding this_friday_def by (subst iso_whole_second [OF at(1) friday_dates(1) at(2)])
      (simp add: digit_text fixed_digits del: fixed.simps)
  show "iso_text last_friday = ''2026-09-18T09:00:00+00:00''"
    unfolding last_friday_def by (subst iso_whole_second [OF at(3) friday_dates(2) at(4)])
      (simp add: digit_text fixed_digits del: fixed.simps)
qed

lemma sample_planner_ok: "keys_ok (pl_world sample_planner)" "''new-9'' \<notin> turn_id ` set (turns (pl_world sample_planner))"
  "nobody_rides ''new-9'' (pl_world sample_planner)" "\<not> owned fridays s"
  by (simp_all add: keys_ok_def sample_planner_def old_run_def plain_turn_def nobody_rides_def owned_def fridays_def)

lemma sample_right: "trigger_refusal team_org \<lparr> al_id = 7, al_slug = ''eva'', al_name = ''Eva'', al_workspace = ''acme'', al_owner = Some 2, al_user = None \<rparr> sample_schedule = None"
  by code_simp

lemma sample_may_fire: "may_fire fridays sample_schedule this_friday sample_planner"
  and sample_unused: "keyed_slot sample_schedule this_friday (pl_world sample_planner) = None"
proof -
  have ag: "tbl_get al_slug ''eva'' (og_agents team_org)
      = Some \<lparr> al_id = 7, al_slug = ''eva'', al_name = ''Eva'', al_workspace = ''acme'', al_owner = Some 2, al_user = None \<rparr>"
    by (simp add: team_org_def)
  have row: "tbl_get ag_slug ''eva'' (agent_rows (pl_world sample_planner)) = Some \<lparr> ag_slug = ''eva'', ag_workspace = ''acme'', ag_held = False, ag_clis = [] \<rparr>"
    by (simp add: sample_planner_def sample_turns_def)
  have err: "ask_error (pl_world sample_planner) (slot_ask sample_schedule this_friday (pl_world sample_planner)) = None"
    by (simp add: slot_ask_def schedule_ask_def sample_schedule_def row ask_error_def origin_alias_def LEGACY_ORIGIN_ALIASES_def
        ORIGINS_def ORIGIN_CHOICES_def target_count_def is_job_def content_deleted_def)
  show "may_fire fridays sample_schedule this_friday sample_planner"
    using ag sample_right err by (simp add: may_fire_def sample_planner_def sample_schedule_def)
  have "slot_key 5 this_friday \<noteq> slot_key 5 last_friday" by (simp add: slot_key_def iso_friday)
  then show "keyed_slot sample_schedule this_friday (pl_world sample_planner) = None"
    by (simp add: keyed_def sample_planner_def old_run_def sample_schedule_def)
qed

lemma sample_fire:
  obtains p' where "fire_schedule fridays sample_schedule this_friday ''new-9'' (seconds 1790326860) sample_planner = (Inr (Some ''new-9'', True), p')"
  by (rule fire_made [OF sample_planner_ok(1,2,4) sample_may_fire sample_unused]) blast

lemma a_slot_fires_once_witness:
  "\<exists>p'. fire_schedule fridays sample_schedule this_friday ''new-9'' (seconds 1790326860) sample_planner = (Inr (Some ''new-9'', True), p')
     \<and> map turn_id (turns (pl_world p')) = [''old-1'', ''new-9'']
     \<and> pl_queue (snd (fire_schedule fridays sample_schedule this_friday ''new-10'' (seconds 1790326920) p')) = pl_queue p'"
proof -
  obtain p' where f: "fire_schedule fridays sample_schedule this_friday ''new-9'' (seconds 1790326860) sample_planner = (Inr (Some ''new-9'', True), p')"
    by (rule sample_fire)
  have old: "map turn_id (turns (pl_world sample_planner)) = [''old-1'']" by (simp add: sample_planner_def old_run_def plain_turn_def)
  note once = a_slot_fires_once [OF sample_planner_ok(1,2,4) f, THEN conjunct2]
  have "map turn_id (turns (pl_world p')) = [''old-1'', ''new-9'']" using once [THEN conjunct1] old by simp
  moreover have "pl_queue (snd (fire_schedule fridays sample_schedule this_friday ''new-10'' (seconds 1790326920) p')) = pl_queue p'"
    by (rule once [THEN conjunct2, THEN conjunct2, THEN conjunct1, rule_format, OF rtranclp.rtrancl_refl refl refl sample_planner_ok(4), THEN conjunct1])
  ultimately show ?thesis using f by (intro exI [of _ p'] conjI)
qed

definition job_schedule :: schedule where
  "job_schedule = sample_schedule\<lparr>sc_created_by := None, sc_job := ''sync'', sc_job_repo := ''ops'', sc_prompt := ''''\<rparr>"

definition busy_planner :: "unit planner" where
  "busy_planner = sample_planner\<lparr>pl_queue := sample_admission\<lparr>world := sample_turns\<lparr>turns := [old_run\<lparr>status := Running, claimed_at := Some 0\<rparr>]\<rparr>, adm_rules := []\<rparr>,
     pl_schedules := [job_schedule]\<rparr>"

lemma busy_planner_ok: "keys_ok (pl_world busy_planner)" "''new-9'' \<notin> turn_id ` set (turns (pl_world busy_planner))"
  "nobody_rides ''new-9'' (pl_world busy_planner)" "job_running job_schedule (pl_world busy_planner)"
  by (simp_all add: keys_ok_def busy_planner_def sample_planner_def old_run_def plain_turn_def nobody_rides_def job_running_def job_schedule_def
      occurrence_def ref_schedule_def slot_ref_def sample_schedule_def EXECUTING_def)

lemma busy_fire:
  obtains p' where "fire_schedule fridays job_schedule this_friday ''new-9'' (seconds 1790326860) busy_planner = (Inr (Some ''new-9'', True), p')"
proof -
  have ag: "tbl_get al_slug ''eva'' (og_agents team_org)
      = Some \<lparr> al_id = 7, al_slug = ''eva'', al_name = ''Eva'', al_workspace = ''acme'', al_owner = Some 2, al_user = None \<rparr>"
    by (simp add: team_org_def)
  have row: "tbl_get ag_slug ''eva'' (agent_rows (pl_world busy_planner)) = Some \<lparr> ag_slug = ''eva'', ag_workspace = ''acme'', ag_held = False, ag_clis = [] \<rparr>"
    by (simp add: busy_planner_def sample_turns_def)
  have err: "ask_error (pl_world busy_planner) (slot_ask job_schedule this_friday (pl_world busy_planner)) = None"
    by (simp add: slot_ask_def schedule_ask_def job_schedule_def sample_schedule_def row ask_error_def origin_alias_def LEGACY_ORIGIN_ALIASES_def
        ORIGINS_def ORIGIN_CHOICES_def target_count_def is_job_def content_deleted_def)
  have "may_fire fridays job_schedule this_friday busy_planner"
    using ag err by (simp add: may_fire_def busy_planner_def sample_planner_def job_schedule_def sample_schedule_def trigger_refusal_def)
  moreover have "slot_key 5 this_friday \<noteq> slot_key 5 last_friday" by (simp add: slot_key_def iso_friday)
  then have "keyed_slot job_schedule this_friday (pl_world busy_planner) = None"
    by (simp add: keyed_def busy_planner_def old_run_def sample_schedule_def job_schedule_def)
  ultimately show thesis using fire_made [OF busy_planner_ok(1,2) sample_planner_ok(4)] that by metis
qed

lemma a_new_slot_retires_the_open_ones_witness:
  "status_of (pl_world (snd (fire_schedule fridays sample_schedule this_friday ''new-9'' (seconds 1790326860) sample_planner))) ''old-1'' = Some Missed
   \<and> status_of (pl_world (snd (fire_schedule fridays job_schedule this_friday ''new-9'' (seconds 1790326860) busy_planner))) ''old-1'' = Some Running"
proof
  obtain p' where f: "fire_schedule fridays sample_schedule this_friday ''new-9'' (seconds 1790326860) sample_planner = (Inr (Some ''new-9'', True), p')"
    by (rule sample_fire)
  have idle: "\<not> job_running sample_schedule (pl_world sample_planner)" by (simp add: job_running_def sample_schedule_def)
  note newest = a_new_slot_retires_the_open_ones [OF sample_planner_ok(1,2,3,4) f, unfolded if_not_P [OF idle]]
  have "old_run \<in> set (turns (pl_world sample_planner))" "occurrence sample_schedule old_run" "status old_run \<in> set NON_TERMINAL" "turn_id old_run = ''old-1''"
    by (simp_all add: sample_planner_def old_run_def plain_turn_def occurrence_def ref_schedule_def slot_ref_def sample_schedule_def NON_TERMINAL_def)
  then show "status_of (pl_world (snd (fire_schedule fridays sample_schedule this_friday ''new-9'' (seconds 1790326860) sample_planner))) ''old-1'' = Some Missed"
    using newest f by (metis snd_conv)
next
  obtain p' where f: "fire_schedule fridays job_schedule this_friday ''new-9'' (seconds 1790326860) busy_planner = (Inr (Some ''new-9'', True), p')"
    by (rule busy_fire)
  let ?t = "old_run\<lparr>status := Running, claimed_at := Some 0\<rparr>"
  note spared = a_new_slot_retires_the_open_ones [OF busy_planner_ok(1,2,3) sample_planner_ok(4) f, unfolded if_P [OF busy_planner_ok(4)]]
  have "?t \<in> set (turns (pl_world busy_planner))" "status ?t \<in> set EXECUTING" "rides_turn ?t = None" "turn_id ?t = ''old-1''"
    by (simp_all add: busy_planner_def old_run_def plain_turn_def EXECUTING_def)
  then have "get_turn (pl_world p') ''old-1'' = Some ?t" using spared by metis
  then show "status_of (pl_world (snd (fire_schedule fridays job_schedule this_friday ''new-9'' (seconds 1790326860) busy_planner))) ''old-1'' = Some Running"
    using f by simp
qed

lemma a_trigger_fires_by_its_creators_right_witness:
  "fst (fire_schedule fridays (sample_schedule\<lparr>sc_created_by := Some 2\<rparr>) this_friday ''new-9'' 0
      (sample_planner\<lparr>pl_schedules := [sample_schedule\<lparr>sc_created_by := Some 2\<rparr>]\<rparr>))
   = Inl (Stopped ''bob@x.org, who set it up, is no longer a member of acme'')"
proof -
  let ?s = "sample_schedule\<lparr>sc_created_by := Some 2\<rparr>" and ?p = "sample_planner\<lparr>pl_schedules := [sample_schedule\<lparr>sc_created_by := Some 2\<rparr>]\<rparr>"
  let ?ag = "\<lparr> al_id = 7, al_slug = ''eva'', al_name = ''Eva'', al_workspace = ''acme'', al_owner = Some 2, al_user = None \<rparr>"
  have "trigger_refusal team_org ?ag ?s = Some ''bob@x.org, who set it up, is no longer a member of acme''" by code_simp
  then have r: "trigger_refusal (pl_org ?p) ?ag ?s = Some ''bob@x.org, who set it up, is no longer a member of acme''" by (simp add: sample_planner_def)
  have "tbl_get al_slug (sc_agent ?s) (og_agents (pl_org ?p)) = Some ?ag" "?s \<in> set (pl_schedules ?p)" "later_slot this_friday ?s"
    by (simp_all add: sample_planner_def sample_schedule_def team_org_def later_slot_def)
  from a_trigger_fires_by_its_creators_right [OF this prod.collapse [symmetric]] show ?thesis using r by blast
qed

end
