(* ===== verification/Spec2Isabelle.thy ===== *)
theory Spec2Isabelle
  imports Canopy_Prelude Role_Sets Workspace_Tree Workspace_Roles Workspace_Members Workspace_Invites Turn_Tables Turn_Ledger Turn_Close Turn_Finish Admission Turn_Frames Turn_Queue Agent_Tasks Runner_Fleet Runner_Routing Turn_Claim Fleet_Steps Approvals Approval_Kinds Iso_Time Schedules
begin

text \<open>
  The core of canopy-web: who may do what in a workspace, and how a request to an agent becomes a
  turn, waits in a queue, is refused or claimed by a machine, runs, and ends.  The program is a
  Django application; a table is a list of rows, a guarded queryset update is \<open>tbl_update\<close>, an
  operation takes the tables and returns them updated, a fallible one returns \<open>Inl\<close> its error or
  \<open>Inr\<close> its value, and a transaction is one step.  Times are integers in microseconds, identifiers
  are the database's, texts are ASCII.

  \<^bold>\<open>Parts and their theories.\<close>

  \<^item> \<open>Canopy_Prelude\<close>: results, transactions, tables, first-of-equals minimum and maximum, the
    string functions of Python the code calls.
  \<^item> \<open>Role_Sets\<close> (\<open>apps/common/rolesets.py\<close>): the engine from a table of roles to permission sets.
  \<^item> \<open>Workspace_Tree\<close>, \<open>Workspace_Roles\<close>, \<open>Workspace_Members\<close>, \<open>Workspace_Invites\<close>
    (\<open>apps/workspaces\<close>: \<open>models.py\<close>, \<open>permissions.py\<close>, \<open>role_cap.py\<close>, \<open>services.py\<close>,
    \<open>departure.py\<close>, \<open>invites.py\<close>, \<open>access_requests.py\<close>): the tree, the roles, membership with
    inheritance and its listings and scopes, invitations and access requests.
  \<^item> \<open>Turn_Tables\<close> (\<open>apps/harness/models/turn.py\<close>, \<open>runner_requirements.py\<close>, \<open>sensitivity.py\<close>): the
    rows of the queue and what a conversation requires of the machine it runs on.
  \<^item> \<open>Turn_Ledger\<close> (\<open>apps/harness/ledger.py\<close>): the event ledger and the transcript.
  \<^item> \<open>Turn_Close\<close>, \<open>Turn_Finish\<close> (\<open>turn_close.py\<close>, \<open>claim.py\<close>, \<open>turn_abort.py\<close>,
    \<open>turn_agent_tokens.py\<close>, \<open>services.py\<close>, all under \<open>apps/harness\<close>): every way a turn ends, goes
    back to the queue or is stopped.
  \<^item> \<open>Admission\<close> (\<open>apps/admission\<close>): the rules that refuse a turn, at each of the points they are
    asked, and the form the rules are edited through.
  \<^item> \<open>Turn_Queue\<close> (\<open>services.enqueue_turn\<close>): validation, idempotency, the new row.
  \<^item> \<open>Agent_Tasks\<close> (\<open>apps/agent_tasks\<close>): tasks given to agents, their deadlines, nudges and routes.
  \<^item> \<open>Runner_Fleet\<close>, \<open>Runner_Routing\<close> (\<open>apps/harness/models/runner.py\<close>, \<open>clis.py\<close>,
    \<open>routing_machine.py\<close>, \<open>routing_orders.py\<close>, \<open>routing_projects.py\<close>, \<open>actors.py\<close>,
    \<open>apps/agents/holding.py\<close>): machines, their pauses and heartbeats, the agent CLIs, and which
    machine a turn goes to.
  \<^item> \<open>Turn_Claim\<close> (\<open>apps/harness/claim.py\<close>): one claim, from the poll to the claimed row.
  \<^item> \<open>Fleet_Steps\<close>: queue and machines as one step relation.
  \<^item> \<open>Approvals\<close>, \<open>Approval_Kinds\<close> (\<open>apps/approvals\<close>: \<open>services.py\<close>, \<open>authority.py\<close>, \<open>delivery.py\<close>,
    \<open>kinds\<close>, \<open>api.py\<close>, \<open>alerts_approval.py\<close>): requests for a person's yes or no, from the filing to the
    handler that runs as the approver, and the kinds that change who belongs where.
  \<^item> \<open>Iso_Time\<close>: times as the texts \<open>isoformat\<close> writes, which slots' keys are made of.
  \<^item> \<open>Schedules\<close> (\<open>apps/harness\<close>: \<open>models/schedule.py\<close>, \<open>triggers.py\<close>, \<open>schedule_turns.py\<close>,
    \<open>schedule_hooks.py\<close>, \<open>schedule_clock.py\<close>; \<open>packages/canopy_cron\<close>): triggers, whose right they fire
    by, the fire of a slot, run now, releasing and skipping what is late, and the clock.

  \<^bold>\<open>How they interact.\<close>  \<open>enqueue_turn\<close> writes a row and asks the admission rules; a machine's
  \<open>claim_next_turn\<close> filters the queue by its tenant (workspaces, through the tree and the roles of
  its owner), the routing rules, the lane of the conversation and what the turn requires, asks the
  admission rules again and moves the row; \<open>heartbeat\<close> renews its lease; \<open>finish_turn\<close>,
  \<open>cancel_turn\<close>, the lease sweep and aborts end it through \<open>close_turn\<close>, which writes the ledger and
  ends the follow-ups that rode in it.  An agent task opens a turn through the same queue and is told
  when it ends.  The clock fires a slot: \<open>fire_schedule\<close> ends the schedule's open turns through
  \<open>finish_turn\<close> and enqueues one of its own.  An approved request runs the members routes' own services (\<open>add_tree_member\<close>,
  \<open>set_member_role\<close>, \<open>create_invite\<close>) inside a savepoint.

  \<^bold>\<open>Interfaces.\<close>  The locale \<open>turn_frame\<close> (\<open>Turn_Frames\<close>) states what a relation between a row
  and its successor has to satisfy for every ending of a turn to keep it; \<open>turn_ops_frame\<close> adds what
  running, finishing and going back to the queue need, \<open>turn_insert_frame\<close> (\<open>Turn_Queue\<close>) what
  enqueueing needs.  They are interpreted with the identity of rows (\<open>rows\<close>, for idempotency, and
  \<open>owed\<close>, for slots), with
  the rows a claim passes over (\<open>passing\<close>), and with the lane of a conversation (\<open>lanes\<close>,
  \<open>arrivals\<close>).  \<open>lifecycle\<close> (\<open>Canopy_Prelude\<close>) is what a row that ends promises, interpreted for
  tasks and approval requests; \<open>keeping_kinds\<close> (\<open>Approvals\<close>) is what the desk asks of the handlers it
  runs, interpreted with the registered kinds (\<open>approvals\<close>).

  \<^bold>\<open>What the lemmas show.\<close>  Of membership: the member list, the role listings and the permission
  gates agree, no workspace loses its last owner, scopes stay within one tree, departures are swept
  once.  Of turns: the ledger is append-only and a sensitive one keeps metadata only, transcripts read
  back line for line and stay bounded, sweeps end exactly the lapsed turns, retries end, stops always
  answer, and every interleaving refines an abstract status board.  Of admission: the decision is the
  best match whatever the order of the table, and what is refused on early facts every claim would
  refuse too, unless the rule was about where the turn stood with the machines.  Of tasks: the first answer stands and no task outlives its deadline.  Of
  machines: the ladder of rules is its reference list, the best available machine takes the work, a
  machine works exactly where its owner may, a claimed turn fits its machine, one turn at a time holds
  the lane of a conversation over every interleaving, what \<open>blocking_turn\<close> says is waiting is not
  claimed, a parked machine gets nothing.  Of schedules: a slot makes one turn however often it is
  reported, a new slot ends the open ones and spares a running job.  Of approvals: a
  request is decided once and its audit trail tells how, nothing runs without the authority its kind
  asks for, nobody gains more than the approver may give, what is filed can be decided, no copy goes
  out twice.

  \<^bold>\<open>Bounds and fuel.\<close>  Walks up and down the workspace tree take \<open>MAX_DEPTH\<close> (8) steps, as the code
  does.  The walk of a turn's requirements visits at most \<open>MAX_ANCESTORS + 1\<close> (26) rows and then
  answers with a requirement no machine meets, as the code does.  \<open>cancel_walk\<close> follows \<open>rides_turn\<close>
  with fuel one more than the number of turns; where a rider rides no rider it returns
  (\<open>stop_cancels_or_asks\<close>).  The long poll has fuel \<open>MAX_WAIT_S + 1\<close> (21), one more than its
  polls (\<open>the_poll_returns\<close>).  The closure of role sets terminates by a measure.

  \<^bold>\<open>Parameters\<close>, for code that is not in the repository or is another part's: the size-and-hash of a
  redacted payload and the link check (\<open>redactor\<close>), the rendering of times (\<open>stamp\<close>), the profile the
  access rules give a turn (\<open>gates\<close>, \<open>claim_context\<close>), reachability (\<open>reach_api\<close>), JSON Schema
  (\<open>task_env\<close>), agent and machine administration and mail addresses (\<open>route_env\<close>), the turn mode and
  the time of an event (\<open>claim_env\<close>), what the channels answer (\<open>courier\<close>), pydantic's validation and
  dump of a kind's params, display names, tokens and the outcome of mailing an invite (\<open>kind_env\<close>),
  croniter's fire times in a time zone and the announcer of project check-ins (\<open>clockwork\<close>).

  \<^bold>\<open>Not modelled.\<close>  Mail, Slack, push and realtime delivery, OAuth, passkeys and vaults (third-party
  services and cryptography); the programs on the machines (\<open>runner/\<close>: processes and files); HTTP
  routing, rendering and settings; overlapping deliveries of one notice (a delivery is one step); content rows edited through forms; the frontend; log lines and
  metrics.  Left for later: the forms schedules are edited through and mail triggers, the approval kind that starts an agent's turns, turn mode, transfers of a
  conversation between machines, and the explanations of \<open>claim_reach\<close>.

  The theorems that are not about one part stand with the last part they need; this theory only joins
  them.
\<close>

end
